(* ===== verification/Distqueue_Prelude.thy ===== *)
theory Distqueue_Prelude
  imports Main "HOL-Library.Multiset" "HOL-Library.AList" "HOL-Library.Word"
begin

text \<open>
  Shared vocabulary of the development: the Go types that every component uses, Go maps as
  association lists, and the generic list lemmas the component proofs rest on.

  \<^item> A Go \<^verbatim>\<open>map[K]V\<close> is an association list with distinct keys. Lookup is \<^const>\<open>map_of\<close>,
    assignment is \<^const>\<open>AList.update\<close>, \<^verbatim>\<open>delete\<close> is \<^const>\<open>AList.delete\<close> and \<^verbatim>\<open>len\<close> is
    \<^const>\<open>length\<close>. The order of the list stands for the iteration order, which Go leaves open:
    every operation that ranges over a map takes the order as an argument (\<open>map_order\<close>).
  \<^item> A \<^verbatim>\<open>time.Time\<close> is the number of nanoseconds since the zero time of Go, so \<^verbatim>\<open>IsZero\<close> is
    equality with 0, \<^verbatim>\<open>Before\<close> and \<^verbatim>\<open>After\<close> are the orders of \<^typ>\<open>int\<close> and \<^verbatim>\<open>Add\<close> is addition.
  \<^item> A \<^verbatim>\<open>byte\<close> is an 8-bit word; a Go \<^verbatim>\<open>string\<close> is a list of bytes, here of \<^typ>\<open>char\<close>.
\<close>

type_synonym byte = "8 word"
type_synonym time = int
type_synonym duration = int

named_theorems go_map \<open>laws of Go maps as association lists\<close>

section \<open>Go maps\<close>

definition go_map :: "('k \<times> 'v) list \<Rightarrow> bool" where
  "go_map m \<longleftrightarrow> distinct (map fst m)"

text \<open>The order in which one \<^verbatim>\<open>range\<close> over a map visits the entries: some rearrangement.\<close>

definition map_order :: "(('k \<times> 'v) list \<Rightarrow> ('k \<times> 'v) list) \<Rightarrow> bool" where
  "map_order ord \<longleftrightarrow> (\<forall>m. mset (ord m) = mset m)"

lemma map_order_id [simp]: "map_order (\<lambda>m. m)"
  by (simp add: map_order_def)

lemma map_order_rev: "map_order rev"
  by (simp add: map_order_def)

lemma map_order_set: "map_order ord \<Longrightarrow> set (ord m) = set m"
  by (metis map_order_def mset_eq_setD)

lemma map_order_mset: "map_order ord \<Longrightarrow> mset (ord m) = mset m"
  by (simp add: map_order_def)

lemma map_order_length: "map_order ord \<Longrightarrow> length (ord m) = length m"
  by (metis map_order_def mset_eq_length)

lemma map_order_go_map: "map_order ord \<Longrightarrow> go_map m \<Longrightarrow> go_map (ord m)"
  by (metis go_map_def map_order_mset mset_eq_imp_distinct_iff mset_map)

lemma go_map_Nil [simp, intro]: "go_map []"
  by (simp add: go_map_def)

lemma go_map_update [go_map, simp, intro]: "go_map m \<Longrightarrow> go_map (AList.update k v m)"
  by (simp add: go_map_def distinct_update)

lemma go_map_delete [go_map, simp, intro]: "go_map m \<Longrightarrow> go_map (AList.delete k m)"
  by (simp add: go_map_def distinct_delete)

lemma map_of_update [go_map, simp]:
  "map_of (AList.update k v m) = (map_of m)(k \<mapsto> v)"
  by (simp add: update_conv')

lemma map_of_delete [go_map, simp]:
  "map_of (AList.delete k m) = (map_of m)(k := None)"
  by (simp add: delete_conv')

lemma map_of_eq_Some_iff_set: "go_map m \<Longrightarrow> (map_of m k = Some v) = ((k, v) \<in> set m)"
  by (simp add: go_map_def)

lemma go_map_filter: "go_map m \<Longrightarrow> go_map (filter P m)"
  by (induction m) (auto simp: go_map_def)

lemma update_fresh: "map_of m k = None \<Longrightarrow> AList.update k v m = m @ [(k, v)]"
  by (induction m) (auto split: if_splits)

lemma mset_delete_present:
  "go_map m \<Longrightarrow> map_of m k = Some v \<Longrightarrow> add_mset (k, v) (mset (AList.delete k m)) = mset m"
proof (induction m)
  case Nil
  then show ?case by simp
next
  case (Cons p m)
  show ?case
  proof (cases "fst p = k")
    case True
    with Cons.prems have "k \<notin> fst ` set m" by (auto simp: go_map_def)
    then have "AList.delete k m = m" by (simp add: delete_id)
    with True Cons.prems show ?thesis by (cases p) (auto simp: AList.delete_eq)
  next
    case False
    with Cons have "add_mset (k, v) (mset (AList.delete k m)) = mset m"
      by (cases p) (auto simp: go_map_def)
    with False show ?thesis by (cases p) (auto simp: AList.delete_eq)
  qed
qed

lemma length_delete_present:
  "go_map m \<Longrightarrow> map_of m k = Some v \<Longrightarrow> Suc (length (AList.delete k m)) = length m"
  using mset_delete_present [of m k v] by (metis size_add_mset size_mset)

section \<open>Fixed widths\<close>

text \<open>Two's complement: what the conversion of an integer to 32 or 64 bits and back makes of it.\<close>

definition wrap32 :: "int \<Rightarrow> int" where
  "wrap32 x = (x + 2 ^ 31) mod 2 ^ 32 - 2 ^ 31"

definition wrap64 :: "int \<Rightarrow> int" where
  "wrap64 x = (x + 2 ^ 63) mod 2 ^ 64 - 2 ^ 63"

definition fits64 :: "int \<Rightarrow> bool" where
  "fits64 x \<longleftrightarrow> - (2 ^ 63) \<le> x \<and> x < 2 ^ 63"

lemma sint_word32: "sint (word_of_int x :: 32 word) = wrap32 x"
  by (simp add: sint_sbintrunc' wrap32_def signed_take_bit_eq_take_bit_shift take_bit_eq_mod)

lemma sint_word64: "sint (word_of_int x :: 64 word) = wrap64 x"
  by (simp add: sint_sbintrunc' wrap64_def signed_take_bit_eq_take_bit_shift take_bit_eq_mod)

lemma wrap32_bounds: "- (2 ^ 31) \<le> wrap32 x" "wrap32 x < 2 ^ 31"
  using pos_mod_bound [of "2 ^ 32 :: int" "x + 2 ^ 31"] pos_mod_sign [of "2 ^ 32 :: int" "x + 2 ^ 31"]
  by (auto simp: wrap32_def)

lemma wrap32_id_iff: "wrap32 x = x \<longleftrightarrow> - (2 ^ 31) \<le> x \<and> x < 2 ^ 31"
proof
  show "wrap32 x = x \<Longrightarrow> - (2 ^ 31) \<le> x \<and> x < 2 ^ 31"
    using wrap32_bounds [of x] by simp
  show "- (2 ^ 31) \<le> x \<and> x < 2 ^ 31 \<Longrightarrow> wrap32 x = x"
    by (simp add: wrap32_def mod_pos_pos_trivial)
qed

lemma wrap32_sint [simp]: "wrap32 (sint (w :: 32 word)) = sint w"
  using sint_range_size [of w] by (simp add: wrap32_id_iff word_size)

lemma wrap64_id [simp]: "fits64 x \<Longrightarrow> wrap64 x = x"
  by (simp add: wrap64_def fits64_def mod_pos_pos_trivial)

section \<open>Lists\<close>

lemma mset_swap_update:
  "i < length xs \<Longrightarrow> j < length xs \<Longrightarrow> mset (xs[i := xs ! j, j := xs ! i]) = mset xs"
  by (rule mset_swap)

lemma sorted_key_unique:
  fixes f :: "'a \<Rightarrow> 'b :: linorder"
  assumes "sorted (map f xs)" "sorted (map f ys)" "mset xs = mset ys" "inj_on f (set xs)"
  shows "xs = ys"
proof -
  have "mset (map f xs) = mset (map f ys)" using assms(3) by simp
  then have "map f xs = map f ys"
    using assms(1,2) by (metis properties_for_sort)
  moreover have "set ys = set xs" using assms(3) by (metis mset_eq_setD)
  ultimately show ?thesis using assms(4) by (simp add: map_inj_on)
qed

lemma fst_set_mset_eq: "mset xs = mset ys \<Longrightarrow> fst ` set xs = fst ` set ys"
  by (metis mset_eq_setD)

lemma take_drop_append_exact: "length xs = n \<Longrightarrow> take n (xs @ ys) = xs \<and> drop n (xs @ ys) = ys"
  by auto

end
