(* ===== verification/Task_Model.thy ===== *)
theory Task_Model
  imports Distqueue_Prelude
begin

text \<open>
  The unit of work, \<^verbatim>\<open>src/broker/task.go\<close>: the lifecycle states and the \<^verbatim>\<open>Task\<close> struct, and the
  part of a task that the log and the replicas agree on (\<open>task_core\<close>: everything but the
  delivery status and the deadline).
\<close>

section \<open>Source types\<close>

datatype TaskStatus = Pending | InFlight | Done | Dead

fun TaskStatus_String :: "TaskStatus \<Rightarrow> string" where
  "TaskStatus_String Pending = ''PENDING''"
| "TaskStatus_String InFlight = ''IN_FLIGHT''"
| "TaskStatus_String Done = ''DONE''"
| "TaskStatus_String Dead = ''DEAD''"

record Task =
  ID :: string
  Payload :: "byte list"
  Priority :: int
  Status :: TaskStatus
  RetryCount :: int
  CreatedAt :: time
  Deadline :: time

text \<open>\<^verbatim>\<open>Clone\<close>: a copy with its own payload buffer, appended to an empty one.\<close>

definition Clone :: "Task \<Rightarrow> Task" where
  "Clone t = t\<lparr>Payload := [] @ Payload t\<rparr>"

lemma Clone_eq [simp]: "Clone t = t"
  by (simp add: Clone_def)

section \<open>The core of a task\<close>

text \<open>
  Delivery status and deadline are set again on every delivery and never logged; \<open>task_core\<close>
  forgets them.
\<close>

definition task_core :: "Task \<Rightarrow> Task" where
  "task_core t = t\<lparr>Status := Pending, Deadline := 0\<rparr>"

lemma task_core_simps [simp]:
  "ID (task_core t) = ID t" "Payload (task_core t) = Payload t"
  "Priority (task_core t) = Priority t" "RetryCount (task_core t) = RetryCount t"
  "CreatedAt (task_core t) = CreatedAt t" "Status (task_core t) = Pending"
  "Deadline (task_core t) = 0"
  by (simp_all add: task_core_def)

lemma task_core_Status [simp]: "task_core (t\<lparr>Status := s\<rparr>) = task_core t"
  by (simp add: task_core_def)

lemma task_core_Deadline [simp]: "task_core (t\<lparr>Deadline := d\<rparr>) = task_core t"
  by (simp add: task_core_def)

lemma task_core_idem [simp]: "task_core (task_core t) = task_core t"
  by (simp add: task_core_def)

lemma task_core_RetryCount:
  "task_core (t\<lparr>RetryCount := n\<rparr>) = (task_core t)\<lparr>RetryCount := n\<rparr>"
  by (simp add: task_core_def)

lemma task_core_eqD: "task_core s = task_core t \<Longrightarrow> ID s = ID t \<and> RetryCount s = RetryCount t"
  by (metis task_core_simps(1,4))

end
