(* ===== verification/Go_Container_Heap.thy ===== *)
theory Go_Container_Heap
  imports Distqueue_Prelude
begin

text \<open>
  Go's \<^verbatim>\<open>container/heap\<close>, the part of the standard library under the priority queue: \<^verbatim>\<open>up\<close>,
  \<^verbatim>\<open>down\<close>, \<^verbatim>\<open>Init\<close>, \<^verbatim>\<open>Push\<close> and \<^verbatim>\<open>Pop\<close> on a list, over any \<^verbatim>\<open>Less\<close>. The locale
  \<open>strict_weak_order\<close> states what \<^verbatim>\<open>heap.Interface\<close> asks of \<^verbatim>\<open>Less\<close>; inside it the operations
  are proved to keep the heap order and the multiset of elements, and \<^verbatim>\<open>Pop\<close> to return a
  minimal element.
\<close>

section \<open>Operations\<close>

definition heap_swap :: "'a list \<Rightarrow> nat \<Rightarrow> nat \<Rightarrow> 'a list" where
  "heap_swap h i j = h[i := h ! j, j := h ! i]"

text \<open>\<^verbatim>\<open>(j - 1) / 2\<close>: for \<open>j = 0\<close> both Go's truncating division and \<^typ>\<open>nat\<close> give 0.\<close>

definition heap_parent :: "nat \<Rightarrow> nat" where
  "heap_parent j = (j - 1) div 2"

function heap_up :: "('a \<Rightarrow> 'a \<Rightarrow> bool) \<Rightarrow> 'a list \<Rightarrow> nat \<Rightarrow> 'a list" where
  "heap_up lt h j =
     (let i = heap_parent j in
      if i = j \<or> \<not> lt (h ! j) (h ! i) then h else heap_up lt (heap_swap h i j) i)"
  by pat_completeness auto
termination
  by (relation "measure (\<lambda>(lt, h, j). j)") (auto simp: heap_parent_def)

definition heap_child :: "('a \<Rightarrow> 'a \<Rightarrow> bool) \<Rightarrow> 'a list \<Rightarrow> nat \<Rightarrow> nat \<Rightarrow> nat" where
  "heap_child lt h i n =
     (let j1 = 2 * i + 1; j2 = j1 + 1 in if j2 < n \<and> lt (h ! j2) (h ! j1) then j2 else j1)"

function heap_down :: "('a \<Rightarrow> 'a \<Rightarrow> bool) \<Rightarrow> 'a list \<Rightarrow> nat \<Rightarrow> nat \<Rightarrow> 'a list" where
  "heap_down lt h i n =
     (if 2 * i + 1 \<ge> n then h
      else let j = heap_child lt h i n in
        if \<not> lt (h ! j) (h ! i) then h else heap_down lt (heap_swap h i j) j n)"
  by pat_completeness auto
termination
  by (relation "measure (\<lambda>(lt, h, i, n). n - i)") (auto simp: heap_child_def Let_def)

declare heap_up.simps [simp del] heap_down.simps [simp del]

text \<open>\<^verbatim>\<open>heap.Init\<close>: sift down every inner node, from the last one to the root.\<close>

fun heap_init_from :: "('a \<Rightarrow> 'a \<Rightarrow> bool) \<Rightarrow> 'a list \<Rightarrow> nat \<Rightarrow> 'a list" where
  "heap_init_from lt h 0 = h"
| "heap_init_from lt h (Suc i) = heap_init_from lt (heap_down lt h i (length h)) i"

definition heap_init :: "('a \<Rightarrow> 'a \<Rightarrow> bool) \<Rightarrow> 'a list \<Rightarrow> 'a list" where
  "heap_init lt h = heap_init_from lt h (length h div 2)"

definition heap_push :: "('a \<Rightarrow> 'a \<Rightarrow> bool) \<Rightarrow> 'a list \<Rightarrow> 'a \<Rightarrow> 'a list" where
  "heap_push lt h x = heap_up lt (h @ [x]) (length h)"

text \<open>\<^verbatim>\<open>heap.Pop\<close> on a non-empty heap: swap the root to the end, sift down, cut the end off.\<close>

definition heap_pop :: "('a \<Rightarrow> 'a \<Rightarrow> bool) \<Rightarrow> 'a list \<Rightarrow> 'a \<times> 'a list" where
  "heap_pop lt h =
     (let n = length h - 1;
          h' = heap_down lt (heap_swap h 0 n) 0 n
      in (h' ! n, take n h'))"

section \<open>Shape lemmas\<close>

lemma heap_parent_less: "0 < j \<Longrightarrow> heap_parent j < j"
  by (simp add: heap_parent_def)

lemma heap_parent_le: "heap_parent j \<le> j"
  by (simp add: heap_parent_def)

lemma heap_parent_0 [simp]: "heap_parent 0 = 0"
  by (simp add: heap_parent_def)

lemma heap_parent_eq_iff: "0 < k \<Longrightarrow> (heap_parent k = i) = (k = 2 * i + 1 \<or> k = 2 * i + 2)"
  by (auto simp: heap_parent_def)

lemma length_heap_swap [simp]: "length (heap_swap h i j) = length h"
  by (simp add: heap_swap_def)

lemma mset_heap_swap [simp]:
  "i < length h \<Longrightarrow> j < length h \<Longrightarrow> mset (heap_swap h i j) = mset h"
  unfolding heap_swap_def by (rule mset_swap)

lemma nth_heap_swap:
  "i < length h \<Longrightarrow> j < length h \<Longrightarrow> k < length h \<Longrightarrow>
   heap_swap h i j ! k = (if k = j then h ! i else if k = i then h ! j else h ! k)"
  by (auto simp: heap_swap_def nth_list_update)

lemma heap_child_cases: "heap_child lt h i n = 2 * i + 1 \<or> heap_child lt h i n = 2 * i + 2"
  by (simp add: heap_child_def Let_def)

lemma heap_child_lt: "2 * i + 1 < n \<Longrightarrow> heap_child lt h i n < n"
  by (simp add: heap_child_def Let_def)

lemma heap_child_gt: "i < heap_child lt h i n"
  using heap_child_cases [of lt h i n] by auto

lemma length_heap_up [simp]: "length (heap_up lt h j) = length h"
proof (induction lt h j rule: heap_up.induct)
  case (1 lt h j)
  then show ?case by (subst heap_up.simps) (auto simp: Let_def)
qed

lemma mset_heap_up: "j < length h \<Longrightarrow> mset (heap_up lt h j) = mset h"
proof (induction lt h j rule: heap_up.induct)
  case (1 lt h j)
  have "heap_parent j < length h" using "1.prems" by (simp add: heap_parent_def)
  with 1 show ?case by (subst heap_up.simps) (auto simp: Let_def)
qed

lemma length_heap_down [simp]: "length (heap_down lt h i n) = length h"
proof (induction lt h i n rule: heap_down.induct)
  case (1 lt h i n)
  then show ?case by (subst heap_down.simps) (auto simp: Let_def)
qed

lemma mset_heap_down: "n \<le> length h \<Longrightarrow> mset (heap_down lt h i n) = mset h"
proof (induction lt h i n rule: heap_down.induct)
  case (1 lt h i n)
  show ?case
  proof (cases "2 * i + 1 \<ge> n")
    case False
    then have "heap_child lt h i n < length h" and "i < length h"
      using heap_child_lt [of i n lt h] "1.prems" by auto
    with 1 False show ?thesis by (subst heap_down.simps) (auto simp: Let_def)
  qed (subst heap_down.simps, simp)
qed

text \<open>Sifting down inside the first \<open>n\<close> slots leaves the slots from \<open>n\<close> on alone.\<close>

lemma nth_heap_down_beyond:
  "n \<le> length h \<Longrightarrow> n \<le> k \<Longrightarrow> k < length h \<Longrightarrow> heap_down lt h i n ! k = h ! k"
proof (induction lt h i n rule: heap_down.induct)
  case (1 lt h i n)
  show ?case
  proof (cases "2 * i + 1 \<ge> n")
    case False
    then have j: "heap_child lt h i n < n" by (simp add: heap_child_lt)
    with False "1.prems" have "heap_swap h i (heap_child lt h i n) ! k = h ! k"
      by (auto simp: nth_heap_swap)
    with 1 False show ?thesis by (subst heap_down.simps) (auto simp: Let_def)
  qed (subst heap_down.simps, simp)
qed

section \<open>Heap order\<close>

definition is_heap :: "('a \<Rightarrow> 'a \<Rightarrow> bool) \<Rightarrow> 'a list \<Rightarrow> nat \<Rightarrow> bool" where
  "is_heap lt h n \<longleftrightarrow> (\<forall>k. 0 < k \<and> k < n \<longrightarrow> \<not> lt (h ! k) (h ! (heap_parent k)))"

text \<open>
  The one defect that \<^const>\<open>heap_up\<close> repairs sits at \<open>j\<close>: every other node is in order with its
  parent, and the children of \<open>j\<close> are in order with the parent of \<open>j\<close>.
\<close>

definition up_defect :: "('a \<Rightarrow> 'a \<Rightarrow> bool) \<Rightarrow> 'a list \<Rightarrow> nat \<Rightarrow> nat \<Rightarrow> bool" where
  "up_defect lt h j n \<longleftrightarrow>
     (\<forall>k. 0 < k \<and> k < n \<and> k \<noteq> j \<longrightarrow> \<not> lt (h ! k) (h ! (heap_parent k))) \<and>
     (\<forall>k. 0 < k \<and> k < n \<and> heap_parent k = j \<and> 0 < j \<longrightarrow> \<not> lt (h ! k) (h ! (heap_parent j)))"

text \<open>
  The defect that \<^const>\<open>heap_down\<close> repairs, inside the subtrees at \<open>a\<close> and beyond: every node
  below \<open>a\<close> whose parent is not \<open>i\<close> is in order, and the children of \<open>i\<close> are in order with the
  parent of \<open>i\<close>.
\<close>

definition down_defect :: "('a \<Rightarrow> 'a \<Rightarrow> bool) \<Rightarrow> 'a list \<Rightarrow> nat \<Rightarrow> nat \<Rightarrow> nat \<Rightarrow> bool" where
  "down_defect lt h a i n \<longleftrightarrow>
     (\<forall>k. 0 < k \<and> k < n \<and> a \<le> heap_parent k \<and> heap_parent k \<noteq> i \<longrightarrow>
        \<not> lt (h ! k) (h ! (heap_parent k))) \<and>
     (\<forall>k. 0 < k \<and> k < n \<and> heap_parent k = i \<and> 0 < i \<and> a \<le> heap_parent i \<longrightarrow>
        \<not> lt (h ! k) (h ! (heap_parent i)))"

definition heap_from :: "('a \<Rightarrow> 'a \<Rightarrow> bool) \<Rightarrow> 'a list \<Rightarrow> nat \<Rightarrow> nat \<Rightarrow> bool" where
  "heap_from lt h a n \<longleftrightarrow>
     (\<forall>k. 0 < k \<and> k < n \<and> a \<le> heap_parent k \<longrightarrow> \<not> lt (h ! k) (h ! (heap_parent k)))"

lemma heap_from_0: "heap_from lt h 0 n = is_heap lt h n"
  by (simp add: heap_from_def is_heap_def)

lemma is_heap_Nil [simp]: "is_heap lt [] 0"
  by (simp add: is_heap_def)

lemma is_heap_take: "is_heap lt h n \<Longrightarrow> is_heap lt (take n h) n"
  using le_less_trans [OF heap_parent_le] by (auto simp: is_heap_def)

lemma is_heap_cong:
  assumes "\<And>x y. x \<in> set h \<Longrightarrow> y \<in> set h \<Longrightarrow> lt x y = lt' x y" and "n \<le> length h"
  shows "is_heap lt h n = is_heap lt' h n"
proof -
  have "lt (h ! k) (h ! (heap_parent k)) = lt' (h ! k) (h ! (heap_parent k))" if "k < n" for k
    using that assms by (intro assms(1) nth_mem) (auto simp: heap_parent_def)
  then show ?thesis by (auto simp: is_heap_def)
qed

locale strict_weak_order =
  fixes lt :: "'a \<Rightarrow> 'a \<Rightarrow> bool"
  assumes lt_asym: "lt x y \<Longrightarrow> \<not> lt y x"
    and lt_neg_trans: "\<not> lt x y \<Longrightarrow> \<not> lt y z \<Longrightarrow> \<not> lt x z"
begin

lemma lt_irrefl: "\<not> lt x x"
  using lt_asym by blast

lemma lt_trans: "lt x y \<Longrightarrow> lt y z \<Longrightarrow> lt x z"
  using lt_asym lt_neg_trans by blast

lemma up_defect_swap:
  assumes d: "up_defect lt h j n" and n: "n \<le> length h" and j: "j < n" "0 < j"
    and less: "lt (h ! j) (h ! heap_parent j)"
  shows "up_defect lt (heap_swap h (heap_parent j) j) (heap_parent j) n"
proof -
  let ?i = "heap_parent j"
  let ?h = "heap_swap h ?i j"
  have i: "?i < j" using j by (simp add: heap_parent_less)
  have nth: "?h ! k = (if k = j then h ! ?i else if k = ?i then h ! j else h ! k)" if "k < n" for k
    using that i j n by (simp add: nth_heap_swap)
  have ord: "\<not> lt (h ! k) (h ! heap_parent k)" if "0 < k" "k < n" "k \<noteq> j" for k
    using d that by (auto simp: up_defect_def)
  have gr: "\<not> lt (h ! k) (h ! ?i)" if "0 < k" "k < n" "heap_parent k = j" for k
    using d that j by (auto simp: up_defect_def)
  have par: "heap_parent k < n" if "k < n" for k
    using that heap_parent_le [of k] by linarith
  have "\<not> lt (?h ! k) (?h ! heap_parent k)" if k: "0 < k" "k < n" "k \<noteq> ?i" for k
  proof (cases "k = j")
    case True
    with less i j k show ?thesis by (auto simp: nth dest: lt_asym)
  next
    case False
    consider "heap_parent k = j" | "heap_parent k = ?i" "?i \<noteq> j"
      | "heap_parent k \<noteq> j" "heap_parent k \<noteq> ?i"
      using less_imp_neq [OF i] by blast
    then show ?thesis
    proof cases
      case 1
      with k False gr [of k] j show ?thesis by (simp add: nth)
    next
      case 2
      with k False have "\<not> lt (h ! k) (h ! ?i)" using ord [of k] by simp
      moreover have "\<not> lt (h ! ?i) (h ! j)" using less by (rule lt_asym)
      ultimately have "\<not> lt (h ! k) (h ! j)" by (rule lt_neg_trans)
      with 2 k False i j show ?thesis by (simp add: nth)
    next
      case 3
      with k False ord [of k] par [of k] show ?thesis by (simp add: nth)
    qed
  qed
  moreover have "\<not> lt (?h ! k) (?h ! heap_parent ?i)"
    if k: "0 < k" "k < n" "heap_parent k = ?i" "0 < ?i" for k
  proof -
    have pi: "heap_parent ?i < ?i" using k by (simp add: heap_parent_less)
    have up: "\<not> lt (h ! ?i) (h ! heap_parent ?i)" using ord [of ?i] i j k by simp
    have "\<not> lt (h ! k) (h ! heap_parent ?i)" if "k \<noteq> j"
      using that ord [of k] k up lt_neg_trans by metis
    moreover have "k \<noteq> ?i" using k heap_parent_less [of k] by auto
    ultimately show ?thesis using pi i j k up by (auto simp: nth)
  qed
  ultimately show ?thesis unfolding up_defect_def by blast
qed

lemma heap_up_is_heap:
  "up_defect lt h j n \<Longrightarrow> n \<le> length h \<Longrightarrow> j < n \<Longrightarrow> is_heap lt (heap_up lt h j) n"
proof (induction j arbitrary: h rule: less_induct)
  case (less j)
  let ?i = "heap_parent j"
  show ?case
  proof (cases "?i = j \<or> \<not> lt (h ! j) (h ! ?i)")
    case True
    then have "is_heap lt h n"
      using less.prems heap_parent_less [of j] by (auto simp: is_heap_def up_defect_def)
    with True show ?thesis by (subst heap_up.simps) (simp add: Let_def)
  next
    case False
    then have j: "0 < j" "?i < j" using heap_parent_le [of j] by (cases j, auto)
    with False less.prems have "is_heap lt (heap_up lt (heap_swap h ?i j) ?i) n"
      by (intro less.IH up_defect_swap) auto
    with False show ?thesis by (subst heap_up.simps) (simp add: Let_def)
  qed
qed

lemma heap_push_is_heap:
  assumes "is_heap lt h (length h)"
  shows "is_heap lt (heap_push lt h x) (length (heap_push lt h x))"
proof -
  have "up_defect lt (h @ [x]) (length h) (Suc (length h))"
    unfolding up_defect_def
  proof (intro conjI allI impI)
    fix k assume k: "0 < k \<and> k < Suc (length h) \<and> k \<noteq> length h"
    then have "heap_parent k < length h" using heap_parent_le [of k] by linarith
    with k assms show "\<not> lt ((h @ [x]) ! k) ((h @ [x]) ! heap_parent k)"
      by (auto simp: is_heap_def nth_append)
  next
    fix k assume "0 < k \<and> k < Suc (length h) \<and> heap_parent k = length h \<and> 0 < length h"
    then show "\<not> lt ((h @ [x]) ! k) ((h @ [x]) ! heap_parent (length h))"
      using heap_parent_less [of k] by auto
  qed
  then show ?thesis by (simp add: heap_push_def heap_up_is_heap)
qed

lemma heap_child_min:
  assumes "2 * i + 1 < n" and "0 < k" "k < n" "heap_parent k = i"
  shows "\<not> lt (h ! k) (h ! heap_child lt h i n)"
  using assms lt_irrefl by (auto simp: heap_parent_eq_iff heap_child_def Let_def dest: lt_asym)

lemma down_defect_swap:
  assumes d: "down_defect lt h a i n" and n: "n \<le> length h" and i: "2 * i + 1 < n" "a \<le> i"
    and less: "lt (h ! heap_child lt h i n) (h ! i)"
  shows "down_defect lt (heap_swap h i (heap_child lt h i n)) a (heap_child lt h i n) n"
proof -
  let ?j = "heap_child lt h i n"
  let ?h = "heap_swap h i ?j"
  have j: "?j < n" "i < ?j" "0 < ?j" using i heap_child_lt heap_child_gt [of i lt h n] by auto
  have pj: "heap_parent ?j = i"
    using heap_child_cases [of lt h i n] j by (simp add: heap_parent_eq_iff)
  have nth: "?h ! k = (if k = ?j then h ! i else if k = i then h ! ?j else h ! k)" if "k < n" for k
    using that i j n by (simp add: nth_heap_swap)
  have ord: "\<not> lt (h ! k) (h ! heap_parent k)"
    if "0 < k" "k < n" "a \<le> heap_parent k" "heap_parent k \<noteq> i" for k
    using d that by (auto simp: down_defect_def)
  have gr: "\<not> lt (h ! k) (h ! heap_parent i)"
    if "0 < k" "k < n" "heap_parent k = i" "0 < i" "a \<le> heap_parent i" for k
    using d that by (auto simp: down_defect_def)
  have par: "heap_parent k < n" if "k < n" for k
    using that heap_parent_le [of k] by linarith
  have "\<not> lt (?h ! k) (?h ! heap_parent k)"
    if k: "0 < k" "k < n" "a \<le> heap_parent k" "heap_parent k \<noteq> ?j" for k
  proof -
    consider "heap_parent k = i" | "k = i" "heap_parent k \<noteq> i"
      | "heap_parent k \<noteq> i" "k \<noteq> i" by blast
    then show ?thesis
    proof cases
      case 1
      with k i j heap_child_min [of i n k h] lt_asym [OF less] heap_parent_less [of k]
      show ?thesis by (auto simp: nth)
    next
      case 2
      with k j gr [of ?j] pj par [of k] show ?thesis by (simp add: nth)
    next
      case 3
      then have "k \<noteq> ?j" using pj by auto
      with 3 k ord [of k] par [of k] show ?thesis by (simp add: nth)
    qed
  qed
  moreover have "\<not> lt (?h ! k) (?h ! heap_parent ?j)"
    if k: "0 < k" "k < n" "heap_parent k = ?j" for k
  proof -
    have "k \<noteq> ?j" "k \<noteq> i" using k heap_parent_less [of k] j by auto
    with k ord [of k] i j show ?thesis by (simp add: nth pj)
  qed
  ultimately show ?thesis unfolding down_defect_def by blast
qed

lemma heap_down_heap_from:
  "down_defect lt h a i n \<Longrightarrow> n \<le> length h \<Longrightarrow> a \<le> i \<Longrightarrow> heap_from lt (heap_down lt h i n) a n"
proof (induction "n - i" arbitrary: h i rule: less_induct)
  case less
  let ?j = "heap_child lt h i n"
  consider "2 * i + 1 \<ge> n" | "2 * i + 1 < n" "\<not> lt (h ! ?j) (h ! i)"
    | "2 * i + 1 < n" "lt (h ! ?j) (h ! i)" by linarith
  then show ?case
  proof cases
    case 1
    then have "heap_from lt h a n"
      using less.prems by (auto simp: heap_from_def down_defect_def heap_parent_def)
    with 1 show ?thesis by (subst heap_down.simps) simp
  next
    case 2
    have "\<not> lt (h ! k) (h ! i)" if "0 < k" "k < n" "heap_parent k = i" for k
      using heap_child_min [OF 2(1) that] 2(2) by (rule lt_neg_trans)
    then have "heap_from lt h a n"
      using less.prems by (auto simp: heap_from_def down_defect_def)
    with 2 show ?thesis by (subst heap_down.simps) (simp add: Let_def)
  next
    case 3
    have j: "i < ?j" "?j < n" using 3 heap_child_lt heap_child_gt [of i lt h n] by auto
    have "heap_from lt (heap_down lt (heap_swap h i ?j) ?j n) a n"
      using 3 j less.prems by (intro less.hyps down_defect_swap) auto
    with 3 show ?thesis by (subst heap_down.simps) (simp add: Let_def)
  qed
qed

lemma heap_init_from_is_heap:
  "heap_from lt h i (length h) \<Longrightarrow> is_heap lt (heap_init_from lt h i) (length h)"
proof (induction i arbitrary: h)
  case 0
  then show ?case by (simp add: heap_from_0)
next
  case (Suc i)
  have "down_defect lt h i i (length h)"
    unfolding down_defect_def
  proof (intro conjI allI impI)
    fix k assume "0 < k \<and> k < length h \<and> i \<le> heap_parent k \<and> heap_parent k \<noteq> i"
    then show "\<not> lt (h ! k) (h ! heap_parent k)" using Suc.prems by (auto simp: heap_from_def)
  next
    fix k assume "0 < k \<and> k < length h \<and> heap_parent k = i \<and> 0 < i \<and> i \<le> heap_parent i"
    then show "\<not> lt (h ! k) (h ! heap_parent i)" using heap_parent_less [of i] by linarith
  qed
  then have "heap_from lt (heap_down lt h i (length h)) i (length h)"
    by (rule heap_down_heap_from) auto
  then show ?case using Suc.IH [of "heap_down lt h i (length h)"] by simp
qed

lemma heap_init_is_heap: "is_heap lt (heap_init lt h) (length h)"
  unfolding heap_init_def
  by (rule heap_init_from_is_heap) (auto simp: heap_from_def heap_parent_def)

lemma is_heap_root_min:
  "is_heap lt h n \<Longrightarrow> k < n \<Longrightarrow> \<not> lt (h ! k) (h ! 0)"
proof (induction k rule: less_induct)
  case (less k)
  show ?case
  proof (cases "k = 0")
    case True
    then show ?thesis by (simp add: lt_irrefl)
  next
    case False
    then have "heap_parent k < k" by (simp add: heap_parent_less)
    with less have "\<not> lt (h ! heap_parent k) (h ! 0)" by simp
    moreover have "\<not> lt (h ! k) (h ! heap_parent k)" using less.prems False by (simp add: is_heap_def)
    ultimately show ?thesis using lt_neg_trans by blast
  qed
qed

lemma heap_pop_is_heap:
  assumes h: "is_heap lt h (length h)" and ne: "h \<noteq> []"
  shows "is_heap lt (snd (heap_pop lt h)) (length (snd (heap_pop lt h)))"
proof -
  let ?n = "length h - 1"
  let ?s = "heap_swap h 0 ?n"
  have n: "?n < length h" using ne by simp
  have nth: "?s ! k = h ! k" if "0 < k" "k < ?n" for k
    using that n by (subst nth_heap_swap) auto
  have "down_defect lt ?s 0 0 ?n"
    unfolding down_defect_def
  proof (intro conjI allI impI)
    fix k assume k: "0 < k \<and> k < ?n \<and> 0 \<le> heap_parent k \<and> heap_parent k \<noteq> 0"
    then have "heap_parent k < ?n" using heap_parent_le [of k] by linarith
    with k nth [of k] nth [of "heap_parent k"] h show "\<not> lt (?s ! k) (?s ! heap_parent k)"
      by (auto simp: is_heap_def)
  qed simp
  then have "is_heap lt (heap_down lt ?s 0 ?n) ?n"
    using heap_down_heap_from [of ?s 0 0 ?n] n by (simp add: heap_from_0)
  then have "is_heap lt (take ?n (heap_down lt ?s 0 ?n)) ?n"
    by (rule is_heap_take)
  then show ?thesis using ne by (simp add: heap_pop_def Let_def)
qed

lemma heap_pop_min:
  assumes "is_heap lt h (length h)" and "y \<in> set h"
  shows "\<not> lt y (h ! 0)"
  using assms is_heap_root_min [of h "length h"] by (metis in_set_conv_nth)

end

section \<open>What push and pop do to the elements\<close>

lemma mset_heap_push [simp]: "mset (heap_push lt h x) = add_mset x (mset h)"
  by (simp add: heap_push_def mset_heap_up)

lemma length_heap_push [simp]: "length (heap_push lt h x) = Suc (length h)"
  by (simp add: heap_push_def)

lemma fst_heap_pop: "h \<noteq> [] \<Longrightarrow> fst (heap_pop lt h) = h ! 0"
  by (simp add: heap_pop_def Let_def nth_heap_down_beyond nth_heap_swap)

lemma mset_heap_pop: "h \<noteq> [] \<Longrightarrow> add_mset (h ! 0) (mset (snd (heap_pop lt h))) = mset h"
proof -
  assume ne: "h \<noteq> []"
  let ?n = "length h - 1"
  let ?d = "heap_down lt (heap_swap h 0 ?n) 0 ?n"
  have n: "?n < length h" using ne by simp
  have "?d = take ?n ?d @ [?d ! ?n]"
    using n take_Suc_conv_app_nth [of ?n ?d] by (simp add: Suc_leI)
  then have "mset ?d = add_mset (?d ! ?n) (mset (take ?n ?d))"
    by (metis mset.simps(1) mset.simps(2) mset_append union_mset_add_mset_right add_0_right)
  moreover have "mset ?d = mset h" using n ne by (simp add: mset_heap_down)
  moreover have "?d ! ?n = h ! 0"
    using fst_heap_pop [OF ne, of lt] by (simp add: heap_pop_def Let_def)
  ultimately show ?thesis by (simp add: heap_pop_def Let_def)
qed

lemma length_heap_pop: "h \<noteq> [] \<Longrightarrow> length (snd (heap_pop lt h)) = length h - 1"
  by (simp add: heap_pop_def Let_def)

end
