(* ===== verification/Priority_Queue.thy ===== *)
theory Priority_Queue
  imports Task_Model Go_Container_Heap "HOL-Library.Product_Lexorder"
begin

text \<open>
  The priority queue of pending tasks, \<^verbatim>\<open>src/broker/priorityqueue.go\<close>: \<^verbatim>\<open>taskHeap\<close> (the methods
  that \<^verbatim>\<open>container/heap\<close> calls) and \<^verbatim>\<open>PriorityQueue\<close>. The locale \<open>priority_queue\<close> is the
  contract its clients use; the queue of the source is an interpretation of it.
\<close>

section \<open>taskHeap\<close>

type_synonym taskHeap = "Task list"

definition taskHeap_Len :: "taskHeap \<Rightarrow> nat" where
  "taskHeap_Len h = length h"

definition task_lt :: "Task \<Rightarrow> Task \<Rightarrow> bool" where
  "task_lt s t =
     (if Priority s \<noteq> Priority t then Priority s < Priority t else CreatedAt s < CreatedAt t)"

definition taskHeap_Less :: "taskHeap \<Rightarrow> nat \<Rightarrow> nat \<Rightarrow> bool" where
  "taskHeap_Less h i j = task_lt (h ! i) (h ! j)"

definition taskHeap_Swap :: "taskHeap \<Rightarrow> nat \<Rightarrow> nat \<Rightarrow> taskHeap" where
  "taskHeap_Swap h i j = heap_swap h i j"

definition taskHeap_Push :: "taskHeap \<Rightarrow> Task \<Rightarrow> taskHeap" where
  "taskHeap_Push h x = h @ [x]"

definition taskHeap_Pop :: "taskHeap \<Rightarrow> Task \<times> taskHeap" where
  "taskHeap_Pop old = (let n = length old in (old ! (n - 1), take (n - 1) old))"

section \<open>PriorityQueue\<close>

definition NewPriorityQueue :: taskHeap where
  "NewPriorityQueue = heap_init task_lt []"

definition PQ_Push :: "taskHeap \<Rightarrow> Task \<Rightarrow> taskHeap" where
  "PQ_Push h t = heap_push task_lt h t"

definition PQ_Pop :: "taskHeap \<Rightarrow> Task option \<times> taskHeap" where
  "PQ_Pop h =
     (if taskHeap_Len h = 0 then (None, h)
      else let (t, h') = heap_pop task_lt h in (Some t, h'))"

definition PQ_Len :: "taskHeap \<Rightarrow> nat" where
  "PQ_Len h = taskHeap_Len h"

text \<open>
  The generic heap is applied to \<^verbatim>\<open>taskHeap\<close> through its four methods: \<^verbatim>\<open>heap.Push\<close> appends with
  \<^const>\<open>taskHeap_Push\<close>, \<^verbatim>\<open>heap.Pop\<close> cuts the last slot off with \<^const>\<open>taskHeap_Pop\<close>.
\<close>

lemma heap_push_methods:
  "heap_push task_lt h t = heap_up task_lt (taskHeap_Push h t) (taskHeap_Len h)"
  by (simp add: heap_push_def taskHeap_Push_def taskHeap_Len_def)

lemma heap_pop_methods:
  "h \<noteq> [] \<Longrightarrow> heap_pop task_lt h =
     taskHeap_Pop (heap_down task_lt (taskHeap_Swap h 0 (taskHeap_Len h - 1)) 0 (taskHeap_Len h - 1))"
  by (simp add: heap_pop_def taskHeap_Pop_def taskHeap_Swap_def taskHeap_Len_def Let_def)

section \<open>The contract of a priority queue\<close>

fun pops :: "('q \<Rightarrow> 'a option \<times> 'q) \<Rightarrow> nat \<Rightarrow> 'q \<Rightarrow> 'a list \<times> 'q" where
  "pops pop 0 q = ([], q)"
| "pops pop (Suc n) q =
     (case pop q of
        (None, q') \<Rightarrow> ([], q')
      | (Some x, q') \<Rightarrow> (let (xs, q'') = pops pop n q' in (x # xs, q'')))"

locale priority_queue = strict_weak_order lt
  for lt :: "'a \<Rightarrow> 'a \<Rightarrow> bool" +
  fixes new :: 'q
    and push :: "'q \<Rightarrow> 'a \<Rightarrow> 'q"
    and pop :: "'q \<Rightarrow> 'a option \<times> 'q"
    and len :: "'q \<Rightarrow> nat"
    and invar :: "'q \<Rightarrow> bool"
    and bag :: "'q \<Rightarrow> 'a multiset"
  assumes invar_new: "invar new"
    and bag_new: "bag new = {#}"
    and invar_push: "invar q \<Longrightarrow> invar (push q x)"
    and bag_push: "invar q \<Longrightarrow> bag (push q x) = add_mset x (bag q)"
    and pop_empty: "invar q \<Longrightarrow> bag q = {#} \<Longrightarrow> pop q = (None, q)"
    and pop_some: "invar q \<Longrightarrow> bag q \<noteq> {#} \<Longrightarrow>
      \<exists>x q'. pop q = (Some x, q') \<and> invar q' \<and> bag q = add_mset x (bag q') \<and>
        (\<forall>y \<in># bag q. \<not> lt y x)"
    and len_bag: "invar q \<Longrightarrow> len q = size (bag q)"
begin

lemma pop_SomeD:
  assumes "invar q" and "pop q = (Some x, q')"
  shows "invar q'" and "bag q = add_mset x (bag q')" and "\<forall>y \<in># bag q. \<not> lt y x"
proof -
  have "bag q \<noteq> {#}" using pop_empty [OF assms(1)] assms(2) by auto
  then show "invar q'" "bag q = add_mset x (bag q')" "\<forall>y \<in># bag q. \<not> lt y x"
    using pop_some [OF assms(1)] assms(2) by auto
qed

lemma pop_NoneD:
  assumes "invar q" and "pop q = (None, q')"
  shows "bag q = {#}" and "q' = q"
  using assms pop_empty [OF assms(1)] pop_some [OF assms(1)] by (cases "bag q = {#}"; auto)+

lemma fold_push:
  "invar q \<Longrightarrow> invar (fold (\<lambda>x q. push q x) xs q) \<and> bag (fold (\<lambda>x q. push q x) xs q) = bag q + mset xs"
  by (induction xs arbitrary: q) (auto simp: invar_push bag_push)

text \<open>Popping everything yields the elements in order.\<close>

lemma pops_sorted:
  "invar q \<Longrightarrow> size (bag q) = n \<Longrightarrow>
   mset (fst (pops pop n q)) = bag q \<and> sorted_wrt (\<lambda>x y. \<not> lt y x) (fst (pops pop n q)) \<and>
   bag (snd (pops pop n q)) = {#}"
proof (induction n arbitrary: q)
  case 0
  then show ?case by simp
next
  case (Suc n)
  then have "bag q \<noteq> {#}" by auto
  with Suc.prems obtain x q' where p: "pop q = (Some x, q')" "invar q'" "bag q = add_mset x (bag q')"
      and m: "\<forall>y \<in># bag q. \<not> lt y x"
    using pop_some by blast
  obtain xs q'' where r: "pops pop n q' = (xs, q'')" by (cases "pops pop n q'")
  have "mset xs = bag q' \<and> sorted_wrt (\<lambda>x y. \<not> lt y x) xs \<and> bag q'' = {#}"
    using Suc.IH [of q'] Suc.prems p r by simp
  moreover from this have "set xs = set_mset (bag q')" by (metis set_mset_mset)
  ultimately show ?case using p m r by auto
qed

end

section \<open>The heap meets the contract\<close>

definition heap_popq :: "('a \<Rightarrow> 'a \<Rightarrow> bool) \<Rightarrow> 'a list \<Rightarrow> 'a option \<times> 'a list" where
  "heap_popq lt h =
     (if length h = 0 then (None, h) else let (x, h') = heap_pop lt h in (Some x, h'))"

sublocale strict_weak_order < heapq: priority_queue lt "[]" "heap_push lt" "heap_popq lt" length
  "\<lambda>h. is_heap lt h (length h)" mset
proof (unfold_locales, goal_cases)
  case (3 q x)
  then show ?case by (rule heap_push_is_heap)
next
  case (6 q)
  then have ne: "q \<noteq> []" and h: "is_heap lt q (length q)" by auto
  let ?q' = "snd (heap_pop lt q)"
  have "heap_popq lt q = (Some (q ! 0), ?q')"
    using ne fst_heap_pop [OF ne, of lt] by (cases "heap_pop lt q") (simp add: heap_popq_def)
  moreover have "is_heap lt ?q' (length ?q')" using h ne by (rule heap_pop_is_heap)
  moreover have "mset q = add_mset (q ! 0) (mset ?q')" using mset_heap_pop [OF ne] by metis
  moreover have "\<forall>y \<in># mset q. \<not> lt y (q ! 0)" using heap_pop_min [OF h] by simp
  ultimately show ?case by blast
qed (simp_all add: heap_popq_def)

section \<open>The source's queue\<close>

definition task_key :: "Task \<Rightarrow> int \<times> time" where
  "task_key t = (Priority t, CreatedAt t)"

lemma task_lt_key: "task_lt s t = (task_key s < task_key t)"
  by (auto simp: task_lt_def task_key_def less_prod_def')

interpretation task_order: strict_weak_order task_lt
  by unfold_locales (auto simp: task_lt_key)

definition pq_invar :: "taskHeap \<Rightarrow> bool" where
  "pq_invar h \<longleftrightarrow> is_heap task_lt h (length h)"

interpretation pq: priority_queue task_lt NewPriorityQueue PQ_Push PQ_Pop PQ_Len pq_invar mset
proof -
  have "NewPriorityQueue = []" "PQ_Push = heap_push task_lt" "PQ_Pop = heap_popq task_lt" "PQ_Len = length"
    "pq_invar = (\<lambda>h. is_heap task_lt h (length h))"
    by (simp_all add: NewPriorityQueue_def heap_init_def PQ_Push_def PQ_Pop_def heap_popq_def PQ_Len_def
        taskHeap_Len_def pq_invar_def fun_eq_iff)
  then show "priority_queue task_lt NewPriorityQueue PQ_Push PQ_Pop PQ_Len pq_invar mset"
    using task_order.heapq.priority_queue_axioms by simp
qed

section \<open>Order of delivery\<close>

definition drain :: "taskHeap \<Rightarrow> Task list" where
  "drain h = fst (pops PQ_Pop (PQ_Len h) h)"

definition PQ_of :: "Task list \<Rightarrow> taskHeap" where
  "PQ_of ts = fold (\<lambda>t h. PQ_Push h t) ts NewPriorityQueue"

lemma PQ_of_invar: "pq_invar (PQ_of ts)" and mset_PQ_of: "mset (PQ_of ts) = mset ts"
  using pq.fold_push [OF pq.invar_new, of ts] by (simp_all add: PQ_of_def pq.bag_new)

lemma drain_sorted:
  assumes "pq_invar h"
  shows "mset (drain h) = mset h" and "sorted (map task_key (drain h))"
  using pq.pops_sorted [OF assms, of "PQ_Len h"]
  by (simp_all add: drain_def PQ_Len_def taskHeap_Len_def task_lt_key sorted_wrt_map not_less)

lemma filter_priority_sorted:
  "sorted (map task_key ts) \<Longrightarrow> sorted (map CreatedAt (filter (\<lambda>t. p = Priority t) ts))"
  by (induction ts) (auto simp: task_key_def)

text \<open>
  A queue filled with tasks of increasing \<^verbatim>\<open>CreatedAt\<close> drains in the order of a stable sort by
  priority, so first in, first out within a priority.
\<close>

lemma drain_fifo:
  assumes "sorted_wrt (\<lambda>s t. CreatedAt s < CreatedAt t) ts"
  shows "drain (PQ_of ts) = sort_key Priority ts"
proof (rule sym, rule properties_for_sort_key)
  let ?d = "drain (PQ_of ts)"
  have d: "mset ?d = mset ts" "sorted (map task_key ?d)"
    using drain_sorted [OF PQ_of_invar, of ts] by (simp_all add: mset_PQ_of)
  show "mset ?d = mset ts" by (rule d(1))
  show "sorted (map Priority ?d)"
    using d(2) unfolding sorted_wrt_map
    by (rule sorted_wrt_mono_rel [rotated]) (auto simp: task_key_def)
  fix k
  let ?f = "filter (\<lambda>x. Priority k = Priority x)"
  have "sorted_wrt (\<lambda>s t. CreatedAt s < CreatedAt t) (?f ts)"
    using assms by (rule sorted_wrt_filter)
  then have "sorted_wrt (<) (map CreatedAt (?f ts))" by (simp add: sorted_wrt_map)
  then have "sorted (map CreatedAt (?f ts))" "distinct (map CreatedAt (?f ts))"
    by (simp_all only: strict_sorted_iff)
  moreover have "sorted (map CreatedAt (?f ?d))" using d(2) by (rule filter_priority_sorted)
  moreover have "mset (?f ts) = mset (?f ?d)" using d(1) by simp
  ultimately show "?f ?d = ?f ts"
    by (metis distinct_map sorted_key_unique)
qed

end
