(* ===== verification/Checksum.thy ===== *)
theory Checksum
  imports Distqueue_Prelude
begin

text \<open>
  The two standard-library packages under the record format of the log: \<^verbatim>\<open>hash/crc32\<close> with the
  IEEE polynomial, and the big-endian \<^verbatim>\<open>uint32\<close> of \<^verbatim>\<open>encoding/binary\<close>; and Go's conversion between
  \<^verbatim>\<open>string\<close> and \<^verbatim>\<open>[]byte\<close>. The checksum is proved to tell apart any two byte strings that
  differ in one byte.
\<close>

unbundle bit_operations_syntax

section \<open>CRC-32\<close>

definition crc_bit :: "32 word \<Rightarrow> 32 word" where
  "crc_bit c = (if bit c 0 then drop_bit 1 c XOR 0xEDB88320 else drop_bit 1 c)"

definition crc_byte :: "32 word \<Rightarrow> byte \<Rightarrow> 32 word" where
  "crc_byte c b = (crc_bit ^^ 8) (c XOR ucast b)"

definition crc_update :: "32 word \<Rightarrow> byte list \<Rightarrow> 32 word" where
  "crc_update c bs = NOT (fold (\<lambda>b c. crc_byte c b) bs (NOT c))"

lemma crc_update_append: "crc_update (crc_update c xs) ys = crc_update c (xs @ ys)"
  by (simp add: crc_update_def)

lemma bit_crc_bit_31: "bit (crc_bit c) 31 = bit c 0"
proof -
  have "\<not> bit c 32" by (auto dest: bit_imp_le_length)
  then show ?thesis by (simp add: crc_bit_def bit_simps)
qed

lemma crc_bit_inj: "crc_bit c = crc_bit d \<Longrightarrow> c = d"
proof -
  assume eq: "crc_bit c = crc_bit d"
  then have b0: "bit c 0 = bit d 0" by (metis bit_crc_bit_31)
  have "drop_bit 1 c = drop_bit 1 d"
  proof (cases "bit c 0")
    case True
    with eq b0 have "(drop_bit 1 c XOR 0xEDB88320) XOR 0xEDB88320 =
        (drop_bit 1 d XOR 0xEDB88320) XOR (0xEDB88320 :: 32 word)"
      by (simp add: crc_bit_def)
    then show ?thesis by (simp add: xor.assoc)
  next
    case False
    with eq b0 show ?thesis by (simp add: crc_bit_def)
  qed
  then have "bit c (Suc n) = bit d (Suc n)" for n
    by (metis bit_drop_bit_eq comp_apply plus_1_eq_Suc)
  with b0 have "bit c n = bit d n" for n by (cases n) auto
  then show "c = d" by (intro bit_word_eqI) simp
qed

lemma crc_bit_pow_inj: "(crc_bit ^^ n) c = (crc_bit ^^ n) d \<Longrightarrow> c = d"
  by (induction n arbitrary: c d) (auto dest: crc_bit_inj)

lemma xor_cancel_right: "a XOR c = b XOR c \<Longrightarrow> a = b" for a b c :: "'a::len word"
  by (metis xor.assoc xor.right_neutral xor_self_eq)

lemma xor_cancel_left: "c XOR a = c XOR b \<Longrightarrow> a = b" for a b c :: "'a::len word"
  by (metis xor.commute xor_cancel_right)

lemma ucast_byte_inj: "(ucast a :: 32 word) = ucast b \<Longrightarrow> a = b" for a b :: byte
proof -
  assume eq: "(ucast a :: 32 word) = ucast b"
  show "a = b"
  proof (rule bit_word_eqI)
    fix n assume "n < LENGTH(8)"
    moreover have "bit (ucast a :: 32 word) n = bit (ucast b :: 32 word) n" by (simp only: eq)
    ultimately show "bit a n = bit b n" by (simp add: bit_ucast_iff)
  qed
qed

lemma crc_byte_inj_state: "crc_byte c b = crc_byte d b \<Longrightarrow> c = d"
  unfolding crc_byte_def by (blast dest: crc_bit_pow_inj xor_cancel_right)

lemma crc_byte_inj_byte: "crc_byte c a = crc_byte c b \<Longrightarrow> a = b"
  unfolding crc_byte_def by (blast dest: crc_bit_pow_inj xor_cancel_left ucast_byte_inj)

lemma crc_fold_inj:
  "fold (\<lambda>b c. crc_byte c b) bs c = fold (\<lambda>b c. crc_byte c b) bs d \<Longrightarrow> c = d"
  by (induction bs arbitrary: c d) (auto dest: crc_byte_inj_state)

lemma crc_detects_byte:
  assumes "crc_update c (xs @ a # ys) = crc_update c (xs @ b # ys)"
  shows "a = b"
proof -
  let ?f = "fold (\<lambda>b c. crc_byte c b)"
  from assms have "?f (xs @ a # ys) (NOT c) = ?f (xs @ b # ys) (NOT c)"
    unfolding crc_update_def by (metis bit.double_compl)
  then show ?thesis by (auto dest!: crc_fold_inj crc_byte_inj_byte)
qed

lemma crc_detects_update:
  assumes "i < length bs" and "v \<noteq> bs ! i"
  shows "crc_update c (bs[i := v]) \<noteq> crc_update c bs"
proof -
  have "bs = take i bs @ (bs ! i) # drop (Suc i) bs" using assms(1) by (rule id_take_nth_drop)
  moreover have "bs[i := v] = take i bs @ v # drop (Suc i) bs"
    using assms(1) by (rule upd_conv_take_nth_drop)
  ultimately show ?thesis using crc_detects_byte assms(2) by metis
qed

section \<open>Big-endian integers\<close>

definition be32 :: "32 word \<Rightarrow> byte list" where
  "be32 w = [ucast (drop_bit 24 w), ucast (drop_bit 16 w), ucast (drop_bit 8 w), ucast w]"

definition be32_read :: "byte list \<Rightarrow> 32 word" where
  "be32_read bs = push_bit 24 (ucast (bs ! 0)) OR push_bit 16 (ucast (bs ! 1)) OR
     push_bit 8 (ucast (bs ! 2)) OR ucast (bs ! 3)"

lemma length_be32 [simp]: "length (be32 w) = 4"
  by (simp add: be32_def)

lemma be32_roundtrip [simp]: "be32_read (be32 w) = w"
proof (rule bit_word_eqI)
  fix n assume n: "n < LENGTH(32)"
  then consider "n < 8" | "8 \<le> n" "n < 16" | "16 \<le> n" "n < 24" | "24 \<le> n" "n < 32" by fastforce
  then show "bit (be32_read (be32 w)) n = bit w n"
    by cases (auto simp: be32_def be32_read_def bit_simps)
qed

lemma be32_read_roundtrip: "length bs = 4 \<Longrightarrow> be32 (be32_read bs) = bs"
proof -
  assume "length bs = 4"
  then obtain a b c d where bs: "bs = [a, b, c, d]"
    by (auto simp: length_Suc_conv eval_nat_numeral)
  have "ucast (drop_bit 24 (be32_read bs)) = a" "ucast (drop_bit 16 (be32_read bs)) = b"
    "ucast (drop_bit 8 (be32_read bs)) = c" "ucast (be32_read bs) = d"
    unfolding bs be32_read_def
    by (rule bit_word_eqI; auto simp: bit_simps dest: bit_imp_le_length)+
  then show ?thesis by (simp add: be32_def bs)
qed

lemma be32_inj: "be32 v = be32 w \<Longrightarrow> v = w"
  by (metis be32_roundtrip)

section \<open>Strings and bytes\<close>

definition str_bytes :: "string \<Rightarrow> byte list" where
  "str_bytes s = map (\<lambda>c. word_of_nat (of_char c)) s"

definition bytes_str :: "byte list \<Rightarrow> string" where
  "bytes_str bs = map (\<lambda>b. char_of (unat b)) bs"

lemma bytes_str_bytes [simp]: "bytes_str (str_bytes s) = s"
proof -
  have "char_of (unat (word_of_nat (of_char c) :: byte)) = c" for c
  proof -
    have "(of_char c :: nat) < 256" by simp
    then have "unat (word_of_nat (of_char c) :: byte) = of_char c"
      by (simp add: unat_of_nat take_bit_eq_mod)
    then show ?thesis by simp
  qed
  then show ?thesis by (simp add: bytes_str_def str_bytes_def comp_def)
qed

lemma length_str_bytes [simp]: "length (str_bytes s) = length s"
  by (simp add: str_bytes_def)

end
