(* ===== verification/Wal_Codec.thy ===== *)
theory Wal_Codec
  imports Checksum Task_Model
begin

text \<open>
  The record format of the write-ahead log, \<^verbatim>\<open>src/broker/wal.go\<close>: \<^verbatim>\<open>encodeRecord\<close>,
  \<^verbatim>\<open>readRecord\<close>, the counting reader, and the scan of \<^verbatim>\<open>Replay\<close> that finds the valid prefix of
  a file.

  The gob encoding of a task is a parameter (\<open>gob\<close>): \<^verbatim>\<open>encoding/gob\<close> numbers the wire types of
  a process in the order of their first use, so the bytes are not a function of the task. What
  the log relies on is the documented round trip, \<open>gob_roundtrip\<close>.
\<close>

section \<open>Constants and types of the source\<close>

definition OpEnqueue :: byte where "OpEnqueue = 0x01"
definition OpAck :: byte where "OpAck = 0x02"
definition OpNack :: byte where "OpNack = 0x03"
definition OpDead :: byte where "OpDead = 0x04"

lemma Op_distinct [simp]:
  "OpEnqueue \<noteq> OpAck" "OpEnqueue \<noteq> OpNack" "OpEnqueue \<noteq> OpDead" "OpAck \<noteq> OpNack"
  "OpAck \<noteq> OpDead" "OpNack \<noteq> OpDead" "OpAck \<noteq> OpEnqueue" "OpNack \<noteq> OpEnqueue"
  "OpDead \<noteq> OpEnqueue" "OpNack \<noteq> OpAck" "OpDead \<noteq> OpAck" "OpDead \<noteq> OpNack"
  by (simp_all add: OpEnqueue_def OpAck_def OpNack_def OpDead_def)

definition walMagic :: "byte list" where
  "walMagic = str_bytes ''DQWL''"

lemma length_walMagic [simp]: "length walMagic = 4"
  by (simp add: walMagic_def)

record LogEntry =
  eOp :: byte
  eTaskID :: string
  eTask :: "Task option"

record gob =
  gob_encode :: "Task \<Rightarrow> byte list option"
  gob_decode :: "byte list \<Rightarrow> Task option"

definition gob_roundtrip :: "gob \<Rightarrow> bool" where
  "gob_roundtrip G \<longleftrightarrow> (\<forall>t. \<exists>bs. gob_encode G t = Some bs \<and> gob_decode G bs = Some t)"

definition encodeTask :: "gob \<Rightarrow> Task \<Rightarrow> byte list option" where
  "encodeTask G t = gob_encode G t"

definition decodeTask :: "gob \<Rightarrow> byte list \<Rightarrow> Task option" where
  "decodeTask G bs = gob_decode G bs"

section \<open>Records\<close>

definition encodeRecord :: "byte \<Rightarrow> byte list \<Rightarrow> byte list" where
  "encodeRecord op payload =
     walMagic @ [op] @ be32 (word_of_nat (length payload)) @ payload @
     be32 (crc_update (crc_update 0 [op]) payload)"

text \<open>
  The reader: the bytes not yet read, the count of \<^verbatim>\<open>countingReader\<close>, and the number of bytes
  after which the disk answers with a read error (\<^const>\<open>None\<close> if it never does).
\<close>

record reader =
  rData :: "byte list"
  rN :: nat
  rFault :: "nat option"

datatype ioError = IoEOF | IoUnexpectedEOF | IoDisk

definition countingReader_advance :: "reader \<Rightarrow> nat \<Rightarrow> reader" where
  "countingReader_advance r n =
     r\<lparr>rData := drop n (rData r), rN := rN r + n, rFault := map_option (\<lambda>k. k - n) (rFault r)\<rparr>"

text \<open>\<^verbatim>\<open>io.ReadFull\<close> of \<open>n > 0\<close> bytes.\<close>

definition ReadFull :: "reader \<Rightarrow> nat \<Rightarrow> ioError + (byte list \<times> reader)" where
  "ReadFull r n =
     (case rFault r of
        Some k \<Rightarrow>
          if n \<le> k \<and> n \<le> length (rData r) then Inr (take n (rData r), countingReader_advance r n)
          else if k \<le> length (rData r) then Inl IoDisk
          else if rData r = [] then Inl IoEOF else Inl IoUnexpectedEOF
      | None \<Rightarrow>
          if n \<le> length (rData r) then Inr (take n (rData r), countingReader_advance r n)
          else if rData r = [] then Inl IoEOF else Inl IoUnexpectedEOF)"

datatype readError = EOF | errCorrupt

definition maxPayload :: nat where
  "maxPayload = 64 * 2 ^ 20"

definition readRecord :: "gob \<Rightarrow> reader \<Rightarrow> readError + (LogEntry \<times> reader)" where
  "readRecord G r =
     (case ReadFull r (4 + 1 + 4) of
        Inl e \<Rightarrow> if e = IoEOF then Inl EOF else Inl errCorrupt
      | Inr (header, r1) \<Rightarrow>
          if take 4 header \<noteq> walMagic then Inl errCorrupt
          else
            let op = header ! 4; plen = unat (be32_read (drop 5 header)) in
            if plen > maxPayload then Inl errCorrupt
            else
              (case ReadFull r1 (plen + 4) of
                 Inl e \<Rightarrow> Inl errCorrupt
               | Inr (rest, r2) \<Rightarrow>
                   let payload = take plen rest; stored = be32_read (drop plen rest) in
                   if crc_update (crc_update 0 [op]) payload \<noteq> stored then Inl errCorrupt
                   else if op = OpEnqueue then
                     (case decodeTask G payload of
                        None \<Rightarrow> Inl errCorrupt
                      | Some t \<Rightarrow> Inr (\<lparr>eOp = op, eTaskID = ID t, eTask = Some t\<rparr>, r2))
                   else Inr (\<lparr>eOp = op, eTaskID = bytes_str payload, eTask = None\<rparr>, r2)))"

section \<open>The scan of Replay\<close>

lemma ReadFull_shrinks:
  "ReadFull r n = Inr (bs, r') \<Longrightarrow> length (rData r') + n = length (rData r) \<and> rN r' = rN r + n \<and> length bs = n"
  by (auto simp: ReadFull_def countingReader_advance_def split: option.splits if_splits)

lemma readRecord_shrinks:
  assumes "readRecord G r = Inr (e, r')"
  shows "length (rData r') < length (rData r)"
proof -
  from assms obtain header r1 rest where
    "ReadFull r (4 + 1 + 4) = Inr (header, r1)"
    "ReadFull r1 (unat (be32_read (drop 5 header)) + 4) = Inr (rest, r')"
    unfolding readRecord_def Let_def
    by (auto split: sum.splits prod.splits option.splits if_splits)
  then show ?thesis by (auto dest!: ReadFull_shrinks)
qed

text \<open>
  The loop of \<^verbatim>\<open>Replay\<close>: the entries read, the offset of the last valid record and whether the
  scan stopped at a bad record.
\<close>

function scan :: "gob \<Rightarrow> reader \<Rightarrow> LogEntry list \<Rightarrow> nat \<Rightarrow> LogEntry list \<times> nat \<times> bool" where
  "scan G r entries validOffset =
     (case readRecord G r of
        Inl EOF \<Rightarrow> (entries, validOffset, False)
      | Inl errCorrupt \<Rightarrow> (entries, validOffset, True)
      | Inr (entry, r') \<Rightarrow> scan G r' (entries @ [entry]) (rN r'))"
  by pat_completeness auto
termination
  by (relation "measure (\<lambda>(G, r, es, v). length (rData r))") (auto dest: readRecord_shrinks)

declare scan.simps [simp del]

definition file_reader :: "byte list \<Rightarrow> nat option \<Rightarrow> reader" where
  "file_reader file fault = \<lparr>rData = file, rN = 0, rFault = fault\<rparr>"

section \<open>Encoding of log entries\<close>

text \<open>
  The payload that \<^verbatim>\<open>AppendTaskNoSync\<close>, \<^verbatim>\<open>AppendIDNoSync\<close> and \<^verbatim>\<open>Rewrite\<close> write for an entry:
  the encoded task for an enqueue, the bytes of the task ID for the other operations.
\<close>

definition entryPayload :: "gob \<Rightarrow> LogEntry \<Rightarrow> byte list option" where
  "entryPayload G e =
     (if eOp e = OpEnqueue
      then (case eTask e of None \<Rightarrow> None | Some t \<Rightarrow> encodeTask G t)
      else Some (str_bytes (eTaskID e)))"

definition entryRecord :: "gob \<Rightarrow> LogEntry \<Rightarrow> byte list option" where
  "entryRecord G e = map_option (encodeRecord (eOp e)) (entryPayload G e)"

text \<open>Entries as the broker builds them, with a payload under the cap of \<^verbatim>\<open>readRecord\<close>.\<close>

definition entry_ok :: "gob \<Rightarrow> LogEntry \<Rightarrow> bool" where
  "entry_ok G e \<longleftrightarrow>
     (if eOp e = OpEnqueue then (case eTask e of None \<Rightarrow> False | Some t \<Rightarrow> eTaskID e = ID t)
      else eTask e = None) \<and>
     (case entryPayload G e of None \<Rightarrow> False | Some p \<Rightarrow> length p \<le> maxPayload)"

definition recordBytes :: "gob \<Rightarrow> LogEntry \<Rightarrow> byte list" where
  "recordBytes G e = (case entryRecord G e of None \<Rightarrow> [] | Some bs \<Rightarrow> bs)"

definition logBytes :: "gob \<Rightarrow> LogEntry list \<Rightarrow> byte list" where
  "logBytes G es = concat (map (recordBytes G) es)"

lemma logBytes_Nil [simp]: "logBytes G [] = []"
  by (simp add: logBytes_def)

lemma logBytes_append [simp]: "logBytes G (xs @ ys) = logBytes G xs @ logBytes G ys"
  by (simp add: logBytes_def)

lemma logBytes_Cons [simp]: "logBytes G (e # es) = recordBytes G e @ logBytes G es"
  by (simp add: logBytes_def)

section \<open>Reading back what was written\<close>

lemma unat_length_word:
  "length p \<le> maxPayload \<Longrightarrow> unat (word_of_nat (length p) :: 32 word) = length p"
  by (simp add: unat_of_nat take_bit_eq_mod maxPayload_def)

lemma ReadFull_append:
  "0 < n \<Longrightarrow> length xs = n \<Longrightarrow> ReadFull \<lparr>rData = xs @ ys, rN = k, rFault = None\<rparr> n =
     Inr (xs, \<lparr>rData = ys, rN = k + n, rFault = None\<rparr>)"
  by (simp add: ReadFull_def countingReader_advance_def)

lemma ReadFull_short:
  "length (rData r) < n \<Longrightarrow> rFault r = None \<Longrightarrow> \<exists>e. ReadFull r n = Inl e"
  by (simp add: ReadFull_def)

lemma length_encodeRecord [simp]: "length (encodeRecord op p) = 13 + length p"
  by (simp add: encodeRecord_def)

lemma encodeRecord_ne [simp]: "encodeRecord op p \<noteq> []"
  by (simp add: encodeRecord_def)

lemma header_fields:
  "length m = 4 \<Longrightarrow> take 4 (m @ op # bs) = m" "length m = 4 \<Longrightarrow> (m @ op # bs) ! 4 = op"
  "length m = 4 \<Longrightarrow> drop 5 (m @ op # bs) = bs"
  by (simp_all add: nth_append)

text \<open>What the reader makes of a record-shaped run of bytes with the right length field.\<close>

lemma readRecord_raw:
  assumes p: "length p \<le> maxPayload" and m: "length m = 4" and c: "length c = 4"
  shows "readRecord G \<lparr>rData = (m @ op # be32 (word_of_nat (length p))) @ (p @ c) @ rest, rN = k, rFault = None\<rparr> =
    (if m \<noteq> walMagic \<or> crc_update (crc_update 0 [op]) p \<noteq> be32_read c then Inl errCorrupt
     else let r' = \<lparr>rData = rest, rN = k + (13 + length p), rFault = None\<rparr> in
       if op = OpEnqueue
       then (case decodeTask G p of
               None \<Rightarrow> Inl errCorrupt
             | Some t \<Rightarrow> Inr (\<lparr>eOp = op, eTaskID = ID t, eTask = Some t\<rparr>, r'))
       else Inr (\<lparr>eOp = op, eTaskID = bytes_str p, eTask = None\<rparr>, r'))"
proof -
  let ?hdr = "m @ op # be32 (word_of_nat (length p))"
  have a: "ReadFull \<lparr>rData = ?hdr @ (p @ c) @ rest, rN = k, rFault = None\<rparr> (4 + 1 + 4) =
      Inr (?hdr, \<lparr>rData = (p @ c) @ rest, rN = k + (4 + 1 + 4), rFault = None\<rparr>)"
    using m by (intro ReadFull_append) auto
  have b: "ReadFull \<lparr>rData = (p @ c) @ rest, rN = k + (4 + 1 + 4), rFault = None\<rparr> (length p + 4) =
      Inr (p @ c, \<lparr>rData = rest, rN = k + (4 + 1 + 4) + (length p + 4), rFault = None\<rparr>)"
    using c by (intro ReadFull_append) auto
  show ?thesis
    unfolding readRecord_def a using p m c b
    by (simp add: header_fields unat_length_word Let_def split: option.splits)
qed

lemma encodeRecord_split:
  "encodeRecord op p = (walMagic @ op # be32 (word_of_nat (length p))) @
     (p @ be32 (crc_update (crc_update 0 [op]) p))"
  by (simp add: encodeRecord_def)

lemma readRecord_encodeRecord:
  assumes "length p \<le> maxPayload"
  shows "readRecord G \<lparr>rData = encodeRecord op p @ rest, rN = k, rFault = None\<rparr> =
    (let r' = \<lparr>rData = rest, rN = k + length (encodeRecord op p), rFault = None\<rparr> in
     if op = OpEnqueue
     then (case decodeTask G p of
             None \<Rightarrow> Inl errCorrupt
           | Some t \<Rightarrow> Inr (\<lparr>eOp = op, eTaskID = ID t, eTask = Some t\<rparr>, r'))
     else Inr (\<lparr>eOp = op, eTaskID = bytes_str p, eTask = None\<rparr>, r'))"
  using readRecord_raw [OF assms, of walMagic "be32 (crc_update (crc_update 0 [op]) p)" G op rest k]
  by (simp add: encodeRecord_split Let_def)

lemma readRecord_recordBytes:
  assumes "gob_roundtrip G" and "entry_ok G e"
  shows "readRecord G \<lparr>rData = recordBytes G e @ rest, rN = k, rFault = None\<rparr> =
    Inr (e, \<lparr>rData = rest, rN = k + length (recordBytes G e), rFault = None\<rparr>)"
proof (cases "eOp e = OpEnqueue")
  case True
  with assms obtain t p where t: "eTask e = Some t" "eTaskID e = ID t" "gob_encode G t = Some p"
      "gob_decode G p = Some t" "length p \<le> maxPayload"
    unfolding entry_ok_def entryPayload_def encodeTask_def gob_roundtrip_def
    by (auto split: option.splits) (metis option.inject)
  then have "recordBytes G e = encodeRecord OpEnqueue p"
    using True by (simp add: recordBytes_def entryRecord_def entryPayload_def encodeTask_def)
  moreover have "e = \<lparr>eOp = OpEnqueue, eTaskID = ID t, eTask = Some t\<rparr>"
    using True t by simp
  ultimately show ?thesis
    using t by (simp add: readRecord_encodeRecord decodeTask_def)
next
  case False
  with assms have t: "eTask e = None" "length (str_bytes (eTaskID e)) \<le> maxPayload"
    by (auto simp: entry_ok_def entryPayload_def split: option.splits)
  then have "recordBytes G e = encodeRecord (eOp e) (str_bytes (eTaskID e))"
    using False by (simp add: recordBytes_def entryRecord_def entryPayload_def)
  with t False show ?thesis by (simp add: readRecord_encodeRecord)
qed

section \<open>Torn and corrupt records\<close>

lemma readRecord_empty [simp]: "readRecord G \<lparr>rData = [], rN = k, rFault = None\<rparr> = Inl EOF"
  by (simp add: readRecord_def ReadFull_def)

lemma readRecord_torn:
  assumes "length p \<le> maxPayload" and "0 < m" and "m < length (encodeRecord op p)"
  shows "readRecord G \<lparr>rData = take m (encodeRecord op p), rN = k, rFault = None\<rparr> = Inl errCorrupt"
proof (cases "m < 9")
  case True
  then show ?thesis using assms by (simp add: readRecord_def ReadFull_def)
next
  case False
  let ?hdr = "walMagic @ op # be32 (word_of_nat (length p))"
  let ?tail = "p @ be32 (crc_update (crc_update 0 [op]) p)"
  have "length ?hdr = 9" by simp
  then have "take m (encodeRecord op p) = ?hdr @ take (m - 9) ?tail"
    using False by (simp only: encodeRecord_split take_append) simp
  then have a: "ReadFull \<lparr>rData = take m (encodeRecord op p), rN = k, rFault = None\<rparr> (4 + 1 + 4) =
      Inr (?hdr, \<lparr>rData = take (m - 9) ?tail, rN = k + 9, rFault = None\<rparr>)"
    using ReadFull_append [of 9 ?hdr "take (m - 9) ?tail" k] by simp
  have "length (take (m - 9) ?tail) < length p + 4"
    using assms(3) by (simp only: length_take length_append length_be32 length_encodeRecord)
  then have "\<exists>e. ReadFull \<lparr>rData = take (m - 9) ?tail, rN = k + 9, rFault = None\<rparr> (length p + 4) = Inl e"
    by (intro ReadFull_short) simp_all
  then show ?thesis
    unfolding readRecord_def a using assms(1)
    by (auto simp: header_fields unat_length_word Let_def)
qed

text \<open>What a crash in the middle of a write leaves: nothing, or a proper prefix of a record.\<close>

definition torn_tail :: "byte list \<Rightarrow> bool" where
  "torn_tail bs \<longleftrightarrow> bs = [] \<or> (\<exists>op p j. length p \<le> maxPayload \<and> 0 < j \<and>
     j < length (encodeRecord op p) \<and> bs = take j (encodeRecord op p))"

lemma torn_tail_Nil [simp]: "torn_tail []"
  by (simp add: torn_tail_def)

lemma torn_tail_take:
  "length p \<le> maxPayload \<Longrightarrow> j < length (encodeRecord op p) \<Longrightarrow> torn_tail (take j (encodeRecord op p))"
  unfolding torn_tail_def by (cases "j = 0") (simp, blast)

lemma readRecord_torn_tail:
  "torn_tail bs \<Longrightarrow> readRecord G \<lparr>rData = bs, rN = k, rFault = None\<rparr> =
     Inl (if bs = [] then EOF else errCorrupt)"
  unfolding torn_tail_def by (elim disjE exE conjE) (simp_all add: readRecord_torn)

text \<open>
  The scan of a file that holds the records of \<open>es\<close> and then a proper prefix of one more record
  (the trace of a crash in the middle of a write): exactly \<open>es\<close>, and the cut is at their end.
\<close>

lemma scan_logBytes:
  assumes G: "gob_roundtrip G" and "\<forall>e \<in> set es. entry_ok G e"
    and torn: "torn_tail tail"
  shows "scan G \<lparr>rData = logBytes G es @ tail, rN = k, rFault = None\<rparr> acc k =
    (acc @ es, k + length (logBytes G es), tail \<noteq> [])"
  using assms(2)
proof (induction es arbitrary: acc k)
  case Nil
  show ?case using readRecord_torn_tail [OF torn, of G k] by (subst scan.simps) simp
next
  case (Cons e es)
  let ?n = "length (recordBytes G e)"
  have "readRecord G \<lparr>rData = recordBytes G e @ logBytes G es @ tail, rN = k, rFault = None\<rparr> =
      Inr (e, \<lparr>rData = logBytes G es @ tail, rN = k + ?n, rFault = None\<rparr>)"
    using readRecord_recordBytes [OF G] Cons.prems by simp
  moreover have "scan G \<lparr>rData = logBytes G es @ tail, rN = k + ?n, rFault = None\<rparr> (acc @ [e]) (k + ?n) =
      ((acc @ [e]) @ es, (k + ?n) + length (logBytes G es), tail \<noteq> [])"
    using Cons.prems by (intro Cons.IH) simp
  ultimately show ?case by (subst scan.simps) simp
qed

lemma upd_middle:
  assumes "i < length ys"
  shows "(xs @ ys @ zs)[length xs + i := v] = xs @ ys[i := v] @ zs"
    and "(xs @ ys @ zs) ! (length xs + i) = ys ! i"
  using assms by (simp_all add: list_update_append nth_append)

lemma crc_two_writes: "crc_update (crc_update 0 [op]) p = crc_update 0 (op # p)"
  by (simp add: crc_update_append)

text \<open>
  One damaged byte at \<open>j\<close> in the magic, in the type byte with the payload, or in the checksum.
\<close>

lemma damaged_magic:
  assumes "length p \<le> maxPayload" "j < 4" "v \<noteq> walMagic ! j" "length c = 4"
  shows "readRecord G \<lparr>rData = (walMagic[j := v] @ op # be32 (word_of_nat (length p))) @ (p @ c) @ rest,
    rN = k, rFault = None\<rparr> = Inl errCorrupt"
proof -
  have "walMagic[j := v] ! j \<noteq> walMagic ! j" using assms by simp
  then have "walMagic[j := v] \<noteq> walMagic" by metis
  then show ?thesis using assms by (subst readRecord_raw) simp_all
qed

lemma damaged_body:
  assumes "length q = length p" "length q \<le> maxPayload" "length c = 4"
    and "crc_update 0 (o' # q) \<noteq> be32_read c"
  shows "readRecord G \<lparr>rData = (walMagic @ o' # be32 (word_of_nat (length p))) @ (q @ c) @ rest,
    rN = k, rFault = None\<rparr> = Inl errCorrupt"
proof -
  have "readRecord G \<lparr>rData = (walMagic @ o' # be32 (word_of_nat (length q))) @ (q @ c) @ rest,
    rN = k, rFault = None\<rparr> = Inl errCorrupt"
    using assms by (subst readRecord_raw) (simp_all only: crc_two_writes length_walMagic if_True simp_thms)
  then show ?thesis by (simp only: assms(1))
qed

text \<open>A record with one damaged byte outside its length field is never accepted.\<close>

lemma readRecord_damaged:
  assumes p: "length p \<le> maxPayload" and i: "i < length (encodeRecord op p)" "i \<notin> {5..8}"
    and v: "v \<noteq> encodeRecord op p ! i"
  shows "readRecord G \<lparr>rData = (encodeRecord op p)[i := v] @ rest, rN = k, rFault = None\<rparr> = Inl errCorrupt"
proof -
  let ?l = "be32 (word_of_nat (length p))" and ?s = "crc_update 0 (op # p)"
  have enc: "encodeRecord op p = walMagic @ op # ?l @ p @ be32 ?s"
    unfolding encodeRecord_def crc_two_writes by simp
  have "i < 13 + length p" "i \<le> 4 \<or> 9 \<le> i" using i by auto
  then consider (magic) "i < 4" | (op) "i = 4" | (payload) "9 \<le> i" "i < 9 + length p"
    | (sum) "9 + length p \<le> i" "i < 13 + length p" by linarith
  then show ?thesis
  proof cases
    case magic
    then have "(encodeRecord op p)[i := v] = walMagic[i := v] @ op # ?l @ p @ be32 ?s"
      "encodeRecord op p ! i = walMagic ! i"
      using upd_middle [of i walMagic "[]"] unfolding enc by simp_all
    with magic p v damaged_magic [of p i v "be32 ?s" G op rest k] show ?thesis by simp
  next
    case op
    then have "(encodeRecord op p)[i := v] = walMagic @ v # ?l @ p @ be32 ?s" "encodeRecord op p ! i = op"
      using upd_middle [of 0 "[op]" walMagic] unfolding enc by simp_all
    moreover from this v have "crc_update 0 (v # p) \<noteq> ?s"
      using crc_detects_byte [of 0 "[]" v p op] by auto
    ultimately show ?thesis using p damaged_body [of p p "be32 ?s" v G rest k] by simp
  next
    case payload
    then obtain j where j: "i = 9 + j" "j < length p" by (metis le_iff_add add_less_cancel_left)
    then have "(encodeRecord op p)[i := v] = walMagic @ op # ?l @ p[j := v] @ be32 ?s"
      "encodeRecord op p ! i = p ! j"
      using upd_middle [of j p "walMagic @ op # ?l"] unfolding enc by simp_all
    moreover from this v j have "crc_update 0 ((op # p)[Suc j := v]) \<noteq> ?s"
      by (intro crc_detects_update) auto
    ultimately show ?thesis using p damaged_body [of "p[j := v]" p "be32 ?s" op G rest k] by simp
  next
    case sum
    then obtain j where j: "i = 9 + length p + j" by (metis le_iff_add)
    with sum have "j < 4" by linarith
    with j have "(encodeRecord op p)[i := v] = walMagic @ op # ?l @ p @ (be32 ?s)[j := v]"
      "encodeRecord op p ! i = be32 ?s ! j"
      using upd_middle [of j "be32 ?s" "walMagic @ op # ?l @ p" "[]"] unfolding enc by simp_all
    moreover from this v \<open>j < 4\<close> have "(be32 ?s)[j := v] ! j \<noteq> be32 ?s ! j" by simp
    then have "?s \<noteq> be32_read ((be32 ?s)[j := v])"
      by (metis be32_read_roundtrip length_be32 length_list_update)
    ultimately show ?thesis using p damaged_body [of p p "(be32 ?s)[j := v]" op G rest k] by simp
  qed
qed

end
