(* ===== verification/Wal_Log.thy ===== *)
theory Wal_Log
  imports Wal_Codec
begin

text \<open>
  The write-ahead log as an object, \<^verbatim>\<open>src/broker/wal.go\<close>: open, append, \<^verbatim>\<open>WaitSync\<close>, \<^verbatim>\<open>Replay\<close> and
  \<^verbatim>\<open>Rewrite\<close> on an explicit disk. Every call that the operating system may refuse takes its
  outcome as an argument. The locale \<open>entry_log\<close> is what the broker relies on.

  The disk: \<open>wDisk\<close> is the file that the path names. The open handle normally refers to that
  file; \<open>wOrphan = Some c\<close> says that it refers to a file of content \<open>c\<close> that no longer has a
  name. \<open>wDurable\<close> is the number of bytes of \<open>wDisk\<close> that a completed \<^verbatim>\<open>fsync\<close> covers. The
  sequence numbers are \<^typ>\<open>nat\<close>: the source's \<^verbatim>\<open>uint64\<close> counters do not wrap in the life of a log.
\<close>

section \<open>State and outcomes\<close>

datatype walError =
    WalOpen | WalEncode | WalWrite | WalFsync
  | WalSeek | WalTruncate | WalFsyncTruncate | WalSeekEnd
  | WalTempCreate | WalTempWrite | WalTempSync | WalTempClose | WalRename | WalReopen

record WAL =
  wDisk :: "byte list"
  wOrphan :: "byte list option"
  wDurable :: nat
  wEntries :: nat
  wWriteSeq :: nat
  wSyncedSeq :: nat
  wSyncing :: bool
  wSyncErr :: bool

text \<open>A write goes through, or fails after the first \<open>k\<close> bytes reached the file.\<close>

datatype writeOutcome = WriteOk | WriteErr nat

datatype rewriteOutcome =
    RewriteOk | TempCreateErr | TempWriteErr | TempSyncErr | TempCloseErr | RenameErr | ReopenErr

record replayIO =
  rioSeek :: bool
  rioFault :: "nat option"
  rioTruncate :: bool
  rioSync :: bool
  rioSeekEnd :: bool

definition replayOk :: replayIO where
  "replayOk = \<lparr>rioSeek = True, rioFault = None, rioTruncate = True, rioSync = True, rioSeekEnd = True\<rparr>"

section \<open>Operations\<close>

definition OpenWAL :: "bool \<Rightarrow> byte list option \<Rightarrow> walError + WAL" where
  "OpenWAL ok file =
     (if \<not> ok then Inl WalOpen
      else let c = (case file of None \<Rightarrow> [] | Some c \<Rightarrow> c) in
        Inr \<lparr>wDisk = c, wOrphan = None, wDurable = length c, wEntries = 0, wWriteSeq = 0,
             wSyncedSeq = 0, wSyncing = False, wSyncErr = False\<rparr>)"

text \<open>What the open handle reads and writes.\<close>

definition handleContent :: "WAL \<Rightarrow> byte list" where
  "handleContent w = (case wOrphan w of None \<Rightarrow> wDisk w | Some c \<Rightarrow> c)"

definition handleWrite :: "byte list \<Rightarrow> WAL \<Rightarrow> WAL" where
  "handleWrite bs w =
     (case wOrphan w of
        None \<Rightarrow> w\<lparr>wDisk := wDisk w @ bs\<rparr>
      | Some c \<Rightarrow> w\<lparr>wOrphan := Some (c @ bs)\<rparr>)"

definition handleTruncate :: "nat \<Rightarrow> WAL \<Rightarrow> WAL" where
  "handleTruncate n w =
     (case wOrphan w of
        None \<Rightarrow> w\<lparr>wDisk := take n (wDisk w), wDurable := min n (wDurable w)\<rparr>
      | Some c \<Rightarrow> w\<lparr>wOrphan := Some (take n c)\<rparr>)"

definition handleSync :: "WAL \<Rightarrow> WAL" where
  "handleSync w = (case wOrphan w of None \<Rightarrow> w\<lparr>wDurable := length (wDisk w)\<rparr> | Some c \<Rightarrow> w)"

definition appendNoSync :: "writeOutcome \<Rightarrow> WAL \<Rightarrow> byte \<Rightarrow> byte list \<Rightarrow> (walError + nat) \<times> WAL" where
  "appendNoSync out w op payload =
     (let rec = encodeRecord op payload in
      case out of
        WriteErr k \<Rightarrow> (Inl WalWrite, handleWrite (take k rec) w)
      | WriteOk \<Rightarrow>
          let w' = (handleWrite rec w)\<lparr>wEntries := wEntries w + 1, wWriteSeq := wWriteSeq w + 1\<rparr>
          in (Inr (wWriteSeq w'), w'))"

definition AppendTaskNoSync ::
  "gob \<Rightarrow> writeOutcome \<Rightarrow> WAL \<Rightarrow> byte \<Rightarrow> Task \<Rightarrow> (walError + nat) \<times> WAL" where
  "AppendTaskNoSync G out w op t =
     (case encodeTask G t of
        None \<Rightarrow> (Inl WalEncode, w)
      | Some payload \<Rightarrow> appendNoSync out w op payload)"

definition AppendIDNoSync :: "writeOutcome \<Rightarrow> WAL \<Rightarrow> byte \<Rightarrow> string \<Rightarrow> (walError + nat) \<times> WAL" where
  "AppendIDNoSync out w op taskID = appendNoSync out w op (str_bytes taskID)"

text \<open>
  \<^verbatim>\<open>WaitSync\<close> takes four steps between its lock operations: become the sync leader, note the
  sequence number covered, \<^verbatim>\<open>fsync\<close>, and publish the result.
\<close>

definition syncBegin :: "WAL \<Rightarrow> WAL" where
  "syncBegin w = w\<lparr>wSyncing := True\<rparr>"

definition syncCovered :: "WAL \<Rightarrow> nat" where
  "syncCovered w = wWriteSeq w"

definition syncEnd :: "bool \<Rightarrow> nat \<Rightarrow> WAL \<Rightarrow> WAL" where
  "syncEnd ok covered w =
     (let w1 = w\<lparr>wSyncing := False\<rparr> in
      if \<not> ok then w1\<lparr>wSyncErr := True\<rparr>
      else if covered > wSyncedSeq w then w1\<lparr>wSyncedSeq := covered\<rparr> else w1)"

definition syncRound :: "bool \<Rightarrow> WAL \<Rightarrow> WAL" where
  "syncRound ok w =
     (let w1 = syncBegin w;
          covered = syncCovered w1;
          w2 = (if ok then handleSync w1 else w1)
      in syncEnd ok covered w2)"

text \<open>
  One caller alone: the list holds the outcomes of the fsyncs to come. \<^const>\<open>None\<close> is a caller
  that is still blocked, on the condition variable or in an fsync that has not returned.
\<close>

fun WaitSync :: "bool list \<Rightarrow> WAL \<Rightarrow> nat \<Rightarrow> (walError option \<times> WAL) option" where
  "WaitSync outs w seq =
     (if wSyncErr w then Some (Some WalFsync, w)
      else if wSyncedSeq w \<ge> seq then Some (None, w)
      else if wSyncing w then None
      else (case outs of
              [] \<Rightarrow> None
            | ok # outs' \<Rightarrow> WaitSync outs' (syncRound ok w) seq))"

declare WaitSync.simps [simp del]

definition AppendTask ::
  "gob \<Rightarrow> writeOutcome \<Rightarrow> bool list \<Rightarrow> WAL \<Rightarrow> byte \<Rightarrow> Task \<Rightarrow> (walError option \<times> WAL) option" where
  "AppendTask G out outs w op t =
     (case AppendTaskNoSync G out w op t of
        (Inl e, w') \<Rightarrow> Some (Some e, w')
      | (Inr seq, w') \<Rightarrow> WaitSync outs w' seq)"

definition AppendID ::
  "writeOutcome \<Rightarrow> bool list \<Rightarrow> WAL \<Rightarrow> byte \<Rightarrow> string \<Rightarrow> (walError option \<times> WAL) option" where
  "AppendID out outs w op taskID =
     (case AppendIDNoSync out w op taskID of
        (Inl e, w') \<Rightarrow> Some (Some e, w')
      | (Inr seq, w') \<Rightarrow> WaitSync outs w' seq)"

definition EntriesSinceOpen :: "WAL \<Rightarrow> nat" where
  "EntriesSinceOpen w = wEntries w"

definition Replay :: "gob \<Rightarrow> replayIO \<Rightarrow> WAL \<Rightarrow> (walError + LogEntry list) \<times> WAL" where
  "Replay G io w =
     (if \<not> rioSeek io then (Inl WalSeek, w)
      else
        let (entries, validOffset, bad) = scan G (file_reader (handleContent w) (rioFault io)) [] 0 in
        if bad \<and> \<not> rioTruncate io then (Inl WalTruncate, w)
        else
          let w1 = (if bad then handleTruncate validOffset w else w) in
          if bad \<and> \<not> rioSync io then (Inl WalFsyncTruncate, w1)
          else
            let w2 = (if bad then handleSync w1 else w1) in
            if \<not> rioSeekEnd io then (Inl WalSeekEnd, w2) else (Inr entries, w2))"

text \<open>The bytes that \<^verbatim>\<open>Rewrite\<close> puts into its temporary file, or nothing when a task does not encode.\<close>

fun tempBytes :: "gob \<Rightarrow> LogEntry list \<Rightarrow> byte list option" where
  "tempBytes G [] = Some []"
| "tempBytes G (e # es) =
     (case entryPayload G e of
        None \<Rightarrow> None
      | Some payload \<Rightarrow> map_option (\<lambda>bs. encodeRecord (eOp e) payload @ bs) (tempBytes G es))"

text \<open>
  \<^verbatim>\<open>Rewrite\<close>, entered when no sync leader is active (it waits for that first). The directory
  fsync is best effort and has no result.
\<close>

definition Rewrite :: "gob \<Rightarrow> rewriteOutcome \<Rightarrow> LogEntry list \<Rightarrow> WAL \<Rightarrow> walError option \<times> WAL" where
  "Rewrite G out entries w =
     (if out = TempCreateErr then (Some WalTempCreate, w)
      else case tempBytes G entries of
        None \<Rightarrow> (Some WalEncode, w)
      | Some bs \<Rightarrow>
          (case out of
             TempWriteErr \<Rightarrow> (Some WalTempWrite, w)
           | TempSyncErr \<Rightarrow> (Some WalTempSync, w)
           | TempCloseErr \<Rightarrow> (Some WalTempClose, w)
           | RenameErr \<Rightarrow> (Some WalRename, w)
           | ReopenErr \<Rightarrow>
               (Some WalReopen,
                w\<lparr>wDisk := bs, wDurable := length bs, wOrphan := Some (handleContent w)\<rparr>)
           | _ \<Rightarrow>
               (None,
                w\<lparr>wDisk := bs, wDurable := length bs, wOrphan := None, wEntries := 0,
                  wSyncedSeq := wWriteSeq w\<rparr>)))"

text \<open>
  A crash keeps a prefix of the file that the path names, at least the bytes an fsync covered.
\<close>

definition crashFile :: "WAL \<Rightarrow> nat \<Rightarrow> byte list" where
  "crashFile w k = take (max k (wDurable w)) (wDisk w)"

section \<open>The log as a list of entries\<close>

definition wal_log :: "gob \<Rightarrow> WAL \<Rightarrow> LogEntry list" where
  "wal_log G w = fst (scan G (file_reader (wDisk w) None) [] 0)"

definition wal_invar :: "gob \<Rightarrow> WAL \<Rightarrow> bool" where
  "wal_invar G w \<longleftrightarrow>
     gob_roundtrip G \<and> wOrphan w = None \<and> wDurable w \<le> length (wDisk w) \<and>
     (\<exists>es. (\<forall>e \<in> set es. entry_ok G e) \<and> wDisk w = logBytes G es)"

text \<open>Between two calls: once the last write is synced, an fsync covers the whole file.\<close>

definition seq_ok :: "WAL \<Rightarrow> bool" where
  "seq_ok w \<longleftrightarrow>
     \<not> wSyncing w \<and> wSyncedSeq w \<le> wWriteSeq w \<and>
     (wSyncedSeq w = wWriteSeq w \<longrightarrow> wDurable w = length (wDisk w))"

text \<open>Appending an entry the way the broker does, by its operation.\<close>

definition appendEntry :: "gob \<Rightarrow> writeOutcome \<Rightarrow> LogEntry \<Rightarrow> WAL \<Rightarrow> (walError + nat) \<times> WAL" where
  "appendEntry G out e w =
     (case eTask e of
        Some t \<Rightarrow> AppendTaskNoSync G out w (eOp e) t
      | None \<Rightarrow> AppendIDNoSync out w (eOp e) (eTaskID e))"

lemma scan_file:
  assumes "gob_roundtrip G" and "\<forall>e \<in> set es. entry_ok G e"
  shows "scan G (file_reader (logBytes G es) None) [] 0 = (es, length (logBytes G es), False)"
  using scan_logBytes [OF assms, of "[]" 0 "[]"] by (simp add: file_reader_def)

lemma wal_log_eq:
  "gob_roundtrip G \<Longrightarrow> \<forall>e \<in> set es. entry_ok G e \<Longrightarrow> wDisk w = logBytes G es \<Longrightarrow> wal_log G w = es"
  by (simp add: wal_log_def scan_file)

lemma wal_invarD:
  assumes "wal_invar G w"
  shows "gob_roundtrip G" "wOrphan w = None" "wDisk w = logBytes G (wal_log G w)"
    "\<forall>e \<in> set (wal_log G w). entry_ok G e"
  using assms wal_log_eq by (auto simp: wal_invar_def)

lemma wal_invarI:
  "gob_roundtrip G \<Longrightarrow> wOrphan w = None \<Longrightarrow> wDurable w \<le> length (wDisk w) \<Longrightarrow>
   wDisk w = logBytes G es \<Longrightarrow> \<forall>e \<in> set es. entry_ok G e \<Longrightarrow> wal_invar G w \<and> wal_log G w = es"
  using wal_log_eq by (auto simp: wal_invar_def)

lemma recordBytes_payload:
  "entryPayload G e = Some p \<Longrightarrow> recordBytes G e = encodeRecord (eOp e) p"
  by (simp add: recordBytes_def entryRecord_def)

lemma entry_ok_payload: "entry_ok G e \<Longrightarrow> \<exists>p. entryPayload G e = Some p \<and> length p \<le> maxPayload"
  by (auto simp: entry_ok_def split: option.splits)

lemma appendEntry_payload:
  assumes "entry_ok G e" and "entryPayload G e = Some p"
  shows "appendEntry G out e w = appendNoSync out w (eOp e) p"
  using assms
  by (auto simp: appendEntry_def entry_ok_def entryPayload_def AppendTaskNoSync_def AppendIDNoSync_def
      split: option.splits if_splits)

lemma appendEntry_ok:
  assumes w: "wal_invar G w" and e: "entry_ok G e"
  shows "\<exists>w'. appendEntry G WriteOk e w = (Inr (wWriteSeq w + 1), w') \<and> wal_invar G w' \<and>
    wal_log G w' = wal_log G w @ [e] \<and> wEntries w' = wEntries w + 1 \<and> wWriteSeq w' = wWriteSeq w + 1 \<and>
    wSyncedSeq w' = wSyncedSeq w \<and> wSyncing w' = wSyncing w \<and> wSyncErr w' = wSyncErr w \<and>
    wDurable w' = wDurable w"
proof -
  obtain p where p: "entryPayload G e = Some p" using entry_ok_payload [OF e] by blast
  let ?w' = "w\<lparr>wDisk := wDisk w @ recordBytes G e, wEntries := wEntries w + 1, wWriteSeq := wWriteSeq w + 1\<rparr>"
  have "appendEntry G WriteOk e w = (Inr (wWriteSeq w + 1), ?w')"
    using wal_invarD(2) [OF w] p
    by (simp add: appendEntry_payload [OF e p] appendNoSync_def handleWrite_def recordBytes_payload)
  moreover have "wal_invar G ?w' \<and> wal_log G ?w' = wal_log G w @ [e]"
    using w e wal_invarD [OF w] by (intro wal_invarI) (auto simp: wal_invar_def)
  ultimately show ?thesis by (intro exI [of _ ?w']) simp
qed

lemma tempBytes_ok: "\<forall>e \<in> set es. entry_ok G e \<Longrightarrow> tempBytes G es = Some (logBytes G es)"
proof (induction es)
  case (Cons e es)
  then obtain p where "entryPayload G e = Some p" using entry_ok_payload by fastforce
  with Cons show ?case by (simp add: recordBytes_payload)
qed simp

lemma Rewrite_ok:
  assumes "gob_roundtrip G" and "\<forall>e \<in> set es. entry_ok G e"
  shows "\<exists>w'. Rewrite G RewriteOk es w = (None, w') \<and> wal_invar G w' \<and> wal_log G w' = es \<and>
    wEntries w' = 0 \<and> wWriteSeq w' = wWriteSeq w \<and> wSyncedSeq w' = wWriteSeq w \<and>
    wSyncing w' = wSyncing w \<and> wSyncErr w' = wSyncErr w \<and> wDurable w' = length (wDisk w')"
proof -
  let ?bs = "logBytes G es"
  let ?w' = "w\<lparr>wDisk := ?bs, wDurable := length ?bs, wOrphan := None, wEntries := 0,
    wSyncedSeq := wWriteSeq w\<rparr>"
  have "Rewrite G RewriteOk es w = (None, ?w')"
    using assms by (simp add: Rewrite_def tempBytes_ok)
  moreover have "wal_invar G ?w' \<and> wal_log G ?w' = es"
    using assms by (intro wal_invarI) auto
  ultimately show ?thesis by (intro exI [of _ ?w']) simp
qed

section \<open>Replay\<close>

lemma Replay_ok:
  assumes w: "wal_invar G w"
  shows "Replay G replayOk w = (Inr (wal_log G w), w)"
  using wal_invarD [OF w] scan_file [of G "wal_log G w"]
  by (simp add: Replay_def replayOk_def handleContent_def)

text \<open>A file that a crash cut at byte \<open>n\<close>: whole records, then a proper prefix of the next one.\<close>

lemma logBytes_cut:
  assumes "\<forall>e \<in> set es. entry_ok G e"
  shows "\<exists>m tail. m \<le> length es \<and> take n (logBytes G es) = logBytes G (take m es) @ tail \<and>
    torn_tail tail \<and> (\<forall>i \<le> length es. length (logBytes G (take i es)) \<le> n \<longrightarrow> i \<le> m)"
  using assms
proof (induction es arbitrary: n)
  case Nil
  show ?case by (intro exI [of _ 0] exI [of _ "[]"]) (simp add: torn_tail_def)
next
  case (Cons e es)
  obtain p where p: "recordBytes G e = encodeRecord (eOp e) p" "length p \<le> maxPayload"
    using entry_ok_payload [of G e] recordBytes_payload Cons.prems by fastforce
  let ?r = "recordBytes G e"
  show ?case
  proof (cases "n < length ?r")
    case True
    have "i = 0" if "i \<le> length (e # es)" "length (logBytes G (take i (e # es))) \<le> n" for i
      using that True by (cases i) auto
    moreover have "torn_tail (take n ?r)" 
      unfolding p(1) using True p by (intro torn_tail_take) auto
    ultimately show ?thesis
      using True by (intro exI [of _ 0] exI [of _ "take n ?r"]) auto
  next
    case False
    have "\<forall>e \<in> set es. entry_ok G e" using Cons.prems by simp
    from Cons.IH [OF this, of "n - length ?r"] obtain m tail where m: "m \<le> length es" "take (n - length ?r) (logBytes G es) = logBytes G (take m es) @ tail"
      "torn_tail tail" "\<forall>i \<le> length es. length (logBytes G (take i es)) \<le> n - length ?r \<longrightarrow> i \<le> m"
      by (elim exE conjE)
    have "\<forall>i \<le> length (e # es). length (logBytes G (take i (e # es))) \<le> n \<longrightarrow> i \<le> Suc m"
    proof (intro allI impI)
      fix i assume i: "i \<le> length (e # es)" "length (logBytes G (take i (e # es))) \<le> n"
      show "i \<le> Suc m"
      proof (cases i)
        case (Suc j)
        with i have "j \<le> length es" "length (logBytes G (take j es)) \<le> n - length ?r" by simp_all
        with m(4) Suc show ?thesis by simp
      qed simp
    qed
    moreover have "take n (logBytes G (e # es)) = logBytes G (take (Suc m) (e # es)) @ tail"
      using m(2) False by simp
    moreover have "Suc m \<le> length (e # es)" using m(1) by simp
    ultimately show ?thesis using m(3) by (intro exI [of _ "Suc m"] exI [of _ tail] conjI) simp_all
  qed
qed

text \<open>
  Recovery after a crash: opening what is left of the file and replaying it yields a prefix of
  the log with every record that lies inside the durable part, and leaves exactly that prefix on
  disk.
\<close>

lemma Replay_crash:
  assumes w: "wal_invar G w" and "OpenWAL True (Some (crashFile w k)) = Inr w0"
  shows "\<exists>m w'. m \<le> length (wal_log G w) \<and> Replay G replayOk w0 = (Inr (take m (wal_log G w)), w') \<and>
    wal_invar G w' \<and> wal_log G w' = take m (wal_log G w) \<and> seq_ok w' \<and> wDurable w' = length (wDisk w') \<and>
    (\<forall>i \<le> length (wal_log G w). length (logBytes G (take i (wal_log G w))) \<le> wDurable w \<longrightarrow> i \<le> m)"
proof -
  let ?es = "wal_log G w" and ?n = "max k (wDurable w)"
  obtain m tail where m: "m \<le> length ?es" "take ?n (logBytes G ?es) = logBytes G (take m ?es) @ tail"
    "torn_tail tail" "\<forall>i \<le> length ?es. length (logBytes G (take i ?es)) \<le> ?n \<longrightarrow> i \<le> m"
    using logBytes_cut [OF wal_invarD(4) [OF w], of ?n] by blast
  have w0: "wDisk w0 = logBytes G (take m ?es) @ tail" "wOrphan w0 = None"
    "wDurable w0 = length (wDisk w0)" "wSyncedSeq w0 = 0" "wWriteSeq w0 = 0" "\<not> wSyncing w0"
    using assms(2) m(2) wal_invarD(3) [OF w] by (auto simp: OpenWAL_def crashFile_def Let_def)
  have ok: "\<forall>e \<in> set (take m ?es). entry_ok G e"
    using wal_invarD(4) [OF w] by (meson in_set_takeD)
  have scan: "scan G (file_reader (handleContent w0) None) [] 0 =
      (take m ?es, length (logBytes G (take m ?es)), tail \<noteq> [])"
    using scan_logBytes [OF wal_invarD(1) [OF w] ok m(3), of 0 "[]"] w0
    by (simp add: file_reader_def handleContent_def)
  let ?w' = "if tail \<noteq> [] then handleSync (handleTruncate (length (logBytes G (take m ?es))) w0) else w0"
  have "Replay G replayOk w0 = (Inr (take m ?es), ?w')"
    unfolding Replay_def replayOk_def using scan by simp
  moreover have "wal_invar G ?w' \<and> wal_log G ?w' = take m ?es"
    using w0 wal_invarD(1) [OF w] ok
    by (intro wal_invarI) (auto simp: handleSync_def handleTruncate_def)
  moreover have "seq_ok ?w'" "wDurable ?w' = length (wDisk ?w')"
    using w0 by (auto simp: seq_ok_def handleSync_def handleTruncate_def)
  ultimately show ?thesis using m(1,4) by (intro exI [of _ m] exI [of _ ?w']) auto
qed

section \<open>WaitSync\<close>

lemma syncRound_simps [simp]:
  "wWriteSeq (syncRound ok w) = wWriteSeq w" "wSyncing (syncRound ok w) = False"
  "wDisk (syncRound ok w) = wDisk w" "wOrphan (syncRound ok w) = wOrphan w"
  "wEntries (syncRound ok w) = wEntries w"
  "wSyncErr (syncRound ok w) = (wSyncErr w \<or> \<not> ok)"
  "wSyncedSeq (syncRound ok w) = (if ok then max (wWriteSeq w) (wSyncedSeq w) else wSyncedSeq w)"
  by (auto simp: syncRound_def syncBegin_def syncCovered_def syncEnd_def handleSync_def Let_def
      split: option.splits)

lemma syncRound_durable:
  "wOrphan w = None \<Longrightarrow> wDurable (syncRound ok w) = (if ok then length (wDisk w) else wDurable w)"
  by (simp add: syncRound_def syncBegin_def syncCovered_def syncEnd_def handleSync_def Let_def)

lemma syncRound_invar:
  assumes "wal_invar G w"
  shows "wal_invar G (syncRound ok w) \<and> wal_log G (syncRound ok w) = wal_log G w"
  using wal_invarD [OF assms] assms
  by (intro wal_invarI) (auto simp: syncRound_durable wal_invar_def)

text \<open>A caller whose record is written needs at most one fsync to return.\<close>

lemma WaitSync_returns:
  assumes "\<not> wSyncing w" and "seq \<le> wWriteSeq w"
  shows "WaitSync (ok # outs) w seq =
    Some (if wSyncErr w then (Some WalFsync, w)
          else if seq \<le> wSyncedSeq w then (None, w)
          else if ok then (None, syncRound True w)
          else (Some WalFsync, syncRound False w))"
  using assms by (subst WaitSync.simps) (auto simp: WaitSync.simps [of outs] max_def)

lemma WaitSync_poisoned: "wSyncErr w \<Longrightarrow> WaitSync outs w seq = Some (Some WalFsync, w)"
  by (subst WaitSync.simps) simp

lemma WaitSync_invar:
  "wal_invar G w \<Longrightarrow> WaitSync outs w seq = Some (r, w') \<Longrightarrow>
   wal_invar G w' \<and> wal_log G w' = wal_log G w \<and> wDisk w' = wDisk w \<and> wEntries w' = wEntries w \<and>
   wWriteSeq w' = wWriteSeq w \<and> (wSyncing w \<or> \<not> wSyncing w') \<and> (wSyncErr w \<longrightarrow> wSyncErr w')"
proof (induction outs arbitrary: w)
  case Nil
  then show ?case by (subst (asm) WaitSync.simps) (auto split: if_splits)
next
  case (Cons ok outs)
  show ?case
  proof (cases "wSyncErr w \<or> seq \<le> wSyncedSeq w \<or> wSyncing w")
    case True
    with Cons.prems show ?thesis by (subst (asm) WaitSync.simps) (auto split: if_splits)
  next
    case False
    with Cons.prems(2) have "WaitSync outs (syncRound ok w) seq = Some (r, w')"
      by (subst (asm) WaitSync.simps) simp
    from Cons.IH [OF _ this] show ?thesis
      using syncRound_invar [OF Cons.prems(1), of ok] False by simp
  qed
qed

lemma syncRound_seq_ok: "wOrphan w = None \<Longrightarrow> seq_ok w \<Longrightarrow> seq_ok (syncRound ok w)"
  by (auto simp: seq_ok_def syncRound_durable max_def)

lemma WaitSync_seq_ok:
  "wOrphan w = None \<Longrightarrow> seq_ok w \<Longrightarrow> WaitSync outs w seq = Some (r, w') \<Longrightarrow> seq_ok w'"
proof (induction outs arbitrary: w)
  case Nil
  then show ?case by (subst (asm) WaitSync.simps) (auto split: if_splits)
next
  case (Cons ok outs)
  show ?case
  proof (cases "wSyncErr w \<or> seq \<le> wSyncedSeq w \<or> wSyncing w")
    case True
    with Cons.prems show ?thesis by (subst (asm) WaitSync.simps) (auto split: if_splits)
  next
    case False
    with Cons.prems(3) have "WaitSync outs (syncRound ok w) seq = Some (r, w')"
      by (subst (asm) WaitSync.simps) simp
    from Cons.IH [OF _ syncRound_seq_ok [OF Cons.prems(1,2)] this] Cons.prems(1) show ?thesis by simp
  qed
qed

text \<open>A caller that returns without an error finds its sequence number synced.\<close>

lemma WaitSync_synced: "WaitSync outs w seq = Some (None, w') \<Longrightarrow> seq \<le> wSyncedSeq w'"
proof (induction outs arbitrary: w)
  case Nil
  then show ?case by (subst (asm) WaitSync.simps) (auto split: if_splits)
next
  case (Cons ok outs)
  show ?case
  proof (cases "wSyncErr w \<or> seq \<le> wSyncedSeq w \<or> wSyncing w")
    case True
    with Cons.prems show ?thesis by (subst (asm) WaitSync.simps) (auto split: if_splits)
  next
    case False
    with Cons.prems have "WaitSync outs (syncRound ok w) seq = Some (None, w')"
      by (subst (asm) WaitSync.simps) simp
    then show ?thesis by (rule Cons.IH)
  qed
qed

section \<open>What the broker relies on\<close>

text \<open>
  A log of entries: appending adds one at the end, rewriting replaces them all. A client that
  keeps its state as a fold over the entries can read off what both do to that state.
\<close>

locale entry_log =
  fixes invar :: "'w \<Rightarrow> bool"
    and entries :: "'w \<Rightarrow> 'e list"
    and ok :: "'e \<Rightarrow> bool"
    and append :: "'e \<Rightarrow> 'w \<Rightarrow> 'w"
    and rewrite :: "'e list \<Rightarrow> 'w \<Rightarrow> 'w"
  assumes append_invar: "invar w \<Longrightarrow> ok e \<Longrightarrow> invar (append e w)"
    and append_entries: "invar w \<Longrightarrow> ok e \<Longrightarrow> entries (append e w) = entries w @ [e]"
    and rewrite_invar: "invar w \<Longrightarrow> \<forall>e \<in> set es. ok e \<Longrightarrow> invar (rewrite es w)"
    and rewrite_entries: "invar w \<Longrightarrow> \<forall>e \<in> set es. ok e \<Longrightarrow> entries (rewrite es w) = es"
begin

lemma fold_append:
  "invar w \<Longrightarrow> ok e \<Longrightarrow> fold f (entries (append e w)) s = f e (fold f (entries w) s)"
  by (simp add: append_entries)

lemma append_all:
  "invar w \<Longrightarrow> \<forall>e \<in> set es. ok e \<Longrightarrow>
   invar (fold append es w) \<and> entries (fold append es w) = entries w @ es"
  by (induction es arbitrary: w) (auto simp: append_invar append_entries)

lemma compaction:
  "invar w \<Longrightarrow> \<forall>e \<in> set es. ok e \<Longrightarrow> fold f es s = fold f (entries w) s \<Longrightarrow>
   fold f (entries (rewrite es w)) s = fold f (entries w) s"
  by (simp add: rewrite_entries)

end

definition walAppend :: "gob \<Rightarrow> LogEntry \<Rightarrow> WAL \<Rightarrow> WAL" where
  "walAppend G e w = snd (appendEntry G WriteOk e w)"

definition walRewrite :: "gob \<Rightarrow> LogEntry list \<Rightarrow> WAL \<Rightarrow> WAL" where
  "walRewrite G es w = snd (Rewrite G RewriteOk es w)"

interpretation wal: entry_log "wal_invar G" "wal_log G" "entry_ok G" "walAppend G" "walRewrite G" for G
proof (unfold_locales, goal_cases)
  case (1 w e)
  then show ?case using appendEntry_ok [of G w e] by (auto simp: walAppend_def)
next
  case (2 w e)
  then show ?case using appendEntry_ok [of G w e] by (auto simp: walAppend_def)
next
  case (3 w es)
  then show ?case using Rewrite_ok [OF wal_invarD(1), of G w es w] by (auto simp: walRewrite_def)
next
  case (4 w es)
  then show ?case using Rewrite_ok [OF wal_invarD(1), of G w es w] by (auto simp: walRewrite_def)
qed

end
