(* ===== verification/Tracker.thy ===== *)
theory Tracker
  imports Task_Model
begin

text \<open>
  The in-flight tracker, \<^verbatim>\<open>src/broker/tracker.go\<close>: the map of delivered tasks and the scan for
  expired ones. The map is the whole state the broker sees; the ticker goroutine hands every task
  that \<open>expired\<close> returns to the broker's \<open>onTimeout\<close>.
\<close>

section \<open>Operations\<close>

type_synonym InFlightTracker = "(string \<times> Task) list"

definition NewInFlightTracker :: InFlightTracker where
  "NewInFlightTracker = []"

definition Track :: "Task \<Rightarrow> InFlightTracker \<Rightarrow> InFlightTracker" where
  "Track t tr = AList.update (ID t) t tr"

definition Remove :: "string \<Rightarrow> InFlightTracker \<Rightarrow> Task option \<times> InFlightTracker" where
  "Remove tid tr =
     (case map_of tr tid of
        None \<Rightarrow> (None, tr)
      | Some t \<Rightarrow> (Some t, AList.delete tid tr))"

definition Tracker_Len :: "InFlightTracker \<Rightarrow> nat" where
  "Tracker_Len tr = length tr"

fun expired_loop ::
  "time \<Rightarrow> (string \<times> Task) list \<Rightarrow> InFlightTracker \<Rightarrow> Task list \<Rightarrow> Task list \<times> InFlightTracker" where
  "expired_loop now [] tr out = (out, tr)"
| "expired_loop now ((tid, t) # es) tr out =
     (if now > Deadline t then expired_loop now es (AList.delete tid tr) (out @ [t])
      else expired_loop now es tr out)"

definition expired ::
  "(InFlightTracker \<Rightarrow> InFlightTracker) \<Rightarrow> time \<Rightarrow> InFlightTracker \<Rightarrow> Task list \<times> InFlightTracker" where
  "expired ord now tr = expired_loop now (ord tr) tr []"

section \<open>Invariant\<close>

definition tracker_invar :: "InFlightTracker \<Rightarrow> bool" where
  "tracker_invar tr \<longleftrightarrow> go_map tr \<and> (\<forall>(tid, t) \<in> set tr. tid = ID t)"

definition tracked :: "InFlightTracker \<Rightarrow> Task list" where
  "tracked tr = map snd tr"

lemma tracker_invar_Nil [simp]: "tracker_invar NewInFlightTracker"
  by (simp add: tracker_invar_def NewInFlightTracker_def)

lemma set_update_subset: "set (AList.update k v m) \<subseteq> insert (k, v) (set m)"
  by (induction m) auto

lemma set_delete_subset: "set (AList.delete k m) \<subseteq> set m"
  by (auto simp: AList.delete_eq)

lemma Track_invar: "tracker_invar tr \<Longrightarrow> tracker_invar (Track t tr)"
  using set_update_subset [of "ID t" t tr] by (auto simp: tracker_invar_def Track_def)

lemma delete_invar: "tracker_invar tr \<Longrightarrow> tracker_invar (AList.delete tid tr)"
  using set_delete_subset [of tid tr] by (auto simp: tracker_invar_def)

lemma Remove_invar: "tracker_invar tr \<Longrightarrow> Remove tid tr = (r, tr') \<Longrightarrow> tracker_invar tr'"
  by (auto simp: Remove_def delete_invar split: option.splits)

lemma tracker_lookup_ID: "tracker_invar tr \<Longrightarrow> map_of tr tid = Some t \<Longrightarrow> ID t = tid"
  by (auto simp: tracker_invar_def dest!: map_of_SomeD)

lemma Remove_Some:
  assumes "tracker_invar tr" and "Remove tid tr = (Some t, tr')"
  shows "ID t = tid" "mset (tracked tr) = add_mset t (mset (tracked tr'))" "map_of tr tid = Some t"
    "tr' = AList.delete tid tr"
proof -
  from assms(2) show m: "map_of tr tid = Some t" and d: "tr' = AList.delete tid tr"
    by (auto simp: Remove_def split: option.splits)
  show "ID t = tid" using assms(1) m by (rule tracker_lookup_ID)
  have "add_mset (tid, t) (mset tr') = mset tr"
    using assms(1) m d mset_delete_present by (auto simp: tracker_invar_def)
  then show "mset (tracked tr) = add_mset t (mset (tracked tr'))"
    unfolding tracked_def by (metis image_mset_add_mset mset_map snd_conv)
qed

lemma Track_fresh: "map_of tr (ID t) = None \<Longrightarrow> mset (tracked (Track t tr)) = add_mset t (mset (tracked tr))"
  by (simp add: Track_def tracked_def update_fresh)

lemma lookup_tracked: "tracker_invar tr \<Longrightarrow> (map_of tr tid = None) = (tid \<notin> ID ` set (tracked tr))"
  by (force simp: tracker_invar_def tracked_def map_of_eq_None_iff image_iff)

text \<open>Putting a removed task back restores the multiset of tracked tasks.\<close>

lemma Track_Remove:
  assumes "tracker_invar tr" and "Remove tid tr = (Some t, tr')"
  shows "mset (tracked (Track t tr')) = mset (tracked tr)"
  using Remove_Some [OF assms] by (subst Track_fresh) simp_all

section \<open>The expiry scan\<close>

lemma expired_loop_filter:
  assumes "go_map es"
  shows "expired_loop now es tr out =
    (out @ map snd (filter (\<lambda>p. now > Deadline (snd p)) es),
     filter (\<lambda>p. fst p \<notin> fst ` set (filter (\<lambda>p. now > Deadline (snd p)) es)) tr)"
  using assms
proof (induction es arbitrary: tr out)
  case Nil
  then show ?case by simp
next
  case (Cons e es)
  obtain tid t where e: "e = (tid, t)" by (cases e)
  have "go_map es" using Cons.prems by (simp add: go_map_def)
  then show ?case
    using Cons.IH by (auto simp: e AList.delete_eq intro!: filter_cong)
qed

text \<open>
  The scan takes out exactly the tasks past their deadline and keeps the others, whatever the
  iteration order of the map.
\<close>

lemma expired_spec:
  assumes "tracker_invar tr" and "map_order ord" and "expired ord now tr = (out, tr')"
  shows "mset out = filter_mset (\<lambda>t. now > Deadline t) (mset (tracked tr))"
    and "mset (tracked tr') = filter_mset (\<lambda>t. \<not> now > Deadline t) (mset (tracked tr))"
    and "tracker_invar tr'"
proof -
  let ?late = "\<lambda>p. now > Deadline (snd p)"
  have go: "go_map tr" using assms(1) by (simp add: tracker_invar_def)
  have e: "out = map snd (filter ?late (ord tr))"
    "tr' = filter (\<lambda>p. fst p \<notin> fst ` set (filter ?late (ord tr))) tr"
    using assms(3) expired_loop_filter [OF map_order_go_map [OF assms(2) go]]
    by (auto simp: expired_def)
  have "filter (\<lambda>p. fst p \<notin> fst ` set (filter ?late (ord tr))) tr = filter (\<lambda>p. \<not> ?late p) tr"
    using go by (intro filter_cong refl) (force simp: map_order_set [OF assms(2)] go_map_def
      dest: eq_key_imp_eq_value)
  then have tr': "tr' = filter (\<lambda>p. \<not> now > Deadline (snd p)) tr" using e(2) by simp
  have "mset out = image_mset snd (filter_mset (\<lambda>p. now > Deadline (snd p)) (mset tr))"
    using map_order_mset [OF assms(2), of tr] by (simp add: e(1))
  then show "mset out = filter_mset (\<lambda>t. now > Deadline t) (mset (tracked tr))"
    by (simp add: tracked_def filter_mset_image_mset)
  show "mset (tracked tr') = filter_mset (\<lambda>t. \<not> now > Deadline t) (mset (tracked tr))"
    by (simp add: tracked_def tr' filter_mset_image_mset)
  show "tracker_invar tr'"
    using assms(1) go_map_filter [OF go] by (auto simp: tracker_invar_def tr')
qed

end
