(* ===== verification/Broker_Core.thy ===== *)
theory Broker_Core
  imports Priority_Queue Wal_Log Tracker
begin

text \<open>
  The single-node broker, \<^verbatim>\<open>src/broker/broker.go\<close>. Each operation is split the way the source
  splits it: the part under the broker's mutex (\<open>_locked\<close>), then the wait for the fsync. The
  oracle of one call (\<open>env\<close>) holds what comes from outside: the new UUID, the clock, the outcomes
  of the disk operations and the iteration order of a map.
\<close>

section \<open>Types\<close>

datatype brokerError = ErrEmpty | ErrUnknownTask | ErrClosed | ErrWAL walError | ErrCompact walError

record Config =
  MaxRetries :: int
  TaskTimeout :: duration
  WALPath :: string
  CompactEvery :: int
  ScanInterval :: duration

definition DefaultConfig :: "string \<Rightarrow> Config" where
  "DefaultConfig walPath =
     \<lparr>MaxRetries = 5, TaskTimeout = 30 * 10 ^ 9, WALPath = walPath, CompactEvery = 10000,
      ScanInterval = 10 ^ 9\<rparr>"

record Broker =
  bPq :: taskHeap
  bTracker :: InFlightTracker
  bDlq :: "Task list"
  bWal :: WAL
  bCfg :: Config
  bAcked :: int
  bNacked :: int
  bClosed :: bool

record env =
  envUuid :: string
  envNow :: time
  envWrite :: writeOutcome
  envRewrite :: rewriteOutcome
  envOrd :: "(string \<times> Task) list \<Rightarrow> (string \<times> Task) list"
  envSyncs :: "bool list"

section \<open>Compaction\<close>

definition enqueueEntry :: "Task \<Rightarrow> LogEntry" where
  "enqueueEntry t = \<lparr>eOp = OpEnqueue, eTaskID = ID t, eTask = Some t\<rparr>"

definition idEntry :: "byte \<Rightarrow> string \<Rightarrow> LogEntry" where
  "idEntry op tid = \<lparr>eOp = op, eTaskID = tid, eTask = None\<rparr>"

definition compactEntries :: "env \<Rightarrow> Broker \<Rightarrow> LogEntry list" where
  "compactEntries E b =
     map enqueueEntry (bPq b) @
     map enqueueEntry (map snd (envOrd E (bTracker b))) @
     concat (map (\<lambda>t. [enqueueEntry t, idEntry OpDead (ID t)]) (bDlq b))"

definition compactLocked :: "gob \<Rightarrow> env \<Rightarrow> Broker \<Rightarrow> brokerError option \<times> Broker" where
  "compactLocked G E b =
     (case Rewrite G (envRewrite E) (compactEntries E b) (bWal b) of
        (Some e, w) \<Rightarrow> (Some (ErrCompact e), b\<lparr>bWal := w\<rparr>)
      | (None, w) \<Rightarrow> (None, b\<lparr>bWal := w\<rparr>))"

definition compactDue :: "Broker \<Rightarrow> bool" where
  "compactDue b \<longleftrightarrow>
     \<not> (CompactEvery (bCfg b) \<le> 0 \<or> int (EntriesSinceOpen (bWal b)) < CompactEvery (bCfg b))"

definition maybeCompactLocked :: "gob \<Rightarrow> env \<Rightarrow> Broker \<Rightarrow> brokerError option \<times> Broker" where
  "maybeCompactLocked G E b = (if \<not> compactDue b then (None, b) else compactLocked G E b)"

section \<open>Operations\<close>

text \<open>A locked section that ended well hands its sequence number to \<^verbatim>\<open>WaitSync\<close>.\<close>

definition awaitSync :: "env \<Rightarrow> (brokerError + nat) \<times> Broker \<Rightarrow> (brokerError option \<times> Broker) option" where
  "awaitSync E r =
     (case r of
        (Inl e, b) \<Rightarrow> Some (Some e, b)
      | (Inr seq, b) \<Rightarrow>
          map_option (\<lambda>(e, w). (map_option ErrWAL e, b\<lparr>bWal := w\<rparr>)) (WaitSync (envSyncs E) (bWal b) seq))"

definition prepareTask :: "env \<Rightarrow> Task \<Rightarrow> Task" where
  "prepareTask E t =
     (let t1 = (if ID t = '''' then t\<lparr>ID := envUuid E\<rparr> else t);
          t2 = (if CreatedAt t1 = 0 then t1\<lparr>CreatedAt := envNow E\<rparr> else t1)
      in t2\<lparr>Status := Pending\<rparr>)"

definition Enqueue_locked :: "gob \<Rightarrow> env \<Rightarrow> Broker \<Rightarrow> Task \<Rightarrow> (brokerError + nat) \<times> Broker" where
  "Enqueue_locked G E b t0 =
     (let t = prepareTask E t0 in
      if bClosed b then (Inl ErrClosed, b)
      else
        (case AppendTaskNoSync G (envWrite E) (bWal b) OpEnqueue t of
           (Inl e, w) \<Rightarrow> (Inl (ErrWAL e), b\<lparr>bWal := w\<rparr>)
         | (Inr seq, w) \<Rightarrow>
             (case maybeCompactLocked G E (b\<lparr>bWal := w, bPq := PQ_Push (bPq b) t\<rparr>) of
                (Some cerr, b') \<Rightarrow> (Inl cerr, b')
              | (None, b') \<Rightarrow> (Inr seq, b'))))"

definition Enqueue :: "gob \<Rightarrow> env \<Rightarrow> Broker \<Rightarrow> Task \<Rightarrow> (brokerError option \<times> Broker) option" where
  "Enqueue G E b t = awaitSync E (Enqueue_locked G E b t)"

definition Dequeue :: "env \<Rightarrow> Broker \<Rightarrow> (brokerError + Task) \<times> Broker" where
  "Dequeue E b =
     (if bClosed b then (Inl ErrClosed, b)
      else
        (case PQ_Pop (bPq b) of
           (None, pq') \<Rightarrow> (Inl ErrEmpty, b\<lparr>bPq := pq'\<rparr>)
         | (Some t, pq') \<Rightarrow>
             let t' = t\<lparr>Status := InFlight, Deadline := envNow E + TaskTimeout (bCfg b)\<rparr> in
             (Inr (Clone t'), b\<lparr>bPq := pq', bTracker := Track t' (bTracker b)\<rparr>)))"

definition Ack_locked :: "gob \<Rightarrow> env \<Rightarrow> Broker \<Rightarrow> string \<Rightarrow> (brokerError + nat) \<times> Broker" where
  "Ack_locked G E b taskID =
     (if bClosed b then (Inl ErrClosed, b)
      else
        (case Remove taskID (bTracker b) of
           (None, tr) \<Rightarrow> (Inl ErrUnknownTask, b)
         | (Some t, tr) \<Rightarrow>
             (case AppendIDNoSync (envWrite E) (bWal b) OpAck taskID of
                (Inl e, w) \<Rightarrow> (Inl (ErrWAL e), b\<lparr>bWal := w, bTracker := Track t tr\<rparr>)
              | (Inr seq, w) \<Rightarrow>
                  (case maybeCompactLocked G E (b\<lparr>bWal := w, bTracker := tr, bAcked := bAcked b + 1\<rparr>) of
                     (Some cerr, b') \<Rightarrow> (Inl cerr, b')
                   | (None, b') \<Rightarrow> (Inr seq, b')))))"

definition Ack :: "gob \<Rightarrow> env \<Rightarrow> Broker \<Rightarrow> string \<Rightarrow> (brokerError option \<times> Broker) option" where
  "Ack G E b taskID = awaitSync E (Ack_locked G E b taskID)"

text \<open>
  The shared path of a nack and a timeout, for a task that is already out of the tracker. When the
  compaction fails, the sequence number is returned beside the error and not waited for.
\<close>

definition requeueLocked :: "gob \<Rightarrow> env \<Rightarrow> Broker \<Rightarrow> Task \<Rightarrow> (brokerError + nat) \<times> Broker" where
  "requeueLocked G E b0 t0 =
     (let b = b0\<lparr>bNacked := bNacked b0 + 1\<rparr>;
          t = t0\<lparr>RetryCount := RetryCount t0 + 1\<rparr>
      in
        if RetryCount t \<ge> MaxRetries (bCfg b) then
          (case AppendIDNoSync (envWrite E) (bWal b) OpDead (ID t) of
             (Inl e, w) \<Rightarrow> (Inl (ErrWAL e), b\<lparr>bWal := w, bTracker := Track t (bTracker b)\<rparr>)
           | (Inr seq, w) \<Rightarrow>
               (case maybeCompactLocked G E (b\<lparr>bWal := w, bDlq := bDlq b @ [t\<lparr>Status := Dead\<rparr>]\<rparr>) of
                  (Some cerr, b') \<Rightarrow> (Inl cerr, b')
                | (None, b') \<Rightarrow> (Inr seq, b')))
        else
          (case AppendIDNoSync (envWrite E) (bWal b) OpNack (ID t) of
             (Inl e, w) \<Rightarrow> (Inl (ErrWAL e), b\<lparr>bWal := w, bTracker := Track t (bTracker b)\<rparr>)
           | (Inr seq, w) \<Rightarrow>
               (case maybeCompactLocked G E
                  (b\<lparr>bWal := w, bPq := PQ_Push (bPq b) (t\<lparr>Status := Pending, Deadline := 0\<rparr>)\<rparr>) of
                  (Some cerr, b') \<Rightarrow> (Inl cerr, b')
                | (None, b') \<Rightarrow> (Inr seq, b'))))"

definition Nack_locked :: "gob \<Rightarrow> env \<Rightarrow> Broker \<Rightarrow> string \<Rightarrow> (brokerError + nat) \<times> Broker" where
  "Nack_locked G E b taskID =
     (if bClosed b then (Inl ErrClosed, b)
      else
        (case Remove taskID (bTracker b) of
           (None, tr) \<Rightarrow> (Inl ErrUnknownTask, b)
         | (Some t, tr) \<Rightarrow> requeueLocked G E (b\<lparr>bTracker := tr\<rparr>) t))"

definition Nack :: "gob \<Rightarrow> env \<Rightarrow> Broker \<Rightarrow> string \<Rightarrow> (brokerError option \<times> Broker) option" where
  "Nack G E b taskID = awaitSync E (Nack_locked G E b taskID)"

definition onTimeout_locked :: "gob \<Rightarrow> env \<Rightarrow> Broker \<Rightarrow> Task \<Rightarrow> (brokerError + nat) \<times> Broker" where
  "onTimeout_locked G E b t =
     (if bClosed b then (Inl ErrClosed, b) else requeueLocked G E b t)"

definition onTimeout :: "gob \<Rightarrow> env \<Rightarrow> Broker \<Rightarrow> Task \<Rightarrow> Broker option" where
  "onTimeout G E b t = map_option snd (awaitSync E (onTimeout_locked G E b t))"

text \<open>One tick of the tracker's loop: take the expired tasks out, then requeue them one by one.\<close>

fun onTimeouts :: "gob \<Rightarrow> env list \<Rightarrow> Broker \<Rightarrow> Task list \<Rightarrow> Broker option" where
  "onTimeouts G Es b [] = Some b"
| "onTimeouts G [] b (t # ts) = None"
| "onTimeouts G (E # Es) b (t # ts) = Option.bind (onTimeout G E b t) (\<lambda>b'. onTimeouts G Es b' ts)"

definition tracker_tick ::
  "gob \<Rightarrow> (InFlightTracker \<Rightarrow> InFlightTracker) \<Rightarrow> time \<Rightarrow> env list \<Rightarrow> Broker \<Rightarrow> Broker option" where
  "tracker_tick G ord now Es b =
     (case expired ord now (bTracker b) of
        (late, tr) \<Rightarrow> onTimeouts G Es (b\<lparr>bTracker := tr\<rparr>) late)"

definition ApplyTuning :: "duration \<Rightarrow> int \<Rightarrow> Broker \<Rightarrow> Broker" where
  "ApplyTuning taskTimeout maxRetries b =
     (let b1 = (if taskTimeout > 0 then b\<lparr>bCfg := (bCfg b)\<lparr>TaskTimeout := taskTimeout\<rparr>\<rparr> else b)
      in if maxRetries > 0 then b1\<lparr>bCfg := (bCfg b1)\<lparr>MaxRetries := maxRetries\<rparr>\<rparr> else b1)"

record Stats =
  stPending :: int
  stInFlight :: int
  stDLQ :: int
  stAcked :: int
  stNacked :: int

definition Broker_Stats :: "Broker \<Rightarrow> Stats" where
  "Broker_Stats b =
     \<lparr>stPending = int (PQ_Len (bPq b)), stInFlight = int (Tracker_Len (bTracker b)),
      stDLQ = int (length (bDlq b)), stAcked = bAcked b, stNacked = bNacked b\<rparr>"

definition Broker_ListDLQ :: "Broker \<Rightarrow> Task list" where
  "Broker_ListDLQ b = map Clone (bDlq b)"

definition Broker_Close :: "Broker \<Rightarrow> Broker" where
  "Broker_Close b = (if bClosed b then b else b\<lparr>bClosed := True\<rparr>)"

section \<open>Recovery\<close>

text \<open>
  One record of the replay fold. A record of any other type is skipped, as is an enqueue without
  a task, which \<^const>\<open>readRecord\<close> never returns.
\<close>

definition recover_step ::
  "LogEntry \<Rightarrow> (string \<times> Task) list \<times> Task list \<Rightarrow> (string \<times> Task) list \<times> Task list" where
  "recover_step e = (\<lambda>(live, dlq).
     if eOp e = OpEnqueue then
       (case eTask e of
          None \<Rightarrow> (live, dlq)
        | Some t \<Rightarrow> (AList.update (ID t) (t\<lparr>Status := Pending, Deadline := 0\<rparr>) live, dlq))
     else if eOp e = OpAck then (AList.delete (eTaskID e) live, dlq)
     else if eOp e = OpNack then
       (case map_of live (eTaskID e) of
          None \<Rightarrow> (live, dlq)
        | Some t \<Rightarrow> (AList.update (eTaskID e) (t\<lparr>RetryCount := RetryCount t + 1\<rparr>) live, dlq))
     else if eOp e = OpDead then
       (case map_of live (eTaskID e) of
          None \<Rightarrow> (live, dlq)
        | Some t \<Rightarrow> (AList.delete (eTaskID e) live, dlq @ [t\<lparr>Status := Dead\<rparr>]))
     else (live, dlq))"

definition log_view :: "LogEntry list \<Rightarrow> (string \<times> Task) list \<times> Task list" where
  "log_view entries = fold recover_step entries ([], [])"

definition recover :: "gob \<Rightarrow> replayIO \<Rightarrow> env \<Rightarrow> Broker \<Rightarrow> brokerError option \<times> Broker" where
  "recover G io E b =
     (case Replay G io (bWal b) of
        (Inl e, w) \<Rightarrow> (Some (ErrWAL e), b\<lparr>bWal := w\<rparr>)
      | (Inr entries, w) \<Rightarrow>
          (case log_view entries of
             (live, dlq) \<Rightarrow>
               let b' = b\<lparr>bWal := w,
                          bPq := fold (\<lambda>t h. PQ_Push h t) (map snd (envOrd E live)) (bPq b),
                          bDlq := dlq\<rparr>
               in if length entries > 0 then compactLocked G E b' else (None, b')))"

definition New ::
  "gob \<Rightarrow> bool \<Rightarrow> replayIO \<Rightarrow> env \<Rightarrow> Config \<Rightarrow> byte list option \<Rightarrow> brokerError + Broker" where
  "New G opened io E cfg0 file =
     (let cfg = (if ScanInterval cfg0 \<le> 0 then cfg0\<lparr>ScanInterval := 10 ^ 9\<rparr> else cfg0) in
      case OpenWAL opened file of
        Inl e \<Rightarrow> Inl (ErrWAL e)
      | Inr w \<Rightarrow>
          (case recover G io E
             \<lparr>bPq = NewPriorityQueue, bTracker = NewInFlightTracker, bDlq = [], bWal = w,
              bCfg = cfg, bAcked = 0, bNacked = 0, bClosed = False\<rparr> of
             (Some e, b) \<Rightarrow> Inl e
           | (None, b) \<Rightarrow> Inr b))"

end
