(* ===== verification/Queue_Properties.thy ===== *)
theory Queue_Properties
  imports Broker_Core
begin

text \<open>
  Properties of the priority queue and of the in-flight tracker, with examples of the queue at
  work.
\<close>

definition sample_task :: "string \<Rightarrow> int \<Rightarrow> time \<Rightarrow> Task" where
  "sample_task tid prio created =
     \<lparr>ID = tid, Payload = [], Priority = prio, Status = Pending, RetryCount = 0,
      CreatedAt = created, Deadline = 0\<rparr>"

text \<open>
  Whatever tasks are pushed, in whatever order, popping the queue empty returns each of them
  exactly once, by ascending priority and within a priority by ascending creation time.
\<close>

theorem queue_drains_in_order:
  "mset (drain (PQ_of ts)) = mset ts \<and> sorted (map task_key (drain (PQ_of ts)))"
  using drain_sorted [OF PQ_of_invar, of ts] by (simp add: mset_PQ_of)

text \<open>
  C35: If tasks are pushed in the order of strictly increasing creation times, the queue delivers
  them in the order of a stable sort by priority: first in, first out within a priority.
\<close>

theorem queue_fifo:
  assumes "sorted_wrt (\<lambda>s t. CreatedAt s < CreatedAt t) ts"
  shows "drain (PQ_of ts) = sort_key Priority ts"
  using assms by (rule drain_fifo)

theorem queue_fifo_witness:
  "drain (PQ_of [sample_task ''a'' 1 10, sample_task ''b'' 0 20, sample_task ''c'' 1 30, sample_task ''d'' 0 40]) =
     [sample_task ''b'' 0 20, sample_task ''d'' 0 40, sample_task ''a'' 1 10, sample_task ''c'' 1 30]"
  by (subst queue_fifo) (simp_all add: sample_task_def)

text \<open>
  Tasks with the same priority and the same creation time are not first in, first out: three
  such tasks come out as first, third, second.
\<close>

theorem queue_ties_not_fifo:
  "drain (PQ_of [sample_task ''a'' 0 1, sample_task ''b'' 0 1, sample_task ''c'' 0 1]) =
     [sample_task ''a'' 0 1, sample_task ''c'' 0 1, sample_task ''b'' 0 1]"
  by code_simp

text \<open>
  The expiry scan takes out exactly the tasks past their deadline, each once, and keeps
  exactly the others, for every iteration order of the map.
\<close>

theorem expiry_scan_exact:
  assumes "tracker_invar tr" and "map_order ord" and "expired ord now tr = (late, tr')"
  shows "mset late = filter_mset (\<lambda>t. now > Deadline t) (mset (tracked tr)) \<and>
    mset (tracked tr') = filter_mset (\<lambda>t. \<not> now > Deadline t) (mset (tracked tr)) \<and> tracker_invar tr'"
  using expired_spec [OF assms] by simp

theorem expiry_scan_exact_witness:
  "mset [(sample_task ''a'' 0 1)\<lparr>Deadline := 5\<rparr>] =
     filter_mset (\<lambda>t. 7 > Deadline t)
       (mset (tracked [(''a'', (sample_task ''a'' 0 1)\<lparr>Deadline := 5\<rparr>), (''b'', (sample_task ''b'' 0 2)\<lparr>Deadline := 9\<rparr>)]))"
  using expiry_scan_exact
    [of "[(''a'', (sample_task ''a'' 0 1)\<lparr>Deadline := 5\<rparr>), (''b'', (sample_task ''b'' 0 2)\<lparr>Deadline := 9\<rparr>)]"
      rev 7 "[(sample_task ''a'' 0 1)\<lparr>Deadline := 5\<rparr>]" "[(''b'', (sample_task ''b'' 0 2)\<lparr>Deadline := 9\<rparr>)]"]
  by (simp add: tracker_invar_def go_map_def sample_task_def expired_def map_order_rev)

end
