(* ===== verification/Broker_Invariants.thy ===== *)
theory Broker_Invariants
  imports Broker_Core
begin

text \<open>
  The broker's type invariant, kept by every operation under every outcome of the disk, and what
  the log says about a set of tasks: the fold of recovery as a map from task IDs, and the log that
  compaction writes.
\<close>

section \<open>Compaction touches the log only\<close>

lemma compactLocked_fields:
  "compactLocked G E b = (r, b') \<Longrightarrow> b' = b\<lparr>bWal := bWal b'\<rparr>"
  by (auto simp: compactLocked_def split: prod.splits option.splits)

lemma maybeCompactLocked_fields:
  "maybeCompactLocked G E b = (r, b') \<Longrightarrow> b' = b\<lparr>bWal := bWal b'\<rparr>"
  by (auto simp: maybeCompactLocked_def dest: compactLocked_fields split: if_splits)

lemma maybeCompactLocked_sel:
  assumes "maybeCompactLocked G E b = (r, b')"
  shows "bPq b' = bPq b" "bTracker b' = bTracker b" "bDlq b' = bDlq b" "bCfg b' = bCfg b"
    "bAcked b' = bAcked b" "bNacked b' = bNacked b" "bClosed b' = bClosed b"
  by (subst maybeCompactLocked_fields [OF assms], simp)+

lemma awaitSync_fields:
  "awaitSync E (x, b) = Some (r, b') \<Longrightarrow> b' = b\<lparr>bWal := bWal b'\<rparr>"
  by (auto simp: awaitSync_def split: sum.splits)

section \<open>Type invariant\<close>

definition broker_invar :: "Broker \<Rightarrow> bool" where
  "broker_invar b \<longleftrightarrow>
     pq_invar (bPq b) \<and> tracker_invar (bTracker b) \<and>
     (\<forall>t \<in> set (bPq b). Status t = Pending) \<and>
     (\<forall>t \<in> set (tracked (bTracker b)). Status t = InFlight) \<and>
     (\<forall>t \<in> set (bDlq b). Status t = Dead)"

lemma broker_invar_wal: "broker_invar (b\<lparr>bWal := w\<rparr>) = broker_invar b"
  by (simp add: broker_invar_def)

lemma broker_invar_compact:
  "maybeCompactLocked G E b = (r, b') \<Longrightarrow> broker_invar b' = broker_invar b"
  by (metis broker_invar_wal maybeCompactLocked_fields)

lemma set_tracked_Track: "set (tracked (Track t tr)) \<subseteq> insert t (set (tracked tr))"
  using set_update_subset [of "ID t" t tr] by (force simp: tracked_def Track_def)

lemma set_tracked_delete: "set (tracked (AList.delete k tr)) \<subseteq> set (tracked tr)"
  using set_delete_subset [of k tr] by (auto simp: tracked_def)

lemma broker_invar_push:
  "broker_invar b \<Longrightarrow> Status t = Pending \<Longrightarrow> broker_invar (b\<lparr>bPq := PQ_Push (bPq b) t\<rparr>)"
proof -
  assume b: "broker_invar b" and t: "Status t = Pending"
  then have h: "pq_invar (bPq b)" by (simp add: broker_invar_def)
  have "set (PQ_Push (bPq b) t) = insert t (set (bPq b))"
    using pq.bag_push [OF h, of t] by (metis set_mset_add_mset_insert set_mset_mset)
  with b t pq.invar_push [OF h, of t] show ?thesis by (simp add: broker_invar_def)
qed

lemma broker_invar_track:
  "broker_invar b \<Longrightarrow> Status t = InFlight \<Longrightarrow> broker_invar (b\<lparr>bTracker := Track t (bTracker b)\<rparr>)"
  using Track_invar [of "bTracker b" t] set_tracked_Track [of t "bTracker b"]
  by (auto simp: broker_invar_def)

lemma broker_invar_untrack:
  "broker_invar b \<Longrightarrow> broker_invar (b\<lparr>bTracker := AList.delete k (bTracker b)\<rparr>)"
  using delete_invar [of "bTracker b" k] set_tracked_delete [of k "bTracker b"]
  by (auto simp: broker_invar_def)

lemma Remove_status:
  assumes "broker_invar b" and "Remove tid (bTracker b) = (Some t, tr)"
  shows "Status t = InFlight" and "tr = AList.delete tid (bTracker b)"
proof -
  have tr: "tracker_invar (bTracker b)" using assms(1) by (simp add: broker_invar_def)
  have "t \<in> set (tracked (bTracker b))"
    using Remove_Some(2) [OF tr assms(2)] by (metis set_mset_mset union_single_eq_member)
  then show "Status t = InFlight" using assms(1) by (simp add: broker_invar_def)
  show "tr = AList.delete tid (bTracker b)" using Remove_Some(4) [OF tr assms(2)] .
qed

lemma Status_prepareTask [simp]: "Status (prepareTask E t) = Pending"
  by (simp add: prepareTask_def Let_def)

lemma broker_invar_Enqueue:
  assumes "broker_invar b" and "Enqueue_locked G E b t = (r, b')"
  shows "broker_invar b'"
proof -
  have *: "broker_invar (b\<lparr>bWal := w, bPq := PQ_Push (bPq b) (prepareTask E t)\<rparr>)" for w
    using broker_invar_push [of "b\<lparr>bWal := w\<rparr>" "prepareTask E t"] assms(1)
    by (simp add: broker_invar_wal)
  then show ?thesis
    using assms broker_invar_compact
    by (fastforce simp: Enqueue_locked_def Let_def broker_invar_wal split: if_splits prod.splits sum.splits option.splits)
qed

lemma broker_invar_Dequeue:
  assumes b: "broker_invar b" and d: "Dequeue E b = (r, b')"
  shows "broker_invar b'"
proof (cases "bClosed b")
  case True
  with b d show ?thesis by (simp add: Dequeue_def)
next
  case False
  have h: "pq_invar (bPq b)" using b by (simp add: broker_invar_def)
  obtain o' pq' where p: "PQ_Pop (bPq b) = (o', pq')" by (cases "PQ_Pop (bPq b)")
  show ?thesis
  proof (cases o')
    case None
    with p pq.pop_NoneD [OF h] have "pq' = bPq b" by blast
    with False None p b d show ?thesis by (auto simp: Dequeue_def)
  next
    case (Some t)
    note pop = pq.pop_SomeD [OF h p [unfolded Some]]
    let ?t = "t\<lparr>Status := InFlight, Deadline := envNow E + TaskTimeout (bCfg b)\<rparr>"
    have "set pq' \<subseteq> set (bPq b)" using pop(2) by (metis set_mset_mset set_mset_add_mset_insert subset_insertI)
    with b pop(1) have "broker_invar (b\<lparr>bPq := pq'\<rparr>)" by (auto simp: broker_invar_def)
    then have "broker_invar (b\<lparr>bPq := pq', bTracker := Track ?t (bTracker b)\<rparr>)"
      using broker_invar_track [of "b\<lparr>bPq := pq'\<rparr>" ?t] by simp
    with False Some p d show ?thesis by (auto simp: Dequeue_def Let_def)
  qed
qed

lemma broker_invar_nacked [simp]: "broker_invar (b\<lparr>bNacked := n\<rparr>) = broker_invar b"
  by (simp add: broker_invar_def)

lemma broker_invar_acked [simp]: "broker_invar (b\<lparr>bAcked := n\<rparr>) = broker_invar b"
  by (simp add: broker_invar_def)

lemma broker_invar_requeue:
  assumes b: "broker_invar b" and t: "Status t = InFlight" and r: "requeueLocked G E b t = (r, b')"
  shows "broker_invar b'"
proof -
  let ?b = "\<lambda>w. b\<lparr>bNacked := bNacked b + 1, bWal := w\<rparr>"
  let ?t = "t\<lparr>RetryCount := RetryCount t + 1\<rparr>"
  have i: "broker_invar (?b w)" for w using b by (simp add: broker_invar_wal)
  have 1: "broker_invar (b\<lparr>bNacked := bNacked b + 1, bWal := w, bTracker := Track ?t (bTracker b)\<rparr>)" for w
    using broker_invar_track [OF i, of ?t w] t by simp
  have 2: "broker_invar (b\<lparr>bNacked := bNacked b + 1, bWal := w, bDlq := bDlq b @ [?t\<lparr>Status := Dead\<rparr>]\<rparr>)" for w
    using i [of w] by (simp add: broker_invar_def)
  have 3: "broker_invar (b\<lparr>bNacked := bNacked b + 1, bWal := w,
      bPq := PQ_Push (bPq b) (?t\<lparr>Status := Pending, Deadline := 0\<rparr>)\<rparr>)" for w
    using broker_invar_push [OF i, of "?t\<lparr>Status := Pending, Deadline := 0\<rparr>" w] by simp
  show ?thesis
    using r 1 2 3 broker_invar_compact
    by (fastforce simp: requeueLocked_def Let_def split: if_splits prod.splits sum.splits option.splits)
qed

lemma broker_invar_Ack:
  assumes b: "broker_invar b" and a: "Ack_locked G E b tid = (r, b')"
  shows "broker_invar b'"
proof (cases "Remove tid (bTracker b)")
  case (Pair o' tr)
  show ?thesis
  proof (cases o')
    case None
    with a b Pair show ?thesis by (auto simp: Ack_locked_def split: if_splits)
  next
    case (Some t)
    note R = Remove_status [OF b Pair [unfolded Some]]
    have i: "broker_invar (b\<lparr>bTracker := tr\<rparr>)" using broker_invar_untrack [OF b, of tid] R(2) by simp
    have 1: "broker_invar (b\<lparr>bWal := w, bTracker := Track t tr\<rparr>)" for w
      using broker_invar_track [OF i R(1)] by (simp add: broker_invar_def)
    have 2: "broker_invar (b\<lparr>bWal := w, bTracker := tr, bAcked := n\<rparr>)" for w n
      using i by (simp add: broker_invar_def)
    show ?thesis
      using a b Pair Some 1 2 broker_invar_compact
      by (fastforce simp: Ack_locked_def split: if_splits prod.splits sum.splits option.splits)
  qed
qed

lemma broker_invar_Nack:
  assumes b: "broker_invar b" and a: "Nack_locked G E b tid = (r, b')"
  shows "broker_invar b'"
proof (cases "Remove tid (bTracker b)")
  case (Pair o' tr)
  show ?thesis
  proof (cases o')
    case None
    with a b Pair show ?thesis by (auto simp: Nack_locked_def split: if_splits)
  next
    case (Some t)
    note R = Remove_status [OF b Pair [unfolded Some]]
    have "broker_invar (b\<lparr>bTracker := tr\<rparr>)" using broker_invar_untrack [OF b, of tid] R(2) by simp
    with a b Pair Some R(1) show ?thesis
      by (auto simp: Nack_locked_def broker_invar_requeue split: if_splits)
  qed
qed

section \<open>Tasks by ID\<close>

text \<open>The cores of a list of tasks, by ID.\<close>

definition id_map :: "Task list \<Rightarrow> string \<rightharpoonup> Task" where
  "id_map ts = map_of (map (\<lambda>t. (ID t, task_core t)) ts)"

definition live_map :: "(string \<times> Task) list \<Rightarrow> string \<rightharpoonup> Task" where
  "live_map live = (\<lambda>tid. map_option task_core (map_of live tid))"

lemma id_map_Nil [simp]: "id_map [] = Map.empty"
  by (simp add: id_map_def)

lemma id_map_Cons [simp]: "id_map (t # ts) = (id_map ts)(ID t \<mapsto> task_core t)"
  by (simp add: id_map_def)

lemma id_map_None: "(id_map ts tid = None) = (tid \<notin> ID ` set ts)"
  by (simp add: id_map_def map_of_eq_None_iff image_iff)

lemma id_map_SomeD: "id_map ts tid = Some c \<Longrightarrow> \<exists>t \<in> set ts. ID t = tid \<and> task_core t = c"
  by (auto simp: id_map_def dest!: map_of_SomeD)

lemma id_map_mem: "distinct (map ID ts) \<Longrightarrow> t \<in> set ts \<Longrightarrow> id_map ts (ID t) = Some (task_core t)"
  unfolding id_map_def by (intro map_of_is_SomeI) (auto simp: comp_def)

lemma id_map_mset:
  assumes "mset ts = mset us" and "distinct (map ID ts)"
  shows "id_map ts = id_map us"
proof -
  have "distinct (map fst (map (\<lambda>t. (ID t, task_core t)) ts))" using assms(2) by (simp add: comp_def)
  moreover have "distinct (map fst (map (\<lambda>t. (ID t, task_core t)) us))"
    using assms mset_eq_imp_distinct_iff [of "map ID ts" "map ID us"] by (simp add: comp_def)
  moreover have "set (map (\<lambda>t. (ID t, task_core t)) ts) = set (map (\<lambda>t. (ID t, task_core t)) us)"
    using assms(1) by (metis mset_eq_setD set_map)
  ultimately show ?thesis unfolding id_map_def by (rule map_of_inject_set [THEN iffD2])
qed

lemma distinct_ids_mset: "mset ts = mset us \<Longrightarrow> distinct (map ID ts) = distinct (map ID us)"
  by (metis mset_eq_imp_distinct_iff mset_map)

lemma id_map_add:
  assumes "mset ts = add_mset t (mset us)" and "distinct (map ID ts)"
  shows "id_map ts = (id_map us)(ID t \<mapsto> task_core t)" and "id_map us (ID t) = None"
    and "distinct (map ID us)"
proof -
  have m: "mset ts = mset (t # us)" using assms(1) by simp
  then have "distinct (map ID (t # us))" using assms(2) distinct_ids_mset by blast
  then show "id_map us (ID t) = None" "distinct (map ID us)" by (auto simp: id_map_None)
  show "id_map ts = (id_map us)(ID t \<mapsto> task_core t)" using id_map_mset [OF m assms(2)] by simp
qed

lemma id_map_remove:
  assumes "mset ts = add_mset t (mset us)" and "distinct (map ID ts)"
  shows "id_map us = (id_map ts)(ID t := None)"
  using id_map_add [OF assms] by (auto simp: fun_eq_iff)

lemma live_map_update [simp]:
  "live_map (AList.update k t live) = (live_map live)(k \<mapsto> task_core t)"
  by (auto simp: live_map_def fun_eq_iff)

lemma live_map_delete [simp]: "live_map (AList.delete k live) = (live_map live)(k := None)"
  by (auto simp: live_map_def fun_eq_iff)

lemma live_map_tracked: "tracker_invar live \<Longrightarrow> live_map live = id_map (tracked live)"
proof -
  assume "tracker_invar live"
  then have "map (\<lambda>t. (ID t, task_core t)) (tracked live) = map (\<lambda>(k, t). (k, task_core t)) live"
    by (auto simp: tracker_invar_def tracked_def)
  then show ?thesis
    by (simp only: id_map_def live_map_def map_of_map) (simp add: fun_eq_iff)
qed

lemma tracked_distinct: "tracker_invar live \<Longrightarrow> distinct (map ID (tracked live))"
proof -
  assume a: "tracker_invar live"
  then have "map ID (tracked live) = map fst live" by (auto simp: tracker_invar_def tracked_def)
  with a show ?thesis by (simp add: tracker_invar_def go_map_def)
qed

section \<open>The fold of recovery\<close>

lemma recover_step_invar: "tracker_invar live \<Longrightarrow> tracker_invar (fst (recover_step e (live, dlq)))"
proof -
  assume live: "tracker_invar live"
  have "tracker_invar (AList.update (ID t) (t\<lparr>Status := Pending, Deadline := 0\<rparr>) live)" for t
    using Track_invar [OF live, of "t\<lparr>Status := Pending, Deadline := 0\<rparr>"] by (simp add: Track_def)
  moreover have "map_of live k = Some t \<Longrightarrow>
      tracker_invar (AList.update k (t\<lparr>RetryCount := RetryCount t + 1\<rparr>) live)" for k t
    using Track_invar [OF live, of "t\<lparr>RetryCount := RetryCount t + 1\<rparr>"] tracker_lookup_ID [OF live]
    by (simp add: Track_def)
  ultimately show ?thesis
    using live by (auto simp: recover_step_def delete_invar split: option.splits)
qed

lemma fold_recover_invar:
  "tracker_invar live \<Longrightarrow> tracker_invar (fst (fold recover_step es (live, dlq)))"
proof (induction es arbitrary: live dlq)
  case (Cons e es)
  obtain live' dlq' where e: "recover_step e (live, dlq) = (live', dlq')" by fastforce
  with recover_step_invar [OF Cons.prems, of e dlq] Cons.IH show ?case by simp
qed simp

lemma log_view_invar: "tracker_invar (fst (log_view es))"
  unfolding log_view_def by (rule fold_recover_invar) (simp add: tracker_invar_def)

lemma recover_enqueue:
  "recover_step (enqueueEntry t) (live, dlq) =
     (AList.update (ID t) (t\<lparr>Status := Pending, Deadline := 0\<rparr>) live, dlq)"
  by (simp add: recover_step_def enqueueEntry_def)

lemma recover_ack: "recover_step (idEntry OpAck tid) (live, dlq) = (AList.delete tid live, dlq)"
  by (simp add: recover_step_def idEntry_def)

lemma recover_nack:
  "map_of live tid = Some t \<Longrightarrow> recover_step (idEntry OpNack tid) (live, dlq) =
     (AList.update tid (t\<lparr>RetryCount := RetryCount t + 1\<rparr>) live, dlq)"
  by (simp add: recover_step_def idEntry_def)

lemma recover_dead:
  "map_of live tid = Some t \<Longrightarrow> recover_step (idEntry OpDead tid) (live, dlq) =
     (AList.delete tid live, dlq @ [t\<lparr>Status := Dead\<rparr>])"
  by (simp add: recover_step_def idEntry_def)

lemma recover_dead_none:
  "map_of live tid = None \<Longrightarrow> recover_step (idEntry OpDead tid) (live, dlq) = (live, dlq)"
  by (simp add: recover_step_def idEntry_def)

lemmas recover_rules = recover_enqueue recover_ack recover_nack recover_dead

text \<open>Replaying the enqueue records of a list of tasks adds them to the live map.\<close>

lemma fold_enqueues:
  assumes "distinct (map ID ts)" and "\<forall>t \<in> set ts. live_map live (ID t) = None"
  shows "\<exists>live'. fold recover_step (map enqueueEntry ts) (live, dlq) = (live', dlq) \<and>
    live_map live' = live_map live ++ id_map ts"
  using assms
proof (induction ts arbitrary: live)
  case Nil
  then show ?case by simp
next
  case (Cons t ts)
  let ?live = "AList.update (ID t) (t\<lparr>Status := Pending, Deadline := 0\<rparr>) live"
  have "\<forall>u \<in> set ts. live_map ?live (ID u) = None"
  proof
    fix u assume "u \<in> set ts"
    then show "live_map ?live (ID u) = None"
      using Cons.prems by (cases "ID u = ID t") (auto simp: image_iff)
  qed
  moreover have "distinct (map ID ts)" using Cons.prems(1) by simp
  ultimately obtain live' where l:
      "fold recover_step (map enqueueEntry ts) (?live, dlq) = (live', dlq)"
      "live_map live' = live_map ?live ++ id_map ts"
    using Cons.IH by blast
  have "ID t \<notin> dom (id_map ts)" using Cons.prems(1) by (simp add: domIff id_map_None)
  then have "live_map ?live ++ id_map ts = live_map live ++ id_map (t # ts)"
    by (simp add: map_add_upd_left)
  with l have "live_map live' = live_map live ++ id_map (t # ts)" by metis
  moreover have "fold recover_step (map enqueueEntry (t # ts)) (live, dlq) = (live', dlq)"
    using l(1) by (simp add: recover_enqueue)
  ultimately show ?case by blast
qed

text \<open>The pairs of records that compaction writes for the dead-letter queue restore it.\<close>

lemma fold_dead_pairs:
  assumes "\<forall>t \<in> set ts. live_map live (ID t) = None"
  shows "\<exists>live'. fold recover_step (concat (map (\<lambda>t. [enqueueEntry t, idEntry OpDead (ID t)]) ts)) (live, dlq) =
    (live', dlq @ map (\<lambda>t. t\<lparr>Status := Dead, Deadline := 0\<rparr>) ts) \<and> live_map live' = live_map live"
  using assms
proof (induction ts arbitrary: live dlq)
  case Nil
  then show ?case by simp
next
  case (Cons t ts)
  let ?t = "t\<lparr>Status := Pending, Deadline := 0\<rparr>"
  let ?live = "AList.delete (ID t) (AList.update (ID t) ?t live)"
  have m: "live_map ?live = live_map live" using Cons.prems by (auto simp: fun_eq_iff)
  then have "\<forall>u \<in> set ts. live_map ?live (ID u) = None" using Cons.prems by simp
  from Cons.IH [OF this, of "dlq @ [?t\<lparr>Status := Dead\<rparr>]"] obtain live' where l:
    "fold recover_step (concat (map (\<lambda>t. [enqueueEntry t, idEntry OpDead (ID t)]) ts))
      (?live, dlq @ [?t\<lparr>Status := Dead\<rparr>]) =
      (live', (dlq @ [?t\<lparr>Status := Dead\<rparr>]) @ map (\<lambda>t. t\<lparr>Status := Dead, Deadline := 0\<rparr>) ts)"
    "live_map live' = live_map ?live" by (elim exE conjE)
  have "t\<lparr>Status := Dead, Deadline := 0\<rparr> = ?t\<lparr>Status := Dead\<rparr>" by simp
  then show ?case
    by (intro exI [of _ live'] conjI) (simp_all only: l m, simp_all add: recover_enqueue recover_dead l(1) [simplified])
qed

text \<open>Replaying a compacted log: the pending and tracked tasks are live, the dead ones dead.\<close>

lemma log_view_compact:
  assumes "map_order (envOrd E)" and "distinct (map ID (bPq b @ tracked (bTracker b) @ bDlq b))"
  shows "\<exists>live. log_view (compactEntries E b) = (live, map (\<lambda>t. t\<lparr>Status := Dead, Deadline := 0\<rparr>) (bDlq b)) \<and>
    live_map live = id_map (bPq b @ tracked (bTracker b))"
proof -
  let ?tr = "map snd (envOrd E (bTracker b))"
  have tr: "mset ?tr = mset (tracked (bTracker b))"
    using map_order_mset [OF assms(1)] by (simp add: tracked_def)
  have m: "mset (bPq b @ ?tr) = mset (bPq b @ tracked (bTracker b))" using tr by simp
  have "distinct (map ID (bPq b @ tracked (bTracker b)))" using assms(2) by auto
  then have d: "distinct (map ID (bPq b @ ?tr))" using distinct_ids_mset [OF m] by blast
  obtain live where l: "fold recover_step (map enqueueEntry (bPq b @ ?tr)) ([], []) = (live, [])"
      "live_map live = id_map (bPq b @ ?tr)"
    using fold_enqueues [OF d, of "[]" "[]"] by (auto simp: live_map_def)
  have "set (bPq b @ ?tr) = set (bPq b @ tracked (bTracker b))" using m by (metis mset_eq_setD)
  then have "\<forall>t \<in> set (bDlq b). live_map live (ID t) = None"
    using assms(2) unfolding l(2) id_map_None by auto
  from fold_dead_pairs [OF this, of "[]"] obtain live' where
    "fold recover_step (concat (map (\<lambda>t. [enqueueEntry t, idEntry OpDead (ID t)]) (bDlq b))) (live, []) =
       (live', map (\<lambda>t. t\<lparr>Status := Dead, Deadline := 0\<rparr>) (bDlq b))" "live_map live' = live_map live"
    by auto
  moreover have "id_map (bPq b @ ?tr) = id_map (bPq b @ tracked (bTracker b))"
    using m d by (rule id_map_mset)
  ultimately show ?thesis
    using l by (auto simp: log_view_def compactEntries_def)
qed

end
