(* ===== verification/Broker_Durability.thy ===== *)
theory Broker_Durability
  imports Broker_Invariants
begin

text \<open>
  The broker's memory and its log agree. The step relation interleaves the locked sections of the
  broker's operations with the fsyncs and with the tracker's loop, whose expired tasks wait
  outside every container (\<open>bsLate\<close>) until \<^verbatim>\<open>onTimeout\<close> takes them. At every reachable state a
  replay of the log gives the tasks that the broker holds, with their retry counts, and its
  dead-letter queue.
\<close>

section \<open>The system\<close>

record bsys =
  bsB :: Broker
  bsLate :: "Task list"

lemma bsB_same [simp]: "s\<lparr>bsB := bsB s\<rparr> = s"
  by (cases s) simp

lemma bsys_upd: "s\<lparr>bsB := b\<rparr> = \<lparr>bsB = b, bsLate = bsLate s\<rparr>"
  by (cases s) simp

definition held :: "bsys \<Rightarrow> Task list" where
  "held s = bPq (bsB s) @ tracked (bTracker (bsB s)) @ bsLate s"

text \<open>
  The disk does its work, except that a compaction may fail before its rename took place.
\<close>

definition sound_env :: "env \<Rightarrow> bool" where
  "sound_env E \<longleftrightarrow> envWrite E = WriteOk \<and> envRewrite E \<noteq> ReopenErr \<and> map_order (envOrd E)"

text \<open>Every task the broker knows fits into a log record.\<close>

definition logs_fit :: "gob \<Rightarrow> bsys \<Rightarrow> bool" where
  "logs_fit G s \<longleftrightarrow>
     (\<forall>t \<in> set (held s @ bDlq (bsB s)). entry_ok G (enqueueEntry t) \<and> length (ID t) \<le> maxPayload)"

text \<open>The next record does not make a compaction due.\<close>

definition quiet :: "Broker \<Rightarrow> bool" where
  "quiet b \<longleftrightarrow>
     CompactEvery (bCfg b) \<le> 0 \<or> int (EntriesSinceOpen (bWal b)) + 1 < CompactEvery (bCfg b)"

inductive broker_step :: "gob \<Rightarrow> env \<Rightarrow> bsys \<Rightarrow> bsys \<Rightarrow> bool" for G E where
  Step_Enqueue:
    "\<lbrakk>Enqueue_locked G E (bsB s) t = (r, b'); logs_fit G (s\<lparr>bsB := b'\<rparr>);
      ID (prepareTask E t) \<notin> ID ` set (held s @ bDlq (bsB s)); bsLate s = [] \<or> quiet (bsB s)\<rbrakk> \<Longrightarrow>
     broker_step G E s (s\<lparr>bsB := b'\<rparr>)"
| Step_Dequeue:
    "\<lbrakk>Dequeue E (bsB s) = (r, b'); logs_fit G (s\<lparr>bsB := b'\<rparr>)\<rbrakk> \<Longrightarrow> broker_step G E s (s\<lparr>bsB := b'\<rparr>)"
| Step_Ack:
    "\<lbrakk>Ack_locked G E (bsB s) tid = (r, b'); bsLate s = [] \<or> quiet (bsB s)\<rbrakk> \<Longrightarrow>
     broker_step G E s (s\<lparr>bsB := b'\<rparr>)"
| Step_Nack:
    "\<lbrakk>Nack_locked G E (bsB s) tid = (r, b'); logs_fit G (s\<lparr>bsB := b'\<rparr>);
      bsLate s = [] \<or> quiet (bsB s)\<rbrakk> \<Longrightarrow>
     broker_step G E s (s\<lparr>bsB := b'\<rparr>)"
| Step_Scan:
    "\<lbrakk>bsLate s = []; expired (envOrd E) (envNow E) (bTracker (bsB s)) = (late, tr)\<rbrakk> \<Longrightarrow>
     broker_step G E s \<lparr>bsB = (bsB s)\<lparr>bTracker := tr\<rparr>, bsLate = late\<rparr>"
| Step_Timeout:
    "\<lbrakk>bsLate s = t # late; \<not> bClosed (bsB s); onTimeout_locked G E (bsB s) t = (r, b');
      logs_fit G \<lparr>bsB = b', bsLate = late\<rparr>; late = [] \<or> quiet (bsB s)\<rbrakk> \<Longrightarrow>
     broker_step G E s \<lparr>bsB = b', bsLate = late\<rparr>"
| Step_Sync:
    "WaitSync (envSyncs E) (bWal (bsB s)) seq = Some (r, w) \<Longrightarrow>
     broker_step G E s (s\<lparr>bsB := (bsB s)\<lparr>bWal := w\<rparr>\<rparr>)"
| Step_Tuning: "broker_step G E s (s\<lparr>bsB := ApplyTuning d n (bsB s)\<rparr>)"
| Step_Close: "broker_step G E s (s\<lparr>bsB := Broker_Close (bsB s)\<rparr>)"

section \<open>Agreement of memory and log\<close>

text \<open>The dead-letter queue is recovered up to the retry count.\<close>

definition dead_core :: "Task \<Rightarrow> Task" where
  "dead_core t = (task_core t)\<lparr>RetryCount := 0\<rparr>"

lemma dead_core_simps [simp]:
  "dead_core (t\<lparr>Status := s\<rparr>) = dead_core t" "dead_core (t\<lparr>Deadline := d\<rparr>) = dead_core t"
  "dead_core (t\<lparr>RetryCount := n\<rparr>) = dead_core t"
  by (simp_all add: dead_core_def task_core_def)

lemma dead_core_cong: "task_core t = task_core u \<Longrightarrow> dead_core t = dead_core u"
  by (simp add: dead_core_def)

definition view_agrees :: "(string \<times> Task) list \<times> Task list \<Rightarrow> bsys \<Rightarrow> bool" where
  "view_agrees v s \<longleftrightarrow>
     live_map (fst v) = id_map (held s) \<and> map dead_core (snd v) = map dead_core (bDlq (bsB s))"

definition sys_invar :: "bsys \<Rightarrow> bool" where
  "sys_invar s \<longleftrightarrow>
     broker_invar (bsB s) \<and> (\<forall>t \<in> set (bsLate s). Status t = InFlight) \<and>
     distinct (map ID (held s @ bDlq (bsB s)))"

text \<open>
  The fsynced part of the file ends at a record, and every longer prefix of the log speaks of
  each ID once.
\<close>

definition good_view :: "(string \<times> Task) list \<times> Task list \<Rightarrow> bool" where
  "good_view v \<longleftrightarrow> distinct (map ID (tracked (fst v) @ snd v))"

definition durable_ok :: "gob \<Rightarrow> WAL \<Rightarrow> bool" where
  "durable_ok G w \<longleftrightarrow>
     (\<exists>i \<le> length (wal_log G w). wDurable w = length (logBytes G (take i (wal_log G w))) \<and>
        (\<forall>m \<ge> i. good_view (log_view (take m (wal_log G w)))))"

definition agree :: "gob \<Rightarrow> bsys \<Rightarrow> bool" where
  "agree G s \<longleftrightarrow>
     sys_invar s \<and> logs_fit G s \<and> wal_invar G (bWal (bsB s)) \<and>
     view_agrees (log_view (wal_log G (bWal (bsB s)))) s \<and> durable_ok G (bWal (bsB s)) \<and>
     seq_ok (bWal (bsB s))"

lemma agreeD:
  assumes "agree G s"
  shows "sys_invar s" "logs_fit G s" "wal_invar G (bWal (bsB s))"
    "view_agrees (log_view (wal_log G (bWal (bsB s)))) s" "durable_ok G (bWal (bsB s))"
    "seq_ok (bWal (bsB s))"
  using assms by (simp_all add: agree_def)

lemma ID_dead_core [simp]: "ID (dead_core t) = ID t"
  by (simp add: dead_core_def)

lemma dead_core_ID:
  assumes "map dead_core ts = map dead_core us"
  shows "map ID ts = map ID us"
  using arg_cong [OF assms, of "map ID"] by (simp add: comp_def)

lemma dom_id_map: "dom (id_map ts) = ID ` set ts"
  by (simp add: id_map_def dom_map_of_conv_image_fst image_image)

lemma view_agrees_good:
  assumes "view_agrees v s" and "sys_invar s" and "tracker_invar (fst v)"
  shows "good_view v"
proof -
  have "id_map (tracked (fst v)) = id_map (held s)"
    using assms(1) unfolding live_map_tracked [OF assms(3), symmetric] by (simp add: view_agrees_def)
  then have live: "ID ` set (tracked (fst v)) = ID ` set (held s)"
    unfolding dom_id_map [symmetric] by simp
  have dlq: "map ID (snd v) = map ID (bDlq (bsB s))"
    using assms(1) by (intro dead_core_ID) (simp add: view_agrees_def)
  then have "ID ` set (snd v) = ID ` set (bDlq (bsB s))" unfolding set_map [symmetric] by simp
  then show ?thesis
    using assms(2) tracked_distinct [OF assms(3)] live dlq
    unfolding good_view_def sys_invar_def map_append distinct_append set_map by simp
qed

lemma durable_ok_full:
  assumes "wal_invar G w" and "wDurable w = length (wDisk w)" and "good_view (log_view (wal_log G w))"
  shows "durable_ok G w"
  unfolding durable_ok_def
  using assms wal_invarD(3) [OF assms(1)] by (intro exI [of _ "length (wal_log G w)"]) auto

lemma durable_ok_append:
  assumes "durable_ok G w" and "wal_log G w' = wal_log G w @ [e]" and "wDurable w' = wDurable w"
    and "good_view (log_view (wal_log G w'))"
  shows "durable_ok G w'"
proof -
  obtain i where i: "i \<le> length (wal_log G w)" "wDurable w = length (logBytes G (take i (wal_log G w)))"
    "\<forall>m \<ge> i. good_view (log_view (take m (wal_log G w)))"
    using assms(1) by (auto simp: durable_ok_def)
  have "good_view (log_view (take m (wal_log G w')))" if "i \<le> m" for m
  proof (cases "m \<le> length (wal_log G w)")
    case True
    then show ?thesis using i(3) that assms(2) by simp
  next
    case False
    then show ?thesis using assms(2,4) by simp
  qed
  with i(1,2) assms(2,3) show ?thesis unfolding durable_ok_def by (intro exI [of _ i]) simp
qed

lemma log_view_append: "log_view (es @ [e]) = recover_step e (log_view es)"
  by (simp add: log_view_def)

lemma agree_cong:
  assumes "agree G s" and "wal_invar G w" and "wal_log G w = wal_log G (bWal (bsB s))"
    and "durable_ok G w" and "seq_ok w"
  shows "agree G (s\<lparr>bsB := (bsB s)\<lparr>bWal := w\<rparr>\<rparr>)"
  using assms
  by (simp add: agree_def sys_invar_def logs_fit_def view_agrees_def held_def broker_invar_wal)

subsection \<open>Compaction\<close>

lemma idEntry_ok:
  "length tid \<le> maxPayload \<Longrightarrow> op \<noteq> OpEnqueue \<Longrightarrow> entry_ok G (idEntry op tid)"
  by (simp add: entry_ok_def idEntry_def entryPayload_def str_bytes_def)

lemma compactEntries_ok:
  assumes "logs_fit G \<lparr>bsB = b, bsLate = []\<rparr>" and "map_order (envOrd E)"
  shows "\<forall>e \<in> set (compactEntries E b). entry_ok G e"
  using assms(1) map_order_set [OF assms(2), of "bTracker b"]
  by (auto simp: compactEntries_def logs_fit_def held_def tracked_def idEntry_ok)

lemma compactLocked_agree:
  assumes s: "agree G s" and E: "envRewrite E \<noteq> ReopenErr" "map_order (envOrd E)"
    and late: "bsLate s = []" and c: "compactLocked G E (bsB s) = (r, b')"
  shows "agree G (s\<lparr>bsB := b'\<rparr>)"
proof -
  note S = agreeD [OF s]
  let ?b = "bsB s"
  have s_eq: "s = \<lparr>bsB = ?b, bsLate = []\<rparr>" using late by (cases s) simp
  have ok: "\<forall>e \<in> set (compactEntries E ?b). entry_ok G e"
    using compactEntries_ok [of G ?b E] S(2) E(2) s_eq by metis
  show ?thesis
  proof (cases "envRewrite E = RewriteOk")
    case True
    obtain w where w: "Rewrite G RewriteOk (compactEntries E ?b) (bWal ?b) = (None, w)"
      "wal_invar G w" "wal_log G w = compactEntries E ?b" "wDurable w = length (wDisk w)"
      "wSyncedSeq w = wWriteSeq w" "wSyncing w = wSyncing (bWal ?b)"
      using Rewrite_ok [OF wal_invarD(1) [OF S(3)] ok, of "bWal ?b"] by metis
    have "seq_ok w" using w(4-6) S(6) by (simp add: seq_ok_def)
    have "distinct (map ID (bPq ?b @ tracked (bTracker ?b) @ bDlq ?b))"
      using S(1) late by (simp add: sys_invar_def held_def)
    from log_view_compact [OF E(2) this]
    have v: "view_agrees (log_view (wal_log G w)) s"
      using late by (auto simp: view_agrees_def w(3) held_def)
    moreover have "durable_ok G w"
      using durable_ok_full [OF w(2,4)] view_agrees_good [OF v S(1) log_view_invar] by simp
    moreover have "b' = ?b\<lparr>bWal := w\<rparr>" using c True w(1) by (simp add: compactLocked_def)
    ultimately show ?thesis
      using S w(2) \<open>seq_ok w\<close> by (simp add: agree_def sys_invar_def logs_fit_def view_agrees_def held_def broker_invar_wal)
  next
    case False
    then have "b' = ?b"
      using c E(1) tempBytes_ok [OF ok]
      by (cases "envRewrite E") (auto simp: compactLocked_def Rewrite_def)
    with s show ?thesis by simp
  qed
qed

lemma maybeCompactLocked_agree:
  assumes "agree G s" and "sound_env E" and "maybeCompactLocked G E (bsB s) = (r, b')"
    and "bsLate s = [] \<or> \<not> compactDue (bsB s)"
  shows "agree G (s\<lparr>bsB := b'\<rparr>)"
  using assms compactLocked_agree [OF assms(1)]
  by (auto simp: maybeCompactLocked_def sound_env_def split: if_splits)

subsection \<open>Operations that log a record\<close>

lemma compact_same_memory:
  assumes "maybeCompactLocked G E b = (r, b')"
  shows "sys_invar \<lparr>bsB = b', bsLate = late\<rparr> = sys_invar \<lparr>bsB = b, bsLate = late\<rparr>"
    "logs_fit G \<lparr>bsB = b', bsLate = late\<rparr> = logs_fit G \<lparr>bsB = b, bsLate = late\<rparr>"
    "view_agrees v \<lparr>bsB = b', bsLate = late\<rparr> = view_agrees v \<lparr>bsB = b, bsLate = late\<rparr>"
  by (simp_all add: sys_invar_def logs_fit_def view_agrees_def held_def
      maybeCompactLocked_sel [OF assms] broker_invar_compact [OF assms])

lemma agree_logged:
  assumes s: "agree G s" and E: "sound_env E" and e: "entry_ok G e"
    and a: "appendEntry G WriteOk e (bWal (bsB s)) = (Inr seq, w)"
    and b: "bWal b = w" "bCfg b = bCfg (bsB s)"
    and inv: "sys_invar \<lparr>bsB = b, bsLate = late\<rparr>" and fit: "logs_fit G \<lparr>bsB = b, bsLate = late\<rparr>"
    and view: "view_agrees (recover_step e (log_view (wal_log G (bWal (bsB s))))) \<lparr>bsB = b, bsLate = late\<rparr>"
    and late: "late = [] \<or> quiet (bsB s)"
    and c: "maybeCompactLocked G E b = (r, b')"
  shows "agree G \<lparr>bsB = b', bsLate = late\<rparr>"
proof -
  have w: "wal_invar G w" "wal_log G w = wal_log G (bWal (bsB s)) @ [e]"
      "wEntries w = wEntries (bWal (bsB s)) + 1" "wDurable w = wDurable (bWal (bsB s))"
      "wWriteSeq w = wWriteSeq (bWal (bsB s)) + 1" "wSyncedSeq w = wSyncedSeq (bWal (bsB s))"
      "wSyncing w = wSyncing (bWal (bsB s))"
    using appendEntry_ok [OF agreeD(3) [OF s] e] a by auto
  have "seq_ok w" using agreeD(6) [OF s] w(5-7) by (simp add: seq_ok_def)
  have v: "view_agrees (log_view (wal_log G w)) \<lparr>bsB = b, bsLate = late\<rparr>"
    using view w(2) by (simp add: log_view_append)
  have "durable_ok G w"
    using durable_ok_append [OF agreeD(5) [OF s] w(2,4)] view_agrees_good [OF v inv log_view_invar] by simp
  then have 1: "agree G \<lparr>bsB = b, bsLate = late\<rparr>"
    using inv fit v b w \<open>seq_ok w\<close> by (simp add: agree_def)
  have "late = [] \<or> \<not> compactDue b"
    using late b w(3) by (auto simp: compactDue_def quiet_def EntriesSinceOpen_def)
  with maybeCompactLocked_agree [OF 1 E, of r b'] c show ?thesis by simp
qed

lemma appendEntry_enqueue:
  "appendEntry G out (enqueueEntry t) w = AppendTaskNoSync G out w OpEnqueue t"
  by (simp add: appendEntry_def enqueueEntry_def)

lemma appendEntry_id: "appendEntry G out (idEntry op tid) w = AppendIDNoSync out w op tid"
  by (simp add: appendEntry_def idEntry_def)

lemma append_returns:
  assumes "agree G s" and "entry_ok G e"
  obtains seq w where "appendEntry G WriteOk e (bWal (bsB s)) = (Inr seq, w)"
  using appendEntry_ok [OF agreeD(3) [OF assms(1)] assms(2)] by blast

text \<open>The live map under a record, when the log and a set of tasks agree.\<close>

lemma view_enqueue:
  assumes "view_agrees v s" and "mset (held s') = add_mset t (mset (held s))"
    and "distinct (map ID (held s'))" and "bDlq (bsB s') = bDlq (bsB s)"
  shows "view_agrees (recover_step (enqueueEntry t) v) s'"
  using assms id_map_add(1) [OF assms(2,3)]
  by (cases v) (simp add: view_agrees_def recover_enqueue)

lemma view_ack:
  assumes "view_agrees v s" and "mset (held s) = add_mset t (mset (held s'))"
    and "distinct (map ID (held s))" and "bDlq (bsB s') = bDlq (bsB s)"
  shows "view_agrees (recover_step (idEntry OpAck (ID t)) v) s'"
  using assms id_map_remove [OF assms(2,3)]
  by (cases v) (simp add: view_agrees_def recover_ack)

lemma view_lookup:
  assumes "view_agrees v s" and "t \<in> set (held s)" and "distinct (map ID (held s))"
  obtains u where "map_of (fst v) (ID t) = Some u" and "task_core u = task_core t"
proof -
  have "live_map (fst v) (ID t) = Some (task_core t)"
    using assms id_map_mem [of "held s" t] by (simp add: view_agrees_def)
  then show thesis using that by (auto simp: live_map_def)
qed

lemma view_nack:
  assumes v: "view_agrees v s" and m: "mset (held s) = add_mset t M" "mset (held s') = add_mset t' M"
    and d: "distinct (map ID (held s))" and dlq: "bDlq (bsB s') = bDlq (bsB s)"
    and t': "ID t' = ID t" "task_core t' = (task_core t)\<lparr>RetryCount := RetryCount t + 1\<rparr>"
  shows "view_agrees (recover_step (idEntry OpNack (ID t)) v) s'"
proof -
  obtain rest where M: "M = mset rest" using ex_mset by metis
  have "t \<in> set (held s)" using m(1) by (metis set_mset_mset union_single_eq_member)
  from view_lookup [OF v this d] obtain u where
    u: "map_of (fst v) (ID t) = Some u" "task_core u = task_core t" .
  have d': "distinct (map ID (held s'))"
  proof -
    have "distinct (map ID (t # rest))" using d distinct_ids_mset [of "held s" "t # rest"] m(1) M by simp
    then show ?thesis using distinct_ids_mset [of "held s'" "t' # rest"] m(2) M t'(1) by simp
  qed
  have s: "id_map (held s) = (id_map rest)(ID t \<mapsto> task_core t)"
    using id_map_add(1) [of "held s" t rest] m(1) M d by simp
  have s': "id_map (held s') = (id_map rest)(ID t \<mapsto> task_core t')"
    using id_map_add(1) [of "held s'" t' rest] m(2) M d' t'(1) by simp
  have "task_core (u\<lparr>RetryCount := RetryCount u + 1\<rparr>) = task_core t'"
    using u(2) t'(2) task_core_eqD [OF u(2)] by (simp add: task_core_RetryCount)
  with v s s' u(1) dlq show ?thesis
    by (cases v) (simp add: view_agrees_def recover_nack)
qed

lemma view_dead:
  assumes v: "view_agrees v s" and m: "mset (held s) = add_mset t (mset (held s'))"
    and d: "distinct (map ID (held s))" and dlq: "bDlq (bsB s') = bDlq (bsB s) @ [t']"
    and t': "dead_core t' = dead_core t"
  shows "view_agrees (recover_step (idEntry OpDead (ID t)) v) s'"
proof -
  have "t \<in> set (held s)" using m by (metis set_mset_mset union_single_eq_member)
  from view_lookup [OF v this d] obtain u where
    u: "map_of (fst v) (ID t) = Some u" "task_core u = task_core t" .
  with v id_map_remove [OF m d] dlq t' dead_core_cong [OF u(2)] show ?thesis
    by (cases v) (simp add: view_agrees_def recover_dead)
qed

subsection \<open>Enqueue\<close>

lemma Enqueue_agree:
  assumes s: "agree G s" and E: "sound_env E" and q: "Enqueue_locked G E (bsB s) t = (r, b')"
    and fit: "logs_fit G (s\<lparr>bsB := b'\<rparr>)"
    and fresh: "ID (prepareTask E t) \<notin> ID ` set (held s @ bDlq (bsB s))"
    and late: "bsLate s = [] \<or> quiet (bsB s)"
  shows "agree G (s\<lparr>bsB := b'\<rparr>)"
proof (cases "bClosed (bsB s)")
  case True
  with q s show ?thesis by (auto simp: Enqueue_locked_def Let_def)
next
  case False
  let ?t = "prepareTask E t" and ?b = "bsB s"
  note S = agreeD [OF s]
  have wr: "envWrite E = WriteOk" using E by (simp add: sound_env_def)
  obtain seq w where a: "AppendTaskNoSync G WriteOk (bWal ?b) OpEnqueue ?t = (Inr seq, w)"
    using S(3) wal_invarD(1) [OF S(3)]
    by (auto simp: AppendTaskNoSync_def encodeTask_def appendNoSync_def gob_roundtrip_def Let_def
        split: option.splits dest: spec [of _ ?t])
  let ?b1 = "?b\<lparr>bWal := w, bPq := PQ_Push (bPq ?b) ?t\<rparr>"
  obtain c where c: "maybeCompactLocked G E ?b1 = (c, b')"
    using q False a wr by (auto simp: Enqueue_locked_def Let_def split: prod.splits option.splits)
  have h: "pq_invar (bPq ?b)" using S(1) by (simp add: sys_invar_def broker_invar_def)
  let ?s1 = "\<lparr>bsB = ?b1, bsLate = bsLate s\<rparr>"
  have m: "mset (held ?s1) = add_mset ?t (mset (held s))"
    using pq.bag_push [OF h, of ?t] by (simp add: held_def)
  have fit1: "logs_fit G ?s1" using fit compact_same_memory(2) [OF c] bsys_upd by metis
  have "?t \<in> set (held ?s1)" using m by (metis set_mset_mset union_single_eq_member)
  then have e: "entry_ok G (enqueueEntry ?t)" using fit1 by (simp add: logs_fit_def)
  have "mset (held ?s1 @ bDlq ?b) = mset (?t # held s @ bDlq ?b)" using m by simp
  from distinct_ids_mset [OF this] have d: "distinct (map ID (held ?s1 @ bDlq ?b))"
    using S(1) fresh by (simp add: sys_invar_def image_Un)
  have "broker_invar ?b1"
    using broker_invar_Enqueue [OF _ q] broker_invar_compact [OF c] S(1) by (simp add: sys_invar_def)
  then have "sys_invar ?s1" using S(1) d by (simp add: sys_invar_def)
  moreover have "view_agrees (recover_step (enqueueEntry ?t) (log_view (wal_log G (bWal ?b)))) ?s1"
    using S(4) m d by (intro view_enqueue [of _ s]) simp_all
  ultimately have "agree G \<lparr>bsB = b', bsLate = bsLate s\<rparr>"
    using agree_logged [OF s E e a [folded appendEntry_enqueue], of ?b1 "bsLate s"] fit1 late c by simp
  then show ?thesis by (simp add: bsys_upd)
qed

subsection \<open>Dequeue\<close>

text \<open>Swapping a task for one with the same core changes nothing the log speaks about.\<close>

lemma agree_swap:
  assumes s: "agree G s" and b: "broker_invar b" "bWal b = bWal (bsB s)" "bDlq b = bDlq (bsB s)"
    and fit: "logs_fit G (s\<lparr>bsB := b\<rparr>)"
    and m: "mset (held s) = add_mset t M" "mset (held (s\<lparr>bsB := b\<rparr>)) = add_mset t' M"
    and t': "ID t' = ID t" "task_core t' = task_core t"
  shows "agree G (s\<lparr>bsB := b\<rparr>)"
proof -
  note S = agreeD [OF s]
  let ?s = "s\<lparr>bsB := b\<rparr>"
  obtain rest where M: "M = mset rest" using ex_mset by metis
  have d: "distinct (map ID (held s @ bDlq b))" using S(1) b(3) by (simp add: sys_invar_def)
  have "mset (held s @ bDlq b) = mset (t # rest @ bDlq b)" using m(1) M by simp
  from distinct_ids_mset [OF this] have "distinct (map ID (t' # rest @ bDlq b))"
    using d t'(1) by simp
  moreover have "mset (held ?s @ bDlq b) = mset (t' # rest @ bDlq b)" using m(2) M by simp
  ultimately have d': "distinct (map ID (held ?s @ bDlq b))" using distinct_ids_mset by blast
  have "id_map (held s) = (id_map rest)(ID t \<mapsto> task_core t)"
    using id_map_add(1) [of "held s" t rest] m(1) M d by simp
  moreover have "id_map (held ?s) = (id_map rest)(ID t' \<mapsto> task_core t')"
    using id_map_add(1) [of "held ?s" t' rest] m(2) M d' by simp
  ultimately have "id_map (held ?s) = id_map (held s)" using t' by simp
  with S b d' fit show ?thesis by (simp add: agree_def sys_invar_def view_agrees_def)
qed

lemma Dequeue_agree:
  assumes s: "agree G s" and q: "Dequeue E (bsB s) = (r, b')" and fit: "logs_fit G (s\<lparr>bsB := b'\<rparr>)"
  shows "agree G (s\<lparr>bsB := b'\<rparr>)"
proof (cases "bClosed (bsB s)")
  case True
  with q s show ?thesis by (auto simp: Dequeue_def)
next
  case False
  let ?b = "bsB s"
  note S = agreeD [OF s]
  have inv: "broker_invar ?b" using S(1) by (simp add: sys_invar_def)
  then have h: "pq_invar (bPq ?b)" by (simp add: broker_invar_def)
  obtain o' pq' where p: "PQ_Pop (bPq ?b) = (o', pq')" by (cases "PQ_Pop (bPq ?b)")
  show ?thesis
  proof (cases o')
    case None
    with p pq.pop_NoneD [OF h] have "pq' = bPq ?b" by blast
    with False None p s q show ?thesis by (auto simp: Dequeue_def)
  next
    case (Some t)
    note pop = pq.pop_SomeD [OF h p [unfolded Some]]
    let ?t = "t\<lparr>Status := InFlight, Deadline := envNow E + TaskTimeout (bCfg ?b)\<rparr>"
    have b': "b' = ?b\<lparr>bPq := pq', bTracker := Track ?t (bTracker ?b)\<rparr>"
      using False Some p q by (auto simp: Dequeue_def Let_def)
    have t: "t \<in> set (bPq ?b)" using pop(2) by (metis set_mset_mset union_single_eq_member)
    have "tracker_invar (bTracker ?b)" using inv by (simp add: broker_invar_def)
    moreover have "ID t \<notin> ID ` set (tracked (bTracker ?b))"
      using S(1) t by (auto simp: sys_invar_def held_def)
    ultimately have "map_of (bTracker ?b) (ID t) = None" using lookup_tracked by blast
    from Track_fresh [of "bTracker ?b" ?t] this
    have "mset (tracked (Track ?t (bTracker ?b))) = add_mset ?t (mset (tracked (bTracker ?b)))" by simp
    then have m: "mset (held (s\<lparr>bsB := b'\<rparr>)) = add_mset ?t (mset (pq' @ tracked (bTracker ?b) @ bsLate s))"
      by (simp add: held_def b')
    have "mset (held s) = add_mset t (mset (pq' @ tracked (bTracker ?b) @ bsLate s))"
      using pop(2) by (simp add: held_def)
    from agree_swap [OF s broker_invar_Dequeue [OF inv q] _ _ fit this m] show ?thesis
      by (simp add: b')
  qed
qed

subsection \<open>Ack\<close>

lemma held_Remove:
  assumes "sys_invar s" and "Remove tid (bTracker (bsB s)) = (Some t, tr)"
  shows "mset (held s) = add_mset t (mset (held (s\<lparr>bsB := (bsB s)\<lparr>bTracker := tr\<rparr>\<rparr>)))"
  using assms Remove_Some(2) [of "bTracker (bsB s)" tid t tr]
  by (simp add: sys_invar_def broker_invar_def held_def)

lemma sys_invar_remove:
  assumes s: "sys_invar s" and m: "mset (held s) = add_mset t (mset (held s'))"
    and b: "broker_invar (bsB s')" "bDlq (bsB s') = bDlq (bsB s)"
    and late: "set (bsLate s') \<subseteq> set (bsLate s)"
  shows "sys_invar s'"
proof -
  have "mset (held s @ bDlq (bsB s)) = mset (t # held s' @ bDlq (bsB s'))" using m b(2) by simp
  from distinct_ids_mset [OF this] show ?thesis using s b(1) late by (auto simp: sys_invar_def)
qed

lemma logs_fit_remove:
  assumes "logs_fit G s" and "mset (held s) = add_mset t (mset (held s'))"
    and "bDlq (bsB s') = bDlq (bsB s)"
  shows "logs_fit G s'"
proof -
  have "set (held s') \<subseteq> set (held s)"
    using assms(2) by (metis set_mset_mset set_mset_add_mset_insert subset_insertI)
  with assms(1,3) show ?thesis by (auto simp: logs_fit_def)
qed

lemma append_id_returns:
  "\<exists>seq w. AppendIDNoSync WriteOk w0 op tid = (Inr seq, w)"
  by (simp add: AppendIDNoSync_def appendNoSync_def Let_def)

lemma Ack_agree:
  assumes s: "agree G s" and E: "sound_env E" and q: "Ack_locked G E (bsB s) tid = (r, b')"
    and late: "bsLate s = [] \<or> quiet (bsB s)"
  shows "agree G (s\<lparr>bsB := b'\<rparr>)"
proof (cases "bClosed (bsB s) \<or> fst (Remove tid (bTracker (bsB s))) = None")
  case True
  then have "b' = bsB s"
    using q by (cases "Remove tid (bTracker (bsB s))") (auto simp: Ack_locked_def split: if_splits)
  with s show ?thesis by simp
next
  case False
  let ?b = "bsB s"
  note S = agreeD [OF s]
  have wr: "envWrite E = WriteOk" using E by (simp add: sound_env_def)
  obtain t tr where R: "Remove tid (bTracker ?b) = (Some t, tr)"
    using False by (cases "Remove tid (bTracker ?b)") auto
  have inv: "broker_invar ?b" using S(1) by (simp add: sys_invar_def)
  then have t: "ID t = tid" using R Remove_Some(1) by (auto simp: broker_invar_def)
  obtain seq w where a: "AppendIDNoSync WriteOk (bWal ?b) OpAck tid = (Inr seq, w)"
    using append_id_returns by blast
  let ?b1 = "?b\<lparr>bWal := w, bTracker := tr, bAcked := bAcked ?b + 1\<rparr>"
  let ?s1 = "\<lparr>bsB = ?b1, bsLate = bsLate s\<rparr>"
  obtain c where c: "maybeCompactLocked G E ?b1 = (c, b')"
    using q False R a wr by (auto simp: Ack_locked_def split: prod.splits option.splits)
  have m: "mset (held s) = add_mset t (mset (held ?s1))"
    using held_Remove [OF S(1) R] by (simp add: held_def)
  have "t \<in> set (held s)" using m by (metis set_mset_mset union_single_eq_member)
  then have e: "entry_ok G (idEntry OpAck tid)" using S(2) t by (auto simp: logs_fit_def intro!: idEntry_ok)
  have "broker_invar ?b1" using broker_invar_Ack [OF inv q] broker_invar_compact [OF c] by simp
  then have "sys_invar ?s1" using sys_invar_remove [OF S(1) m] by simp
  moreover have "logs_fit G ?s1" using logs_fit_remove [OF S(2) m] by simp
  moreover have "view_agrees (recover_step (idEntry OpAck tid) (log_view (wal_log G (bWal ?b)))) ?s1"
    using view_ack [OF S(4) m] S(1) t by (simp add: sys_invar_def)
  ultimately have "agree G \<lparr>bsB = b', bsLate = bsLate s\<rparr>"
    using agree_logged [OF s E e a [folded appendEntry_id [of G]], of ?b1 "bsLate s"] late c by simp
  then show ?thesis by (simp add: bsys_upd)
qed

subsection \<open>Requeueing\<close>

text \<open>
  \<^verbatim>\<open>requeueLocked\<close> on a task that was just taken out of the tracker or of the expired ones:
  \<open>s\<close> is the system before that, \<open>s0\<close> the one after.
\<close>

lemma requeue_agree:
  assumes s: "agree G s" and E: "sound_env E" and q: "requeueLocked G E (bsB s0) t = (r, b')"
    and s0: "sys_invar s0" "mset (held s) = add_mset t (mset (held s0))"
      "bWal (bsB s0) = bWal (bsB s)" "bCfg (bsB s0) = bCfg (bsB s)" "bDlq (bsB s0) = bDlq (bsB s)"
    and t: "Status t = InFlight"
    and fit: "logs_fit G (s0\<lparr>bsB := b'\<rparr>)" and late: "bsLate s0 = [] \<or> quiet (bsB s)"
  shows "agree G (s0\<lparr>bsB := b'\<rparr>)"
proof -
  let ?b = "bsB s0" and ?L = "log_view (wal_log G (bWal (bsB s)))" and ?t = "t\<lparr>RetryCount := RetryCount t + 1\<rparr>"
  note S = agreeD [OF s]
  have wr: "envWrite E = WriteOk" using E by (simp add: sound_env_def)
  have inv: "broker_invar ?b" using s0(1) by (simp add: sys_invar_def)
  have d: "distinct (map ID (held s))" using S(1) by (simp add: sys_invar_def)
  have "t \<in> set (held s)" using s0(2) by (metis set_mset_mset union_single_eq_member)
  then have ID_fits: "length (ID t) \<le> maxPayload" using S(2) by (simp add: logs_fit_def)
  have "mset (held s @ bDlq (bsB s)) = mset (t # held s0 @ bDlq ?b)" using s0(2,5) by simp
  from distinct_ids_mset [OF this] have d0: "distinct (map ID (t # held s0 @ bDlq ?b))"
    using S(1) by (simp add: sys_invar_def)
  have finish: "agree G (s0\<lparr>bsB := b'\<rparr>)"
    if c: "maybeCompactLocked G E b1 = (c, b')" and b1: "bWal b1 = w" "bCfg b1 = bCfg ?b"
      and a: "AppendIDNoSync WriteOk (bWal ?b) op (ID t) = (Inr seq, w)" and op: "op \<noteq> OpEnqueue"
      and d1: "distinct (map ID (held \<lparr>bsB = b1, bsLate = bsLate s0\<rparr> @ bDlq b1))"
      and v: "view_agrees (recover_step (idEntry op (ID t)) ?L) \<lparr>bsB = b1, bsLate = bsLate s0\<rparr>"
    for b1 c op seq w
  proof -
    have "broker_invar b1"
      using broker_invar_requeue [OF inv t q] broker_invar_compact [OF c] by simp
    then have "sys_invar \<lparr>bsB = b1, bsLate = bsLate s0\<rparr>" using s0(1) d1 by (simp add: sys_invar_def)
    moreover have "logs_fit G \<lparr>bsB = b1, bsLate = bsLate s0\<rparr>"
      using fit compact_same_memory(2) [OF c] bsys_upd by metis
    moreover note a [folded appendEntry_id [of G], unfolded s0(3)]
    ultimately have "agree G \<lparr>bsB = b', bsLate = bsLate s0\<rparr>"
      using agree_logged [OF s E idEntry_ok [OF ID_fits op], of seq w b1 "bsLate s0"] b1 s0(4) v late c
      by simp
    then show ?thesis by (simp add: bsys_upd)
  qed
  show ?thesis
  proof (cases "RetryCount ?t \<ge> MaxRetries (bCfg ?b)")
    case True
    obtain seq w where a: "AppendIDNoSync WriteOk (bWal ?b) OpDead (ID t) = (Inr seq, w)"
      using append_id_returns by blast
    let ?b1 = "?b\<lparr>bNacked := bNacked ?b + 1, bWal := w, bDlq := bDlq ?b @ [?t\<lparr>Status := Dead\<rparr>]\<rparr>"
    obtain c where c: "maybeCompactLocked G E ?b1 = (c, b')"
      using q True a wr by (auto simp: requeueLocked_def Let_def split: prod.splits option.splits)
    have h: "held \<lparr>bsB = ?b1, bsLate = bsLate s0\<rparr> = held s0" by (simp add: held_def)
    have "view_agrees (recover_step (idEntry OpDead (ID t)) ?L) \<lparr>bsB = ?b1, bsLate = bsLate s0\<rparr>"
      using S(4) s0(2,5) d
      by (intro view_dead [of _ s _ _ "?t\<lparr>Status := Dead\<rparr>"]) (simp_all add: held_def)
    with d0 show ?thesis by (intro finish [OF c _ _ a]) (auto simp: h)
  next
    case False
    obtain seq w where a: "AppendIDNoSync WriteOk (bWal ?b) OpNack (ID t) = (Inr seq, w)"
      using append_id_returns by blast
    let ?t2 = "?t\<lparr>Status := Pending, Deadline := 0\<rparr>"
    let ?b1 = "?b\<lparr>bNacked := bNacked ?b + 1, bWal := w, bPq := PQ_Push (bPq ?b) ?t2\<rparr>"
    let ?s1 = "\<lparr>bsB = ?b1, bsLate = bsLate s0\<rparr>"
    obtain c where c: "maybeCompactLocked G E ?b1 = (c, b')"
      using q False a wr by (auto simp: requeueLocked_def Let_def split: prod.splits option.splits)
    have m: "mset (held ?s1) = add_mset ?t2 (mset (held s0))"
      using inv pq.bag_push [of "bPq ?b" ?t2] by (simp add: held_def broker_invar_def)
    have "mset (held ?s1 @ bDlq ?b) = mset (?t2 # held s0 @ bDlq ?b)" using m by simp
    from distinct_ids_mset [OF this] have d1: "distinct (map ID (held ?s1 @ bDlq ?b))"
      using d0 by simp
    have "view_agrees (recover_step (idEntry OpNack (ID t)) ?L) ?s1"
      using S(4) s0(2,5) m d
      by (intro view_nack [of _ s _ "mset (held s0)" _ ?t2]) (simp_all add: task_core_RetryCount)
    with d1 show ?thesis by (intro finish [OF c _ _ a]) simp_all
  qed
qed

lemma Nack_agree:
  assumes s: "agree G s" and E: "sound_env E" and q: "Nack_locked G E (bsB s) tid = (r, b')"
    and fit: "logs_fit G (s\<lparr>bsB := b'\<rparr>)" and late: "bsLate s = [] \<or> quiet (bsB s)"
  shows "agree G (s\<lparr>bsB := b'\<rparr>)"
proof (cases "bClosed (bsB s) \<or> fst (Remove tid (bTracker (bsB s))) = None")
  case True
  then have "b' = bsB s"
    using q by (cases "Remove tid (bTracker (bsB s))") (auto simp: Nack_locked_def split: if_splits)
  with s show ?thesis by simp
next
  case False
  note S = agreeD [OF s]
  obtain t tr where R: "Remove tid (bTracker (bsB s)) = (Some t, tr)"
    using False by (cases "Remove tid (bTracker (bsB s))") auto
  let ?s0 = "s\<lparr>bsB := (bsB s)\<lparr>bTracker := tr\<rparr>\<rparr>"
  have inv: "broker_invar (bsB s)" using S(1) by (simp add: sys_invar_def)
  have "broker_invar (bsB ?s0)"
    using broker_invar_untrack [OF inv, of tid] Remove_status(2) [OF inv R] by simp
  then have "sys_invar ?s0" using sys_invar_remove [OF S(1) held_Remove [OF S(1) R]] by simp
  moreover have "requeueLocked G E (bsB ?s0) t = (r, b')" using q False R by (simp add: Nack_locked_def)
  ultimately have "agree G (?s0\<lparr>bsB := b'\<rparr>)"
    using requeue_agree [OF s E _ _ held_Remove [OF S(1) R]] Remove_status(1) [OF inv R] fit late
    by simp
  then show ?thesis by simp
qed

lemma Timeout_agree:
  assumes s: "agree G s" and E: "sound_env E" and l: "bsLate s = t # late"
    and q: "onTimeout_locked G E (bsB s) t = (r, b')" "\<not> bClosed (bsB s)"
    and fit: "logs_fit G \<lparr>bsB = b', bsLate = late\<rparr>" and quiet: "late = [] \<or> quiet (bsB s)"
  shows "agree G \<lparr>bsB = b', bsLate = late\<rparr>"
proof -
  note S = agreeD [OF s]
  let ?s0 = "s\<lparr>bsLate := late\<rparr>"
  have m: "mset (held s) = add_mset t (mset (held ?s0))" using l by (simp add: held_def)
  then have "sys_invar ?s0" using sys_invar_remove [OF S(1) m] S(1) l by (auto simp: sys_invar_def)
  moreover have "requeueLocked G E (bsB ?s0) t = (r, b')" using q by (simp add: onTimeout_locked_def)
  moreover have "Status t = InFlight" using S(1) l by (simp add: sys_invar_def)
  moreover have eq: "?s0\<lparr>bsB := b'\<rparr> = \<lparr>bsB = b', bsLate = late\<rparr>" by (cases s) simp
  ultimately show ?thesis using requeue_agree [OF s E _ _ m, of r b', unfolded eq] fit quiet by simp
qed

subsection \<open>The expiry scan and the rest\<close>

lemma Scan_agree:
  assumes s: "agree G s" and E: "sound_env E" and l: "bsLate s = []"
    and x: "expired (envOrd E) (envNow E) (bTracker (bsB s)) = (late, tr)"
  shows "agree G \<lparr>bsB = (bsB s)\<lparr>bTracker := tr\<rparr>, bsLate = late\<rparr>"
proof -
  note S = agreeD [OF s]
  let ?s = "\<lparr>bsB = (bsB s)\<lparr>bTracker := tr\<rparr>, bsLate = late\<rparr>"
  have inv: "broker_invar (bsB s)" using S(1) by (simp add: sys_invar_def)
  note spec = expired_spec [OF _ _ x]
  have tr: "tracker_invar (bTracker (bsB s))" and o: "map_order (envOrd E)"
    using inv E by (simp_all add: broker_invar_def sound_env_def)
  have split: "mset (tracked (bTracker (bsB s))) = mset (tracked tr) + mset late"
    using spec(1,2) [OF tr o] by (simp add: multiset_partition add.commute)
  then have m: "mset (held ?s) = mset (held s)" using l by (simp add: held_def)
  have sub: "set (tracked tr) \<union> set late = set (tracked (bTracker (bsB s)))"
    using split by (metis set_mset_mset set_mset_union)
  have "broker_invar (bsB ?s)" using inv spec(3) [OF tr o] sub by (auto simp: broker_invar_def)
  moreover have "\<forall>t \<in> set late. Status t = InFlight" using inv sub by (auto simp: broker_invar_def)
  moreover have "mset (held ?s @ bDlq (bsB s)) = mset (held s @ bDlq (bsB s))" using m by simp
  from distinct_ids_mset [OF this] have "distinct (map ID (held ?s @ bDlq (bsB s)))"
    using S(1) by (simp add: sys_invar_def)
  moreover from this have "id_map (held ?s) = id_map (held s)" using id_map_mset [OF m] by simp
  moreover have "set (held ?s) = set (held s)" using m by (metis mset_eq_setD)
  ultimately show ?thesis using S by (simp add: agree_def sys_invar_def logs_fit_def view_agrees_def)
qed

lemma Tuning_agree: "agree G s \<Longrightarrow> agree G (s\<lparr>bsB := ApplyTuning d n (bsB s)\<rparr>)"
  by (simp add: agree_def sys_invar_def logs_fit_def view_agrees_def held_def broker_invar_def
      ApplyTuning_def Let_def)

lemma Close_agree: "agree G s \<Longrightarrow> agree G (s\<lparr>bsB := Broker_Close (bsB s)\<rparr>)"
  by (simp add: agree_def sys_invar_def logs_fit_def view_agrees_def held_def broker_invar_def
      Broker_Close_def)

text \<open>An fsync only moves the durable mark, to the end of the file.\<close>

lemma WaitSync_durable:
  "wal_invar G w \<Longrightarrow> WaitSync outs w seq = Some (r, w') \<Longrightarrow>
   wDurable w' = wDurable w \<or> wDurable w' = length (wDisk w')"
proof (induction outs arbitrary: w)
  case Nil
  then show ?case by (subst (asm) WaitSync.simps) (auto split: if_splits)
next
  case (Cons ok outs)
  show ?case
  proof (cases "wSyncErr w \<or> seq \<le> wSyncedSeq w \<or> wSyncing w")
    case True
    with Cons.prems show ?thesis by (subst (asm) WaitSync.simps) (auto split: if_splits)
  next
    case False
    with Cons.prems(2) have r: "WaitSync outs (syncRound ok w) seq = Some (r, w')"
      by (subst (asm) WaitSync.simps) simp
    have i: "wal_invar G (syncRound ok w)" using syncRound_invar [OF Cons.prems(1)] by simp
    have "wDisk w' = wDisk (syncRound ok w)" using WaitSync_invar [OF i r] by simp
    with Cons.IH [OF i r] wal_invarD(2) [OF Cons.prems(1)] show ?thesis
      by (auto simp: syncRound_durable split: if_splits)
  qed
qed

lemma Sync_agree:
  assumes s: "agree G s" and x: "WaitSync outs (bWal (bsB s)) seq = Some (r, w)"
  shows "agree G (s\<lparr>bsB := (bsB s)\<lparr>bWal := w\<rparr>\<rparr>)"
proof -
  note S = agreeD [OF s]
  note W = WaitSync_invar [OF S(3) x]
  have "good_view (log_view (wal_log G w))"
    using view_agrees_good [OF S(4,1) log_view_invar] W by simp
  then have "durable_ok G w"
    using WaitSync_durable [OF S(3) x] durable_ok_full [of G w] W S(5)
    by (auto simp: durable_ok_def)
  with agree_cong [OF s] W WaitSync_seq_ok [OF wal_invarD(2) [OF S(3)] S(6) x] show ?thesis by blast
qed

lemma broker_step_agree:
  assumes "broker_step G E s s'" and "agree G s" and "sound_env E"
  shows "agree G s'"
  using assms
  by (cases rule: broker_step.cases) (auto intro: Enqueue_agree Dequeue_agree Ack_agree Nack_agree
      Scan_agree Timeout_agree Sync_agree Tuning_agree Close_agree)

end
