(* ===== verification/Broker_Recovery.thy ===== *)
theory Broker_Recovery
  imports Broker_Durability
begin

text \<open>
  Restarts. \<^verbatim>\<open>New\<close> on the file a crash left behind rebuilds the broker from a prefix of the log
  that has every fsynced record; the reachable states include any number of crashes.
\<close>

section \<open>What recovery rebuilds\<close>

lemma tracked_update: "t' \<in> set (tracked (AList.update k t live)) \<Longrightarrow> t' = t \<or> t' \<in> set (tracked live)"
  using set_update_subset [of k t live] by (force simp: tracked_def)

lemma lookup_in_tracked: "map_of live k = Some t \<Longrightarrow> t \<in> set (tracked live)"
  by (force simp: tracked_def dest: map_of_SomeD)

lemma recover_step_status:
  assumes "\<forall>t \<in> set (tracked live). Status t = Pending" and "\<forall>t \<in> set dlq. Status t = Dead"
  shows "(\<forall>t \<in> set (tracked (fst (recover_step e (live, dlq)))). Status t = Pending) \<and>
    (\<forall>t \<in> set (snd (recover_step e (live, dlq))). Status t = Dead)"
proof -
  have upd: "\<forall>t' \<in> set (tracked (AList.update k t live)). Status t' = Pending" if "Status t = Pending" for k t
    using that assms(1) tracked_update by blast
  have del: "\<forall>t \<in> set (tracked (AList.delete k live)). Status t = Pending" for k
    using assms(1) set_tracked_delete by blast
  have look: "Status t = Pending" if "map_of live k = Some t" for k t
    using assms(1) lookup_in_tracked [OF that] by blast
  have nack: "\<forall>t' \<in> set (tracked (AList.update k (t\<lparr>RetryCount := n\<rparr>) live)). Status t' = Pending"
    if "map_of live k = Some t" for k t n
    by (rule upd) (simp add: look [OF that])
  have enq: "\<forall>t' \<in> set (tracked (AList.update k (t\<lparr>Status := Pending, Deadline := 0\<rparr>) live)). Status t' = Pending"
    for k t by (rule upd) simp
  show ?thesis
    unfolding recover_step_def prod.case
    using assms enq del nack by (simp split: option.splits)
qed

lemma log_view_status:
  "(\<forall>t \<in> set (tracked (fst (log_view es))). Status t = Pending) \<and>
   (\<forall>t \<in> set (snd (log_view es)). Status t = Dead)"
proof (induction es rule: rev_induct)
  case Nil
  then show ?case by (simp add: log_view_def tracked_def)
next
  case (snoc e es)
  obtain live dlq where v: "log_view es = (live, dlq)" by (cases "log_view es")
  show ?case
    unfolding log_view_append v using snoc.IH unfolding v fst_conv snd_conv
    by (elim conjE) (rule recover_step_status)
qed

lemma PQ_fold:
  "pq_invar (fold (\<lambda>t h. PQ_Push h t) ts NewPriorityQueue)"
  "mset (fold (\<lambda>t h. PQ_Push h t) ts NewPriorityQueue) = mset ts"
  by (rule PQ_of_invar [unfolded PQ_of_def], rule mset_PQ_of [unfolded PQ_of_def])

definition emptyBroker :: "Config \<Rightarrow> WAL \<Rightarrow> Broker" where
  "emptyBroker cfg w =
     \<lparr>bPq = NewPriorityQueue, bTracker = NewInFlightTracker, bDlq = [], bWal = w,
      bCfg = cfg, bAcked = 0, bNacked = 0, bClosed = False\<rparr>"

text \<open>The broker between the fold of recovery and the compaction that follows it.\<close>

definition foldedBroker :: "env \<Rightarrow> Config \<Rightarrow> LogEntry list \<Rightarrow> WAL \<Rightarrow> Broker" where
  "foldedBroker E cfg es w =
     (emptyBroker cfg w)\<lparr>bPq := fold (\<lambda>t h. PQ_Push h t) (map snd (envOrd E (fst (log_view es)))) NewPriorityQueue,
       bDlq := snd (log_view es)\<rparr>"

lemma recover_folded:
  assumes "Replay G io w0 = (Inr es, w)"
  shows "recover G io E (emptyBroker cfg w0) =
    (if es = [] then (None, foldedBroker E cfg es w) else compactLocked G E (foldedBroker E cfg es w))"
  using assms by (simp add: recover_def foldedBroker_def emptyBroker_def Let_def split: prod.splits)

lemma folded_pq:
  assumes "map_order (envOrd E)"
  shows "mset (bPq (foldedBroker E cfg es w)) = mset (tracked (fst (log_view es)))"
  using PQ_fold map_order_mset [OF assms] by (simp add: foldedBroker_def tracked_def)

lemma folded_id_map:
  assumes "map_order (envOrd E)"
  shows "id_map (bPq (foldedBroker E cfg es w)) = live_map (fst (log_view es))"
proof -
  have m: "mset (tracked (fst (log_view es))) = mset (bPq (foldedBroker E cfg es w))"
    using folded_pq [OF assms] by simp
  from id_map_mset [OF m tracked_distinct [OF log_view_invar]] show ?thesis
    by (simp add: live_map_tracked [OF log_view_invar])
qed

lemma folded_agree:
  assumes E: "map_order (envOrd E)" and w: "wal_invar G w" "wal_log G w = es" "seq_ok w"
      "wDurable w = length (wDisk w)"
    and good: "good_view (log_view es)"
    and fit: "logs_fit G \<lparr>bsB = foldedBroker E cfg es w, bsLate = []\<rparr>"
  shows "agree G \<lparr>bsB = foldedBroker E cfg es w, bsLate = []\<rparr>"
proof -
  let ?b = "foldedBroker E cfg es w"
  have tr: "bTracker ?b = []" "bDlq ?b = snd (log_view es)" "bWal ?b = w"
    by (simp_all add: foldedBroker_def emptyBroker_def NewInFlightTracker_def)
  have "set (bPq ?b) = set (tracked (fst (log_view es)))" using folded_pq [OF E] mset_eq_setD by blast
  then have "broker_invar ?b"
    using log_view_status [of es] PQ_fold [of "map snd (envOrd E (fst (log_view es)))"] tr
    by (simp add: broker_invar_def tracker_invar_def tracked_def) (simp add: foldedBroker_def)
  moreover have "mset (bPq ?b @ bDlq ?b) = mset (tracked (fst (log_view es)) @ snd (log_view es))"
    using folded_pq [OF E] tr by simp
  from distinct_ids_mset [OF this] have "distinct (map ID (bPq ?b @ bDlq ?b))"
    using good by (simp add: good_view_def)
  ultimately have "sys_invar \<lparr>bsB = ?b, bsLate = []\<rparr>"
    using tr by (simp add: sys_invar_def held_def tracked_def)
  moreover have "durable_ok G w" using durable_ok_full [OF w(1,4)] good w(2) by simp
  ultimately show ?thesis
    using w fit tr folded_id_map [OF E]
    by (simp add: agree_def view_agrees_def held_def tracked_def)
qed

section \<open>New after a crash\<close>

lemma tempBytes_compact:
  assumes "gob_roundtrip G"
  shows "\<exists>bs. tempBytes G (compactEntries E b) = Some bs"
proof -
  have "\<exists>bs. tempBytes G es = Some bs" if "\<forall>e \<in> set es. entryPayload G e \<noteq> None" for es
    using that by (induction es) auto
  moreover have "entryPayload G (enqueueEntry t) \<noteq> None" for t
    using assms by (auto simp: gob_roundtrip_def entryPayload_def enqueueEntry_def encodeTask_def
        dest: spec [of _ t])
  moreover have "entryPayload G (idEntry OpDead tid) \<noteq> None" for tid
    by (simp add: entryPayload_def idEntry_def)
  ultimately show ?thesis by (simp add: compactEntries_def ball_Un)
qed

lemma compactLocked_total:
  assumes "gob_roundtrip G" and "envRewrite E = RewriteOk"
  shows "\<exists>b'. compactLocked G E b = (None, b')"
  using tempBytes_compact [OF assms(1), of E b] assms(2) by (auto simp: compactLocked_def Rewrite_def)

lemma compactLocked_memory:
  assumes "compactLocked G E b = (r, b')"
  shows "bPq b' = bPq b" "bTracker b' = bTracker b" "bDlq b' = bDlq b" "bClosed b' = bClosed b"
    "logs_fit G \<lparr>bsB = b', bsLate = late\<rparr> = logs_fit G \<lparr>bsB = b, bsLate = late\<rparr>"
  by (subst compactLocked_fields [OF assms], simp add: logs_fit_def held_def)+

definition scanDefault :: "Config \<Rightarrow> Config" where
  "scanDefault cfg = (if ScanInterval cfg \<le> 0 then cfg\<lparr>ScanInterval := 10 ^ 9\<rparr> else cfg)"

lemma New_file:
  assumes "OpenWAL True file = Inr w0" and "Replay G io w0 = (Inr es, w)"
  shows "New G True io E cfg file =
    (case (if es = [] then (None, foldedBroker E (scanDefault cfg) es w)
           else compactLocked G E (foldedBroker E (scanDefault cfg) es w)) of
       (Some e, b) \<Rightarrow> Inl e | (None, b) \<Rightarrow> Inr b)"
  using recover_folded [OF assms(2), of E "scanDefault cfg"] assms(1)
  by (simp add: New_def Let_def scanDefault_def emptyBroker_def)

text \<open>
  The state after a crash at byte \<open>k\<close>: the fold over \<open>m\<close> records, where \<open>m\<close> counts at least the
  fsynced ones.
\<close>

lemma New_crash:
  assumes s: "agree G s" and E: "map_order (envOrd E)"
    and n: "New G True replayOk E cfg (Some (crashFile (bWal (bsB s)) k)) = Inr b"
  obtains m w where "m \<le> length (wal_log G (bWal (bsB s)))"
    "\<forall>i \<le> length (wal_log G (bWal (bsB s))).
       length (logBytes G (take i (wal_log G (bWal (bsB s))))) \<le> wDurable (bWal (bsB s)) \<longrightarrow> i \<le> m"
    "wal_invar G w" "wal_log G w = take m (wal_log G (bWal (bsB s)))" "seq_ok w"
    "wDurable w = length (wDisk w)"
    "(if take m (wal_log G (bWal (bsB s))) = [] then b = foldedBroker E (scanDefault cfg) [] w
      else compactLocked G E (foldedBroker E (scanDefault cfg) (take m (wal_log G (bWal (bsB s)))) w) = (None, b))"
proof -
  let ?w = "bWal (bsB s)" and ?L = "wal_log G (bWal (bsB s))"
  obtain w0 where w0: "OpenWAL True (Some (crashFile ?w k)) = Inr w0" by (simp add: OpenWAL_def Let_def)
  from Replay_crash [OF agreeD(3) [OF s] w0] obtain m w where
    m: "m \<le> length ?L" "Replay G replayOk w0 = (Inr (take m ?L), w)" "wal_invar G w"
      "wal_log G w = take m ?L" "seq_ok w" "wDurable w = length (wDisk w)"
      "\<forall>i \<le> length ?L. length (logBytes G (take i ?L)) \<le> wDurable ?w \<longrightarrow> i \<le> m"
    by (elim exE conjE)
  have "(if take m ?L = [] then b = foldedBroker E (scanDefault cfg) [] w
      else compactLocked G E (foldedBroker E (scanDefault cfg) (take m ?L) w) = (None, b))"
    using n New_file [OF w0 m(2), of E cfg]
    by (cases "take m ?L = []") (auto split: prod.splits option.splits)
  with m that show thesis by blast
qed

lemma crash_prefix_good:
  assumes s: "agree G s" and m: "\<forall>i \<le> length (wal_log G (bWal (bsB s))).
       length (logBytes G (take i (wal_log G (bWal (bsB s))))) \<le> wDurable (bWal (bsB s)) \<longrightarrow> i \<le> m"
  shows "good_view (log_view (take m (wal_log G (bWal (bsB s)))))"
proof -
  obtain i where "i \<le> length (wal_log G (bWal (bsB s)))"
    "wDurable (bWal (bsB s)) = length (logBytes G (take i (wal_log G (bWal (bsB s)))))"
    "\<forall>m \<ge> i. good_view (log_view (take m (wal_log G (bWal (bsB s)))))"
    using agreeD(5) [OF s] by (auto simp: durable_ok_def)
  with m show ?thesis by simp
qed

text \<open>Memory and log agree again after the restart.\<close>

lemma New_crash_agree:
  assumes s: "agree G s" and E: "sound_env E"
    and n: "New G True replayOk E cfg (Some (crashFile (bWal (bsB s)) k)) = Inr b"
    and fit: "logs_fit G \<lparr>bsB = b, bsLate = []\<rparr>"
  shows "agree G \<lparr>bsB = b, bsLate = []\<rparr>"
proof -
  let ?L = "wal_log G (bWal (bsB s))"
  have o: "map_order (envOrd E)" "envRewrite E \<noteq> ReopenErr" using E by (simp_all add: sound_env_def)
  from New_crash [OF s o(1) n] obtain m w where
    m: "\<forall>i \<le> length ?L. length (logBytes G (take i ?L)) \<le> wDurable (bWal (bsB s)) \<longrightarrow> i \<le> m"
    and w: "wal_invar G w" "wal_log G w = take m ?L" "seq_ok w" "wDurable w = length (wDisk w)"
    and b: "if take m ?L = [] then b = foldedBroker E (scanDefault cfg) [] w
      else compactLocked G E (foldedBroker E (scanDefault cfg) (take m ?L) w) = (None, b)"
    by metis
  note folded = folded_agree [OF o(1) w crash_prefix_good [OF s m], of "scanDefault cfg"]
  show ?thesis
  proof (cases "take m ?L = []")
    case True
    then show ?thesis using b folded [unfolded True] fit by simp
  next
    case False
    then have c: "compactLocked G E (foldedBroker E (scanDefault cfg) (take m ?L) w) = (None, b)"
      using b by simp
    have "agree G \<lparr>bsB = foldedBroker E (scanDefault cfg) (take m ?L) w, bsLate = []\<rparr>"
      using folded fit compactLocked_memory(5) [OF c] by simp
    from compactLocked_agree [OF this o(2,1), of None b] c show ?thesis by simp
  qed
qed

lemma New_fresh_agree:
  assumes "gob_roundtrip G" and "map_order (envOrd E)" and n: "New G True replayOk E cfg None = Inr b"
  shows "agree G \<lparr>bsB = b, bsLate = []\<rparr>"
proof -
  obtain w0 where w0: "OpenWAL True None = Inr w0" "wDisk w0 = []" "wOrphan w0 = None" "wDurable w0 = 0"
    "seq_ok w0"
    by (simp add: OpenWAL_def Let_def seq_ok_def)
  have w: "wal_invar G w0 \<and> wal_log G w0 = []"
    using assms(1) w0 by (intro wal_invarI) simp_all
  have "b = foldedBroker E (scanDefault cfg) [] w0"
    using New_file [OF w0(1), of G replayOk "[]" w0 E cfg] Replay_ok [of G w0] w n by simp
  moreover have "log_view [] = ([], [])" by (simp add: log_view_def)
  moreover have "envOrd E [] = []" using map_order_set [OF assms(2), of "[]"] by simp
  moreover have "NewPriorityQueue = []" using PQ_fold(2) [of "[]"] by simp
  ultimately show ?thesis
    using folded_agree [OF assms(2), of G w0 "[]" "scanDefault cfg"] w w0
    by (simp add: good_view_def tracked_def logs_fit_def held_def foldedBroker_def emptyBroker_def
        NewInFlightTracker_def)
qed

section \<open>Reachable states\<close>

inductive broker_reach :: "gob \<Rightarrow> bsys \<Rightarrow> bool" for G where
  Reach_New:
    "\<lbrakk>sound_env E; New G True replayOk E cfg None = Inr b\<rbrakk> \<Longrightarrow> broker_reach G \<lparr>bsB = b, bsLate = []\<rparr>"
| Reach_Step: "\<lbrakk>broker_reach G s; sound_env E; broker_step G E s s'\<rbrakk> \<Longrightarrow> broker_reach G s'"
| Reach_Crash:
    "\<lbrakk>broker_reach G s; sound_env E;
      New G True replayOk E cfg (Some (crashFile (bWal (bsB s)) k)) = Inr b;
      logs_fit G \<lparr>bsB = b, bsLate = []\<rparr>\<rbrakk> \<Longrightarrow>
     broker_reach G \<lparr>bsB = b, bsLate = []\<rparr>"

lemma broker_reach_agree: "broker_reach G s \<Longrightarrow> gob_roundtrip G \<Longrightarrow> agree G s"
proof (induction rule: broker_reach.induct)
  case (Reach_New E cfg b)
  then show ?case by (intro New_fresh_agree) (simp_all add: sound_env_def)
next
  case (Reach_Step s E s')
  then show ?case using broker_step_agree by blast
next
  case (Reach_Crash s E cfg k b)
  then show ?case using New_crash_agree by blast
qed

section \<open>What a restart gives back\<close>

lemma New_crash_total:
  assumes s: "agree G s" and E: "sound_env E" "envRewrite E = RewriteOk"
  shows "\<exists>m b. New G True replayOk E cfg (Some (crashFile (bWal (bsB s)) k)) = Inr b \<and>
    m \<le> length (wal_log G (bWal (bsB s))) \<and>
    (\<forall>i \<le> length (wal_log G (bWal (bsB s))).
       length (logBytes G (take i (wal_log G (bWal (bsB s))))) \<le> wDurable (bWal (bsB s)) \<longrightarrow> i \<le> m) \<and>
    id_map (bPq b) = live_map (fst (log_view (take m (wal_log G (bWal (bsB s)))))) \<and>
    bDlq b = snd (log_view (take m (wal_log G (bWal (bsB s))))) \<and> bTracker b = [] \<and> \<not> bClosed b"
proof -
  let ?w = "bWal (bsB s)" and ?L = "wal_log G (bWal (bsB s))"
  have o: "map_order (envOrd E)" using E(1) by (simp add: sound_env_def)
  obtain w0 where w0: "OpenWAL True (Some (crashFile ?w k)) = Inr w0" by (simp add: OpenWAL_def Let_def)
  from Replay_crash [OF agreeD(3) [OF s] w0] obtain m w where
    m: "m \<le> length ?L" "Replay G replayOk w0 = (Inr (take m ?L), w)"
      "\<forall>i \<le> length ?L. length (logBytes G (take i ?L)) \<le> wDurable ?w \<longrightarrow> i \<le> m"
    by (elim exE conjE)
  let ?f = "foldedBroker E (scanDefault cfg) (take m ?L) w"
  have mem: "id_map (bPq ?f) = live_map (fst (log_view (take m ?L)))" "bDlq ?f = snd (log_view (take m ?L))"
    "bTracker ?f = []" "\<not> bClosed ?f"
    using folded_id_map [OF o] by (simp_all add: foldedBroker_def emptyBroker_def NewInFlightTracker_def)
  obtain b where c: "compactLocked G E ?f = (None, b)"
    using compactLocked_total [OF wal_invarD(1) [OF agreeD(3) [OF s]] E(2)] by blast
  let ?b = "if take m ?L = [] then ?f else b"
  have "New G True replayOk E cfg (Some (crashFile ?w k)) = Inr ?b"
    using New_file [OF w0 m(2), of E cfg] c by simp
  moreover have "bPq ?b = bPq ?f" "bDlq ?b = bDlq ?f" "bTracker ?b = bTracker ?f" "bClosed ?b = bClosed ?f"
    using compactLocked_memory(1-4) [OF c] by simp_all
  ultimately show ?thesis using m(1,3) mem by (intro exI [of _ m] exI [of _ ?b]) simp
qed

text \<open>A restart on the whole file: every task is pending again, with its retry count.\<close>

lemma New_restart:
  assumes s: "agree G s" and E: "sound_env E" "envRewrite E = RewriteOk"
    and k: "wDurable (bWal (bsB s)) = length (wDisk (bWal (bsB s))) \<or> length (wDisk (bWal (bsB s))) \<le> k"
  shows "\<exists>b. New G True replayOk E cfg (Some (crashFile (bWal (bsB s)) k)) = Inr b \<and>
    id_map (bPq b) = id_map (held s) \<and> map dead_core (bDlq b) = map dead_core (bDlq (bsB s)) \<and>
    bTracker b = []"
proof -
  note S = agreeD [OF s]
  let ?w = "bWal (bsB s)" and ?L = "wal_log G (bWal (bsB s))"
  have full: "wDisk ?w = logBytes G ?L" using wal_invarD(3) [OF S(3)] .
  define s2 where "s2 = s\<lparr>bsB := (bsB s)\<lparr>bWal := ?w\<lparr>wDurable := length (wDisk ?w)\<rparr>\<rparr>\<rparr>"
  let ?w2 = "?w\<lparr>wDurable := length (wDisk ?w)\<rparr>"
  have "wal_invar G ?w2 \<and> wal_log G ?w2 = ?L"
    using S(3) wal_invarD [OF S(3)] by (intro wal_invarI) auto
  moreover from this have "durable_ok G ?w2"
    using view_agrees_good [OF S(4,1) log_view_invar] by (intro durable_ok_full) simp_all
  moreover have "seq_ok ?w2" using S(6) by (simp add: seq_ok_def)
  ultimately have s2: "agree G s2" "wal_log G (bWal (bsB s2)) = ?L" "wDurable (bWal (bsB s2)) = length (wDisk ?w)"
    using agree_cong [OF s] by (simp_all add: s2_def)
  have crash: "crashFile (bWal (bsB s2)) k = crashFile ?w k"
    using k by (auto simp: crashFile_def s2_def)
  from New_crash_total [OF s2(1) E, of cfg k, unfolded s2(2,3) crash] obtain m b where
    m: "New G True replayOk E cfg (Some (crashFile ?w k)) = Inr b" "m \<le> length ?L"
      "\<forall>i \<le> length ?L. length (logBytes G (take i ?L)) \<le> length (wDisk ?w) \<longrightarrow> i \<le> m"
      "id_map (bPq b) = live_map (fst (log_view (take m ?L)))" "bDlq b = snd (log_view (take m ?L))"
      "bTracker b = []"
    by (elim exE conjE)
  have "length ?L \<le> m" using m(3) full by simp
  with m(2) have "take m ?L = ?L" by simp
  with m S(4) show ?thesis by (intro exI [of _ b]) (simp add: view_agrees_def)
qed

lemma Enqueue_locked_seq:
  assumes "Enqueue_locked G E b t = (Inr seq, b')"
  shows "seq = wWriteSeq (bWal b')"
proof -
  have "wWriteSeq (bWal b2) = wWriteSeq (bWal b1)" if "maybeCompactLocked G E b1 = (r, b2)" for b1 b2 r
    using that
    by (auto simp: maybeCompactLocked_def compactLocked_def Rewrite_def
        split: if_splits prod.splits option.splits rewriteOutcome.splits)
  moreover have "seq = wWriteSeq w'" if "AppendTaskNoSync G out w op u = (Inr seq, w')" for out w op u w'
    using that by (auto simp: AppendTaskNoSync_def appendNoSync_def Let_def
        split: option.splits writeOutcome.splits)
  ultimately show ?thesis
    using assms by (fastforce simp: Enqueue_locked_def Let_def split: if_splits prod.splits sum.splits option.splits)
qed

lemma Enqueue_adds:
  assumes "agree G s" and "Enqueue_locked G E (bsB s) t = (Inr seq, b')"
  shows "prepareTask E t \<in> set (bPq b')"
proof -
  have h: "pq_invar (bPq (bsB s))" using agreeD(1) [OF assms(1)] by (simp add: sys_invar_def broker_invar_def)
  have "prepareTask E t \<in> set (PQ_Push (bPq (bsB s)) (prepareTask E t))"
    using pq.bag_push [OF h, of "prepareTask E t"] by (metis set_mset_mset union_single_eq_member)
  then show ?thesis
    using assms(2)
    by (auto simp: Enqueue_locked_def Let_def dest!: maybeCompactLocked_sel(1)
        split: if_splits prod.splits sum.splits option.splits)
qed

text \<open>An enqueue that returned without an error is on disk as a whole.\<close>

lemma Enqueue_returned:
  assumes s: "agree G s" and E: "sound_env E" and q: "Enqueue G E (bsB s) t = Some (None, b')"
    and fresh: "ID (prepareTask E t) \<notin> ID ` set (held s @ bDlq (bsB s))"
    and late: "bsLate s = [] \<or> quiet (bsB s)" and fit: "logs_fit G (s\<lparr>bsB := b'\<rparr>)"
  shows "agree G (s\<lparr>bsB := b'\<rparr>)" "wDurable (bWal b') = length (wDisk (bWal b'))"
    "prepareTask E t \<in> set (held (s\<lparr>bsB := b'\<rparr>))"
proof -
  obtain seq b1 where l: "Enqueue_locked G E (bsB s) t = (Inr seq, b1)"
    using q by (cases "Enqueue_locked G E (bsB s) t") (auto simp: Enqueue_def awaitSync_def split: sum.splits)
  obtain w where w: "WaitSync (envSyncs E) (bWal b1) seq = Some (None, w)" "b' = b1\<lparr>bWal := w\<rparr>"
    using q l by (auto simp: Enqueue_def awaitSync_def)
  have "logs_fit G (s\<lparr>bsB := b1\<rparr>)" using fit w(2) by (simp add: logs_fit_def held_def)
  from Enqueue_agree [OF s E l this fresh late] have a1: "agree G (s\<lparr>bsB := b1\<rparr>)" .
  with Sync_agree [of G "s\<lparr>bsB := b1\<rparr>"] w show a: "agree G (s\<lparr>bsB := b'\<rparr>)" by simp
  have "wWriteSeq w = seq"
    using WaitSync_invar [of G "bWal b1"] agreeD(3) [OF a1] w(1) Enqueue_locked_seq [OF l] by simp
  with WaitSync_synced [OF w(1)] agreeD(6) [OF a] w(2)
  show "wDurable (bWal b') = length (wDisk (bWal b'))" by (simp add: seq_ok_def)
  show "prepareTask E t \<in> set (held (s\<lparr>bsB := b'\<rparr>))"
    using Enqueue_adds [OF s l] w(2) by (simp add: held_def)
qed

end
