(* ===== verification/Group_Commit.thy ===== *)
theory Group_Commit
  imports Wal_Log
begin

text \<open>
  Group commit, the concurrent reading of \<^verbatim>\<open>WaitSync\<close> in \<^verbatim>\<open>src/broker/wal.go\<close>: any number of
  goroutines append records and wait for them, one of them at a time is the sync leader, and a
  compaction may rewrite the file in between. A step is one critical section, or the fsync that
  runs outside both locks. A failed write leaves part of its record in the file.

  \<open>gcEnd\<close> is a history variable: the offset at which the record of a sequence number ends in the
  file of the path, 0 once a rewrite has folded it into the new file.
\<close>

section \<open>Goroutines and steps\<close>

datatype pc =
    Idle
  | Waiting nat
  | Leading nat
  | Covering nat nat
  | Synced nat nat bool
  | Returned nat "walError option"
  | WriteFailed

record gc =
  gcWal :: WAL
  gcPc :: "nat \<Rightarrow> pc"
  gcEnd :: "nat \<Rightarrow> nat"

definition gc_init :: "byte list \<Rightarrow> gc" where
  "gc_init c =
     \<lparr>gcWal = \<lparr>wDisk = c, wOrphan = None, wDurable = length c, wEntries = 0, wWriteSeq = 0,
                wSyncedSeq = 0, wSyncing = False, wSyncErr = False\<rparr>,
      gcPc = (\<lambda>_. Idle), gcEnd = (\<lambda>_. 0)\<rparr>"

fun is_leader :: "pc \<Rightarrow> bool" where
  "is_leader (Leading seq) = True"
| "is_leader (Covering seq cov) = True"
| "is_leader (Synced seq cov ok) = True"
| "is_leader _ = False"

inductive gc_step :: "gc \<Rightarrow> gc \<Rightarrow> bool" where
  append: "gcPc s i = Idle \<Longrightarrow> appendNoSync WriteOk (gcWal s) op p = (Inr seq, w') \<Longrightarrow>
    gc_step s (s\<lparr>gcWal := w', gcPc := (gcPc s)(i := Waiting seq),
      gcEnd := (gcEnd s)(seq := length (wDisk w'))\<rparr>)"
| append_fail: "gcPc s i = Idle \<Longrightarrow> appendNoSync (WriteErr k) (gcWal s) op p = (Inl e, w') \<Longrightarrow>
    gc_step s (s\<lparr>gcWal := w', gcPc := (gcPc s)(i := WriteFailed)\<rparr>)"
| see_error: "gcPc s i = Waiting seq \<Longrightarrow> wSyncErr (gcWal s) \<Longrightarrow>
    gc_step s (s\<lparr>gcPc := (gcPc s)(i := Returned seq (Some WalFsync))\<rparr>)"
| see_synced: "gcPc s i = Waiting seq \<Longrightarrow> \<not> wSyncErr (gcWal s) \<Longrightarrow> seq \<le> wSyncedSeq (gcWal s) \<Longrightarrow>
    gc_step s (s\<lparr>gcPc := (gcPc s)(i := Returned seq None)\<rparr>)"
| lead: "gcPc s i = Waiting seq \<Longrightarrow> \<not> wSyncErr (gcWal s) \<Longrightarrow> wSyncedSeq (gcWal s) < seq \<Longrightarrow>
    \<not> wSyncing (gcWal s) \<Longrightarrow>
    gc_step s (s\<lparr>gcWal := syncBegin (gcWal s), gcPc := (gcPc s)(i := Leading seq)\<rparr>)"
| cover: "gcPc s i = Leading seq \<Longrightarrow>
    gc_step s (s\<lparr>gcPc := (gcPc s)(i := Covering seq (syncCovered (gcWal s)))\<rparr>)"
| fsync: "gcPc s i = Covering seq cov \<Longrightarrow>
    gc_step s (s\<lparr>gcWal := handleSync (gcWal s), gcPc := (gcPc s)(i := Synced seq cov True)\<rparr>)"
| fsync_fail: "gcPc s i = Covering seq cov \<Longrightarrow>
    gc_step s (s\<lparr>gcPc := (gcPc s)(i := Synced seq cov False)\<rparr>)"
| publish: "gcPc s i = Synced seq cov ok \<Longrightarrow>
    gc_step s (s\<lparr>gcWal := syncEnd ok cov (gcWal s), gcPc := (gcPc s)(i := Waiting seq)\<rparr>)"
| rewrite: "\<not> wSyncing (gcWal s) \<Longrightarrow> Rewrite G out es (gcWal s) = (None, w') \<Longrightarrow>
    gc_step s (s\<lparr>gcWal := w', gcEnd := (\<lambda>_. 0)\<rparr>)"
| rewrite_fail: "\<not> wSyncing (gcWal s) \<Longrightarrow> Rewrite G out es (gcWal s) = (Some e, w') \<Longrightarrow>
    gc_step s (s\<lparr>gcWal := w'\<rparr>)"

inductive gc_reach :: "byte list \<Rightarrow> gc \<Rightarrow> bool" for c where
  start: "gc_reach c (gc_init c)"
| step: "gc_reach c s \<Longrightarrow> gc_step s t \<Longrightarrow> gc_reach c t"

section \<open>Invariant\<close>

text \<open>Everything up to \<open>q\<close> lies in the durable part, as long as the handle is the named file.\<close>

definition covered_upto :: "gc \<Rightarrow> nat \<Rightarrow> bool" where
  "covered_upto s q \<longleftrightarrow>
     (wOrphan (gcWal s) = None \<longrightarrow> (\<forall>k \<le> q. gcEnd s k \<le> wDurable (gcWal s)))"

definition pc_ok :: "gc \<Rightarrow> pc \<Rightarrow> bool" where
  "pc_ok s p =
     (case p of
        Waiting seq \<Rightarrow> seq \<le> wWriteSeq (gcWal s)
      | Leading seq \<Rightarrow> seq \<le> wWriteSeq (gcWal s)
      | Covering seq cov \<Rightarrow> seq \<le> cov \<and> cov \<le> wWriteSeq (gcWal s)
      | Synced seq cov ok \<Rightarrow> seq \<le> cov \<and> cov \<le> wWriteSeq (gcWal s) \<and> (ok \<longrightarrow> covered_upto s cov)
      | Returned seq r \<Rightarrow> r = None \<longrightarrow> seq \<le> wSyncedSeq (gcWal s)
      | _ \<Rightarrow> True)"

definition gc_invar :: "gc \<Rightarrow> bool" where
  "gc_invar s \<longleftrightarrow>
     wSyncedSeq (gcWal s) \<le> wWriteSeq (gcWal s) \<and>
     covered_upto s (wSyncedSeq (gcWal s)) \<and>
     (wOrphan (gcWal s) = None \<longrightarrow> wDurable (gcWal s) \<le> length (wDisk (gcWal s)) \<and>
        (\<forall>k \<le> wWriteSeq (gcWal s). gcEnd s k \<le> length (wDisk (gcWal s)))) \<and>
     (\<forall>i. pc_ok s (gcPc s i)) \<and>
     (wSyncing (gcWal s) = (\<exists>i. is_leader (gcPc s i))) \<and>
     (\<forall>i j. is_leader (gcPc s i) \<longrightarrow> is_leader (gcPc s j) \<longrightarrow> i = j)"

lemma gc_invar_init: "gc_invar (gc_init c)"
  by (simp add: gc_invar_def gc_init_def covered_upto_def pc_ok_def)

lemma pc_ok_mono:
  assumes "pc_ok s p" and "wWriteSeq (gcWal s) \<le> wWriteSeq (gcWal t)"
    and "wSyncedSeq (gcWal s) \<le> wSyncedSeq (gcWal t)"
    and "\<And>q. q \<le> wWriteSeq (gcWal s) \<Longrightarrow> covered_upto s q \<Longrightarrow> covered_upto t q"
  shows "pc_ok t p"
  using assms by (cases p) (auto simp: pc_ok_def)

text \<open>Effect of the log operations on the fields the invariant speaks about.\<close>

lemma appendNoSync_Inr:
  assumes "appendNoSync WriteOk w op p = (Inr seq, w')"
  shows "seq = wWriteSeq w + 1" "wWriteSeq w' = wWriteSeq w + 1" "wSyncedSeq w' = wSyncedSeq w"
    "wSyncing w' = wSyncing w" "wDurable w' = wDurable w" "(wOrphan w' = None) = (wOrphan w = None)"
    "length (wDisk w) \<le> length (wDisk w')"
  using assms by (auto simp: appendNoSync_def handleWrite_def Let_def split: option.splits)

lemma appendNoSync_Inl:
  assumes "appendNoSync (WriteErr k) w op p = (Inl e, w')"
  shows "wWriteSeq w' = wWriteSeq w" "wSyncedSeq w' = wSyncedSeq w"
    "wSyncing w' = wSyncing w" "wDurable w' = wDurable w" "(wOrphan w' = None) = (wOrphan w = None)"
    "length (wDisk w) \<le> length (wDisk w')"
  using assms by (auto simp: appendNoSync_def handleWrite_def Let_def split: option.splits)

lemma Rewrite_None:
  assumes "Rewrite G out es w = (None, w')"
  shows "wWriteSeq w' = wWriteSeq w" "wSyncedSeq w' = wWriteSeq w" "wSyncing w' = wSyncing w"
    "wDurable w' = length (wDisk w')"
  using assms by (auto simp: Rewrite_def split: option.splits rewriteOutcome.splits if_splits)

lemma Rewrite_Some:
  assumes "Rewrite G out es w = (Some e, w')"
  shows "w' = w \<or> wOrphan w' \<noteq> None \<and> wWriteSeq w' = wWriteSeq w \<and> wSyncedSeq w' = wSyncedSeq w \<and>
    wSyncing w' = wSyncing w"
  using assms by (auto simp: Rewrite_def split: option.splits rewriteOutcome.splits if_splits)

lemma gc_invar_pc_ok: "gc_invar s \<Longrightarrow> pc_ok s (gcPc s i)"
  by (simp add: gc_invar_def)

lemma gc_invar_append:
  assumes s: "gc_invar s" and i: "gcPc s i = Idle"
    and a: "appendNoSync WriteOk (gcWal s) op p = (Inr seq, w')"
  shows "gc_invar (s\<lparr>gcWal := w', gcPc := (gcPc s)(i := Waiting seq),
    gcEnd := (gcEnd s)(seq := length (wDisk w'))\<rparr>)" (is "gc_invar ?t")
proof -
  note w = appendNoSync_Inr [OF a]
  have cov: "covered_upto ?t q" if "q \<le> wWriteSeq (gcWal s)" "covered_upto s q" for q
    using that w by (auto simp: covered_upto_def)
  have "pc_ok ?t (gcPc ?t j)" for j
  proof (cases "j = i")
    case True
    then show ?thesis using w by (simp add: pc_ok_def)
  next
    case False
    have "pc_ok s (gcPc s j)" using s by (simp add: gc_invar_def)
    then have "pc_ok ?t (gcPc s j)" by (rule pc_ok_mono) (use w cov in simp_all)
    with False show ?thesis by simp
  qed
  moreover have "gcEnd ?t k \<le> length (wDisk w')" if "wOrphan w' = None" "k \<le> wWriteSeq w'" for k
    using s w that by (auto simp: gc_invar_def le_Suc_eq intro: order_trans)
  moreover have "is_leader (gcPc ?t j) = is_leader (gcPc s j)" for j using i by simp
  ultimately show ?thesis
    using s w cov [of "wSyncedSeq (gcWal s)"] unfolding gc_invar_def by (auto intro: order_trans)
qed

lemma gc_invar_append_fail:
  assumes s: "gc_invar s" and i: "gcPc s i = Idle"
    and a: "appendNoSync (WriteErr k) (gcWal s) op p = (Inl e, w')"
  shows "gc_invar (s\<lparr>gcWal := w', gcPc := (gcPc s)(i := WriteFailed)\<rparr>)" (is "gc_invar ?t")
proof -
  note w = appendNoSync_Inl [OF a]
  have cov: "covered_upto ?t q" if "covered_upto s q" for q
    using that w by (auto simp: covered_upto_def)
  have "pc_ok ?t (gcPc ?t j)" for j
  proof (cases "j = i")
    case False
    have "pc_ok s (gcPc s j)" using s by (simp add: gc_invar_def)
    then have "pc_ok ?t (gcPc s j)" by (rule pc_ok_mono) (simp_all add: w cov)
    with False show ?thesis by simp
  qed (simp add: pc_ok_def)
  moreover have "is_leader (gcPc ?t j) = is_leader (gcPc s j)" for j using i by simp
  ultimately show ?thesis
    using s w cov [of "wSyncedSeq (gcWal s)"] unfolding gc_invar_def by (auto intro: order_trans)
qed

text \<open>Steps that move one goroutine and leave the log alone.\<close>

lemma gc_invar_pc:
  assumes s: "gc_invar s" and p: "pc_ok s p" and l: "is_leader p = is_leader (gcPc s i)"
  shows "gc_invar (s\<lparr>gcPc := (gcPc s)(i := p)\<rparr>)" (is "gc_invar ?t")
proof -
  have ok: "pc_ok ?t q = pc_ok s q" for q by (cases q) (simp_all add: pc_ok_def covered_upto_def)
  have "is_leader (gcPc ?t j) = is_leader (gcPc s j)" for j using l by simp
  moreover have "covered_upto ?t = covered_upto s" by (simp add: covered_upto_def fun_eq_iff)
  ultimately show ?thesis using s p ok unfolding gc_invar_def by auto
qed

lemma gc_invar_lead:
  assumes s: "gc_invar s" and i: "gcPc s i = Waiting seq" and n: "\<not> wSyncing (gcWal s)"
  shows "gc_invar (s\<lparr>gcWal := syncBegin (gcWal s), gcPc := (gcPc s)(i := Leading seq)\<rparr>)" (is "gc_invar ?t")
proof -
  have cov: "covered_upto ?t = covered_upto s" by (simp add: covered_upto_def fun_eq_iff syncBegin_def)
  have ok: "pc_ok ?t q = pc_ok s q" for q
    using cov by (cases q) (simp_all add: pc_ok_def, simp_all add: syncBegin_def)
  have "pc_ok s (Waiting seq)" using gc_invar_pc_ok [OF s, of i] by (simp add: i)
  then have "pc_ok s (Leading seq)" by (simp add: pc_ok_def)
  moreover have "\<not> is_leader (gcPc s j)" for j using s n by (auto simp: gc_invar_def)
  ultimately show ?thesis
    using s ok cov unfolding gc_invar_def by (auto simp: syncBegin_def)
qed

lemma gc_invar_fsync:
  assumes s: "gc_invar s" and i: "gcPc s i = Covering seq cov"
  shows "gc_invar (s\<lparr>gcWal := handleSync (gcWal s), gcPc := (gcPc s)(i := Synced seq cov True)\<rparr>)"
    (is "gc_invar ?t")
proof -
  let ?w = "gcWal s" and ?w' = "handleSync (gcWal s)"
  have w: "wWriteSeq ?w' = wWriteSeq ?w" "wSyncedSeq ?w' = wSyncedSeq ?w" "wSyncing ?w' = wSyncing ?w"
    "wOrphan ?w' = wOrphan ?w" "wDisk ?w' = wDisk ?w"
    "wOrphan ?w = None \<Longrightarrow> wDurable ?w' = length (wDisk ?w)"
    by (auto simp: handleSync_def split: option.splits)
  have all: "covered_upto ?t q" if "q \<le> wWriteSeq ?w" for q
    using s that w by (auto simp: covered_upto_def gc_invar_def)
  have "pc_ok s (Covering seq cov)" using gc_invar_pc_ok [OF s, of i] by (simp add: i)
  then have "pc_ok ?t (Synced seq cov True)" using w all by (simp add: pc_ok_def)
  moreover have "pc_ok s (gcPc s j)" for j using s by (simp add: gc_invar_def)
  then have "pc_ok ?t (gcPc s j)" for j by (rule pc_ok_mono) (simp_all add: w all)
  moreover have "is_leader (gcPc ?t j) = is_leader (gcPc s j)" for j using i by simp
  ultimately show ?thesis
    using s w all unfolding gc_invar_def by auto
qed

lemma gc_invar_publish:
  assumes s: "gc_invar s" and i: "gcPc s i = Synced seq cov ok"
  shows "gc_invar (s\<lparr>gcWal := syncEnd ok cov (gcWal s), gcPc := (gcPc s)(i := Waiting seq)\<rparr>)"
    (is "gc_invar ?t")
proof -
  let ?w = "gcWal s" and ?w' = "syncEnd ok cov (gcWal s)"
  have w: "wWriteSeq ?w' = wWriteSeq ?w" "\<not> wSyncing ?w'" "wOrphan ?w' = wOrphan ?w"
    "wDisk ?w' = wDisk ?w" "wDurable ?w' = wDurable ?w" "wSyncedSeq ?w \<le> wSyncedSeq ?w'"
    "wSyncedSeq ?w' = wSyncedSeq ?w \<or> ok \<and> wSyncedSeq ?w' = cov"
    by (auto simp: syncEnd_def Let_def)
  have pi: "seq \<le> cov" "cov \<le> wWriteSeq ?w" "ok \<Longrightarrow> covered_upto s cov"
    using gc_invar_pc_ok [OF s, of i] by (simp_all add: i pc_ok_def)
  have cov: "covered_upto ?t q = covered_upto s q" for q using w by (simp add: covered_upto_def)
  have "covered_upto s (wSyncedSeq ?w')" using w pi s by (auto simp: gc_invar_def)
  moreover have "wSyncedSeq ?w' \<le> wWriteSeq ?w" using w(7) pi s by (auto simp: gc_invar_def)
  moreover have "pc_ok s (gcPc s j)" for j using s by (simp add: gc_invar_def)
  then have "pc_ok ?t (gcPc s j)" for j by (rule pc_ok_mono) (simp_all add: w cov)
  moreover have "pc_ok ?t (Waiting seq)" using pi w by (simp add: pc_ok_def)
  moreover have "\<not> is_leader (gcPc ?t j)" for j
    using s i by (cases "j = i") (auto simp: gc_invar_def)
  ultimately show ?thesis using s w cov unfolding gc_invar_def by auto
qed

lemma gc_invar_rewrite:
  assumes s: "gc_invar s" and r: "Rewrite G out es (gcWal s) = (None, w')"
  shows "gc_invar (s\<lparr>gcWal := w', gcEnd := (\<lambda>_. 0)\<rparr>)" (is "gc_invar ?t")
proof -
  note w = Rewrite_None [OF r]
  have cov: "covered_upto ?t q" for q by (simp add: covered_upto_def)
  have "pc_ok s (gcPc s j)" for j using s by (simp add: gc_invar_def)
  then have ok: "pc_ok ?t (gcPc s j)" for j
    by (rule pc_ok_mono) (use s w cov in \<open>auto simp: gc_invar_def\<close>)
  with s w cov show ?thesis unfolding gc_invar_def by auto
qed

lemma gc_invar_rewrite_fail:
  assumes s: "gc_invar s" and r: "Rewrite G out es (gcWal s) = (Some e, w')"
  shows "gc_invar (s\<lparr>gcWal := w'\<rparr>)" (is "gc_invar ?t")
proof (cases "w' = gcWal s")
  case True
  with s show ?thesis by simp
next
  case False
  then have w: "wOrphan w' \<noteq> None" "wWriteSeq w' = wWriteSeq (gcWal s)"
      "wSyncedSeq w' = wSyncedSeq (gcWal s)" "wSyncing w' = wSyncing (gcWal s)"
    using Rewrite_Some [OF r] by auto
  have cov: "covered_upto ?t q" for q using w(1) by (auto simp: covered_upto_def)
  have "pc_ok s (gcPc s j)" for j using s by (simp add: gc_invar_def)
  then have ok: "pc_ok ?t (gcPc s j)" for j
    by (rule pc_ok_mono) (use s w cov in \<open>auto simp: gc_invar_def\<close>)
  with s w cov show ?thesis unfolding gc_invar_def by auto
qed

lemma gc_step_invar: "gc_step s t \<Longrightarrow> gc_invar s \<Longrightarrow> gc_invar t"
proof (induction rule: gc_step.induct)
  case (see_error s i seq)
  then show ?case by (intro gc_invar_pc) (auto simp: pc_ok_def)
next
  case (see_synced s i seq)
  then show ?case by (intro gc_invar_pc) (auto simp: pc_ok_def)
next
  case (cover s i seq)
  then have "pc_ok s (Leading seq)" using gc_invar_pc_ok [of s i] by simp
  with cover show ?case by (intro gc_invar_pc) (auto simp: pc_ok_def syncCovered_def)
next
  case (fsync_fail s i seq cov)
  then have "pc_ok s (Covering seq cov)" using gc_invar_pc_ok [of s i] by simp
  with fsync_fail show ?case by (intro gc_invar_pc) (auto simp: pc_ok_def)
qed (blast intro: gc_invar_append gc_invar_append_fail gc_invar_lead gc_invar_fsync gc_invar_publish
    gc_invar_rewrite gc_invar_rewrite_fail)+

lemma gc_reach_invar: "gc_reach c s \<Longrightarrow> gc_invar s"
  by (induction rule: gc_reach.induct) (auto intro: gc_invar_init gc_step_invar)

section \<open>Progress\<close>

text \<open>
  The sync leader can always finish, and a goroutine inside \<^verbatim>\<open>WaitSync\<close> can then return, whatever
  the others do meanwhile: nobody waits for a signal that never comes.
\<close>

lemma gc_steps_trans: "gc_step s t \<Longrightarrow> gc_step\<^sup>*\<^sup>* t u \<Longrightarrow> gc_step\<^sup>*\<^sup>* s u"
  by (rule converse_rtranclp_into_rtranclp)

lemma publish_run:
  assumes "gcPc s j = Synced q cov ok"
  shows "\<exists>t. gc_step\<^sup>*\<^sup>* s t \<and> \<not> wSyncing (gcWal t) \<and> gcPc t = (gcPc s)(j := Waiting q) \<and>
    (ok \<longrightarrow> cov \<le> wSyncedSeq (gcWal t))"
proof -
  let ?t = "s\<lparr>gcWal := syncEnd ok cov (gcWal s), gcPc := (gcPc s)(j := Waiting q)\<rparr>"
  have "gc_step\<^sup>*\<^sup>* s ?t" using gc_step.publish [OF assms] by (rule r_into_rtranclp)
  moreover have "\<not> wSyncing (gcWal ?t)" "ok \<longrightarrow> cov \<le> wSyncedSeq (gcWal ?t)"
    by (auto simp: syncEnd_def Let_def)
  ultimately show ?thesis by (intro exI [of _ ?t]) simp
qed

lemma cover_run:
  assumes "gcPc s j = Covering q cov"
  shows "\<exists>t. gc_step\<^sup>*\<^sup>* s t \<and> \<not> wSyncing (gcWal t) \<and> gcPc t = (gcPc s)(j := Waiting q) \<and>
    cov \<le> wSyncedSeq (gcWal t)"
proof -
  let ?u = "s\<lparr>gcWal := handleSync (gcWal s), gcPc := (gcPc s)(j := Synced q cov True)\<rparr>"
  have "gcPc ?u j = Synced q cov True" by simp
  from publish_run [OF this] obtain t where
    "gc_step\<^sup>*\<^sup>* ?u t" "\<not> wSyncing (gcWal t)" "gcPc t = (gcPc s)(j := Waiting q)" "cov \<le> wSyncedSeq (gcWal t)"
    by auto
  then show ?thesis using gc_steps_trans [OF gc_step.fsync [OF assms]] by blast
qed

lemma lead_run:
  assumes "gcPc s j = Leading q"
  shows "\<exists>t. gc_step\<^sup>*\<^sup>* s t \<and> \<not> wSyncing (gcWal t) \<and> gcPc t = (gcPc s)(j := Waiting q) \<and>
    wWriteSeq (gcWal s) \<le> wSyncedSeq (gcWal t)"
proof -
  let ?u = "s\<lparr>gcPc := (gcPc s)(j := Covering q (syncCovered (gcWal s)))\<rparr>"
  have "gcPc ?u j = Covering q (syncCovered (gcWal s))" by simp
  from cover_run [OF this] obtain t where
    "gc_step\<^sup>*\<^sup>* ?u t" "\<not> wSyncing (gcWal t)" "gcPc t = (gcPc s)(j := Waiting q)"
    "syncCovered (gcWal s) \<le> wSyncedSeq (gcWal t)"
    by auto
  then show ?thesis using gc_steps_trans [OF gc_step.cover [OF assms]] unfolding syncCovered_def by blast
qed

lemma leader_run:
  assumes "is_leader (gcPc s j)"
  shows "\<exists>t q. gc_step\<^sup>*\<^sup>* s t \<and> \<not> wSyncing (gcWal t) \<and> gcPc t = (gcPc s)(j := Waiting q)"
proof (cases "gcPc s j")
  case (Leading q)
  then show ?thesis using lead_run by blast
next
  case (Covering q cov)
  then show ?thesis using cover_run by blast
next
  case (Synced q cov ok)
  then show ?thesis using publish_run by blast
qed (use assms in simp_all)

lemma idle_run:
  assumes s: "gc_invar s" and i: "gcPc s i = Waiting seq" and n: "\<not> wSyncing (gcWal s)"
  shows "\<exists>t r. gc_step\<^sup>*\<^sup>* s t \<and> gcPc t i = Returned seq r"
proof (cases "wSyncErr (gcWal s) \<or> seq \<le> wSyncedSeq (gcWal s)")
  case True
  with i have "gc_step s (s\<lparr>gcPc := (gcPc s)(i := Returned seq
      (if wSyncErr (gcWal s) then Some WalFsync else None))\<rparr>)" (is "gc_step s ?t")
    by (auto intro: gc_step.see_error gc_step.see_synced)
  moreover have "\<exists>r. gcPc ?t i = Returned seq r" by simp
  ultimately show ?thesis by blast
next
  case False
  then have l: "gc_step s (s\<lparr>gcWal := syncBegin (gcWal s), gcPc := (gcPc s)(i := Leading seq)\<rparr>)" (is "gc_step s ?s1")
    using i n by (intro gc_step.lead) auto
  have "gcPc ?s1 i = Leading seq" by simp
  from lead_run [OF this] obtain t where t: "gc_step\<^sup>*\<^sup>* ?s1 t" "gcPc t i = Waiting seq"
      "wWriteSeq (gcWal ?s1) \<le> wSyncedSeq (gcWal t)"
    by auto
  have "seq \<le> wWriteSeq (gcWal s)" using gc_invar_pc_ok [OF s, of i] by (simp add: i pc_ok_def)
  then have le: "seq \<le> wSyncedSeq (gcWal t)" using t(3) by (simp add: syncBegin_def)
  have "gc_step t (t\<lparr>gcPc := (gcPc t)(i := Returned seq
      (if wSyncErr (gcWal t) then Some WalFsync else None))\<rparr>)" (is "gc_step t ?u")
    using t(2) le by (auto intro: gc_step.see_error gc_step.see_synced)
  moreover have "\<exists>r. gcPc ?u i = Returned seq r" by simp
  ultimately show ?thesis using gc_steps_trans [OF l t(1)] by (meson rtranclp.rtrancl_into_rtrancl)
qed

lemma gc_steps_invar: "gc_step\<^sup>*\<^sup>* s t \<Longrightarrow> gc_invar s \<Longrightarrow> gc_invar t"
  by (induction rule: rtranclp_induct) (auto intro: gc_step_invar)

lemma waiting_returns:
  assumes s: "gc_invar s" and i: "gcPc s i = Waiting seq"
  shows "\<exists>t r. gc_step\<^sup>*\<^sup>* s t \<and> gcPc t i = Returned seq r"
proof (cases "wSyncing (gcWal s)")
  case True
  with s obtain j where j: "is_leader (gcPc s j)" by (auto simp: gc_invar_def)
  with i have "j \<noteq> i" by auto
  from leader_run [OF j] obtain t q where
    t: "gc_step\<^sup>*\<^sup>* s t" "\<not> wSyncing (gcWal t)" "gcPc t = (gcPc s)(j := Waiting q)" by blast
  have "gcPc t i = Waiting seq" using t(3) i \<open>j \<noteq> i\<close> by simp
  from idle_run [OF gc_steps_invar [OF t(1) s] this t(2)] t(1) show ?thesis by (meson rtranclp_trans)
next
  case False
  then show ?thesis using idle_run [OF s i] by blast
qed

end
