(* ===== verification/Sample_Codec.thy ===== *)
theory Sample_Codec
  imports Broker_Core
begin

text \<open>
  A concrete task codec with the round trip that the log relies on, for the examples of the
  development: numbers in unary, byte strings with their length in front.
\<close>

definition enc_nat :: "nat \<Rightarrow> byte list" where
  "enc_nat n = replicate n 1 @ [0]"

fun dec_nat :: "byte list \<Rightarrow> (nat \<times> byte list) option" where
  "dec_nat [] = None"
| "dec_nat (b # bs) =
     (if b = 0 then Some (0, bs) else map_option (\<lambda>(n, r). (Suc n, r)) (dec_nat bs))"

definition enc_int :: "int \<Rightarrow> byte list" where
  "enc_int i = (if i < 0 then 1 else 0) # enc_nat (nat \<bar>i\<bar>)"

definition dec_int :: "byte list \<Rightarrow> (int \<times> byte list) option" where
  "dec_int bs =
     (case bs of
        [] \<Rightarrow> None
      | b # r \<Rightarrow> map_option (\<lambda>(n, r). (if b = 1 then - int n else int n, r)) (dec_nat r))"

definition enc_bytes :: "byte list \<Rightarrow> byte list" where
  "enc_bytes bs = enc_nat (length bs) @ bs"

definition dec_bytes :: "byte list \<Rightarrow> (byte list \<times> byte list) option" where
  "dec_bytes bs = map_option (\<lambda>(n, r). (take n r, drop n r)) (dec_nat bs)"

definition enc_status :: "TaskStatus \<Rightarrow> int" where
  "enc_status s = (case s of Pending \<Rightarrow> 0 | InFlight \<Rightarrow> 1 | Done \<Rightarrow> 2 | Dead \<Rightarrow> 3)"

definition dec_status :: "int \<Rightarrow> TaskStatus" where
  "dec_status i = (if i = 0 then Pending else if i = 1 then InFlight else if i = 2 then Done else Dead)"

definition sample_encode :: "Task \<Rightarrow> byte list" where
  "sample_encode t =
     enc_bytes (str_bytes (ID t)) @ enc_bytes (Payload t) @ enc_int (Priority t) @
     enc_int (enc_status (Status t)) @ enc_int (RetryCount t) @ enc_int (CreatedAt t) @
     enc_int (Deadline t)"

definition sample_decode :: "byte list \<Rightarrow> Task option" where
  "sample_decode bs =
     Option.bind (dec_bytes bs) (\<lambda>(i, bs).
     Option.bind (dec_bytes bs) (\<lambda>(p, bs).
     Option.bind (dec_int bs) (\<lambda>(pr, bs).
     Option.bind (dec_int bs) (\<lambda>(st, bs).
     Option.bind (dec_int bs) (\<lambda>(rc, bs).
     Option.bind (dec_int bs) (\<lambda>(ca, bs).
     Option.bind (dec_int bs) (\<lambda>(dl, bs).
       Some \<lparr>ID = bytes_str i, Payload = p, Priority = pr, Status = dec_status st,
             RetryCount = rc, CreatedAt = ca, Deadline = dl\<rparr>)))))))"

definition sample_gob :: gob where
  "sample_gob = \<lparr>gob_encode = (\<lambda>t. Some (sample_encode t)), gob_decode = sample_decode\<rparr>"

lemma dec_enc_nat [simp]: "dec_nat (enc_nat n @ bs) = Some (n, bs)"
  by (induction n) (simp_all add: enc_nat_def)

lemma dec_enc_int [simp]: "dec_int (enc_int i @ bs) = Some (i, bs)"
  by (simp add: dec_int_def enc_int_def)

lemma dec_enc_bytes [simp]: "dec_bytes (enc_bytes xs @ bs) = Some (xs, bs)"
  by (simp add: dec_bytes_def enc_bytes_def)

lemma dec_enc_status [simp]: "dec_status (enc_status s) = s"
  by (cases s) (simp_all add: dec_status_def enc_status_def)

lemma sample_roundtrip: "sample_decode (sample_encode t) = Some t"
  using dec_enc_int [of "Deadline t" "[]"]
  by (simp add: sample_decode_def sample_encode_def)

lemma gob_roundtrip_sample: "gob_roundtrip sample_gob"
  by (simp add: gob_roundtrip_def sample_gob_def sample_roundtrip)

lemma encodeTask_sample: "encodeTask sample_gob t = Some (sample_encode t)"
  by (simp add: encodeTask_def sample_gob_def)

lemma length_enc_nat [simp]: "length (enc_nat n) = n + 1"
  by (simp add: enc_nat_def)

lemma length_enc_int [simp]: "length (enc_int i) = nat \<bar>i\<bar> + 2"
  by (simp add: enc_int_def)

lemma length_enc_bytes [simp]: "length (enc_bytes bs) = 2 * length bs + 1"
  by (simp add: enc_bytes_def)

lemma length_sample_encode:
  "length (sample_encode t) = 2 * length (ID t) + 2 * length (Payload t) + nat \<bar>Priority t\<bar> +
     nat \<bar>enc_status (Status t)\<bar> + nat \<bar>RetryCount t\<bar> + nat \<bar>CreatedAt t\<bar> + nat \<bar>Deadline t\<bar> + 12"
  by (simp add: sample_encode_def str_bytes_def)

lemma enqueueEntry_sample_ok:
  "entry_ok sample_gob (enqueueEntry t) = (length (sample_encode t) \<le> maxPayload)"
  by (simp add: entry_ok_def enqueueEntry_def entryPayload_def encodeTask_def sample_gob_def)

end
