(* ===== verification/Log_Properties.thy ===== *)
theory Log_Properties
  imports Group_Commit Sample_Codec
begin

text \<open>
  Properties of the write-ahead log: what a scan finds, what a crash leaves, what an fsync covers,
  and three ways in which an acknowledged record is lost.
\<close>

section \<open>Lemmas on damaged logs\<close>

lemma readRecord_oversized:
  assumes "maxPayload < length p" and "length p < 2 ^ 32"
  shows "readRecord G \<lparr>rData = encodeRecord op p @ rest, rN = k, rFault = None\<rparr> = Inl errCorrupt"
proof -
  let ?hdr = "walMagic @ op # be32 (word_of_nat (length p))"
  let ?rest = "(p @ be32 (crc_update (crc_update 0 [op]) p)) @ rest"
  have "encodeRecord op p @ rest = ?hdr @ ?rest" unfolding encodeRecord_split by simp
  moreover have "ReadFull \<lparr>rData = ?hdr @ ?rest, rN = k, rFault = None\<rparr> (4 + 1 + 4) =
      Inr (?hdr, \<lparr>rData = ?rest, rN = k + (4 + 1 + 4), rFault = None\<rparr>)"
    by (rule ReadFull_append) simp_all
  moreover have "unat (word_of_nat (length p) :: 32 word) = length p"
    using assms(2) by (simp add: unat_of_nat take_bit_eq_mod)
  ultimately show ?thesis
    using assms(1) by (simp only: readRecord_def) (simp add: header_fields Let_def)
qed

text \<open>The scan reads the good records and stops at the first one that it cannot accept.\<close>

lemma scan_stops:
  assumes G: "gob_roundtrip G" and "\<forall>e \<in> set es. entry_ok G e"
    and bad: "\<And>n. readRecord G \<lparr>rData = junk, rN = n, rFault = None\<rparr> = Inl errCorrupt"
  shows "scan G \<lparr>rData = logBytes G es @ junk, rN = k, rFault = None\<rparr> acc k =
    (acc @ es, k + length (logBytes G es), True)"
  using assms(2)
proof (induction es arbitrary: acc k)
  case Nil
  show ?case using bad by (subst scan.simps) simp
next
  case (Cons e es)
  let ?n = "length (recordBytes G e)"
  have "readRecord G \<lparr>rData = recordBytes G e @ logBytes G es @ junk, rN = k, rFault = None\<rparr> =
      Inr (e, \<lparr>rData = logBytes G es @ junk, rN = k + ?n, rFault = None\<rparr>)"
    using readRecord_recordBytes [OF G] Cons.prems by simp
  moreover have "scan G \<lparr>rData = logBytes G es @ junk, rN = k + ?n, rFault = None\<rparr> (acc @ [e]) (k + ?n) =
      ((acc @ [e]) @ es, (k + ?n) + length (logBytes G es), True)"
    using Cons.prems by (intro Cons.IH) simp
  ultimately show ?case by (subst scan.simps) simp
qed

lemma Replay_stops:
  assumes "wal_invar G w" and "wDisk w' = wDisk w @ junk" and "wOrphan w' = None"
    and "\<And>n. readRecord G \<lparr>rData = junk, rN = n, rFault = None\<rparr> = Inl errCorrupt"
  shows "fst (Replay G replayOk w') = Inr (wal_log G w)"
proof -
  note W = wal_invarD [OF assms(1)]
  have "handleContent w' = logBytes G (wal_log G w) @ junk"
    using assms(2,3) W(3) by (simp add: handleContent_def)
  then show ?thesis
    using scan_stops [OF W(1,4) assms(4), of 0 "[]"]
    by (simp add: Replay_def replayOk_def file_reader_def)
qed

lemma bit_le_unat: "bit w n \<Longrightarrow> 2 ^ n \<le> unat w"
proof -
  assume "bit w n"
  then have "odd (unat w div 2 ^ n)" by (simp flip: bit_iff_odd add: bit_unsigned_iff)
  then have "0 < unat w div 2 ^ n" by (rule odd_pos)
  then show ?thesis by (simp add: div_greater_zero_iff)
qed

text \<open>A torn record that stops inside the magic makes the reader misread the record behind it.\<close>

lemma readRecord_after_torn_magic:
  assumes "0 < k" and "k \<le> 4"
  shows "readRecord G \<lparr>rData = take k walMagic @ encodeRecord op p, rN = n, rFault = None\<rparr> = Inl errCorrupt"
proof -
  let ?l = "be32 (word_of_nat (length p) :: 32 word)" and ?c = "be32 (crc_update (crc_update 0 [op]) p)"
  obtain a b c d where l: "?l = [a, b, c, d]" by (simp add: be32_def)
  have m: "walMagic = [0x44, 0x51, 0x57, 0x4C]" by (simp add: walMagic_def str_bytes_def)
  have k: "k = 1 \<or> k = 2 \<or> k = 3 \<or> k = 4" using assms by linarith
  have "bit (0x51 :: byte) 6" by code_simp
  then have "bit (be32_read [0x51, 0x57, 0x4C, op]) 30" by (simp only: be32_read_def) (simp add: bit_simps)
  from bit_le_unat [OF this] have big: "maxPayload < unat (be32_read [0x51, 0x57, 0x4C, op])"
    by (simp add: maxPayload_def)
  show ?thesis using k big
    by (elim disjE) (simp_all add: readRecord_def ReadFull_def m encodeRecord_def l countingReader_advance_def Let_def)
qed

lemma AppendTask_written:
  assumes "encodeTask G t = Some p" and "\<not> wSyncErr w" and "\<not> wSyncing w"
    and "wSyncedSeq w \<le> wWriteSeq w" and "wOrphan w = None"
  shows "\<exists>w'. AppendTask G WriteOk [True] w op t = Some (None, w') \<and>
    wDisk w' = wDisk w @ encodeRecord op p \<and> wOrphan w' = None \<and> wDurable w' = length (wDisk w')"
proof -
  let ?w1 = "w\<lparr>wDisk := wDisk w @ encodeRecord op p, wEntries := wEntries w + 1, wWriteSeq := wWriteSeq w + 1\<rparr>"
  have "AppendTaskNoSync G WriteOk w op t = (Inr (wWriteSeq w + 1), ?w1)"
    using assms by (simp add: AppendTaskNoSync_def appendNoSync_def handleWrite_def Let_def)
  moreover have "WaitSync [True] ?w1 (wWriteSeq w + 1) = Some (None, syncRound True ?w1)"
    using assms WaitSync_returns [of ?w1 "wWriteSeq w + 1" True "[]"] by simp
  ultimately show ?thesis using assms by (simp add: AppendTask_def syncRound_durable)
qed

section \<open>Example logs\<close>

definition fresh_wal :: WAL where
  "fresh_wal = \<lparr>wDisk = [], wOrphan = None, wDurable = 0, wEntries = 0, wWriteSeq = 0,
     wSyncedSeq = 0, wSyncing = False, wSyncErr = False\<rparr>"

lemma fresh_wal_invar: "wal_invar sample_gob fresh_wal \<and> wal_log sample_gob fresh_wal = []"
  using gob_roundtrip_sample by (intro wal_invarI) (simp_all add: fresh_wal_def)

lemma fresh_wal_seq_ok: "seq_ok fresh_wal" "wOrphan fresh_wal = None" "\<not> wSyncErr fresh_wal"
  by (simp_all add: fresh_wal_def seq_ok_def)

definition log_task :: "string \<Rightarrow> byte list \<Rightarrow> Task" where
  "log_task tid payload =
     \<lparr>ID = tid, Payload = payload, Priority = 1, Status = Pending, RetryCount = 0, CreatedAt = 7, Deadline = 0\<rparr>"

lemma log_task_ok: "length tid + length payload \<le> 2 ^ 20 \<Longrightarrow> entry_ok sample_gob (enqueueEntry (log_task tid payload))"
  by (simp add: enqueueEntry_sample_ok length_sample_encode log_task_def enc_status_def maxPayload_def)

lemma idEntry_sample_ok:
  "length tid \<le> 2 ^ 20 \<Longrightarrow> op \<noteq> OpEnqueue \<Longrightarrow> entry_ok sample_gob (idEntry op tid)"
  by (simp add: entry_ok_def idEntry_def entryPayload_def maxPayload_def)

text \<open>Two records, of which an fsync covers the first.\<close>

definition two_records :: "LogEntry list" where
  "two_records = [enqueueEntry (log_task ''a'' [1, 2]), idEntry OpAck ''a'']"

definition two_record_wal :: WAL where
  "two_record_wal = fresh_wal\<lparr>wDisk := logBytes sample_gob two_records,
     wDurable := length (logBytes sample_gob (take 1 two_records)), wWriteSeq := 2, wSyncedSeq := 1\<rparr>"

lemma two_records_ok: "\<forall>e \<in> set two_records. entry_ok sample_gob e"
  by (simp add: two_records_def log_task_ok idEntry_sample_ok)

lemma two_record_wal_invar:
  "wal_invar sample_gob two_record_wal \<and> wal_log sample_gob two_record_wal = two_records"
  using gob_roundtrip_sample two_records_ok
  by (intro wal_invarI) (simp_all add: two_record_wal_def fresh_wal_def two_records_def)

section \<open>Properties\<close>

text \<open>
  C28: A file that holds whole records followed by a torn one (any proper prefix of a record, or
  nothing): the scan of Replay returns exactly the whole records, cuts the file at their end and
  reports a bad tail exactly if there is one.
\<close>

theorem scan_finds_valid_prefix:
  assumes "gob_roundtrip G" and "\<forall>e \<in> set es. entry_ok G e" and "torn_tail tail"
  shows "scan G (file_reader (logBytes G es @ tail) None) [] 0 = (es, length (logBytes G es), tail \<noteq> [])"
  using scan_logBytes [OF assms, of 0 "[]"] by (simp add: file_reader_def)

theorem scan_finds_valid_prefix_witness:
  "scan sample_gob (file_reader (logBytes sample_gob two_records @ take 7 (encodeRecord OpNack [9])) None) [] 0 =
     (two_records, length (logBytes sample_gob two_records), True)"
proof -
  have "torn_tail (take 7 (encodeRecord OpNack [9]))"
    by (rule torn_tail_take) (simp_all add: maxPayload_def)
  moreover have "take 7 (encodeRecord OpNack [9]) \<noteq> []" by simp
  ultimately show ?thesis
    using scan_finds_valid_prefix [OF gob_roundtrip_sample two_records_ok] by simp
qed

text \<open>
  C29: A record in which one byte is damaged, anywhere outside the length field, is never accepted:
  the reader reports corruption, whatever follows in the file.
\<close>

theorem damaged_byte_detected:
  assumes "length p \<le> maxPayload" and "i < length (encodeRecord op p)" and "i \<notin> {5..8}"
    and "v \<noteq> encodeRecord op p ! i"
  shows "readRecord G \<lparr>rData = (encodeRecord op p)[i := v] @ rest, rN = k, rFault = None\<rparr> = Inl errCorrupt"
  using assms by (rule readRecord_damaged)

theorem damaged_byte_detected_witness:
  "readRecord sample_gob \<lparr>rData = (encodeRecord OpAck [65, 66])[10 := 67] @ [1], rN = 0, rFault = None\<rparr> =
     Inl errCorrupt"
proof -
  have "encodeRecord OpAck [65, 66] ! 10 = 66" by (simp add: encodeRecord_def walMagic_def str_bytes_def be32_def)
  then show ?thesis by (intro damaged_byte_detected) (simp_all add: maxPayload_def)
qed

text \<open>
  A crash keeps an arbitrary part of the file beyond what an fsync covered. Opening and
  replaying what is left returns a prefix of the log that contains every record inside the
  fsynced part, and leaves exactly that prefix on disk.
\<close>

theorem replay_after_crash:
  assumes "wal_invar G w" and "OpenWAL True (Some (crashFile w k)) = Inr w0"
  shows "\<exists>m w'. m \<le> length (wal_log G w) \<and> Replay G replayOk w0 = (Inr (take m (wal_log G w)), w') \<and>
    wDisk w' = logBytes G (take m (wal_log G w)) \<and>
    (\<forall>i \<le> length (wal_log G w). length (logBytes G (take i (wal_log G w))) \<le> wDurable w \<longrightarrow> i \<le> m)"
proof -
  from Replay_crash [OF assms] obtain m w' where
    "m \<le> length (wal_log G w)" "Replay G replayOk w0 = (Inr (take m (wal_log G w)), w')"
    "wal_invar G w'" "wal_log G w' = take m (wal_log G w)"
    "\<forall>i \<le> length (wal_log G w). length (logBytes G (take i (wal_log G w))) \<le> wDurable w \<longrightarrow> i \<le> m"
    by (elim exE conjE)
  then show ?thesis using wal_invarD(3) [of G w'] by (intro exI [of _ m] exI [of _ w']) simp
qed

theorem replay_after_crash_witness:
  "\<exists>w0 m w'. OpenWAL True (Some (crashFile two_record_wal 40)) = Inr w0 \<and> 1 \<le> m \<and> m \<le> 2 \<and>
     Replay sample_gob replayOk w0 = (Inr (take m two_records), w')"
proof -
  obtain w0 where w0: "OpenWAL True (Some (crashFile two_record_wal 40)) = Inr w0"
    by (simp add: OpenWAL_def Let_def)
  note W = two_record_wal_invar
  from replay_after_crash [OF _ w0, of sample_gob] W obtain m w' where
    m: "m \<le> length two_records" "Replay sample_gob replayOk w0 = (Inr (take m two_records), w')"
      "\<forall>i \<le> length two_records. length (logBytes sample_gob (take i two_records)) \<le> wDurable two_record_wal \<longrightarrow> i \<le> m"
    by auto
  have "length two_records = 2" by (simp add: two_records_def)
  moreover have "1 \<le> m" using m(3) [rule_format, of 1] \<open>length two_records = 2\<close> by (simp add: two_record_wal_def)
  ultimately show ?thesis using w0 m(1,2) by auto
qed





text \<open>
  No goroutine is stranded in WaitSync: from every reachable state in which one waits, some
  run of the goroutines lets its call return.
\<close>

theorem wait_sync_can_return:
  assumes "gc_reach c s" and "gcPc s i = Waiting seq"
  shows "\<exists>t r. gc_step\<^sup>*\<^sup>* s t \<and> gcPc t i = Returned seq r"
  using waiting_returns [OF gc_reach_invar [OF assms(1)] assms(2)] .

theorem wait_sync_can_return_witness:
  "\<exists>s t r. gc_reach [] s \<and> gcPc s 3 = Waiting 1 \<and> gc_step\<^sup>*\<^sup>* s t \<and> gcPc t 3 = Returned 1 r"
proof -
  let ?w = "snd (appendNoSync WriteOk (gcWal (gc_init [])) OpAck [65])"
  let ?s = "(gc_init [])\<lparr>gcWal := ?w, gcPc := (gcPc (gc_init []))(3 := Waiting 1),
    gcEnd := (gcEnd (gc_init []))(1 := length (wDisk ?w))\<rparr>"
  have "gc_step (gc_init []) ?s"
    by (rule gc_step.append) (simp_all add: gc_init_def appendNoSync_def Let_def)
  then have r: "gc_reach [] ?s" by (rule gc_reach.step [OF gc_reach.start])
  have "gcPc ?s 3 = Waiting 1" by simp
  with r wait_sync_can_return [OF r this] show ?thesis by blast
qed

text \<open>
  WaitSync for a record that is already written returns after at most one fsync: with the
  sticky error if an earlier fsync failed, at once if the record is covered, and otherwise with
  the outcome of its own fsync, after which the whole file is durable or the log is poisoned.
\<close>

theorem wait_sync_result:
  assumes "seq_ok w" and "seq \<le> wWriteSeq w" and "wOrphan w = None"
  shows "\<exists>w'. WaitSync (ok # outs) w seq =
      Some (if wSyncErr w \<or> seq > wSyncedSeq w \<and> \<not> ok then Some WalFsync else None, w') \<and>
    wDisk w' = wDisk w \<and>
    (\<not> wSyncErr w \<and> seq > wSyncedSeq w \<and> ok \<longrightarrow> wDurable w' = length (wDisk w')) \<and>
    (wSyncErr w \<or> seq > wSyncedSeq w \<and> \<not> ok \<longrightarrow>
       (\<forall>outs' seq'. WaitSync outs' w' seq' = Some (Some WalFsync, w')))"
proof -
  let ?w' = "if wSyncErr w \<or> seq \<le> wSyncedSeq w then w else syncRound ok w"
  have "WaitSync (ok # outs) w seq =
      Some (if wSyncErr w \<or> seq > wSyncedSeq w \<and> \<not> ok then Some WalFsync else None, ?w')"
    using WaitSync_returns [of w seq ok outs] assms(1,2) by (auto simp: seq_ok_def)
  moreover have "WaitSync outs' ?w' seq' = Some (Some WalFsync, ?w')"
    if "wSyncErr w \<or> seq > wSyncedSeq w \<and> \<not> ok" for outs' seq'
    using that by (intro WaitSync_poisoned) auto
  ultimately show ?thesis
    using assms(3) by (intro exI [of _ ?w']) (auto simp: syncRound_durable)
qed

theorem wait_sync_result_witness:
  "\<exists>w'. WaitSync [True] two_record_wal 2 = Some (None, w') \<and> wDurable w' = length (wDisk w')"
proof -
  have "seq_ok two_record_wal"
    by (simp add: seq_ok_def two_record_wal_def fresh_wal_def)
  from wait_sync_result [OF this, of 2 True "[]"] show ?thesis
    by (auto simp: two_record_wal_def fresh_wal_def)
qed

text \<open>
  A task whose encoding exceeds the 64 MiB cap of the reader is appended and acknowledged
  like any other, but a replay of the log stops in front of it: the record is lost.
\<close>

theorem oversized_record_lost:
  assumes "wal_invar G w" and "seq_ok w" and "\<not> wSyncErr w"
    and "encodeTask G t = Some p" and "maxPayload < length p" and "length p < 2 ^ 32"
  shows "\<exists>w'. AppendTask G WriteOk [True] w OpEnqueue t = Some (None, w') \<and>
    fst (Replay G replayOk w') = Inr (wal_log G w)"
proof -
  obtain w' where w': "AppendTask G WriteOk [True] w OpEnqueue t = Some (None, w')"
      "wDisk w' = wDisk w @ encodeRecord OpEnqueue p" "wOrphan w' = None"
    using AppendTask_written [OF assms(4,3) _ _ wal_invarD(2) [OF assms(1)]] assms(2)
    unfolding seq_ok_def by blast
  have "readRecord G \<lparr>rData = encodeRecord OpEnqueue p, rN = n, rFault = None\<rparr> = Inl errCorrupt" for n
    using readRecord_oversized [OF assms(5,6), of G OpEnqueue "[]" n] by simp
  from Replay_stops [OF assms(1) w'(2,3) this] w'(1) show ?thesis by blast
qed

theorem oversized_record_lost_witness:
  "\<exists>w'. AppendTask sample_gob WriteOk [True] fresh_wal OpEnqueue (log_task ''a'' (replicate (2 ^ 26) 0)) = Some (None, w') \<and>
     fst (Replay sample_gob replayOk w') = Inr []"
proof -
  let ?t = "log_task ''a'' (replicate (2 ^ 26) 0)"
  have "length (sample_encode ?t) = 134217750" by (simp add: length_sample_encode log_task_def enc_status_def)
  then have "maxPayload < length (sample_encode ?t)" "length (sample_encode ?t) < 2 ^ 32"
    by (simp_all add: maxPayload_def)
  from oversized_record_lost [OF conjunct1 [OF fresh_wal_invar] fresh_wal_seq_ok(1,3) encodeTask_sample this]
  show ?thesis unfolding conjunct2 [OF fresh_wal_invar] .
qed

text \<open>
  After a write that failed inside the magic of its record, later appends succeed and are
  fsynced and acknowledged, but a replay of the log stops in front of the torn bytes: every
  record acknowledged since is lost.
\<close>

theorem torn_write_hides_later_records:
  assumes "wal_invar G w" and "seq_ok w" and "\<not> wSyncErr w" and "0 < k" and "k \<le> 4"
    and "appendNoSync (WriteErr k) w op payload = (Inl e, w1)" and "encodeTask G t = Some p"
  shows "\<exists>w2. AppendTask G WriteOk [True] w1 OpEnqueue t = Some (None, w2) \<and>
    wDurable w2 = length (wDisk w2) \<and> fst (Replay G replayOk w2) = Inr (wal_log G w)"
proof -
  have o: "wOrphan w = None" using wal_invarD(2) [OF assms(1)] .
  have "take k (encodeRecord op payload) = take k walMagic"
    using assms(5) by (simp add: encodeRecord_def)
  then have w1: "w1 = w\<lparr>wDisk := wDisk w @ take k walMagic\<rparr>"
    using assms(6) o by (simp add: appendNoSync_def handleWrite_def Let_def)
  have s: "\<not> wSyncErr w1" "\<not> wSyncing w1" "wSyncedSeq w1 \<le> wWriteSeq w1" "wOrphan w1 = None"
    using w1 assms(2,3) o by (simp_all add: seq_ok_def)
  from AppendTask_written [OF assms(7) s, of OpEnqueue] obtain w2 where w2: "AppendTask G WriteOk [True] w1 OpEnqueue t = Some (None, w2)"
      "wDisk w2 = wDisk w1 @ encodeRecord OpEnqueue p" "wOrphan w2 = None" "wDurable w2 = length (wDisk w2)"
    by (elim exE conjE)
  have bad: "readRecord G \<lparr>rData = take k walMagic @ encodeRecord OpEnqueue p, rN = n, rFault = None\<rparr> = Inl errCorrupt" for n
    using assms(4,5) by (rule readRecord_after_torn_magic)
  have "wDisk w2 = wDisk w @ take k walMagic @ encodeRecord OpEnqueue p" using w2(2) w1 by simp
  from Replay_stops [OF assms(1) this w2(3) bad] w2(1,4) show ?thesis by (intro exI [of _ w2] conjI)
qed

theorem torn_write_hides_later_records_witness:
  "\<exists>w1 w2. appendNoSync (WriteErr 3) fresh_wal OpAck [65] = (Inl WalWrite, w1) \<and>
     AppendTask sample_gob WriteOk [True] w1 OpEnqueue (log_task ''a'' [1]) = Some (None, w2) \<and>
     fst (Replay sample_gob replayOk w2) = Inr []"
proof -
  obtain w1 where w1: "appendNoSync (WriteErr 3) fresh_wal OpAck [65] = (Inl WalWrite, w1)"
    by (simp add: appendNoSync_def Let_def)
  have "\<exists>w2. AppendTask sample_gob WriteOk [True] w1 OpEnqueue (log_task ''a'' [1]) = Some (None, w2) \<and>
      wDurable w2 = length (wDisk w2) \<and> fst (Replay sample_gob replayOk w2) = Inr (wal_log sample_gob fresh_wal)"
    by (rule torn_write_hides_later_records
        [OF conjunct1 [OF fresh_wal_invar] fresh_wal_seq_ok(1,3) _ _ w1 encodeTask_sample]) simp_all
  then obtain w2 where "AppendTask sample_gob WriteOk [True] w1 OpEnqueue (log_task ''a'' [1]) = Some (None, w2)"
    "fst (Replay sample_gob replayOk w2) = Inr (wal_log sample_gob fresh_wal)"
    by (elim exE conjE)
  with w1 show ?thesis unfolding conjunct2 [OF fresh_wal_invar] by (intro exI conjI)
qed

text \<open>
  When the reopen after the rename of a compaction fails, the log goes on writing to a file
  without a name: a later append is fsynced and acknowledged, and a restart does not see it.
\<close>

theorem failed_reopen_loses_records:
  assumes "wal_invar G w" and "seq_ok w" and "\<not> wSyncErr w" and "\<forall>e \<in> set es. entry_ok G e"
    and "Rewrite G ReopenErr es w = (Some WalReopen, w1)" and "encodeTask G t = Some p"
  shows "\<exists>w2 w3. AppendTask G WriteOk [True] w1 OpEnqueue t = Some (None, w2) \<and>
    OpenWAL True (Some (crashFile w2 k)) = Inr w3 \<and> fst (Replay G replayOk w3) = Inr es"
proof -
  have w1: "w1 = w\<lparr>wDisk := logBytes G es, wDurable := length (logBytes G es), wOrphan := Some (handleContent w)\<rparr>"
    using assms(4,5) by (simp add: Rewrite_def tempBytes_ok)
  obtain w2 where w2: "AppendTask G WriteOk [True] w1 OpEnqueue t = Some (None, w2)"
      "wDisk w2 = logBytes G es" "wDurable w2 = length (logBytes G es)"
  proof -
    let ?w = "(handleWrite (encodeRecord OpEnqueue p) w1)\<lparr>wEntries := wEntries w1 + 1, wWriteSeq := wWriteSeq w1 + 1\<rparr>"
    have "AppendTaskNoSync G WriteOk w1 OpEnqueue t = (Inr (wWriteSeq w + 1), ?w)"
      using assms(6) w1 by (simp add: AppendTaskNoSync_def appendNoSync_def Let_def)
    moreover have "WaitSync [True] ?w (wWriteSeq w + 1) = Some (None, syncRound True ?w)"
      using assms(2,3) w1 WaitSync_returns [of ?w "wWriteSeq w + 1" True "[]"]
      by (simp add: handleWrite_def seq_ok_def)
    moreover have "wDurable (syncRound True ?w) = length (logBytes G es)"
      using w1 by (simp add: handleWrite_def syncRound_def syncBegin_def syncCovered_def syncEnd_def handleSync_def Let_def)
    ultimately show thesis using that w1 by (simp add: AppendTask_def handleWrite_def)
  qed
  let ?w3 = "\<lparr>wDisk = logBytes G es, wOrphan = None, wDurable = length (logBytes G es), wEntries = 0,
    wWriteSeq = 0, wSyncedSeq = 0, wSyncing = False, wSyncErr = False\<rparr>"
  have "OpenWAL True (Some (crashFile w2 k)) = Inr ?w3"
    using w2(2,3) by (simp add: OpenWAL_def crashFile_def Let_def)
  moreover have "wal_invar G ?w3 \<and> wal_log G ?w3 = es"
    using wal_invarD(1) [OF assms(1)] assms(4) by (intro wal_invarI) simp_all
  ultimately show ?thesis using w2(1) Replay_ok [of G ?w3] by simp
qed

theorem failed_reopen_loses_records_witness:
  "\<exists>w1 w2 w3. Rewrite sample_gob ReopenErr two_records fresh_wal = (Some WalReopen, w1) \<and>
     AppendTask sample_gob WriteOk [True] w1 OpEnqueue (log_task ''b'' [1]) = Some (None, w2) \<and>
     OpenWAL True (Some (crashFile w2 0)) = Inr w3 \<and> fst (Replay sample_gob replayOk w3) = Inr two_records"
proof -
  obtain w1 where w1: "Rewrite sample_gob ReopenErr two_records fresh_wal = (Some WalReopen, w1)"
    using two_records_ok by (simp add: Rewrite_def tempBytes_ok)
  from failed_reopen_loses_records
    [OF conjunct1 [OF fresh_wal_invar] fresh_wal_seq_ok(1,3) two_records_ok w1 encodeTask_sample] w1
  show ?thesis by blast
qed

end
