(* ===== verification/Broker_Properties.thy ===== *)
theory Broker_Properties
  imports Broker_Recovery Log_Properties
begin

text \<open>
  Properties of the single-node broker: durability across crashes, agreement of memory and log,
  the outcome of each operation, and the situations in which the broker loses a task.
\<close>

section \<open>Lemmas on operations\<close>

text \<open>The IDs of the tasks that the broker has in one of its containers.\<close>

definition known_ids :: "Broker \<Rightarrow> string multiset" where
  "known_ids b = mset (map ID (bPq b @ tracked (bTracker b) @ bDlq b))"

lemma known_ids_compact: "maybeCompactLocked G E b = (r, b') \<Longrightarrow> known_ids b' = known_ids b"
  by (simp add: known_ids_def maybeCompactLocked_sel)

lemma known_ids_wal [simp]:
  "known_ids (b\<lparr>bWal := w\<rparr>) = known_ids b" "known_ids (b\<lparr>bNacked := n\<rparr>) = known_ids b"
  by (simp_all add: known_ids_def)

lemma known_ids_push:
  assumes "broker_invar b"
  shows "known_ids (b\<lparr>bPq := PQ_Push (bPq b) t\<rparr>) = add_mset (ID t) (known_ids b)"
  using pq.bag_push [of "bPq b" t] assms by (simp add: known_ids_def broker_invar_def)

lemma known_ids_track:
  "map_of (bTracker b) (ID t) = None \<Longrightarrow>
   known_ids (b\<lparr>bTracker := Track t (bTracker b)\<rparr>) = add_mset (ID t) (known_ids b)"
  by (simp add: known_ids_def Track_fresh)

lemma known_ids_dlq: "known_ids (b\<lparr>bDlq := bDlq b @ [t]\<rparr>) = add_mset (ID t) (known_ids b)"
  by (simp add: known_ids_def)

text \<open>The three ways in which \<^verbatim>\<open>requeueLocked\<close> can end.\<close>

lemma requeue_cases:
  assumes "requeueLocked G E b t = (r, b')"
  obtains (kept) w where "b' = b\<lparr>bNacked := bNacked b + 1, bWal := w,
      bTracker := Track (t\<lparr>RetryCount := RetryCount t + 1\<rparr>) (bTracker b)\<rparr>" "envWrite E \<noteq> WriteOk"
  | (dead) w c where "RetryCount t + 1 \<ge> MaxRetries (bCfg b)" "maybeCompactLocked G E (b\<lparr>bNacked := bNacked b + 1, bWal := w,
      bDlq := bDlq b @ [t\<lparr>RetryCount := RetryCount t + 1, Status := Dead\<rparr>]\<rparr>) = (c, b')"
  | (pending) w c where "RetryCount t + 1 < MaxRetries (bCfg b)" "maybeCompactLocked G E (b\<lparr>bNacked := bNacked b + 1, bWal := w,
      bPq := PQ_Push (bPq b) (t\<lparr>RetryCount := RetryCount t + 1, Status := Pending, Deadline := 0\<rparr>)\<rparr>) = (c, b')"
proof (cases "envWrite E")
  case WriteOk
  have a: "\<exists>seq w. AppendIDNoSync (envWrite E) (bWal b) op (ID t) = (Inr seq, w)" for op
    using append_id_returns [of "bWal b" op "ID t"] WriteOk by simp
  show thesis
  proof (cases "RetryCount t + 1 \<ge> MaxRetries (bCfg b)")
    case True
    obtain seq w where "AppendIDNoSync (envWrite E) (bWal b) OpDead (ID t) = (Inr seq, w)"
      using a by metis
    with True assms dead [of w] show thesis
      by (simp add: requeueLocked_def Let_def split: prod.splits option.splits)
  next
    case False
    obtain seq w where "AppendIDNoSync (envWrite E) (bWal b) OpNack (ID t) = (Inr seq, w)"
      using a by metis
    with False assms pending [of w] show thesis
      by (simp add: requeueLocked_def Let_def split: prod.splits option.splits)
  qed
next
  case (WriteErr k)
  then have "\<exists>w. AppendIDNoSync (envWrite E) (bWal b) op (ID t) = (Inl WalWrite, w)" for op
    by (simp add: AppendIDNoSync_def appendNoSync_def Let_def)
  then obtain w1 w2 where "AppendIDNoSync (envWrite E) (bWal b) OpDead (ID t) = (Inl WalWrite, w1)"
    "AppendIDNoSync (envWrite E) (bWal b) OpNack (ID t) = (Inl WalWrite, w2)" by metis
  with assms have "\<exists>w. b' = b\<lparr>bNacked := bNacked b + 1, bWal := w,
      bTracker := Track (t\<lparr>RetryCount := RetryCount t + 1\<rparr>) (bTracker b)\<rparr>"
    by (cases "RetryCount t + 1 \<ge> MaxRetries (bCfg b)") (auto simp: requeueLocked_def Let_def)
  then show thesis using kept WriteErr by auto
qed

lemma requeue_keeps_ids:
  assumes b: "broker_invar b" and fresh: "map_of (bTracker b) (ID t) = None"
    and q: "requeueLocked G E b t = (r, b')"
  shows "known_ids b' = add_mset (ID t) (known_ids b)"
  using q
proof (cases rule: requeue_cases)
  case (kept w)
  then show ?thesis
    using known_ids_track [of "b\<lparr>bNacked := bNacked b + 1, bWal := w\<rparr>" "t\<lparr>RetryCount := RetryCount t + 1\<rparr>"] fresh
    by simp
next
  case (dead w c)
  then show ?thesis
    using known_ids_compact [OF dead(2)] known_ids_dlq [of "b\<lparr>bNacked := bNacked b + 1, bWal := w\<rparr>"] by simp
next
  case (pending w c)
  have "broker_invar (b\<lparr>bNacked := bNacked b + 1, bWal := w\<rparr>)" using b by (simp add: broker_invar_wal)
  from known_ids_push [OF this] show ?thesis using known_ids_compact [OF pending(2)] by simp
qed

lemma requeue_tracker:
  assumes "requeueLocked G E b t = (r, b')"
  shows "ID ` set (tracked (bTracker b')) \<subseteq> insert (ID t) (ID ` set (tracked (bTracker b)))"
    and "bClosed b' = bClosed b"
  using assms set_tracked_Track [of "t\<lparr>RetryCount := RetryCount t + 1\<rparr>" "bTracker b"]
  by (cases rule: requeue_cases; auto simp: maybeCompactLocked_sel)+

lemma onTimeout_steps:
  assumes b: "broker_invar b" "\<not> bClosed b" and t: "Status t = InFlight" "map_of (bTracker b) (ID t) = None"
    and q: "onTimeout G E b t = Some b'"
  shows "broker_invar b'" "\<not> bClosed b'" "known_ids b' = add_mset (ID t) (known_ids b)"
    "ID ` set (tracked (bTracker b')) \<subseteq> insert (ID t) (ID ` set (tracked (bTracker b)))"
proof -
  obtain r b1 where r: "requeueLocked G E b t = (r, b1)" by (cases "requeueLocked G E b t")
  obtain w where w: "b' = b1\<lparr>bWal := w\<rparr>"
  proof -
    have "\<exists>e. awaitSync E (r, b1) = Some (e, b')"
      using q b(2) r by (auto simp: onTimeout_def onTimeout_locked_def)
    then show thesis using awaitSync_fields that by metis
  qed
  show "broker_invar b'" using broker_invar_requeue [OF b(1) t(1) r] w by (simp add: broker_invar_wal)
  show "\<not> bClosed b'" using requeue_tracker(2) [OF r] b(2) w by simp
  show "known_ids b' = add_mset (ID t) (known_ids b)" using requeue_keeps_ids [OF b(1) t(2) r] w by simp
  show "ID ` set (tracked (bTracker b')) \<subseteq> insert (ID t) (ID ` set (tracked (bTracker b)))"
    using requeue_tracker(1) [OF r] w by simp
qed

lemma onTimeouts_keep_ids:
  assumes "broker_invar b" "\<not> bClosed b" "\<forall>t \<in> set late. Status t = InFlight"
    "distinct (map ID late)" "ID ` set late \<inter> ID ` set (tracked (bTracker b)) = {}"
    "onTimeouts G Es b late = Some b'"
  shows "broker_invar b' \<and> \<not> bClosed b' \<and> known_ids b' = mset (map ID late) + known_ids b"
  using assms
proof (induction late arbitrary: Es b)
  case Nil
  then show ?case by (cases Es) simp_all
next
  case (Cons t late)
  then obtain E Es' b1 where E: "Es = E # Es'" "onTimeout G E b t = Some b1" "onTimeouts G Es' b1 late = Some b'"
    by (cases Es) (auto split: Option.bind_splits)
  have "map_of (bTracker b) (ID t) = None"
    using Cons.prems(1,5) lookup_tracked by (auto simp: broker_invar_def)
  with Cons.prems onTimeout_steps [OF _ _ _ _ E(2)]
  have b1: "broker_invar b1" "\<not> bClosed b1" "known_ids b1 = add_mset (ID t) (known_ids b)"
    "ID ` set (tracked (bTracker b1)) \<subseteq> insert (ID t) (ID ` set (tracked (bTracker b)))" by simp_all
  have "ID ` set late \<inter> ID ` set (tracked (bTracker b1)) = {}"
    using b1(4) Cons.prems(4,5) by (auto simp: disjoint_iff) (metis imageI insert_iff subsetD)+
  with Cons.IH [OF b1(1,2) _ _ _ E(3)] Cons.prems b1(3) show ?case by simp
qed

lemma tick_keeps_ids:
  assumes b: "broker_invar b" "\<not> bClosed b" and o: "map_order ord"
    and q: "tracker_tick G ord now Es b = Some b'"
  shows "broker_invar b' \<and> known_ids b' = known_ids b"
proof -
  obtain late tr where x: "expired ord now (bTracker b) = (late, tr)" by (cases "expired ord now (bTracker b)")
  have tr: "tracker_invar (bTracker b)" using b(1) by (simp add: broker_invar_def)
  note X = expired_spec [OF tr o x]
  have split: "mset (tracked (bTracker b)) = mset (tracked tr) + mset late"
    using X(1,2) by (simp add: multiset_partition add.commute)
  have sub: "set (tracked tr) \<union> set late = set (tracked (bTracker b))"
    using split by (metis set_mset_mset set_mset_union)
  have "mset (tracked (bTracker b)) = mset (late @ tracked tr)" using split by simp
  from distinct_ids_mset [OF this] tracked_distinct [OF tr]
  have d: "distinct (map ID late)" "ID ` set late \<inter> ID ` set (tracked tr) = {}" by auto
  let ?b = "b\<lparr>bTracker := tr\<rparr>"
  have i: "broker_invar ?b" using b(1) X(3) sub by (auto simp: broker_invar_def)
  have late: "\<forall>t \<in> set late. Status t = InFlight" using b(1) sub by (auto simp: broker_invar_def)
  have "onTimeouts G Es ?b late = Some b'" using q x by (simp add: tracker_tick_def)
  with onTimeouts_keep_ids [OF i _ late d(1)] d(2) b(2)
  have "broker_invar b' \<and> known_ids b' = mset (map ID late) + known_ids ?b" by simp
  moreover have "mset (map ID late) + known_ids ?b = known_ids b"
    using split by (simp add: known_ids_def)
  ultimately show ?thesis by simp
qed

text \<open>Compaction forgets the tasks that wait between the scan and \<^verbatim>\<open>onTimeout\<close>.\<close>

lemma compact_log_ids:
  assumes s: "agree G s" and E: "sound_env E" "envRewrite E = RewriteOk"
    and fit: "\<forall>e \<in> set (compactEntries E (bsB s)). entry_ok G e"
  shows "\<exists>b w. compactLocked G E (bsB s) = (None, b) \<and> b = (bsB s)\<lparr>bWal := w\<rparr> \<and> wal_invar G w \<and> seq_ok w \<and>
    wDurable w = length (wDisk w) \<and>
    live_map (fst (log_view (wal_log G w))) = id_map (bPq (bsB s) @ tracked (bTracker (bsB s))) \<and>
    map ID (snd (log_view (wal_log G w))) = map ID (bDlq (bsB s))"
proof -
  let ?b = "bsB s"
  note S = agreeD [OF s]
  have o: "map_order (envOrd E)" using E(1) by (simp add: sound_env_def)
  obtain w where w: "Rewrite G RewriteOk (compactEntries E ?b) (bWal ?b) = (None, w)"
    "wal_invar G w" "wal_log G w = compactEntries E ?b" "wDurable w = length (wDisk w)"
    "wSyncedSeq w = wWriteSeq w" "wSyncing w = wSyncing (bWal ?b)"
    using Rewrite_ok [OF wal_invarD(1) [OF S(3)] fit, of "bWal ?b"] by metis
  have "distinct (map ID (bPq ?b @ tracked (bTracker ?b) @ bDlq ?b))"
    using S(1) by (auto simp: sys_invar_def held_def)
  from log_view_compact [OF o this] obtain live where
    l: "log_view (wal_log G w) = (live, map (\<lambda>t. t\<lparr>Status := Dead, Deadline := 0\<rparr>) (bDlq ?b))"
      "live_map live = id_map (bPq ?b @ tracked (bTracker ?b))"
    unfolding w(3) by (elim exE conjE)
  have "compactLocked G E ?b = (None, ?b\<lparr>bWal := w\<rparr>)" using w(1) E(2) by (simp add: compactLocked_def)
  moreover have "seq_ok w" using w(4-6) S(6) by (simp add: seq_ok_def)
  ultimately show ?thesis using w(2,4) l by (intro exI [of _ "?b\<lparr>bWal := w\<rparr>"] exI [of _ w]) simp
qed

text \<open>A restart on a log whose whole file is durable.\<close>

lemma New_durable:
  assumes w: "wal_invar G w" "wDurable w = length (wDisk w)" and E: "sound_env E" "envRewrite E = RewriteOk"
  shows "\<exists>b. New G True replayOk E cfg (Some (crashFile w k)) = Inr b \<and>
    id_map (bPq b) = live_map (fst (log_view (wal_log G w))) \<and> bDlq b = snd (log_view (wal_log G w))"
proof -
  have o: "map_order (envOrd E)" using E(1) by (simp add: sound_env_def)
  obtain w0 where w0: "OpenWAL True (Some (crashFile w k)) = Inr w0" by (simp add: OpenWAL_def Let_def)
  from Replay_crash [OF w(1) w0] obtain m w' where
    m: "m \<le> length (wal_log G w)" "Replay G replayOk w0 = (Inr (take m (wal_log G w)), w')"
      "\<forall>i \<le> length (wal_log G w). length (logBytes G (take i (wal_log G w))) \<le> wDurable w \<longrightarrow> i \<le> m"
    by (elim exE conjE)
  have "length (wal_log G w) \<le> m" using m(3) w(2) wal_invarD(3) [OF w(1)] by simp
  with m(1) have all: "take m (wal_log G w) = wal_log G w" by simp
  let ?f = "foldedBroker E (scanDefault cfg) (wal_log G w) w'"
  obtain b where c: "compactLocked G E ?f = (None, b)"
    using compactLocked_total [OF wal_invarD(1) [OF w(1)] E(2)] by blast
  let ?b = "if wal_log G w = [] then ?f else b"
  have "New G True replayOk E cfg (Some (crashFile w k)) = Inr ?b"
    using New_file [OF w0 m(2) [unfolded all], of E cfg] c by simp
  moreover have "bPq ?b = bPq ?f" "bDlq ?b = bDlq ?f" using compactLocked_memory(1,3) [OF c] by simp_all
  moreover have "bDlq ?f = snd (log_view (wal_log G w))" by (simp add: foldedBroker_def emptyBroker_def)
  ultimately show ?thesis using folded_id_map [OF o] by (intro exI [of _ ?b]) simp
qed

lemma compact_wal_flags:
  assumes "maybeCompactLocked G E b = (r, b')"
  shows "wSyncing (bWal b') = wSyncing (bWal b)" "wSyncErr (bWal b') = wSyncErr (bWal b)"
  using assms
  by (auto simp: maybeCompactLocked_def compactLocked_def Rewrite_def
      split: if_splits prod.splits option.splits rewriteOutcome.splits)

lemma maybeCompact_total:
  assumes "gob_roundtrip G" and "envRewrite E = RewriteOk"
  shows "\<exists>b'. maybeCompactLocked G E b = (None, b')"
  using compactLocked_total [OF assms, of b] by (cases "compactDue b") (simp_all add: maybeCompactLocked_def)

lemma Enqueue_returns:
  assumes G: "gob_roundtrip G" and b: "\<not> bClosed b" "\<not> wSyncing (bWal b)" "\<not> wSyncErr (bWal b)"
    and E: "envWrite E = WriteOk" "envRewrite E = RewriteOk" "envSyncs E = True # outs"
  shows "\<exists>w. Enqueue G E b t = Some (None, b\<lparr>bPq := PQ_Push (bPq b) (prepareTask E t), bWal := w\<rparr>)"
proof -
  let ?t = "prepareTask E t"
  obtain p where p: "encodeTask G ?t = Some p" using G by (auto simp: gob_roundtrip_def encodeTask_def)
  obtain seq w1 where a: "AppendTaskNoSync G WriteOk (bWal b) OpEnqueue ?t = (Inr seq, w1)"
      "wSyncing w1 = wSyncing (bWal b)" "wSyncErr w1 = wSyncErr (bWal b)"
    using p by (cases "wOrphan (bWal b)") (simp_all add: AppendTaskNoSync_def appendNoSync_def handleWrite_def Let_def)
  let ?b1 = "b\<lparr>bWal := w1, bPq := PQ_Push (bPq b) ?t\<rparr>"
  obtain b2 where c: "maybeCompactLocked G E ?b1 = (None, b2)"
    using maybeCompact_total [OF G E(2)] by blast
  have l: "Enqueue_locked G E b t = (Inr seq, b2)"
    using b(1) a(1) c E(1) by (simp add: Enqueue_locked_def Let_def)
  have "\<not> wSyncing (bWal b2)" "\<not> wSyncErr (bWal b2)" "seq \<le> wWriteSeq (bWal b2)"
    using compact_wal_flags [OF c] a(2,3) b(2,3) Enqueue_locked_seq [OF l] by simp_all
  from WaitSync_returns [OF this(1,3), of True outs] this(2)
  have "\<exists>w. WaitSync (envSyncs E) (bWal b2) seq = Some (None, w)" unfolding E(3) by simp
  then obtain w where "WaitSync (envSyncs E) (bWal b2) seq = Some (None, w)" by (elim exE)
  moreover have "b2\<lparr>bWal := w\<rparr> = b\<lparr>bPq := PQ_Push (bPq b) ?t, bWal := w\<rparr>"
    by (subst maybeCompactLocked_fields [OF c]) simp
  ultimately show ?thesis using l by (intro exI [of _ w]) (simp add: Enqueue_def awaitSync_def)
qed

section \<open>An example broker\<close>

definition ex_env :: env where
  "ex_env = \<lparr>envUuid = ''u'', envNow = 100, envWrite = WriteOk, envRewrite = RewriteOk, envOrd = (\<lambda>m. m),
     envSyncs = [True]\<rparr>"

definition ex_cfg :: Config where
  "ex_cfg = \<lparr>MaxRetries = 3, TaskTimeout = 30, WALPath = ''wal'', CompactEvery = 0, ScanInterval = 1\<rparr>"

lemma ex_env_sound: "sound_env ex_env" "envRewrite ex_env = RewriteOk"
  by (simp_all add: sound_env_def ex_env_def map_order_id)

definition ex_broker :: Broker where
  "ex_broker = emptyBroker ex_cfg fresh_wal"

lemma ex_New: "New sample_gob True replayOk ex_env ex_cfg None = Inr ex_broker"
proof -
  have "OpenWAL True None = Inr fresh_wal" by (simp add: OpenWAL_def fresh_wal_def)
  moreover have "Replay sample_gob replayOk fresh_wal = (Inr [], fresh_wal)"
    using Replay_ok [of sample_gob fresh_wal] fresh_wal_invar by simp
  ultimately show ?thesis
    using New_file [of None fresh_wal sample_gob replayOk "[]" fresh_wal ex_env ex_cfg]
    by (simp add: foldedBroker_def ex_broker_def scanDefault_def ex_cfg_def log_view_def ex_env_def emptyBroker_def)
qed

definition ex_start :: bsys where
  "ex_start = \<lparr>bsB = ex_broker, bsLate = []\<rparr>"

lemma ex_start_reach: "broker_reach sample_gob ex_start"
  unfolding ex_start_def by (rule Reach_New [OF ex_env_sound(1) ex_New])

lemma ex_start_agree: "agree sample_gob ex_start"
  using broker_reach_agree [OF ex_start_reach gob_roundtrip_sample] .

lemma ex_logs_fit:
  "2 * (length (ID t) + length (Payload t)) + nat \<bar>Priority t\<bar> + nat \<bar>RetryCount t\<bar> + nat \<bar>CreatedAt t\<bar> +
     nat \<bar>Deadline t\<bar> \<le> 2 ^ 20 \<Longrightarrow> entry_ok sample_gob (enqueueEntry t) \<and> length (ID t) \<le> maxPayload"
  by (cases "Status t") (simp_all add: enqueueEntry_sample_ok length_sample_encode enc_status_def maxPayload_def)

text \<open>The example broker after one enqueue.\<close>

definition ex_task :: Task where
  "ex_task = log_task ''a'' [1, 2]"


section \<open>Durability\<close>







text \<open>
  A restart on the whole file (nothing lost, for instance after the process was killed) makes
  every task that the broker held pending again with its retry count, and keeps the dead-letter
  queue up to retry counts.
\<close>

theorem restart_returns_every_task:
  assumes "broker_reach G s" and "gob_roundtrip G" and "sound_env E" and "envRewrite E = RewriteOk"
    and "length (wDisk (bWal (bsB s))) \<le> k"
  shows "\<exists>b. New G True replayOk E cfg (Some (crashFile (bWal (bsB s)) k)) = Inr b \<and>
    id_map (bPq b) = id_map (held s) \<and> map dead_core (bDlq b) = map dead_core (bDlq (bsB s)) \<and> bTracker b = []"
  using New_restart [OF broker_reach_agree [OF assms(1,2)] assms(3,4)] assms(5) by blast

theorem restart_returns_every_task_witness:
  "\<exists>b. New sample_gob True replayOk ex_env ex_cfg (Some (crashFile (bWal (bsB ex_start)) 0)) = Inr b \<and>
     id_map (bPq b) = id_map (held ex_start)"
proof -
  have "length (wDisk (bWal (bsB ex_start))) \<le> 0"
    by (simp add: ex_start_def ex_broker_def emptyBroker_def fresh_wal_def)
  from restart_returns_every_task [OF ex_start_reach gob_roundtrip_sample ex_env_sound this] show ?thesis by blast
qed

section \<open>Operations\<close>

text \<open>
  On an open broker with a working disk, Enqueue returns without an error after one fsync, and
  its only effect on memory is that the queue holds the task, with an ID and a creation time.
\<close>

theorem enqueue_succeeds:
  assumes "gob_roundtrip G" and "\<not> bClosed b" and "\<not> wSyncing (bWal b)" and "\<not> wSyncErr (bWal b)"
    and "envWrite E = WriteOk" and "envRewrite E = RewriteOk" and "envSyncs E = True # outs"
    and "pq_invar (bPq b)"
  shows "\<exists>b'. Enqueue G E b t = Some (None, b') \<and>
    mset (bPq b') = add_mset (prepareTask E t) (mset (bPq b)) \<and> pq_invar (bPq b') \<and>
    bTracker b' = bTracker b \<and> bDlq b' = bDlq b \<and> bAcked b' = bAcked b \<and> bNacked b' = bNacked b"
proof -
  obtain w where "Enqueue G E b t = Some (None, b\<lparr>bPq := PQ_Push (bPq b) (prepareTask E t), bWal := w\<rparr>)"
    using Enqueue_returns [OF assms(1-7)] by blast
  with pq.bag_push [OF assms(8)] pq.invar_push [OF assms(8)] show ?thesis by simp
qed

theorem enqueue_succeeds_witness:
  "\<exists>b'. Enqueue sample_gob ex_env ex_broker ex_task = Some (None, b') \<and>
     mset (bPq b') = add_mset (prepareTask ex_env ex_task) (mset (bPq ex_broker))"
proof -
  have "pq_invar (bPq ex_broker)" using PQ_fold(1) [of "[]"] by (simp add: ex_broker_def emptyBroker_def)
  then show ?thesis
    using enqueue_succeeds [OF gob_roundtrip_sample, of ex_broker ex_env "[]" ex_task]
    by (auto simp: ex_broker_def emptyBroker_def fresh_wal_def ex_env_def)
qed

text \<open>
  C30: Dequeue on an open, non-empty queue hands out a task that no other pending task precedes
  (by priority, then creation time), marks it in flight with a deadline, moves it from the queue
  to the tracker and touches nothing else; an empty queue answers ErrEmpty, a closed broker
  ErrClosed, both without any change to the queue.
\<close>

theorem dequeue_delivers_minimum:
  assumes "broker_invar b"
  shows "if bClosed b then Dequeue E b = (Inl ErrClosed, b)
    else if bPq b = [] then Dequeue E b = (Inl ErrEmpty, b)
    else \<exists>t pq'. mset (bPq b) = add_mset t (mset pq') \<and> (\<forall>u \<in> set (bPq b). \<not> task_lt u t) \<and>
      (let t' = t\<lparr>Status := InFlight, Deadline := envNow E + TaskTimeout (bCfg b)\<rparr> in
       Dequeue E b = (Inr t', b\<lparr>bPq := pq', bTracker := Track t' (bTracker b)\<rparr>))"
proof -
  have h: "pq_invar (bPq b)" using assms by (simp add: broker_invar_def)
  obtain o' pq' where p: "PQ_Pop (bPq b) = (o', pq')" by (cases "PQ_Pop (bPq b)")
  show ?thesis
  proof (cases o')
    case None
    with p pq.pop_NoneD [OF h] have "pq' = bPq b" "bPq b = []" by auto
    with None p show ?thesis by (simp add: Dequeue_def)
  next
    case (Some t)
    note pop = pq.pop_SomeD [OF h p [unfolded Some]]
    then have "bPq b \<noteq> []" by auto
    moreover have "\<forall>u \<in> set (bPq b). \<not> task_lt u t" using pop(3) by simp
    ultimately show ?thesis
      using pop(2) Some p by (simp add: Dequeue_def Let_def) (intro impI exI [of _ t] exI [of _ pq'] conjI; simp)
  qed
qed

theorem dequeue_delivers_minimum_witness:
  "fst (Dequeue ex_env (ex_broker\<lparr>bPq := [ex_task]\<rparr>)) = Inr (ex_task\<lparr>Status := InFlight, Deadline := 130\<rparr>)"
proof -
  have "Status ex_task = Pending" by (simp add: ex_task_def log_task_def)
  moreover have "pq_invar [ex_task]" using pq.invar_push [OF pq.invar_new, of ex_task] PQ_fold(2) [of "[]"]
    pq.bag_push [OF pq.invar_new, of ex_task] by simp
  ultimately have "broker_invar (ex_broker\<lparr>bPq := [ex_task]\<rparr>)"
    using agreeD(1) [OF ex_start_agree] by (simp add: sys_invar_def ex_start_def broker_invar_def)
  from dequeue_delivers_minimum [OF this, of ex_env] show ?thesis
    by (auto simp: ex_broker_def emptyBroker_def ex_env_def ex_cfg_def Let_def)
qed

text \<open>
  C23: Every operation and every outcome of the disk keeps the broker's type invariant: the queue is
  a heap of pending tasks, the tracker a map from IDs to in-flight tasks, the dead-letter queue
  holds dead tasks.
\<close>

theorem operations_keep_invariant:
  assumes "broker_invar b"
  shows "broker_invar (snd (Enqueue_locked G E b t)) \<and> broker_invar (snd (Dequeue E b)) \<and>
    broker_invar (snd (Ack_locked G E b tid)) \<and> broker_invar (snd (Nack_locked G E b tid)) \<and>
    (Status u = InFlight \<longrightarrow> broker_invar (snd (onTimeout_locked G E b u))) \<and>
    broker_invar (ApplyTuning d n b) \<and> broker_invar (Broker_Close b)"
proof (intro conjI impI)
  show "broker_invar (snd (Enqueue_locked G E b t))" by (rule broker_invar_Enqueue [OF assms prod.collapse [symmetric]])
  show "broker_invar (snd (Dequeue E b))" by (rule broker_invar_Dequeue [OF assms prod.collapse [symmetric]])
  show "broker_invar (snd (Ack_locked G E b tid))" by (rule broker_invar_Ack [OF assms prod.collapse [symmetric]])
  show "broker_invar (snd (Nack_locked G E b tid))" by (rule broker_invar_Nack [OF assms prod.collapse [symmetric]])
  show "broker_invar (snd (onTimeout_locked G E b u))" if "Status u = InFlight"
    using broker_invar_requeue [OF assms that prod.collapse [symmetric]] assms
    by (simp add: onTimeout_locked_def)
  show "broker_invar (ApplyTuning d n b)" "broker_invar (Broker_Close b)"
    using assms by (simp_all add: ApplyTuning_def Broker_Close_def broker_invar_def Let_def)
qed

theorem operations_keep_invariant_witness:
  "broker_invar ex_broker \<and> broker_invar (snd (Ack_locked sample_gob ex_env ex_broker ''a''))"
proof -
  have "broker_invar ex_broker"
    using agreeD(1) [OF ex_start_agree] by (simp add: sys_invar_def ex_start_def)
  with operations_keep_invariant [OF this, of sample_gob ex_env _ "''a''"] show ?thesis by blast
qed


text \<open>An example broker with one task in flight.\<close>

definition ex_inflight :: Broker where
  "ex_inflight = ex_broker\<lparr>bTracker := [(''a'', ex_task\<lparr>Status := InFlight, Deadline := 130\<rparr>)]\<rparr>"

lemma ex_inflight_lookup: "map_of (bTracker ex_inflight) ''a'' = Some (ex_task\<lparr>Status := InFlight, Deadline := 130\<rparr>)"
  "\<not> bClosed ex_inflight"
  by (simp_all add: ex_inflight_def ex_broker_def emptyBroker_def)


text \<open>
  When the log refuses the record, the task stays in flight: an ack changes no counter and no
  task; a nack keeps the task too, but counts the retry in memory although no record of it is in
  the log.
\<close>

theorem failed_append_keeps_task:
  assumes "broker_invar b" and "\<not> bClosed b" and "map_of (bTracker b) tid = Some t" and "envWrite E = WriteErr k"
  shows "(\<exists>w tr. Ack_locked G E b tid = (Inl (ErrWAL WalWrite), b\<lparr>bWal := w, bTracker := tr\<rparr>) \<and> map_of tr = map_of (bTracker b)) \<and>
    (\<exists>w tr. Nack_locked G E b tid =
        (Inl (ErrWAL WalWrite), b\<lparr>bWal := w, bTracker := tr, bNacked := bNacked b + 1\<rparr>) \<and>
      map_of tr = (map_of (bTracker b))(tid \<mapsto> t\<lparr>RetryCount := RetryCount t + 1\<rparr>))"
proof -
  let ?tr = "AList.delete tid (bTracker b)"
  have ID: "ID t = tid" using assms(1,3) tracker_lookup_ID by (auto simp: broker_invar_def)
  have R: "Remove tid (bTracker b) = (Some t, ?tr)" using assms(3) by (simp add: Remove_def)
  have "\<exists>w. AppendIDNoSync (envWrite E) (bWal b) op tid = (Inl WalWrite, w)" for op
    using assms(4) by (simp add: AppendIDNoSync_def appendNoSync_def Let_def)
  then obtain f where f: "\<And>op. AppendIDNoSync (envWrite E) (bWal b) op tid = (Inl WalWrite, f op)" by metis
  have "Ack_locked G E b tid = (Inl (ErrWAL WalWrite), b\<lparr>bWal := f OpAck, bTracker := Track t ?tr\<rparr>)"
    using assms(2) R f by (simp add: Ack_locked_def)
  moreover have "map_of (Track t ?tr) = map_of (bTracker b)"
    using assms(3) ID by (auto simp: Track_def fun_eq_iff)
  moreover have "\<exists>w. Nack_locked G E b tid = (Inl (ErrWAL WalWrite),
      b\<lparr>bWal := w, bTracker := Track (t\<lparr>RetryCount := RetryCount t + 1\<rparr>) ?tr, bNacked := bNacked b + 1\<rparr>)"
    using assms(2) R f ID
    by (intro exI [of _ "f (if RetryCount t + 1 \<ge> MaxRetries (bCfg b) then OpDead else OpNack)"])
      (simp add: Nack_locked_def requeueLocked_def Let_def)
  moreover have "map_of (Track (t\<lparr>RetryCount := RetryCount t + 1\<rparr>) ?tr) =
      (map_of (bTracker b))(tid \<mapsto> t\<lparr>RetryCount := RetryCount t + 1\<rparr>)"
    using ID by (auto simp: Track_def fun_eq_iff)
  ultimately show ?thesis by blast
qed

lemma ex_inflight_invar: "broker_invar ex_inflight"
  using agreeD(1) [OF ex_start_agree]
  by (simp add: sys_invar_def ex_start_def broker_invar_def ex_inflight_def tracker_invar_def go_map_def
      tracked_def ex_task_def log_task_def)

theorem failed_append_keeps_task_witness:
  "\<exists>w tr. Ack_locked sample_gob (ex_env\<lparr>envWrite := WriteErr 2\<rparr>) ex_inflight ''a'' =
     (Inl (ErrWAL WalWrite), ex_inflight\<lparr>bWal := w, bTracker := tr\<rparr>) \<and> map_of tr = map_of (bTracker ex_inflight)"
  using failed_append_keeps_task [OF ex_inflight_invar ex_inflight_lookup(2,1), of "ex_env\<lparr>envWrite := WriteErr 2\<rparr>" 2]
  by simp

text \<open>
  C24: A tick of the expiry loop on an open broker loses no task from memory, whatever the disk does
  and in whatever order the map is walked: afterwards the queue, the tracker and the dead-letter
  queue together hold the same IDs as before.
\<close>

theorem expiry_tick_keeps_tasks:
  assumes "broker_invar b" and "\<not> bClosed b" and "map_order ord" and "tracker_tick G ord now Es b = Some b'"
  shows "broker_invar b' \<and> known_ids b' = known_ids b"
  using assms by (rule tick_keeps_ids)

theorem expiry_tick_keeps_tasks_witness:
  "\<exists>b'. tracker_tick sample_gob (\<lambda>m. m) 200 [ex_env\<lparr>envWrite := WriteErr 0\<rparr>] ex_inflight = Some b' \<and>
     known_ids b' = {#''a''#}"
proof -
  let ?E = "ex_env\<lparr>envWrite := WriteErr 0\<rparr>"
  have x: "expired (\<lambda>m. m) 200 (bTracker ex_inflight) = ([ex_task\<lparr>Status := InFlight, Deadline := 130\<rparr>], [])"
    by (simp add: expired_def ex_inflight_def)
  have "\<exists>b'. tracker_tick sample_gob (\<lambda>m. m) 200 [?E] ex_inflight = Some b'"
    by (simp add: tracker_tick_def x onTimeout_def onTimeout_locked_def ex_inflight_lookup(2) requeueLocked_def
        AppendIDNoSync_def appendNoSync_def awaitSync_def Let_def)
  then obtain b' where b': "tracker_tick sample_gob (\<lambda>m. m) 200 [?E] ex_inflight = Some b'" by (elim exE)
  have "known_ids b' = known_ids ex_inflight"
    using expiry_tick_keeps_tasks [OF ex_inflight_invar ex_inflight_lookup(2) map_order_id b'] by simp
  also have "\<dots> = {#''a''#}"
    using PQ_fold(2) [of "[]"]
    by (simp add: known_ids_def ex_inflight_def ex_broker_def emptyBroker_def tracked_def ex_task_def log_task_def)
  finally show ?thesis using b' by blast
qed

section \<open>Tasks that a restart loses\<close>

text \<open>
  The log written by a compaction forgets the tasks that the expiry scan has taken out of the
  tracker and that onTimeout has not requeued yet: if the compaction runs in between (it can be
  the one that requeueing the first expired task sets off) and the broker crashes, a restart has
  such a task neither pending nor dead.
\<close>

theorem compaction_drops_expired_tasks:
  assumes "broker_reach G s" and "gob_roundtrip G" and "t \<in> set (bsLate s)"
    and "sound_env E" and "envRewrite E = RewriteOk" and "sound_env E'" and "envRewrite E' = RewriteOk"
    and "\<forall>e \<in> set (compactEntries E (bsB s)). entry_ok G e"
  shows "\<exists>b b'. compactLocked G E (bsB s) = (None, b) \<and>
    New G True replayOk E' cfg (Some (crashFile (bWal b) k)) = Inr b' \<and> ID t \<notin> ID ` set (bPq b' @ bDlq b')"
proof -
  have a: "agree G s" by (rule broker_reach_agree [OF assms(1,2)])
  from compact_log_ids [OF a assms(4,5,8)] obtain b w where
    b: "compactLocked G E (bsB s) = (None, b)" "b = (bsB s)\<lparr>bWal := w\<rparr>" "wal_invar G w" "wDurable w = length (wDisk w)"
      "live_map (fst (log_view (wal_log G w))) = id_map (bPq (bsB s) @ tracked (bTracker (bsB s)))"
      "map ID (snd (log_view (wal_log G w))) = map ID (bDlq (bsB s))"
    by (elim exE conjE)
  from New_durable [OF b(3,4) assms(6,7), of cfg k] obtain b' where
    b': "New G True replayOk E' cfg (Some (crashFile w k)) = Inr b'"
      "id_map (bPq b') = live_map (fst (log_view (wal_log G w)))" "bDlq b' = snd (log_view (wal_log G w))"
    by (elim exE conjE)
  have d: "distinct (map ID (held s @ bDlq (bsB s)))" using agreeD(1) [OF a] by (simp add: sys_invar_def)
  have "ID ` set (bPq b') = ID ` set (bPq (bsB s) @ tracked (bTracker (bsB s)))"
    using arg_cong [OF b'(2), of dom] unfolding b(5) dom_id_map .
  moreover have "ID ` set (bDlq b') = ID ` set (bDlq (bsB s))"
    using arg_cong [OF b(6), of set] b'(3) by simp
  moreover have "ID t \<notin> ID ` set (bPq (bsB s) @ tracked (bTracker (bsB s)))" "ID t \<notin> ID ` set (bDlq (bsB s))"
    using d assms(3) by (auto simp: held_def)
  ultimately have "ID t \<notin> ID ` set (bPq b' @ bDlq b')" by (simp add: image_Un)
  with b(1,2) b'(1) show ?thesis by (intro exI [of _ b] exI [of _ b'] conjI) simp_all
qed

text \<open>The example broker after an enqueue, a delivery and the scan that finds the task expired.\<close>

lemma ex_late_reach:
  "\<exists>w. broker_reach sample_gob \<lparr>bsB = ex_broker\<lparr>bPq := [], bWal := w, bTracker := []\<rparr>,
     bsLate = [ex_task\<lparr>Status := InFlight, Deadline := 130\<rparr>]\<rparr>"
proof -
  let ?t = "ex_task\<lparr>Status := InFlight, Deadline := 130\<rparr>"
  have pq0: "bPq ex_broker = []" using PQ_fold(2) [of "[]"] by (simp add: ex_broker_def emptyBroker_def)
  have sel: "bTracker ex_broker = []" "bDlq ex_broker = []" "\<not> bClosed ex_broker" "bCfg ex_broker = ex_cfg" "bWal ex_broker = fresh_wal"
    by (simp_all add: ex_broker_def emptyBroker_def NewInFlightTracker_def)
  have wE: "envWrite ex_env = WriteOk" by (simp add: ex_env_def)
  have prep: "prepareTask ex_env ex_task = ex_task" by (simp add: prepareTask_def ex_task_def log_task_def)
  have push: "PQ_Push [] ex_task = [ex_task]"
    using pq.bag_push [of "[]" ex_task] pq.invar_new PQ_fold(2) [of "[]"] by simp
  have fit: "entry_ok sample_gob (enqueueEntry ex_task) \<and> length (ID ex_task) \<le> maxPayload"
    "entry_ok sample_gob (enqueueEntry ?t) \<and> length (ID ?t) \<le> maxPayload"
    by (rule ex_logs_fit, simp add: ex_task_def log_task_def)+
  have "\<exists>w. Enqueue_locked sample_gob ex_env ex_broker ex_task = (Inr 1, ex_broker\<lparr>bPq := [ex_task], bWal := w\<rparr>)"
    by (intro exI [of _ "(handleWrite (encodeRecord OpEnqueue (sample_encode ex_task)) fresh_wal)\<lparr>wEntries := 1, wWriteSeq := 1\<rparr>"])
      (simp add: Enqueue_locked_def prep sel pq0 push AppendTaskNoSync_def encodeTask_sample appendNoSync_def
        maybeCompactLocked_def compactDue_def wE Let_def,
        simp add: ex_cfg_def fresh_wal_def push)
  then obtain w where q: "Enqueue_locked sample_gob ex_env ex_broker ex_task = (Inr 1, ex_broker\<lparr>bPq := [ex_task], bWal := w\<rparr>)"
    by (elim exE)
  let ?b1 = "ex_broker\<lparr>bPq := [ex_task], bWal := w\<rparr>"
  have 1: "broker_step sample_gob ex_env ex_start \<lparr>bsB = ?b1, bsLate = []\<rparr>"
    using Step_Enqueue [of sample_gob ex_env ex_start ex_task "Inr 1" ?b1] q prep sel pq0 fit
    by (simp add: ex_start_def logs_fit_def held_def tracked_def)
  have pop: "PQ_Pop [ex_task] = (Some ex_task, [])"
    using pq.pop_some [of "[ex_task]"] pq.invar_push [OF pq.invar_new, of ex_task] push PQ_fold(2) [of "[]"] by auto
  let ?b2 = "ex_broker\<lparr>bPq := [], bTracker := [(ID ex_task, ?t)], bWal := w\<rparr>"
  have "Dequeue ex_env ?b1 = (Inr ?t, ?b2)"
    using pop sel by (simp add: Dequeue_def Track_def ex_env_def ex_cfg_def Let_def)
  then have 2: "broker_step sample_gob ex_env \<lparr>bsB = ?b1, bsLate = []\<rparr> \<lparr>bsB = ?b2, bsLate = []\<rparr>"
    using Step_Dequeue [of ex_env "\<lparr>bsB = ?b1, bsLate = []\<rparr>" "Inr ?t" ?b2 sample_gob] sel fit
    by (simp add: logs_fit_def held_def tracked_def)
  let ?E = "ex_env\<lparr>envNow := 200\<rparr>"
  have 3: "broker_step sample_gob ?E \<lparr>bsB = ?b2, bsLate = []\<rparr> \<lparr>bsB = ?b2\<lparr>bTracker := []\<rparr>, bsLate = [?t]\<rparr>"
    using Step_Scan [of "\<lparr>bsB = ?b2, bsLate = []\<rparr>" ?E "[?t]" "[]" sample_gob]
    by (simp add: expired_def ex_env_def)
  have E: "sound_env ?E" by (simp add: sound_env_def ex_env_def map_order_id)
  have "broker_reach sample_gob \<lparr>bsB = ?b2\<lparr>bTracker := []\<rparr>, bsLate = [?t]\<rparr>"
    by (rule Reach_Step [OF Reach_Step [OF Reach_Step [OF ex_start_reach ex_env_sound(1) 1] ex_env_sound(1) 2] E 3])
  then show ?thesis by (intro exI [of _ w]) simp
qed

theorem compaction_drops_expired_tasks_witness:
  "\<exists>s b b'. broker_reach sample_gob s \<and> map ID (bsLate s) = [''a''] \<and> compactLocked sample_gob ex_env (bsB s) = (None, b) \<and>
     New sample_gob True replayOk ex_env ex_cfg (Some (crashFile (bWal b) 9)) = Inr b' \<and>
     ''a'' \<notin> ID ` set (bPq b' @ bDlq b')"
proof -
  obtain w where r: "broker_reach sample_gob \<lparr>bsB = ex_broker\<lparr>bPq := [], bWal := w, bTracker := []\<rparr>,
     bsLate = [ex_task\<lparr>Status := InFlight, Deadline := 130\<rparr>]\<rparr>" (is "broker_reach sample_gob ?s")
    using ex_late_reach by (elim exE)
  let ?t = "ex_task\<lparr>Status := InFlight, Deadline := 130\<rparr>"
  have "?t \<in> set (bsLate ?s)" by simp
  moreover have "\<forall>e \<in> set (compactEntries ex_env (bsB ?s)). entry_ok sample_gob e"
    by (simp add: compactEntries_def ex_env_def ex_broker_def emptyBroker_def)
  ultimately obtain b b' where "compactLocked sample_gob ex_env (bsB ?s) = (None, b)"
    "New sample_gob True replayOk ex_env ex_cfg (Some (crashFile (bWal b) 9)) = Inr b'" "ID ?t \<notin> ID ` set (bPq b' @ bDlq b')"
    using compaction_drops_expired_tasks [OF r gob_roundtrip_sample _ ex_env_sound ex_env_sound] by metis
  moreover have "ID ?t = ''a''" by (simp add: ex_task_def log_task_def)
  ultimately show ?thesis using r by (intro exI [of _ ?s] exI [of _ b] exI [of _ b'] conjI) simp_all
qed

text \<open>Replaying the pairs of records for dead tasks removes their IDs from the live map.\<close>

lemma fold_dead_pairs_removes:
  assumes "tid \<in> ID ` set ts \<or> map_of live tid = None"
  shows "map_of (fst (fold recover_step (concat (map (\<lambda>t. [enqueueEntry t, idEntry OpDead (ID t)]) ts)) (live, dlq))) tid = None"
  using assms
proof (induction ts arbitrary: live dlq)
  case Nil
  then show ?case by simp
next
  case (Cons t ts)
  let ?live = "AList.delete (ID t) (AList.update (ID t) (t\<lparr>Status := Pending, Deadline := 0\<rparr>) live)"
  have "tid \<in> ID ` set ts \<or> map_of ?live tid = None" using Cons.prems by auto
  from Cons.IH [OF this, of "dlq @ [t\<lparr>Status := Pending, Deadline := 0, Status := Dead\<rparr>]"] show ?case
    by (simp add: recover_enqueue recover_dead)
qed

text \<open>
  If the ID of a dead-lettered task is enqueued again, a compaction writes the dead pair behind
  the pending task's record; replaying that log, the pending task is gone.
\<close>

theorem compaction_drops_reused_id:
  assumes "t \<in> set (bPq b)" and "d \<in> set (bDlq b)" and "ID d = ID t"
  shows "map_of (fst (log_view (compactEntries E b))) (ID t) = None"
proof -
  obtain live dlq where "fold recover_step
      (map enqueueEntry (bPq b) @ map enqueueEntry (map snd (envOrd E (bTracker b)))) ([], []) = (live, dlq)"
    by (cases "fold recover_step
      (map enqueueEntry (bPq b) @ map enqueueEntry (map snd (envOrd E (bTracker b)))) ([], [])")
  moreover have "ID t \<in> ID ` set (bDlq b)" unfolding assms(3) [symmetric] using assms(2) by (rule imageI)
  ultimately show ?thesis
    using fold_dead_pairs_removes [of "ID t" "bDlq b" live dlq]
    by (simp add: log_view_def compactEntries_def)
qed

theorem compaction_drops_reused_id_witness:
  "map_of (fst (log_view (compactEntries ex_env
     (ex_broker\<lparr>bPq := [ex_task], bDlq := [ex_task\<lparr>Status := Dead\<rparr>]\<rparr>)))) (ID ex_task) = None"
  by (rule compaction_drops_reused_id [of _ _ "ex_task\<lparr>Status := Dead\<rparr>"]) simp_all

text \<open>
  A dead-lettered task comes back from a replay with a retry count one lower than the one the
  broker had in memory.
\<close>

theorem replay_forgets_last_retry:
  assumes "RetryCount t + 1 \<ge> MaxRetries (bCfg b)" and "envWrite E = WriteOk" and "requeueLocked G E b t = (r, b')"
    and "map_of live (ID t) = Some u" and "RetryCount u = RetryCount t"
  shows "RetryCount (last (bDlq b')) = RetryCount (last (snd (recover_step (idEntry OpDead (ID t)) (live, dlq)))) + 1"
  using assms(3)
proof (cases rule: requeue_cases)
  case (dead w c)
  then have "bDlq b' = bDlq b @ [t\<lparr>RetryCount := RetryCount t + 1, Status := Dead\<rparr>]"
    by (simp add: maybeCompactLocked_sel)
  with assms(4,5) show ?thesis by (simp add: recover_dead)
qed (use assms(1,2) in simp_all)

theorem replay_forgets_last_retry_witness:
  "RetryCount (last (bDlq (snd (requeueLocked sample_gob ex_env ex_broker (ex_task\<lparr>RetryCount := 2\<rparr>))))) =
     RetryCount (last (snd (recover_step (idEntry OpDead (ID ex_task)) ([(ID ex_task, ex_task\<lparr>RetryCount := 2\<rparr>)], [])))) + 1"
  using replay_forgets_last_retry [of ex_broker "ex_task\<lparr>RetryCount := 2\<rparr>" ex_env sample_gob _ _
      "[(ID ex_task, ex_task\<lparr>RetryCount := 2\<rparr>)]" "ex_task\<lparr>RetryCount := 2\<rparr>" "[]", OF _ _ prod.collapse [symmetric]]
  by (simp add: ex_broker_def emptyBroker_def ex_cfg_def ex_env_def)

end
