(* ===== verification/State_Machine.thy ===== *)
theory State_Machine
  imports Broker_Core
begin

text \<open>
  The replicated queue, \<^verbatim>\<open>src/broker/statemachine.go\<close>. The source shares tasks between the live
  map, the heap and the dead-letter queue by pointer and compares pointers when it pops, so the
  model keeps an explicit store: \<open>smMem\<close> holds every task object ever allocated and a pointer is
  an index into it.

  The gob codecs of operations and snapshots are parameters, with their round trips as named
  hypotheses.
\<close>

section \<open>The heap of pointers\<close>

definition ptr_lt :: "Task list \<Rightarrow> nat \<Rightarrow> nat \<Rightarrow> bool" where
  "ptr_lt m a b = task_lt (m ! a) (m ! b)"

definition ptr_Push :: "Task list \<Rightarrow> nat list \<Rightarrow> nat \<Rightarrow> nat list" where
  "ptr_Push m h a = heap_push (ptr_lt m) h a"

definition ptr_Pop :: "Task list \<Rightarrow> nat list \<Rightarrow> nat option \<times> nat list" where
  "ptr_Pop m h = heap_popq (ptr_lt m) h"

interpretation ptr_order: strict_weak_order "ptr_lt m" for m
  by unfold_locales (auto simp: ptr_lt_def task_lt_key)

section \<open>State and operations\<close>

record QueueOp =
  qType :: byte
  qTask :: "Task option"
  qTaskID :: string

record opCodec =
  op_encode :: "QueueOp \<Rightarrow> byte list option"
  op_decode :: "byte list \<Rightarrow> QueueOp option"

definition EncodeOp :: "opCodec \<Rightarrow> QueueOp \<Rightarrow> byte list option" where
  "EncodeOp C op = op_encode C op"

definition DecodeOp :: "opCodec \<Rightarrow> byte list \<Rightarrow> QueueOp option" where
  "DecodeOp C bs = op_decode C bs"

definition op_roundtrip :: "opCodec \<Rightarrow> bool" where
  "op_roundtrip C \<longleftrightarrow> (\<forall>op. \<exists>bs. EncodeOp C op = Some bs \<and> bs \<noteq> [] \<and> DecodeOp C bs = Some op)"

record StateMachine =
  smMaxRetries :: int
  smMem :: "Task list"
  smTasks :: "(string \<times> nat) list"
  smPq :: "nat list"
  smInHeap :: "(string \<times> bool) list"
  smDlq :: "nat list"
  smAcked :: int
  smNacked :: int

definition NewStateMachine :: "int \<Rightarrow> StateMachine" where
  "NewStateMachine maxRetries =
     \<lparr>smMaxRetries = maxRetries, smMem = [], smTasks = [], smPq = [], smInHeap = [], smDlq = [],
      smAcked = 0, smNacked = 0\<rparr>"

text \<open>Reading, writing and allocating a task object.\<close>

definition deref :: "StateMachine \<Rightarrow> nat \<Rightarrow> Task" where
  "deref sm a = smMem sm ! a"

definition assign :: "nat \<Rightarrow> (Task \<Rightarrow> Task) \<Rightarrow> StateMachine \<Rightarrow> StateMachine" where
  "assign a f sm = sm\<lparr>smMem := (smMem sm)[a := f (deref sm a)]\<rparr>"

definition alloc :: "Task \<Rightarrow> StateMachine \<Rightarrow> nat \<times> StateMachine" where
  "alloc t sm = (length (smMem sm), sm\<lparr>smMem := smMem sm @ [t]\<rparr>)"

definition pushLocked :: "nat \<Rightarrow> StateMachine \<Rightarrow> StateMachine" where
  "pushLocked a sm =
     (let tid = ID (deref sm a) in
      if map_of (smInHeap sm) tid \<noteq> Some True
      then sm\<lparr>smPq := ptr_Push (smMem sm) (smPq sm) a, smInHeap := AList.update tid True (smInHeap sm)\<rparr>
      else sm)"

definition Apply :: "QueueOp \<Rightarrow> StateMachine \<Rightarrow> StateMachine" where
  "Apply op sm =
     (if qType op = OpEnqueue then
        (case qTask op of
           None \<Rightarrow> sm
         | Some t \<Rightarrow>
             if ID t = '''' then sm
             else if map_of (smTasks sm) (ID t) \<noteq> None then sm
             else
               let (a, sm1) = alloc (t\<lparr>Status := Pending\<rparr>) sm in
               pushLocked a (sm1\<lparr>smTasks := AList.update (ID t) a (smTasks sm1)\<rparr>))
      else if qType op = OpAck then
        (case map_of (smTasks sm) (qTaskID op) of
           None \<Rightarrow> sm
         | Some a \<Rightarrow>
             let sm1 = assign a (\<lambda>t. t\<lparr>Status := Done\<rparr>) sm in
             sm1\<lparr>smTasks := AList.delete (qTaskID op) (smTasks sm1), smAcked := smAcked sm1 + 1\<rparr>)
      else if qType op = OpNack then
        (case map_of (smTasks sm) (qTaskID op) of
           None \<Rightarrow> sm
         | Some a \<Rightarrow>
             let sm1 = assign a (\<lambda>t. t\<lparr>RetryCount := RetryCount t + 1\<rparr>) (sm\<lparr>smNacked := smNacked sm + 1\<rparr>) in
             if RetryCount (deref sm1 a) \<ge> smMaxRetries sm1 then
               let sm2 = assign a (\<lambda>t. t\<lparr>Status := Dead\<rparr>) sm1 in
               sm2\<lparr>smTasks := AList.delete (qTaskID op) (smTasks sm2), smDlq := smDlq sm2 @ [a]\<rparr>
             else pushLocked a (assign a (\<lambda>t. t\<lparr>Status := Pending, Deadline := 0\<rparr>) sm1))
      else sm)"

lemma ptr_Pop_shorter: "ptr_Pop m h = (Some a, h') \<Longrightarrow> length h' < length h"
  using length_heap_pop [of h "ptr_lt m"]
  by (cases "h = []") (auto simp: ptr_Pop_def heap_popq_def split: prod.splits)

function SM_Dequeue :: "time \<Rightarrow> duration \<Rightarrow> StateMachine \<Rightarrow> Task option \<times> StateMachine" where
  "SM_Dequeue now timeout sm =
     (case ptr_Pop (smMem sm) (smPq sm) of
        (None, h) \<Rightarrow> (None, sm\<lparr>smPq := h\<rparr>)
      | (Some a, h) \<Rightarrow>
          let t = deref sm a;
              sm1 = sm\<lparr>smPq := h, smInHeap := AList.delete (ID t) (smInHeap sm)\<rparr>
          in
            if map_of (smTasks sm1) (ID t) \<noteq> Some a \<or> Status t \<noteq> Pending then SM_Dequeue now timeout sm1
            else
              let sm2 = assign a (\<lambda>t. t\<lparr>Status := InFlight, Deadline := now + timeout\<rparr>) sm1 in
              (Some (Clone (deref sm2 a)), sm2))"
  by pat_completeness auto
termination
  by (relation "measure (\<lambda>(now, timeout, sm). length (smPq sm))") (auto dest: ptr_Pop_shorter [OF sym])

declare SM_Dequeue.simps [simp del]

definition Has :: "string \<Rightarrow> StateMachine \<Rightarrow> bool" where
  "Has taskID sm \<longleftrightarrow> map_of (smTasks sm) taskID \<noteq> None"

definition requeueOne :: "string \<times> nat \<Rightarrow> StateMachine \<Rightarrow> StateMachine" where
  "requeueOne e sm =
     (if Status (deref sm (snd e)) = InFlight
      then pushLocked (snd e) (assign (snd e) (\<lambda>t. t\<lparr>Status := Pending, Deadline := 0\<rparr>) sm)
      else sm)"

definition RequeueInFlight ::
  "((string \<times> nat) list \<Rightarrow> (string \<times> nat) list) \<Rightarrow> StateMachine \<Rightarrow> StateMachine" where
  "RequeueInFlight ord sm = fold requeueOne (ord (smTasks sm)) sm"

definition SM_Stats :: "StateMachine \<Rightarrow> Stats" where
  "SM_Stats sm =
     (let inflight = length (filter (\<lambda>e. Status (deref sm (snd e)) = InFlight) (smTasks sm)) in
      \<lparr>stPending = int (length (smTasks sm) - inflight), stInFlight = int inflight,
       stDLQ = int (length (smDlq sm)), stAcked = smAcked sm, stNacked = smNacked sm\<rparr>)"

definition SM_ListDLQ :: "StateMachine \<Rightarrow> Task list" where
  "SM_ListDLQ sm = map (\<lambda>a. Clone (deref sm a)) (smDlq sm)"

section \<open>Snapshots\<close>

record snapshotState =
  ssTasks :: "Task list"
  ssDLQ :: "Task list"
  ssAcked :: int

record snapCodec =
  snap_encode :: "snapshotState \<Rightarrow> byte list option"
  snap_decode :: "byte list \<Rightarrow> snapshotState option"

definition snap_roundtrip :: "snapCodec \<Rightarrow> bool" where
  "snap_roundtrip C \<longleftrightarrow> (\<forall>st. \<exists>bs. snap_encode C st = Some bs \<and> snap_decode C bs = Some st)"

definition snapshotOf ::
  "((string \<times> nat) list \<Rightarrow> (string \<times> nat) list) \<Rightarrow> StateMachine \<Rightarrow> snapshotState" where
  "snapshotOf ord sm =
     \<lparr>ssTasks = map (\<lambda>e. (Clone (deref sm (snd e)))\<lparr>Status := Pending, Deadline := 0\<rparr>) (ord (smTasks sm)),
      ssDLQ = map (deref sm) (smDlq sm), ssAcked = smAcked sm\<rparr>"

definition Snapshot ::
  "snapCodec \<Rightarrow> ((string \<times> nat) list \<Rightarrow> (string \<times> nat) list) \<Rightarrow> StateMachine \<Rightarrow> byte list option" where
  "Snapshot C ord sm = snap_encode C (snapshotOf ord sm)"

definition restoreTask :: "Task \<Rightarrow> StateMachine \<Rightarrow> StateMachine" where
  "restoreTask t sm =
     (let (a, sm1) = alloc t sm in
      pushLocked a (sm1\<lparr>smTasks := AList.update (ID t) a (smTasks sm1)\<rparr>))"

definition restoreState :: "snapshotState \<Rightarrow> StateMachine \<Rightarrow> StateMachine" where
  "restoreState st sm =
     (let sm1 = fold restoreTask (ssTasks st) (sm\<lparr>smTasks := [], smPq := [], smInHeap := []\<rparr>);
          n = length (smMem sm1)
      in sm1\<lparr>smMem := smMem sm1 @ ssDLQ st, smDlq := [n ..< n + length (ssDLQ st)], smAcked := ssAcked st\<rparr>)"

text \<open>\<^verbatim>\<open>Restore\<close> reports a snapshot that does not decode (\<^const>\<open>True\<close>) and then changes nothing.\<close>

definition Restore :: "snapCodec \<Rightarrow> byte list \<Rightarrow> StateMachine \<Rightarrow> bool \<times> StateMachine" where
  "Restore C bs sm =
     (case snap_decode C bs of
        None \<Rightarrow> (True, sm)
      | Some st \<Rightarrow> (False, restoreState st sm))"

end
