(* ===== verification/Queue_Rpc.thy ===== *)
theory Queue_Rpc
  imports State_Machine
begin

text \<open>
  The gRPC service in front of the single-node broker, \<^verbatim>\<open>src/server/grpc.go\<close>: conversion between
  protobuf messages and broker tasks, broker errors as gRPC status codes, and the six handlers.
  The 32- and 64-bit fields of the messages keep their width.

  \<^verbatim>\<open>timestamppb\<close> is a library: its two conversions are a parameter, and \<open>ts_roundtrip\<close> is what the
  service relies on.
\<close>

section \<open>Messages\<close>

record timestamp =
  tsSeconds :: "64 word"
  tsNanos :: "32 word"

record tsLib =
  ts_New :: "time \<Rightarrow> timestamp"
  ts_AsTime :: "timestamp \<Rightarrow> time"

text \<open>An instant whose seconds are a 64-bit number survives the conversion.\<close>

definition ts_fits :: "time \<Rightarrow> bool" where
  "ts_fits t \<longleftrightarrow> fits64 (t div 10 ^ 9)"

definition ts_roundtrip :: "tsLib \<Rightarrow> bool" where
  "ts_roundtrip L \<longleftrightarrow> (\<forall>t. ts_fits t \<longrightarrow> ts_AsTime L (ts_New L t) = t)"

record protoTask =
  pId :: string
  pPayload :: "byte list"
  pPriority :: "32 word"
  pRetryCount :: "32 word"
  pCreatedAt :: "timestamp option"

record StatsResponse =
  srPending :: "64 word"
  srInFlight :: "64 word"
  srDlq :: "64 word"
  srAcked :: "64 word"

datatype code = Canceled | Unknown | InvalidArgument | DeadlineExceeded | NotFound | AlreadyExists
  | PermissionDenied | ResourceExhausted | FailedPrecondition | Aborted | OutOfRange | Unimplemented
  | Internal | Unavailable | DataLoss | Unauthenticated

record rpcStatus =
  rsCode :: code
  rsMessage :: string

definition statusError :: "code \<Rightarrow> string \<Rightarrow> rpcStatus" where
  "statusError c m = \<lparr>rsCode = c, rsMessage = m\<rparr>"

section \<open>Conversions\<close>

definition fromProto :: "tsLib \<Rightarrow> protoTask \<Rightarrow> Task" where
  "fromProto L p =
     (let t = \<lparr>ID = pId p, Payload = pPayload p, Priority = sint (pPriority p), Status = Pending,
               RetryCount = sint (pRetryCount p), CreatedAt = 0, Deadline = 0\<rparr>
      in case pCreatedAt p of None \<Rightarrow> t | Some ts \<Rightarrow> t\<lparr>CreatedAt := ts_AsTime L ts\<rparr>)"

definition toProto :: "tsLib \<Rightarrow> Task \<Rightarrow> protoTask" where
  "toProto L t =
     \<lparr>pId = ID t, pPayload = Payload t, pPriority = word_of_int (Priority t),
      pRetryCount = word_of_int (RetryCount t), pCreatedAt = Some (ts_New L (CreatedAt t))\<rparr>"

text \<open>The text of an error that has no code of its own is its \<^verbatim>\<open>Error\<close> method, an argument.\<close>

definition toStatus :: "(brokerError \<Rightarrow> string) \<Rightarrow> brokerError \<Rightarrow> rpcStatus" where
  "toStatus errText err =
     (case err of
        ErrEmpty \<Rightarrow> statusError NotFound ''queue is empty''
      | ErrUnknownTask \<Rightarrow> statusError NotFound ''task not in flight''
      | ErrClosed \<Rightarrow> statusError Unavailable ''broker is shutting down''
      | _ \<Rightarrow> statusError Internal (errText err))"

section \<open>Handlers\<close>

text \<open>
  As for the broker's operations, \<^const>\<open>None\<close> is a call that does not return within the fsyncs the
  oracle has outcomes for. A request without a task is \<^const>\<open>None\<close> as its first argument.
\<close>

definition Server_Enqueue ::
  "tsLib \<Rightarrow> (brokerError \<Rightarrow> string) \<Rightarrow> gob \<Rightarrow> env \<Rightarrow> protoTask option \<Rightarrow> Broker
     \<Rightarrow> ((rpcStatus + string) \<times> Broker) option" where
  "Server_Enqueue L errText G E req b =
     (case req of
        None \<Rightarrow> Some (Inl (statusError InvalidArgument ''task is required''), b)
      | Some p \<Rightarrow>
          let t = fromProto L p in
          (case Enqueue G E b t of
             None \<Rightarrow> None
           | Some (Some e, b') \<Rightarrow> Some (Inl (toStatus errText e), b')
           | Some (None, b') \<Rightarrow> Some (Inr (ID (prepareTask E t)), b')))"

definition Server_Dequeue ::
  "tsLib \<Rightarrow> (brokerError \<Rightarrow> string) \<Rightarrow> env \<Rightarrow> Broker \<Rightarrow> (rpcStatus + protoTask) \<times> Broker" where
  "Server_Dequeue L errText E b =
     (case Dequeue E b of
        (Inl e, b') \<Rightarrow> (Inl (toStatus errText e), b')
      | (Inr t, b') \<Rightarrow> (Inr (toProto L t), b'))"

definition Server_Ack ::
  "(brokerError \<Rightarrow> string) \<Rightarrow> gob \<Rightarrow> env \<Rightarrow> string \<Rightarrow> Broker \<Rightarrow> ((rpcStatus + unit) \<times> Broker) option" where
  "Server_Ack errText G E taskID b =
     (case Ack G E b taskID of
        None \<Rightarrow> None
      | Some (Some e, b') \<Rightarrow> Some (Inl (toStatus errText e), b')
      | Some (None, b') \<Rightarrow> Some (Inr (), b'))"

definition Server_Nack ::
  "(brokerError \<Rightarrow> string) \<Rightarrow> gob \<Rightarrow> env \<Rightarrow> string \<Rightarrow> Broker \<Rightarrow> ((rpcStatus + unit) \<times> Broker) option" where
  "Server_Nack errText G E taskID b =
     (case Nack G E b taskID of
        None \<Rightarrow> None
      | Some (Some e, b') \<Rightarrow> Some (Inl (toStatus errText e), b')
      | Some (None, b') \<Rightarrow> Some (Inr (), b'))"

definition statsResponse :: "Stats \<Rightarrow> StatsResponse" where
  "statsResponse st =
     \<lparr>srPending = word_of_int (stPending st), srInFlight = word_of_int (stInFlight st),
      srDlq = word_of_int (stDLQ st), srAcked = word_of_int (stAcked st)\<rparr>"

definition Server_Stats :: "Broker \<Rightarrow> StatsResponse" where
  "Server_Stats b = statsResponse (Broker_Stats b)"

definition Server_ListDLQ :: "tsLib \<Rightarrow> Broker \<Rightarrow> protoTask list" where
  "Server_ListDLQ L b = map (toProto L) (Broker_ListDLQ b)"

section \<open>Round trip\<close>

lemma fromProto_toProto:
  "ts_roundtrip L \<Longrightarrow> ts_fits (CreatedAt t) \<Longrightarrow>
   fromProto L (toProto L t) =
     (task_core t)\<lparr>Priority := wrap32 (Priority t), RetryCount := wrap32 (RetryCount t)\<rparr>"
  by (simp add: fromProto_def toProto_def ts_roundtrip_def sint_word32 task_core_def)

lemma fromProto_bounds:
  "- (2 ^ 31) \<le> Priority (fromProto L p)" "Priority (fromProto L p) < 2 ^ 31"
  "- (2 ^ 31) \<le> RetryCount (fromProto L p)" "RetryCount (fromProto L p) < 2 ^ 31"
  using sint_range_size [of "pPriority p"] sint_range_size [of "pRetryCount p"]
  by (auto simp: fromProto_def Let_def word_size split: option.splits)

end
