(* ===== verification/Failover_Client.thy ===== *)
theory Failover_Client
  imports Queue_Rpc
begin

text \<open>
  The client that fails over between the nodes of a cluster, \<^verbatim>\<open>src/client/failover.go\<close>. Its state is
  the list of addresses, the position of the node it believes to be leader, and the addresses it
  has a connection to. An index outside the address list panics, which is \<^const>\<open>None\<close>.

  The network is a parameter: whether a connection can be made, and what the node at an address
  answers to the attempt with a given number.
\<close>

section \<open>Strings\<close>

text \<open>\<^verbatim>\<open>strings.Index\<close>, and \<^verbatim>\<open>strings.TrimSpace\<close> on ASCII.\<close>

fun isPrefix :: "string \<Rightarrow> string \<Rightarrow> bool" where
  "isPrefix [] s = True"
| "isPrefix (c # cs) [] = False"
| "isPrefix (c # cs) (d # ds) = (c = d \<and> isPrefix cs ds)"

fun strIndex :: "string \<Rightarrow> string \<Rightarrow> nat option" where
  "strIndex pat [] = (if pat = [] then Some 0 else None)"
| "strIndex pat (c # s) = (if isPrefix pat (c # s) then Some 0 else map_option Suc (strIndex pat s))"

definition isSpace :: "char \<Rightarrow> bool" where
  "isSpace c \<longleftrightarrow> c \<in> {CHR 0x09, CHR 0x0A, CHR 0x0B, CHR 0x0C, CHR 0x0D, CHR '' ''}"

definition trimSpace :: "string \<Rightarrow> string" where
  "trimSpace s = rev (dropWhile isSpace (rev (dropWhile isSpace s)))"

section \<open>State\<close>

record Failover =
  fAddrs :: "string list"
  fCur :: nat
  fConns :: "string list"

definition Failover_New :: "string list \<Rightarrow> Failover" where
  "Failover_New addrs = \<lparr>fAddrs = addrs, fCur = 0, fConns = []\<rparr>"

definition Failover_Close :: "Failover \<Rightarrow> Failover" where
  "Failover_Close f = f\<lparr>fConns := []\<rparr>"

definition maxAttempts :: nat where
  "maxAttempts = 6"

text \<open>The address of the client to use, or the error of \<^verbatim>\<open>grpc.NewClient\<close>.\<close>

definition current :: "(string \<Rightarrow> 'e option) \<Rightarrow> Failover \<Rightarrow> (('e + string) \<times> Failover) option" where
  "current dial f =
     (if \<not> fCur f < length (fAddrs f) then None
      else
        let addr = fAddrs f ! fCur f in
        if addr \<in> set (fConns f) then Some (Inr addr, f)
        else
          case dial addr of
            Some e \<Rightarrow> Some (Inl e, f)
          | None \<Rightarrow> Some (Inr addr, f\<lparr>fConns := addr # fConns f\<rparr>))"

fun indexOf :: "string \<Rightarrow> string list \<Rightarrow> nat option" where
  "indexOf a [] = None"
| "indexOf a (b # bs) = (if b = a then Some 0 else map_option Suc (indexOf a bs))"

definition advance :: "string \<Rightarrow> Failover \<Rightarrow> Failover option" where
  "advance hint f =
     (if hint \<noteq> [] then
        (case indexOf hint (fAddrs f) of
           Some i \<Rightarrow> Some (f\<lparr>fCur := i\<rparr>)
         | None \<Rightarrow> let addrs = fAddrs f @ [hint] in Some (f\<lparr>fAddrs := addrs, fCur := length addrs - 1\<rparr>))
      else if fAddrs f = [] then None
      else Some (f\<lparr>fCur := (fCur f + 1) mod length (fAddrs f)\<rparr>))"

definition leaderHint :: "rpcStatus \<Rightarrow> string" where
  "leaderHint err =
     (case strIndex ''leader='' (rsMessage err) of
        Some i \<Rightarrow> trimSpace (drop (i + length ''leader='') (rsMessage err))
      | None \<Rightarrow> [])"

section \<open>The retry loop\<close>

text \<open>
  \<open>netDial\<close> and \<open>netRpc\<close> are the attempts' connections and answers, \<open>netDone\<close> whether the context
  is over when an attempt starts, \<open>netPause\<close> whether it ends during the pause after the attempt.
\<close>

datatype failoverError = CtxError | DialFailed string | RpcError rpcStatus

record 'r network =
  netDial :: "nat \<Rightarrow> string \<Rightarrow> string option"
  netRpc :: "nat \<Rightarrow> string \<Rightarrow> rpcStatus + 'r"
  netDone :: "nat \<Rightarrow> bool"
  netPause :: "nat \<Rightarrow> bool"

text \<open>
  The loop with \<open>k\<close> attempts left, of which \<open>attempt\<close> is the number of the next; the last error
  starts as nil. A nil last error is returned only if no attempt was made.
\<close>

fun doLoop ::
  "'r network \<Rightarrow> nat \<Rightarrow> nat \<Rightarrow> failoverError option \<Rightarrow> Failover
     \<Rightarrow> ((failoverError option + 'r) \<times> Failover) option" where
  "doLoop W 0 attempt lastErr f = Some (Inl lastErr, f)"
| "doLoop W (Suc k) attempt lastErr f =
     (if netDone W attempt then Some (Inl (Some CtxError), f)
      else
        case current (netDial W attempt) f of
          None \<Rightarrow> None
        | Some (Inl e, f1) \<Rightarrow>
            (case advance [] f1 of
               None \<Rightarrow> None
             | Some f2 \<Rightarrow> doLoop W k (Suc attempt) (Some (DialFailed e)) f2)
        | Some (Inr addr, f1) \<Rightarrow>
            (case netRpc W attempt addr of
               Inr resp \<Rightarrow> Some (Inr resp, f1)
             | Inl err \<Rightarrow>
                 if rsCode err = FailedPrecondition then
                   (case advance (leaderHint err) f1 of
                      None \<Rightarrow> None
                    | Some f2 \<Rightarrow> doLoop W k (Suc attempt) (Some (RpcError err)) f2)
                 else if rsCode err = Unavailable \<or> rsCode err = DeadlineExceeded then
                   (case advance [] f1 of
                      None \<Rightarrow> None
                    | Some f2 \<Rightarrow>
                        if netPause W attempt then Some (Inl (Some CtxError), f2)
                        else doLoop W k (Suc attempt) (Some (RpcError err)) f2)
                 else Some (Inl (Some (RpcError err)), f1)))"

definition failoverDo :: "'r network \<Rightarrow> Failover \<Rightarrow> ((failoverError option + 'r) \<times> Failover) option" where
  "failoverDo W f = doLoop W maxAttempts 0 None f"

section \<open>The six calls\<close>

text \<open>
  A connection's stub, for an attempt at an address, and the rest of the network: connections and
  the context.
\<close>

record stubs =
  stEnqueue :: "nat \<Rightarrow> string \<Rightarrow> protoTask option \<Rightarrow> rpcStatus + string"
  stDequeue :: "nat \<Rightarrow> string \<Rightarrow> rpcStatus + protoTask"
  stAck :: "nat \<Rightarrow> string \<Rightarrow> string \<Rightarrow> rpcStatus + unit"
  stNack :: "nat \<Rightarrow> string \<Rightarrow> string \<Rightarrow> rpcStatus + unit"
  stStats :: "nat \<Rightarrow> string \<Rightarrow> rpcStatus + StatsResponse"
  stListDLQ :: "nat \<Rightarrow> string \<Rightarrow> rpcStatus + protoTask list"
  stDial :: "nat \<Rightarrow> string \<Rightarrow> string option"
  stDone :: "nat \<Rightarrow> bool"
  stPause :: "nat \<Rightarrow> bool"

definition onStub :: "stubs \<Rightarrow> (nat \<Rightarrow> string \<Rightarrow> rpcStatus + 'r) \<Rightarrow> 'r network" where
  "onStub S rpc = \<lparr>netDial = stDial S, netRpc = rpc, netDone = stDone S, netPause = stPause S\<rparr>"

definition Failover_Enqueue ::
  "stubs \<Rightarrow> protoTask option \<Rightarrow> Failover \<Rightarrow> ((failoverError option + string) \<times> Failover) option" where
  "Failover_Enqueue S req f = failoverDo (onStub S (\<lambda>k addr. stEnqueue S k addr req)) f"

definition Failover_Dequeue :: "stubs \<Rightarrow> Failover \<Rightarrow> ((failoverError option + protoTask) \<times> Failover) option" where
  "Failover_Dequeue S f = failoverDo (onStub S (stDequeue S)) f"

definition Failover_Ack :: "stubs \<Rightarrow> string \<Rightarrow> Failover \<Rightarrow> ((failoverError option + unit) \<times> Failover) option" where
  "Failover_Ack S taskID f = failoverDo (onStub S (\<lambda>k addr. stAck S k addr taskID)) f"

definition Failover_Nack :: "stubs \<Rightarrow> string \<Rightarrow> Failover \<Rightarrow> ((failoverError option + unit) \<times> Failover) option" where
  "Failover_Nack S taskID f = failoverDo (onStub S (\<lambda>k addr. stNack S k addr taskID)) f"

definition Failover_Stats :: "stubs \<Rightarrow> Failover \<Rightarrow> ((failoverError option + StatsResponse) \<times> Failover) option" where
  "Failover_Stats S f = failoverDo (onStub S (stStats S)) f"

definition Failover_ListDLQ :: "stubs \<Rightarrow> Failover \<Rightarrow> ((failoverError option + protoTask list) \<times> Failover) option" where
  "Failover_ListDLQ S f = failoverDo (onStub S (stListDLQ S)) f"

end
