(* ===== verification/Worker_Loop.thy ===== *)
theory Worker_Loop
  imports Queue_Rpc
begin

text \<open>
  The consumer, \<^verbatim>\<open>src/worker/worker.go\<close>: dequeue, handle, then ack or nack, with an exponential backoff
  while there is nothing to do. Durations are 64-bit: doubling wraps. The queue service, the user's
  handler, the context and the random numbers are parameters.
\<close>

section \<open>Configuration\<close>

record workerConfig =
  wConcurrency :: int
  wMinBackoff :: duration
  wMaxBackoff :: duration

definition Worker_New :: "workerConfig \<Rightarrow> workerConfig" where
  "Worker_New cfg =
     (let c1 = (if wConcurrency cfg \<le> 0 then cfg\<lparr>wConcurrency := 1\<rparr> else cfg);
          c2 = (if wMinBackoff c1 \<le> 0 then c1\<lparr>wMinBackoff := 50 * 10 ^ 6\<rparr> else c1)
      in if wMaxBackoff c2 \<le> 0 then c2\<lparr>wMaxBackoff := 5 * 10 ^ 9\<rparr> else c2)"

section \<open>Backoff\<close>

text \<open>
  \<^verbatim>\<open>rand.Int63n(n)\<close> is some number in [0, n) and panics (\<^const>\<open>None\<close>) unless n is positive; the random
  source is the argument. Go's division of durations rounds toward zero.
\<close>

definition Int63n :: "int \<Rightarrow> int \<Rightarrow> int option" where
  "Int63n r n = (if n \<le> 0 then None else Some (r mod n))"

definition half :: "duration \<Rightarrow> duration" where
  "half d = (if d < 0 then - ((- d) div 2) else d div 2)"

definition jitter :: "int \<Rightarrow> duration \<Rightarrow> duration option" where
  "jitter r d = map_option (\<lambda>k. half d + k) (Int63n r (half d))"

definition nextBackoff :: "workerConfig \<Rightarrow> duration \<Rightarrow> duration" where
  "nextBackoff cfg backoff = min (wrap64 (backoff * 2)) (wMaxBackoff cfg)"

section \<open>The loop\<close>

text \<open>A handler returns no error, returns one, or panics; \<^verbatim>\<open>safeHandle\<close> turns a panic into an error.\<close>

datatype handled = HandledOk | HandledErr | HandledPanic

definition safeHandle :: "('t \<Rightarrow> handled) \<Rightarrow> 't \<Rightarrow> bool" where
  "safeHandle handler task =
     (case handler task of
        HandledOk \<Rightarrow> False
      | HandledErr \<Rightarrow> True
      | HandledPanic \<Rightarrow> True)"

text \<open>
  The queue service as the worker calls it: a state and the three calls. A failed ack or nack is
  logged and forgotten.
\<close>

record 'q service =
  svDequeue :: "'q \<Rightarrow> (rpcStatus + protoTask) \<times> 'q"
  svAck :: "string \<Rightarrow> 'q \<Rightarrow> (rpcStatus + unit) \<times> 'q"
  svNack :: "string \<Rightarrow> 'q \<Rightarrow> (rpcStatus + unit) \<times> 'q"

text \<open>
  What one pass meets: whether the context is over at its start and after a failed dequeue, whether
  it ends during the sleep, and the random number for the sleep.
\<close>

record pass =
  paDone :: bool
  paDoneErr :: bool
  paSleepCut :: bool
  paRand :: int

datatype loopEnd = LoopReturn | LoopPanic | LoopNext duration

definition loopPass ::
  "'q service \<Rightarrow> (protoTask \<Rightarrow> handled) \<Rightarrow> workerConfig \<Rightarrow> pass \<Rightarrow> duration \<Rightarrow> 'q \<Rightarrow> loopEnd \<times> 'q" where
  "loopPass S handler cfg P backoff q =
     (if paDone P then (LoopReturn, q)
      else
        case svDequeue S q of
          (Inl err, q1) \<Rightarrow>
            if paDoneErr P then (LoopReturn, q1)
            else
              (case jitter (paRand P) backoff of
                 None \<Rightarrow> (LoopPanic, q1)
               | Some d \<Rightarrow>
                   if paSleepCut P then (LoopReturn, q1)
                   else (LoopNext (nextBackoff cfg backoff), q1))
        | (Inr task, q1) \<Rightarrow>
            let q2 = (if safeHandle handler task then snd (svNack S (pId task) q1)
                      else snd (svAck S (pId task) q1))
            in (LoopNext (wMinBackoff cfg), q2))"

fun workerLoop ::
  "'q service \<Rightarrow> (protoTask \<Rightarrow> handled) \<Rightarrow> workerConfig \<Rightarrow> pass list \<Rightarrow> duration \<Rightarrow> 'q \<Rightarrow> loopEnd \<times> 'q" where
  "workerLoop S handler cfg [] backoff q = (LoopNext backoff, q)"
| "workerLoop S handler cfg (P # Ps) backoff q =
     (case loopPass S handler cfg P backoff q of
        (LoopNext b, q1) \<Rightarrow> workerLoop S handler cfg Ps b q1
      | r \<Rightarrow> r)"

definition Worker_run ::
  "'q service \<Rightarrow> (protoTask \<Rightarrow> handled) \<Rightarrow> workerConfig \<Rightarrow> pass list \<Rightarrow> 'q \<Rightarrow> loopEnd \<times> 'q" where
  "Worker_run S handler cfg Ps q = workerLoop S handler cfg Ps (wMinBackoff cfg) q"

end
