(* ===== verification/Raft_Node.thy ===== *)
theory Raft_Node
  imports Distqueue_Prelude
begin

text \<open>
  One Raft peer (\<^verbatim>\<open>src/raft/\<close>): its state, its disk, and the functions that run under the node's lock.
  A function that sends an RPC is split at the call: what is computed under the lock before it, and
  what is done with the reply under the lock after it.

  A result is \<open>Ok\<close>, or \<open>Panic\<close> with what is on disk at that moment: a failed write of the persistent
  state is fatal by design, and an index outside the log is a run-time panic. Either ends the
  process, and a restart begins from that disk. Clock, random number and the outcome of each
  disk write are arguments.
\<close>

section \<open>Results\<close>

record raftDisk =
  dState :: "byte list option"
  dSnap :: "byte list option"

datatype 'a res = Ok 'a | Panic raftDisk

fun bindR :: "'a res \<Rightarrow> ('a \<Rightarrow> 'b res) \<Rightarrow> 'b res" where
  "bindR (Ok x) f = f x"
| "bindR (Panic d) f = Panic d"

section \<open>Data\<close>

datatype NodeState = Follower | Candidate | Leader

fun NodeState_String :: "NodeState \<Rightarrow> string" where
  "NodeState_String Follower = ''follower''"
| "NodeState_String Candidate = ''candidate''"
| "NodeState_String Leader = ''leader''"

record raftEntry =
  eIndex :: int
  eTerm :: int
  eCommand :: "byte list option"

datatype ApplyMsg =
  ApplyCommand (amCommand: "byte list option") (amIndex: int) (amTerm: int)
| ApplySnapshot (amSnapshot: "byte list") (amIndex: int) (amTerm: int)

record raftConfig =
  cID :: string
  cPeers :: "string list"
  cDataDir :: string
  cElectionTimeoutMin :: duration
  cElectionTimeoutMax :: duration
  cHeartbeatInterval :: duration

definition applyDefaults :: "raftConfig \<Rightarrow> raftConfig" where
  "applyDefaults c =
     (let c1 = (if cElectionTimeoutMin c \<le> 0 then c\<lparr>cElectionTimeoutMin := 150 * 10 ^ 6\<rparr> else c);
          c2 = (if cElectionTimeoutMax c1 \<le> cElectionTimeoutMin c1
                then c1\<lparr>cElectionTimeoutMax := 2 * cElectionTimeoutMin c1\<rparr> else c1)
      in if cHeartbeatInterval c2 \<le> 0 then c2\<lparr>cHeartbeatInterval := 50 * 10 ^ 6\<rparr> else c2)"

record Node =
  nCfg :: raftConfig
  nState :: NodeState
  nTerm :: int
  nVotedFor :: string
  nLog :: "raftEntry list"
  nCommitIndex :: int
  nLastApplied :: int
  nNextIndex :: "(string \<times> int) list"
  nMatchIndex :: "(string \<times> int) list"
  nLeaderID :: string
  nLastReset :: time
  nTimeout :: duration
  nSnapshot :: "byte list option"
  nPending :: "ApplyMsg option"
  nStopped :: bool
  nElections :: int
  nDisk :: raftDisk

text \<open>A missing key of a Go map of integers reads as 0.\<close>

definition intAt :: "(string \<times> int) list \<Rightarrow> string \<Rightarrow> int" where
  "intAt m k = (case map_of m k of None \<Rightarrow> 0 | Some i \<Rightarrow> i)"

section \<open>Log index helpers\<close>

definition firstIndex :: "Node \<Rightarrow> int" where
  "firstIndex n = eIndex (hd (nLog n))"

definition lastIndex :: "Node \<Rightarrow> int" where
  "lastIndex n = eIndex (last (nLog n))"

definition lastTerm :: "Node \<Rightarrow> int" where
  "lastTerm n = eTerm (last (nLog n))"

definition entryAt :: "Node \<Rightarrow> int \<Rightarrow> raftEntry res" where
  "entryAt n i =
     (let k = i - firstIndex n in
      if 0 \<le> k \<and> k < int (length (nLog n)) then Ok (nLog n ! nat k) else Panic (nDisk n))"

definition termAt :: "Node \<Rightarrow> int \<Rightarrow> int res" where
  "termAt n i = bindR (entryAt n i) (\<lambda>e. Ok (eTerm e))"

definition sliceFrom :: "Node \<Rightarrow> int \<Rightarrow> raftEntry list res" where
  "sliceFrom n i =
     (let k = i - firstIndex n in
      if 0 \<le> k \<and> k \<le> int (length (nLog n)) then Ok (drop (nat k) (nLog n)) else Panic (nDisk n))"

definition truncateFrom :: "Node \<Rightarrow> int \<Rightarrow> Node res" where
  "truncateFrom n i =
     (let k = i - firstIndex n in
      if 0 \<le> k \<and> k \<le> int (length (nLog n)) then Ok (n\<lparr>nLog := take (nat k) (nLog n)\<rparr>) else Panic (nDisk n))"

definition majority :: "Node \<Rightarrow> int" where
  "majority n = (int (length (cPeers (nCfg n))) + 1) div 2 + 1"

section \<open>Persistence\<close>

record persistentState =
  psTerm :: int
  psVotedFor :: string
  psLog :: "raftEntry list"

text \<open>The gob encoding of the persistent state, a parameter, with the round trip the node relies on.\<close>

record psCodec =
  ps_encode :: "persistentState \<Rightarrow> byte list option"
  ps_decode :: "byte list \<Rightarrow> persistentState option"

definition ps_roundtrip :: "psCodec \<Rightarrow> bool" where
  "ps_roundtrip C \<longleftrightarrow> (\<forall>ps bs. ps_encode C ps = Some bs \<longrightarrow> ps_decode C bs = Some ps)"

text \<open>
  Temp file, write, fsync, close, rename: whichever fails, the error is returned and the file is
  what it was. The outcome of the directory's fsync is not looked at.
\<close>

datatype writeResult = WOpen | WWrite | WSync | WClose | WRename | WDone

definition atomicWrite :: "writeResult \<Rightarrow> byte list \<Rightarrow> byte list option \<Rightarrow> bool \<times> byte list option" where
  "atomicWrite r data old =
     (case r of
        WOpen \<Rightarrow> (True, old)
      | WWrite \<Rightarrow> (True, old)
      | WSync \<Rightarrow> (True, old)
      | WClose \<Rightarrow> (True, old)
      | WRename \<Rightarrow> (True, old)
      | WDone \<Rightarrow> (False, Some data))"

definition persistentOf :: "Node \<Rightarrow> persistentState" where
  "persistentOf n = \<lparr>psTerm = nTerm n, psVotedFor = nVotedFor n, psLog = nLog n\<rparr>"

definition persistLocked :: "psCodec \<Rightarrow> writeResult \<Rightarrow> Node \<Rightarrow> Node res" where
  "persistLocked C r n =
     (if cDataDir (nCfg n) = [] then Ok n
      else
        case ps_encode C (persistentOf n) of
          None \<Rightarrow> Panic (nDisk n)
        | Some bs \<Rightarrow>
            (case atomicWrite r bs (dState (nDisk n)) of
               (True, f) \<Rightarrow> Panic ((nDisk n)\<lparr>dState := f\<rparr>)
             | (False, f) \<Rightarrow> Ok (n\<lparr>nDisk := (nDisk n)\<lparr>dState := f\<rparr>\<rparr>)))"

definition persistWithSnapshotLocked ::
  "psCodec \<Rightarrow> writeResult \<Rightarrow> writeResult \<Rightarrow> byte list \<Rightarrow> Node \<Rightarrow> Node res" where
  "persistWithSnapshotLocked C r1 r2 snapshot n =
     (if cDataDir (nCfg n) = [] then Ok n
      else
        case atomicWrite r1 snapshot (dSnap (nDisk n)) of
          (True, f) \<Rightarrow> Panic ((nDisk n)\<lparr>dSnap := f\<rparr>)
        | (False, f) \<Rightarrow> persistLocked C r2 (n\<lparr>nDisk := (nDisk n)\<lparr>dSnap := f\<rparr>\<rparr>))"

text \<open>
  What a start finds: whether the directory can be made and whether the files that exist can be
  read. \<^const>\<open>None\<close> is an error from \<^verbatim>\<open>readPersist\<close>.
\<close>

record readEnv =
  rdMkdir :: bool
  rdState :: bool
  rdSnap :: bool

definition readPersist :: "psCodec \<Rightarrow> readEnv \<Rightarrow> Node \<Rightarrow> Node res option" where
  "readPersist C R n =
     (if cDataDir (nCfg n) = [] then Some (Ok n)
      else if \<not> rdMkdir R then None
      else
        case dState (nDisk n) of
          None \<Rightarrow> Some (Ok n)
        | Some data \<Rightarrow>
            if \<not> rdState R then None
            else
              case ps_decode C data of
                None \<Rightarrow> None
              | Some ps \<Rightarrow>
                  let n1 = n\<lparr>nTerm := psTerm ps, nVotedFor := psVotedFor ps, nLog := psLog ps\<rparr> in
                  case dSnap (nDisk n) of
                    None \<Rightarrow> Some (Ok n1)
                  | Some snap \<Rightarrow>
                      if \<not> rdSnap R then None
                      else if snap = [] then Some (Ok n1)
                      else if nLog n1 = [] then Some (Panic (nDisk n))
                      else Some (Ok (n1\<lparr>nSnapshot := Some snap,
                        nPending := Some (ApplySnapshot snap (eIndex (hd (nLog n1))) (eTerm (hd (nLog n1))))\<rparr>)))"

section \<open>State transitions\<close>

text \<open>The environment of one call: clock, random number, outcomes of the writes in their order.\<close>

record renv =
  reNow :: time
  reRand :: int
  reWrite1 :: writeResult
  reWrite2 :: writeResult
  reWrite3 :: writeResult

definition becomeFollowerLocked :: "int \<Rightarrow> Node \<Rightarrow> Node" where
  "becomeFollowerLocked t n =
     (let n1 = n\<lparr>nState := Follower\<rparr> in
      if t > nTerm n1 then n1\<lparr>nTerm := t, nVotedFor := []\<rparr> else n1)"

definition resetElectionTimerLocked :: "renv \<Rightarrow> Node \<Rightarrow> Node" where
  "resetElectionTimerLocked E n =
     (let span = cElectionTimeoutMax (nCfg n) - cElectionTimeoutMin (nCfg n) in
      n\<lparr>nLastReset := reNow E, nTimeout := cElectionTimeoutMin (nCfg n) + reRand E mod span\<rparr>)"

definition NewNode :: "psCodec \<Rightarrow> readEnv \<Rightarrow> renv \<Rightarrow> raftConfig \<Rightarrow> raftDisk \<Rightarrow> Node res option" where
  "NewNode C R E cfg0 disk =
     (let cfg = applyDefaults cfg0;
          n = \<lparr>nCfg = cfg, nState = Follower, nTerm = 0, nVotedFor = [],
               nLog = [\<lparr>eIndex = 0, eTerm = 0, eCommand = None\<rparr>], nCommitIndex = 0, nLastApplied = 0,
               nNextIndex = [], nMatchIndex = [], nLeaderID = [], nLastReset = 0, nTimeout = 0,
               nSnapshot = None, nPending = None, nStopped = False, nElections = 0, nDisk = disk\<rparr>
      in
        case readPersist C R n of
          None \<Rightarrow> None
        | Some r \<Rightarrow> Some (bindR r (\<lambda>n1.
            if nLog n1 = [] then Panic disk
            else Ok (resetElectionTimerLocked E (n1\<lparr>nCommitIndex := firstIndex n1, nLastApplied := firstIndex n1\<rparr>)))))"

definition Node_Stop :: "Node \<Rightarrow> Node" where
  "Node_Stop n = n\<lparr>nStopped := True\<rparr>"

definition Propose :: "psCodec \<Rightarrow> renv \<Rightarrow> byte list \<Rightarrow> Node \<Rightarrow> ((int \<times> int \<times> bool) \<times> Node) res" where
  "Propose C E command n =
     (if nState n \<noteq> Leader then Ok ((0, nTerm n, False), n)
      else
        let index = lastIndex n + 1;
            t = nTerm n;
            n1 = n\<lparr>nLog := nLog n @ [\<lparr>eIndex = index, eTerm = t, eCommand = Some command\<rparr>]\<rparr>
        in bindR (persistLocked C (reWrite1 E) n1) (\<lambda>n2.
             Ok ((index, t, True), n2\<lparr>nMatchIndex := AList.update (cID (nCfg n2)) index (nMatchIndex n2)\<rparr>)))"

definition Node_State :: "Node \<Rightarrow> int \<times> bool" where
  "Node_State n = (nTerm n, nState n = Leader)"

definition LeaderHint :: "Node \<Rightarrow> string" where
  "LeaderHint n = (if nState n = Leader then cID (nCfg n) else nLeaderID n)"

record raftMetrics =
  mTerm :: int
  mState :: NodeState
  mLogLength :: int
  mCommitIndex :: int
  mLastApplied :: int
  mSnapshotIndex :: int
  mElectionsStarted :: int

definition Node_Metrics :: "Node \<Rightarrow> raftMetrics" where
  "Node_Metrics n =
     \<lparr>mTerm = nTerm n, mState = nState n, mLogLength = int (length (nLog n)) - 1,
      mCommitIndex = nCommitIndex n, mLastApplied = nLastApplied n, mSnapshotIndex = firstIndex n,
      mElectionsStarted = nElections n\<rparr>"


section \<open>Elections\<close>

record RequestVoteArgs =
  rvTerm :: int
  rvCandidateID :: string
  rvLastLogIndex :: int
  rvLastLogTerm :: int

record RequestVoteReply =
  rvrTerm :: int
  rvrVoteGranted :: bool

text \<open>The request goes to every peer; the goroutines that wait for the replies share a vote count that starts at 1.\<close>

definition startElectionLocked :: "psCodec \<Rightarrow> renv \<Rightarrow> Node \<Rightarrow> (RequestVoteArgs \<times> Node) res" where
  "startElectionLocked C E n =
     (let n1 = n\<lparr>nState := Candidate, nTerm := nTerm n + 1, nVotedFor := cID (nCfg n)\<rparr> in
      bindR (persistLocked C (reWrite1 E) n1) (\<lambda>n2.
        let n3 = resetElectionTimerLocked E n2;
            n4 = n3\<lparr>nElections := nElections n3 + 1\<rparr>
        in Ok (\<lparr>rvTerm = nTerm n4, rvCandidateID = cID (nCfg n4), rvLastLogIndex = lastIndex n4,
                rvLastLogTerm = lastTerm n4\<rparr>, n4)))"

text \<open>One tick of the election loop.\<close>

definition electionLoop :: "psCodec \<Rightarrow> renv \<Rightarrow> Node \<Rightarrow> (RequestVoteArgs option \<times> Node) res" where
  "electionLoop C E n =
     (if nStopped n then Ok (None, n)
      else if nState n \<noteq> Leader \<and> reNow E - nLastReset n \<ge> nTimeout n
      then bindR (startElectionLocked C E n) (\<lambda>(args, n1). Ok (Some args, n1))
      else Ok (None, n))"

fun initPeers :: "int \<Rightarrow> string list \<Rightarrow> Node \<Rightarrow> Node" where
  "initPeers next [] n = n"
| "initPeers next (p # ps) n =
     initPeers next ps (n\<lparr>nNextIndex := AList.update p next (nNextIndex n),
       nMatchIndex := AList.update p 0 (nMatchIndex n)\<rparr>)"

definition becomeLeaderLocked :: "psCodec \<Rightarrow> writeResult \<Rightarrow> Node \<Rightarrow> Node res" where
  "becomeLeaderLocked C r n =
     (let n1 = n\<lparr>nState := Leader, nLeaderID := cID (nCfg n)\<rparr>;
          n2 = initPeers (lastIndex n1 + 1) (cPeers (nCfg n1)) n1;
          n3 = n2\<lparr>nLog := nLog n2 @ [\<lparr>eIndex = lastIndex n2 + 1, eTerm = nTerm n2, eCommand = None\<rparr>]\<rparr>
      in bindR (persistLocked C r n3) (\<lambda>n4.
           Ok (n4\<lparr>nMatchIndex := AList.update (cID (nCfg n4)) (lastIndex n4) (nMatchIndex n4)\<rparr>)))"

text \<open>A peer's reply to the vote request of term \<open>term\<close>, with the shared count so far.\<close>

definition handleVoteReply ::
  "psCodec \<Rightarrow> renv \<Rightarrow> int \<Rightarrow> int \<Rightarrow> RequestVoteReply \<Rightarrow> Node \<Rightarrow> (int \<times> Node) res" where
  "handleVoteReply C E electionTerm votes reply n =
     (if rvrTerm reply > nTerm n
      then bindR (persistLocked C (reWrite1 E) (becomeFollowerLocked (rvrTerm reply) n)) (\<lambda>n1. Ok (votes, n1))
      else if nState n \<noteq> Candidate \<or> nTerm n \<noteq> electionTerm then Ok (votes, n)
      else if rvrVoteGranted reply then
        (if votes + 1 \<ge> majority n
         then bindR (becomeLeaderLocked C (reWrite1 E) n) (\<lambda>n1. Ok (votes + 1, n1))
         else Ok (votes + 1, n))
      else Ok (votes, n))"

definition HandleRequestVote :: "psCodec \<Rightarrow> renv \<Rightarrow> RequestVoteArgs \<Rightarrow> Node \<Rightarrow> (RequestVoteReply \<times> Node) res" where
  "HandleRequestVote C E args n =
     bindR (if rvTerm args > nTerm n
            then persistLocked C (reWrite1 E) (becomeFollowerLocked (rvTerm args) n) else Ok n) (\<lambda>n1.
       let reply = \<lparr>rvrTerm = nTerm n1, rvrVoteGranted = False\<rparr> in
       if rvTerm args < nTerm n1 then Ok (reply, n1)
       else
         let upToDate = (rvLastLogTerm args > lastTerm n1 \<or>
               (rvLastLogTerm args = lastTerm n1 \<and> rvLastLogIndex args \<ge> lastIndex n1))
         in
           if (nVotedFor n1 = [] \<or> nVotedFor n1 = rvCandidateID args) \<and> upToDate
           then bindR (persistLocked C (reWrite2 E) (n1\<lparr>nVotedFor := rvCandidateID args\<rparr>)) (\<lambda>n2.
                  Ok (reply\<lparr>rvrVoteGranted := True\<rparr>, resetElectionTimerLocked E n2))
           else Ok (reply, n1))"

section \<open>Replication\<close>

record AppendEntriesArgs =
  aeTerm :: int
  aeLeaderID :: string
  aePrevLogIndex :: int
  aePrevLogTerm :: int
  aeEntries :: "raftEntry list"
  aeLeaderCommit :: int

record AppendEntriesReply =
  aerTerm :: int
  aerSuccess :: bool
  aerConflictTerm :: int
  aerConflictIndex :: int

text \<open>When the replicator of a peer sends.\<close>

definition replicatorReady :: "string \<Rightarrow> Node \<Rightarrow> bool" where
  "replicatorReady peer n \<longleftrightarrow> nState n = Leader \<and> lastIndex n \<ge> intAt (nNextIndex n) peer"

text \<open>The peers that a tick of the heartbeat loop sends to.\<close>

definition heartbeatLoop :: "Node \<Rightarrow> string list" where
  "heartbeatLoop n = (if nStopped n then [] else if nState n = Leader then cPeers (nCfg n) else [])"

text \<open>What \<^verbatim>\<open>sendAppendEntries\<close> does before the call.\<close>

datatype sendAction = NotLeader | SendSnapshot | SendAppend AppendEntriesArgs

definition sendAppendEntries :: "string \<Rightarrow> Node \<Rightarrow> sendAction res" where
  "sendAppendEntries peer n =
     (if nState n \<noteq> Leader then Ok NotLeader
      else
        let next = intAt (nNextIndex n) peer in
        if next \<le> firstIndex n then Ok SendSnapshot
        else bindR (termAt n (next - 1)) (\<lambda>t. bindR (sliceFrom n next) (\<lambda>es.
          Ok (SendAppend \<lparr>aeTerm = nTerm n, aeLeaderID = cID (nCfg n), aePrevLogIndex = next - 1,
            aePrevLogTerm = t, aeEntries = es, aeLeaderCommit = nCommitIndex n\<rparr>))))"

text \<open>The search for the last entry of a term, downwards from \<open>firstIndex + k\<close>; 0 if there is none.\<close>

fun lastOfTerm :: "Node \<Rightarrow> int \<Rightarrow> nat \<Rightarrow> int res" where
  "lastOfTerm n t 0 = Ok 0"
| "lastOfTerm n t (Suc k) =
     bindR (termAt n (firstIndex n + int (Suc k))) (\<lambda>u.
       if u = t then Ok (firstIndex n + int (Suc k))
       else if u < t then Ok 0
       else lastOfTerm n t k)"

text \<open>The search for a committed index, downwards from \<open>firstIndex + k\<close>.\<close>

definition matchCount :: "int \<Rightarrow> Node \<Rightarrow> int" where
  "matchCount idx n = int (length (filter (\<lambda>e. snd e \<ge> idx) (nMatchIndex n)))"

fun advanceLoop :: "nat \<Rightarrow> Node \<Rightarrow> Node res" where
  "advanceLoop 0 n = Ok n"
| "advanceLoop (Suc k) n =
     (let idx = firstIndex n + int (Suc k) in
      if idx \<le> nCommitIndex n then Ok n
      else bindR (termAt n idx) (\<lambda>t.
        if t \<noteq> nTerm n then Ok n
        else if matchCount idx n \<ge> majority n then Ok (n\<lparr>nCommitIndex := idx\<rparr>)
        else advanceLoop k n))"

definition advanceCommitLocked :: "Node \<Rightarrow> Node res" where
  "advanceCommitLocked n = advanceLoop (nat (lastIndex n - firstIndex n)) n"

text \<open>After the call; the flag is what \<^verbatim>\<open>sendAppendEntries\<close> returns.\<close>

definition conflictNext :: "AppendEntriesReply \<Rightarrow> Node \<Rightarrow> int res" where
  "conflictNext reply n =
     bindR (if aerConflictTerm reply > 0
            then bindR (lastOfTerm n (aerConflictTerm reply) (nat (lastIndex n - firstIndex n))) (\<lambda>l.
                   Ok (if l > 0 then l + 1 else aerConflictIndex reply))
            else Ok (aerConflictIndex reply)) (\<lambda>i.
       let i1 = (if i \<le> firstIndex n then firstIndex n else i) in
       Ok (if i1 < 1 then 1 else i1))"

definition handleAppendReply ::
  "psCodec \<Rightarrow> renv \<Rightarrow> string \<Rightarrow> AppendEntriesArgs \<Rightarrow> AppendEntriesReply \<Rightarrow> Node \<Rightarrow> (bool \<times> Node) res" where
  "handleAppendReply C E peer args reply n =
     (if aerTerm reply > nTerm n
      then bindR (persistLocked C (reWrite1 E) (becomeFollowerLocked (aerTerm reply) n)) (\<lambda>n1.
             Ok (True, resetElectionTimerLocked E n1))
      else if nState n \<noteq> Leader \<or> nTerm n \<noteq> aeTerm args then Ok (True, n)
      else if aerSuccess reply then
        let newMatch = aePrevLogIndex args + int (length (aeEntries args));
            n1 = (if newMatch > intAt (nMatchIndex n) peer
                  then n\<lparr>nMatchIndex := AList.update peer newMatch (nMatchIndex n)\<rparr> else n);
            n2 = n1\<lparr>nNextIndex := AList.update peer (intAt (nMatchIndex n1) peer + 1) (nNextIndex n1)\<rparr>
        in bindR (advanceCommitLocked n2) (\<lambda>n3. Ok (True, n3))
      else
        bindR (conflictNext reply n) (\<lambda>i. Ok (True, n\<lparr>nNextIndex := AList.update peer i (nNextIndex n)\<rparr>)))"

text \<open>The first index of the run of term \<open>t\<close> that ends at \<open>firstIndex + k\<close>, above the sentinel.\<close>

fun conflictStart :: "Node \<Rightarrow> int \<Rightarrow> nat \<Rightarrow> int res" where
  "conflictStart n t 0 = Ok (firstIndex n)"
| "conflictStart n t (Suc k) =
     (let i = firstIndex n + int (Suc k) in
      if i > firstIndex n + 1
      then bindR (termAt n (i - 1)) (\<lambda>u. if u = t then conflictStart n t k else Ok i)
      else Ok i)"

text \<open>Entries that are held are skipped; from the first one that is not, the leader's entries replace the tail.\<close>

fun appendLoop :: "raftEntry list \<Rightarrow> Node \<Rightarrow> (bool \<times> Node) res" where
  "appendLoop [] n = Ok (False, n)"
| "appendLoop (e # es) n =
     (if eIndex e \<le> lastIndex n
      then bindR (termAt n (eIndex e)) (\<lambda>t.
             if t = eTerm e then appendLoop es n
             else bindR (truncateFrom n (eIndex e)) (\<lambda>n1. Ok (True, n1\<lparr>nLog := nLog n1 @ e # es\<rparr>)))
      else Ok (True, n\<lparr>nLog := nLog n @ e # es\<rparr>))"

definition followerCommit :: "int \<Rightarrow> int \<Rightarrow> Node \<Rightarrow> Node" where
  "followerCommit leaderCommit lastNew n =
     (if leaderCommit > nCommitIndex n then n\<lparr>nCommitIndex := min leaderCommit lastNew\<rparr> else n)"

text \<open>The consistency check and the append, with the window already shifted to the snapshot boundary.\<close>

definition appendChecked ::
  "psCodec \<Rightarrow> renv \<Rightarrow> AppendEntriesArgs \<Rightarrow> AppendEntriesReply \<Rightarrow> Node \<Rightarrow> (AppendEntriesReply \<times> Node) res" where
  "appendChecked C E args reply n =
     (if aePrevLogIndex args > lastIndex n
      then Ok (reply\<lparr>aerConflictTerm := 0, aerConflictIndex := lastIndex n + 1\<rparr>, n)
      else bindR (termAt n (aePrevLogIndex args)) (\<lambda>t.
        if t \<noteq> aePrevLogTerm args
        then bindR (conflictStart n t (nat (aePrevLogIndex args - firstIndex n))) (\<lambda>i.
               Ok (reply\<lparr>aerConflictTerm := t, aerConflictIndex := i\<rparr>, n))
        else bindR (appendLoop (aeEntries args) n) (\<lambda>(changed, n1).
          bindR (if changed then persistLocked C (reWrite2 E) n1 else Ok n1) (\<lambda>n2.
            Ok (reply\<lparr>aerSuccess := True\<rparr>,
                followerCommit (aeLeaderCommit args) (aePrevLogIndex args + int (length (aeEntries args))) n2)))))"

definition stepDown :: "psCodec \<Rightarrow> renv \<Rightarrow> int \<Rightarrow> string \<Rightarrow> Node \<Rightarrow> Node res" where
  "stepDown C E t leader n =
     bindR (if t > nTerm n \<or> nState n \<noteq> Follower
            then persistLocked C (reWrite1 E) (becomeFollowerLocked t n) else Ok n) (\<lambda>n1.
       Ok (resetElectionTimerLocked E (n1\<lparr>nLeaderID := leader\<rparr>)))"

definition HandleAppendEntries ::
  "psCodec \<Rightarrow> renv \<Rightarrow> AppendEntriesArgs \<Rightarrow> Node \<Rightarrow> (AppendEntriesReply \<times> Node) res" where
  "HandleAppendEntries C E args n =
     (let reply = \<lparr>aerTerm = nTerm n, aerSuccess = False, aerConflictTerm = 0, aerConflictIndex = 0\<rparr> in
      if aeTerm args < nTerm n then Ok (reply, n)
      else bindR (stepDown C E (aeTerm args) (aeLeaderID args) n) (\<lambda>n1.
        let reply1 = reply\<lparr>aerTerm := nTerm n1\<rparr> in
        if aePrevLogIndex args < firstIndex n1 then
          let cut = firstIndex n1 - aePrevLogIndex args in
          if cut > int (length (aeEntries args)) then Ok (reply1\<lparr>aerSuccess := True\<rparr>, n1)
          else appendChecked C E (args\<lparr>aeEntries := drop (nat cut) (aeEntries args),
                 aePrevLogIndex := firstIndex n1, aePrevLogTerm := eTerm (hd (nLog n1))\<rparr>) reply1 n1
        else appendChecked C E args reply1 n1))"


section \<open>Snapshots\<close>

record InstallSnapshotArgs =
  isTerm :: int
  isLeaderID :: string
  isLastIncludedIndex :: int
  isLastIncludedTerm :: int
  isData :: "byte list"

record InstallSnapshotReply =
  isrTerm :: int

definition sentinel :: "int \<Rightarrow> int \<Rightarrow> raftEntry" where
  "sentinel i t = \<lparr>eIndex = i, eTerm = t, eCommand = None\<rparr>"

definition Node_Snapshot :: "psCodec \<Rightarrow> renv \<Rightarrow> int \<Rightarrow> byte list \<Rightarrow> Node \<Rightarrow> Node res" where
  "Node_Snapshot C E index snapshot n =
     (if index \<le> firstIndex n \<or> index > nLastApplied n then Ok n
      else bindR (termAt n index) (\<lambda>boundaryTerm. bindR (sliceFrom n (index + 1)) (\<lambda>tail.
        persistWithSnapshotLocked C (reWrite1 E) (reWrite2 E) snapshot
          (n\<lparr>nLog := sentinel index boundaryTerm # tail, nSnapshot := Some snapshot\<rparr>))))"

text \<open>Before the call: nothing is sent by a node that is not leader or has no snapshot.\<close>

definition sendInstallSnapshot :: "Node \<Rightarrow> InstallSnapshotArgs option" where
  "sendInstallSnapshot n =
     (if nState n \<noteq> Leader then None
      else
        case nSnapshot n of
          None \<Rightarrow> None
        | Some data \<Rightarrow> Some \<lparr>isTerm = nTerm n, isLeaderID = cID (nCfg n), isLastIncludedIndex = firstIndex n,
            isLastIncludedTerm = eTerm (hd (nLog n)), isData = data\<rparr>)"

definition handleSnapshotReply ::
  "psCodec \<Rightarrow> renv \<Rightarrow> string \<Rightarrow> InstallSnapshotArgs \<Rightarrow> InstallSnapshotReply \<Rightarrow> Node \<Rightarrow> (bool \<times> Node) res" where
  "handleSnapshotReply C E peer args reply n =
     (if isrTerm reply > nTerm n
      then bindR (persistLocked C (reWrite1 E) (becomeFollowerLocked (isrTerm reply) n)) (\<lambda>n1.
             Ok (True, resetElectionTimerLocked E n1))
      else if nState n \<noteq> Leader \<or> nTerm n \<noteq> isTerm args then Ok (True, n)
      else
        let n1 = (if isLastIncludedIndex args > intAt (nMatchIndex n) peer
                  then n\<lparr>nMatchIndex := AList.update peer (isLastIncludedIndex args) (nMatchIndex n)\<rparr> else n)
        in Ok (True, n1\<lparr>nNextIndex := AList.update peer (intAt (nMatchIndex n1) peer + 1) (nNextIndex n1)\<rparr>))"

definition HandleInstallSnapshot ::
  "psCodec \<Rightarrow> renv \<Rightarrow> InstallSnapshotArgs \<Rightarrow> Node \<Rightarrow> (InstallSnapshotReply \<times> Node) res" where
  "HandleInstallSnapshot C E args n =
     (if isTerm args < nTerm n then Ok (\<lparr>isrTerm = nTerm n\<rparr>, n)
      else bindR (stepDown C E (isTerm args) (isLeaderID args) n) (\<lambda>n1.
        let reply = \<lparr>isrTerm = nTerm n1\<rparr> in
        if isLastIncludedIndex args \<le> nCommitIndex n1 then Ok (reply, n1)
        else
          bindR (if isLastIncludedIndex args \<le> lastIndex n1
                 then bindR (termAt n1 (isLastIncludedIndex args)) (\<lambda>t.
                        if t = isLastIncludedTerm args then sliceFrom n1 (isLastIncludedIndex args + 1) else Ok [])
                 else Ok []) (\<lambda>tail.
          bindR (persistWithSnapshotLocked C (reWrite2 E) (reWrite3 E) (isData args)
                   (n1\<lparr>nLog := sentinel (isLastIncludedIndex args) (isLastIncludedTerm args) # tail,
                       nSnapshot := Some (isData args)\<rparr>)) (\<lambda>n2.
            Ok (reply, n2\<lparr>nCommitIndex := isLastIncludedIndex args,
              nPending := Some (ApplySnapshot (isData args) (isLastIncludedIndex args) (isLastIncludedTerm args))\<rparr>)))))"

section \<open>Delivery to the state machine\<close>

text \<open>One round of the applier up to its sends: it waits, stops, or has messages to send.\<close>

datatype applierAction = ApplierWait | ApplierStop | ApplierSend "ApplyMsg list"

fun entriesFrom :: "Node \<Rightarrow> int \<Rightarrow> nat \<Rightarrow> raftEntry list res" where
  "entriesFrom n i 0 = Ok []"
| "entriesFrom n i (Suc k) =
     bindR (entryAt n i) (\<lambda>e. bindR (entriesFrom n (i + 1) k) (\<lambda>es. Ok (e # es)))"

definition applyMsgOf :: "raftEntry \<Rightarrow> ApplyMsg" where
  "applyMsgOf e = ApplyCommand (eCommand e) (eIndex e) (eTerm e)"

definition applier :: "Node \<Rightarrow> (applierAction \<times> Node) res" where
  "applier n =
     (if nPending n = None \<and> nLastApplied n \<ge> nCommitIndex n
      then Ok (if nStopped n then ApplierStop else ApplierWait, n)
      else if nStopped n then Ok (ApplierStop, n)
      else
        case nPending n of
          Some snap \<Rightarrow>
            let n1 = n\<lparr>nPending := None\<rparr> in
            Ok (ApplierSend [snap], if amIndex snap > nLastApplied n1 then n1\<lparr>nLastApplied := amIndex snap\<rparr> else n1)
        | None \<Rightarrow>
            let from = (if nLastApplied n + 1 \<le> firstIndex n then firstIndex n + 1 else nLastApplied n + 1);
                to = nCommitIndex n
            in
              if to - from + 1 < 0 then Panic (nDisk n)
              else bindR (entriesFrom n from (nat (to - from + 1))) (\<lambda>batch.
                     Ok (ApplierSend (map applyMsgOf batch), n)))"

text \<open>After each command is sent.\<close>

definition applierSent :: "int \<Rightarrow> Node \<Rightarrow> Node" where
  "applierSent index n = (if index > nLastApplied n then n\<lparr>nLastApplied := index\<rparr> else n)"

end
