(* ===== verification/Raft_Rpc.thy ===== *)
theory Raft_Rpc
  imports Raft_Node
begin

text \<open>
  Raft's messages over gRPC, \<^verbatim>\<open>src/raft/grpc.go\<close>: the protobuf messages with their 64-bit fields, the
  calling side (\<^verbatim>\<open>GRPCTransport\<close>), which converts the arguments, calls and converts the reply, and the
  called side (\<^verbatim>\<open>GRPCServer\<close>), which runs the node's handler.

  What gRPC does between the two sides is a parameter: the reply, an error, or no reply.
\<close>

section \<open>Messages\<close>

record pbEntry =
  pbIndex :: "64 word"
  pbTerm :: "64 word"
  pbCommand :: "byte list option"

record pbVoteRequest =
  pvTerm :: "64 word"
  pvCandidateId :: string
  pvLastLogIndex :: "64 word"
  pvLastLogTerm :: "64 word"

record pbVoteResponse =
  pvrTerm :: "64 word"
  pvrVoteGranted :: bool

record pbAppendRequest =
  paTerm :: "64 word"
  paLeaderId :: string
  paPrevLogIndex :: "64 word"
  paPrevLogTerm :: "64 word"
  paEntries :: "pbEntry list"
  paLeaderCommit :: "64 word"

record pbAppendResponse =
  parTerm :: "64 word"
  parSuccess :: bool
  parConflictTerm :: "64 word"
  parConflictIndex :: "64 word"

record pbInstallRequest =
  piTerm :: "64 word"
  piLeaderId :: string
  piLastIncludedIndex :: "64 word"
  piLastIncludedTerm :: "64 word"
  piData :: "byte list"

record pbInstallResponse =
  pirTerm :: "64 word"

section \<open>Connections\<close>

text \<open>A client stub is known by the address it was dialled with. The flag is whether \<^verbatim>\<open>grpc.NewClient\<close> works.\<close>

datatype transportError = UnknownPeer string | DialError | CallError

record GRPCTransport =
  gtAddrs :: "(string \<times> string) list"
  gtConns :: "(string \<times> string) list"

definition NewGRPCTransport :: "(string \<times> string) list \<Rightarrow> GRPCTransport" where
  "NewGRPCTransport peerAddrs = \<lparr>gtAddrs = peerAddrs, gtConns = []\<rparr>"

definition transport_client ::
  "bool \<Rightarrow> string \<Rightarrow> GRPCTransport \<Rightarrow> (transportError + string) \<times> GRPCTransport" where
  "transport_client dialed peer t =
     (case map_of (gtConns t) peer of
        Some c \<Rightarrow> (Inr c, t)
      | None \<Rightarrow>
          (case map_of (gtAddrs t) peer of
             None \<Rightarrow> (Inl (UnknownPeer peer), t)
           | Some addr \<Rightarrow>
               if \<not> dialed then (Inl DialError, t)
               else (Inr addr, t\<lparr>gtConns := AList.update peer addr (gtConns t)\<rparr>)))"

section \<open>The calling side\<close>

text \<open>\<open>call\<close> is the remote call on a stub: \<^const>\<open>None\<close> is an error.\<close>

definition voteRequest :: "RequestVoteArgs \<Rightarrow> pbVoteRequest" where
  "voteRequest args =
     \<lparr>pvTerm = word_of_int (rvTerm args), pvCandidateId = rvCandidateID args,
      pvLastLogIndex = word_of_int (rvLastLogIndex args), pvLastLogTerm = word_of_int (rvLastLogTerm args)\<rparr>"

definition Transport_RequestVote ::
  "(string \<Rightarrow> pbVoteRequest \<Rightarrow> pbVoteResponse option) \<Rightarrow> bool \<Rightarrow> string \<Rightarrow> RequestVoteArgs \<Rightarrow> GRPCTransport
     \<Rightarrow> (transportError + RequestVoteReply) \<times> GRPCTransport" where
  "Transport_RequestVote call dialed peer args t =
     (case transport_client dialed peer t of
        (Inl e, t') \<Rightarrow> (Inl e, t')
      | (Inr c, t') \<Rightarrow>
          (case call c (voteRequest args) of
             None \<Rightarrow> (Inl CallError, t')
           | Some resp \<Rightarrow> (Inr \<lparr>rvrTerm = sint (pvrTerm resp), rvrVoteGranted = pvrVoteGranted resp\<rparr>, t')))"

definition appendRequest :: "AppendEntriesArgs \<Rightarrow> pbAppendRequest" where
  "appendRequest args =
     \<lparr>paTerm = word_of_int (aeTerm args), paLeaderId = aeLeaderID args,
      paPrevLogIndex = word_of_int (aePrevLogIndex args), paPrevLogTerm = word_of_int (aePrevLogTerm args),
      paEntries = map (\<lambda>e. \<lparr>pbIndex = word_of_int (eIndex e), pbTerm = word_of_int (eTerm e),
                            pbCommand = eCommand e\<rparr>) (aeEntries args),
      paLeaderCommit = word_of_int (aeLeaderCommit args)\<rparr>"

definition Transport_AppendEntries ::
  "(string \<Rightarrow> pbAppendRequest \<Rightarrow> pbAppendResponse option) \<Rightarrow> bool \<Rightarrow> string \<Rightarrow> AppendEntriesArgs \<Rightarrow> GRPCTransport
     \<Rightarrow> (transportError + AppendEntriesReply) \<times> GRPCTransport" where
  "Transport_AppendEntries call dialed peer args t =
     (case transport_client dialed peer t of
        (Inl e, t') \<Rightarrow> (Inl e, t')
      | (Inr c, t') \<Rightarrow>
          (case call c (appendRequest args) of
             None \<Rightarrow> (Inl CallError, t')
           | Some resp \<Rightarrow>
               (Inr \<lparr>aerTerm = sint (parTerm resp), aerSuccess = parSuccess resp,
                     aerConflictTerm = sint (parConflictTerm resp),
                     aerConflictIndex = sint (parConflictIndex resp)\<rparr>, t')))"

definition installRequest :: "InstallSnapshotArgs \<Rightarrow> pbInstallRequest" where
  "installRequest args =
     \<lparr>piTerm = word_of_int (isTerm args), piLeaderId = isLeaderID args,
      piLastIncludedIndex = word_of_int (isLastIncludedIndex args),
      piLastIncludedTerm = word_of_int (isLastIncludedTerm args), piData = isData args\<rparr>"

definition Transport_InstallSnapshot ::
  "(string \<Rightarrow> pbInstallRequest \<Rightarrow> pbInstallResponse option) \<Rightarrow> bool \<Rightarrow> string \<Rightarrow> InstallSnapshotArgs \<Rightarrow> GRPCTransport
     \<Rightarrow> (transportError + InstallSnapshotReply) \<times> GRPCTransport" where
  "Transport_InstallSnapshot call dialed peer args t =
     (case transport_client dialed peer t of
        (Inl e, t') \<Rightarrow> (Inl e, t')
      | (Inr c, t') \<Rightarrow>
          (case call c (installRequest args) of
             None \<Rightarrow> (Inl CallError, t')
           | Some resp \<Rightarrow> (Inr \<lparr>isrTerm = sint (pirTerm resp)\<rparr>, t')))"

section \<open>The called side\<close>

definition Serve_RequestVote ::
  "psCodec \<Rightarrow> renv \<Rightarrow> pbVoteRequest \<Rightarrow> Node \<Rightarrow> (pbVoteResponse \<times> Node) res" where
  "Serve_RequestVote C E req n =
     bindR (HandleRequestVote C E
       \<lparr>rvTerm = sint (pvTerm req), rvCandidateID = pvCandidateId req,
        rvLastLogIndex = sint (pvLastLogIndex req), rvLastLogTerm = sint (pvLastLogTerm req)\<rparr> n)
     (\<lambda>(reply, n'). Ok (\<lparr>pvrTerm = word_of_int (rvrTerm reply), pvrVoteGranted = rvrVoteGranted reply\<rparr>, n'))"

definition Serve_AppendEntries ::
  "psCodec \<Rightarrow> renv \<Rightarrow> pbAppendRequest \<Rightarrow> Node \<Rightarrow> (pbAppendResponse \<times> Node) res" where
  "Serve_AppendEntries C E req n =
     bindR (HandleAppendEntries C E
       \<lparr>aeTerm = sint (paTerm req), aeLeaderID = paLeaderId req,
        aePrevLogIndex = sint (paPrevLogIndex req), aePrevLogTerm = sint (paPrevLogTerm req),
        aeEntries = map (\<lambda>e. \<lparr>eIndex = sint (pbIndex e), eTerm = sint (pbTerm e),
                              eCommand = pbCommand e\<rparr>) (paEntries req),
        aeLeaderCommit = sint (paLeaderCommit req)\<rparr> n)
     (\<lambda>(reply, n'). Ok (\<lparr>parTerm = word_of_int (aerTerm reply), parSuccess = aerSuccess reply,
        parConflictTerm = word_of_int (aerConflictTerm reply),
        parConflictIndex = word_of_int (aerConflictIndex reply)\<rparr>, n'))"

definition Serve_InstallSnapshot ::
  "psCodec \<Rightarrow> renv \<Rightarrow> pbInstallRequest \<Rightarrow> Node \<Rightarrow> (pbInstallResponse \<times> Node) res" where
  "Serve_InstallSnapshot C E req n =
     bindR (HandleInstallSnapshot C E
       \<lparr>isTerm = sint (piTerm req), isLeaderID = piLeaderId req,
        isLastIncludedIndex = sint (piLastIncludedIndex req),
        isLastIncludedTerm = sint (piLastIncludedTerm req), isData = piData req\<rparr> n)
     (\<lambda>(reply, n'). Ok (\<lparr>pirTerm = word_of_int (isrTerm reply)\<rparr>, n'))"

end
