(* ===== verification/Cluster_Server.thy ===== *)
theory Cluster_Server
  imports Queue_Rpc Raft_Node
begin

text \<open>
  The clustered service, \<^verbatim>\<open>src/server/cluster.go\<close>: the apply loop that feeds committed entries to the
  state machine, the RPCs that propose an operation and wait for it, and the two background scans.

  A function that blocks is split where it blocks, and where it lets go of the server's lock when
  another goroutine can run in between. \<open>Panic\<close> ends the process, as in the node. A channel is an
  address into \<open>csChans\<close>, its buffer of one outcome the element there; a send on a full buffer
  blocks, which is \<^const>\<open>None\<close>.
\<close>

section \<open>State\<close>

record ClusterConfig =
  ccTaskTimeout :: duration
  ccMaxRetries :: int
  ccSnapshotThreshold :: int
  ccClientAddrs :: "(string \<times> string) list"
  ccScanInterval :: duration

record applyOutcome =
  aoTerm :: int

record ClusterServer =
  csNode :: Node
  csSm :: StateMachine
  csCfg :: ClusterConfig
  csWaiters :: "(int \<times> nat) list"
  csInflight :: "(string \<times> time) list"
  csWasLeader :: bool
  csAppliedSinceSnap :: int
  csStopped :: bool
  csChans :: "applyOutcome option list"

definition NewClusterServer :: "Node \<Rightarrow> StateMachine \<Rightarrow> ClusterConfig \<Rightarrow> ClusterServer" where
  "NewClusterServer node sm cfg0 =
     (let cfg = (if ccScanInterval cfg0 \<le> 0 then cfg0\<lparr>ccScanInterval := 10 ^ 9\<rparr> else cfg0) in
      \<lparr>csNode = node, csSm = sm, csCfg = cfg, csWaiters = [], csInflight = [], csWasLeader = False,
       csAppliedSinceSnap = 0, csStopped = False, csChans = []\<rparr>)"

definition Cluster_Stop :: "ClusterServer \<Rightarrow> ClusterServer" where
  "Cluster_Stop s = (if csStopped s then s else s\<lparr>csStopped := True\<rparr>)"

section \<open>The apply loop\<close>

text \<open>
  The codecs of operations, snapshots and persistent state, the order in which the snapshot visits
  the task map, and the node's environment.
\<close>

record clusterLib =
  libOp :: opCodec
  libSnap :: snapCodec
  libPs :: psCodec
  libTs :: tsLib

text \<open>One message, up to the lock: the state machine is restored or the command is applied.\<close>

definition applyCommand :: "clusterLib \<Rightarrow> ApplyMsg \<Rightarrow> ClusterServer \<Rightarrow> ClusterServer res" where
  "applyCommand L msg s =
     (case msg of
        ApplySnapshot bs i t \<Rightarrow>
          (case Restore (libSnap L) bs (csSm s) of
             (True, sm) \<Rightarrow> Panic (nDisk (csNode s))
           | (False, sm) \<Rightarrow> Ok (s\<lparr>csSm := sm, csAppliedSinceSnap := 0\<rparr>))
      | ApplyCommand cmd i t \<Rightarrow>
          (case cmd of
             None \<Rightarrow> Ok s
           | Some bs \<Rightarrow>
               if length bs > 0 then
                 (case DecodeOp (libOp L) bs of
                    None \<Rightarrow> Panic (nDisk (csNode s))
                  | Some op \<Rightarrow> Ok (s\<lparr>csSm := Apply op (csSm s)\<rparr>))
               else Ok s))"

definition sendOutcome :: "nat \<Rightarrow> applyOutcome \<Rightarrow> ClusterServer \<Rightarrow> ClusterServer option" where
  "sendOutcome ch out s =
     (if csChans s ! ch = None then Some (s\<lparr>csChans := (csChans s)[ch := Some out]\<rparr>) else None)"

text \<open>Under the lock: wake the RPC that waits for the index, count the entry; the flag is \<^verbatim>\<open>needSnap\<close>.\<close>

definition applyNotify :: "int \<Rightarrow> int \<Rightarrow> ClusterServer \<Rightarrow> (bool \<times> ClusterServer) option" where
  "applyNotify index trm s =
     (case (case map_of (csWaiters s) index of
              None \<Rightarrow> Some s
            | Some ch \<Rightarrow> sendOutcome ch \<lparr>aoTerm = trm\<rparr> (s\<lparr>csWaiters := AList.delete index (csWaiters s)\<rparr>)) of
        None \<Rightarrow> None
      | Some s1 \<Rightarrow>
          let s2 = s1\<lparr>csAppliedSinceSnap := csAppliedSinceSnap s1 + 1\<rparr>;
              needSnap = (ccSnapshotThreshold (csCfg s2) > 0 \<and>
                          csAppliedSinceSnap s2 \<ge> ccSnapshotThreshold (csCfg s2))
          in Some (needSnap, if needSnap then s2\<lparr>csAppliedSinceSnap := 0\<rparr> else s2))"

text \<open>After the lock: snapshot the state machine and hand it to the node.\<close>

definition applySnapshot ::
  "clusterLib \<Rightarrow> ((string \<times> nat) list \<Rightarrow> (string \<times> nat) list) \<Rightarrow> renv \<Rightarrow> int \<Rightarrow> ClusterServer \<Rightarrow> ClusterServer res" where
  "applySnapshot L ord E index s =
     (case Snapshot (libSnap L) ord (csSm s) of
        None \<Rightarrow> Panic (nDisk (csNode s))
      | Some data \<Rightarrow> bindR (Node_Snapshot (libPs L) E index data (csNode s)) (\<lambda>n. Ok (s\<lparr>csNode := n\<rparr>)))"

text \<open>A whole round of the loop, for a message it received; once stopped it may also take none.\<close>

definition applyLoop ::
  "clusterLib \<Rightarrow> ((string \<times> nat) list \<Rightarrow> (string \<times> nat) list) \<Rightarrow> renv \<Rightarrow> ApplyMsg \<Rightarrow> ClusterServer
     \<Rightarrow> ClusterServer res option" where
  "applyLoop L ord E msg s =
     (case applyCommand L msg s of
        Panic d \<Rightarrow> Some (Panic d)
      | Ok s1 \<Rightarrow>
          (case msg of
             ApplySnapshot bs i t \<Rightarrow> Some (Ok s1)
           | ApplyCommand cmd i t \<Rightarrow>
               (case applyNotify i t s1 of
                  None \<Rightarrow> None
                | Some (needSnap, s2) \<Rightarrow> Some (if needSnap then applySnapshot L ord E i s2 else Ok s2))))"

section \<open>Proposals\<close>

datatype proposeError = EncodeError | ErrNotLeader | StatusError rpcStatus

text \<open>The first half: encode and append to the node's log. An accepted proposal has an index and a term.\<close>

definition proposeOp ::
  "clusterLib \<Rightarrow> renv \<Rightarrow> QueueOp \<Rightarrow> ClusterServer \<Rightarrow> ((proposeError + int \<times> int) \<times> ClusterServer) res" where
  "proposeOp L E op s =
     (case EncodeOp (libOp L) op of
        None \<Rightarrow> Ok (Inl EncodeError, s)
      | Some cmd \<Rightarrow>
          bindR (Propose (libPs L) E cmd (csNode s)) (\<lambda>((index, t, isLeader), n).
            let s1 = s\<lparr>csNode := n\<rparr> in
            if \<not> isLeader then Ok (Inl ErrNotLeader, s1) else Ok (Inr (index, t), s1)))"

text \<open>The second, under the lock: the channel is made and registered.\<close>

definition registerWaiter :: "int \<Rightarrow> ClusterServer \<Rightarrow> nat \<times> ClusterServer" where
  "registerWaiter index s =
     (let ch = length (csChans s) in
      (ch, s\<lparr>csChans := csChans s @ [None], csWaiters := AList.update index ch (csWaiters s)\<rparr>))"

text \<open>The third: the branch of the \<^verbatim>\<open>select\<close> that fires. \<^const>\<open>None\<close> is a branch that is not ready.\<close>

datatype wakeup = Outcome | After5s | StopCh

definition awaitOutcome ::
  "wakeup \<Rightarrow> int \<Rightarrow> int \<Rightarrow> nat \<Rightarrow> ClusterServer \<Rightarrow> (proposeError option \<times> ClusterServer) option" where
  "awaitOutcome w index t ch s =
     (case w of
        Outcome \<Rightarrow>
          (case csChans s ! ch of
             None \<Rightarrow> None
           | Some out \<Rightarrow>
               let s1 = s\<lparr>csChans := (csChans s)[ch := None]\<rparr> in
               Some (if aoTerm out \<noteq> t then Some ErrNotLeader else None, s1))
      | After5s \<Rightarrow>
          Some (Some (StatusError (statusError DeadlineExceeded ''commit timed out (lost quorum?)'')),
                s\<lparr>csWaiters := AList.delete index (csWaiters s)\<rparr>)
      | StopCh \<Rightarrow>
          if csStopped s then Some (Some (StatusError (statusError Unavailable ''shutting down'')), s) else None)"

definition redirect :: "ClusterServer \<Rightarrow> rpcStatus" where
  "redirect s =
     (let hint = LeaderHint (csNode s) in
      case map_of (ccClientAddrs (csCfg s)) hint of
        Some addr \<Rightarrow>
          if hint \<noteq> [] then statusError FailedPrecondition (''not leader; leader='' @ addr)
          else statusError FailedPrecondition ''not leader; leader unknown''
      | None \<Rightarrow> statusError FailedPrecondition ''not leader; leader unknown'')"

text \<open>
  How an RPC answers an error of \<^verbatim>\<open>propose\<close>: \<^verbatim>\<open>errNotLeader\<close> becomes a redirect, a status goes out as it
  is, and gRPC sends any other error with code \<^const>\<open>Unknown\<close> and the error's text.
\<close>

definition answerError :: "string \<Rightarrow> proposeError \<Rightarrow> ClusterServer \<Rightarrow> rpcStatus" where
  "answerError encText e s =
     (case e of
        ErrNotLeader \<Rightarrow> redirect s
      | StatusError st \<Rightarrow> st
      | EncodeError \<Rightarrow> statusError Unknown encText)"

section \<open>The RPCs\<close>

text \<open>\<^verbatim>\<open>Enqueue\<close> up to its proposal: the operation, or the error it returns at once.\<close>

definition enqueueOp :: "clusterLib \<Rightarrow> string \<Rightarrow> time \<Rightarrow> protoTask option \<Rightarrow> rpcStatus + QueueOp" where
  "enqueueOp L uuid now req =
     (case req of
        None \<Rightarrow> Inl (statusError InvalidArgument ''task is required'')
      | Some p \<Rightarrow>
          let t = fromProto (libTs L) p;
              t1 = (if ID t = '''' then t\<lparr>ID := uuid\<rparr> else t);
              t2 = (if CreatedAt t1 = 0 then t1\<lparr>CreatedAt := now\<rparr> else t1)
          in Inr \<lparr>qType = OpEnqueue, qTask = Some t2, qTaskID = ''''\<rparr>)"

text \<open>After it: the answer to the client.\<close>

definition enqueueAnswer ::
  "string \<Rightarrow> QueueOp \<Rightarrow> proposeError option \<Rightarrow> ClusterServer \<Rightarrow> rpcStatus + string" where
  "enqueueAnswer encText op r s =
     (case r of
        Some e \<Rightarrow> Inl (answerError encText e s)
      | None \<Rightarrow> Inr (case qTask op of None \<Rightarrow> '''' | Some t \<Rightarrow> ID t))"

text \<open>\<^verbatim>\<open>Dequeue\<close> takes a task from the state machine and then, under the server's lock, records its deadline.\<close>

definition dequeueTake :: "time \<Rightarrow> ClusterServer \<Rightarrow> Task option \<times> ClusterServer" where
  "dequeueTake now s =
     (case SM_Dequeue now (ccTaskTimeout (csCfg s)) (csSm s) of (t, sm) \<Rightarrow> (t, s\<lparr>csSm := sm\<rparr>))"

definition dequeueTrack :: "Task \<Rightarrow> ClusterServer \<Rightarrow> ClusterServer" where
  "dequeueTrack t s = s\<lparr>csInflight := AList.update (ID t) (Deadline t) (csInflight s)\<rparr>"

definition Cluster_Dequeue ::
  "clusterLib \<Rightarrow> time \<Rightarrow> ClusterServer \<Rightarrow> (rpcStatus + protoTask) \<times> ClusterServer" where
  "Cluster_Dequeue L now s =
     (if \<not> snd (Node_State (csNode s)) then (Inl (redirect s), s)
      else
        case dequeueTake now s of
          (None, s1) \<Rightarrow> (Inl (statusError NotFound ''queue is empty''), s1)
        | (Some t, s1) \<Rightarrow> (Inr (toProto (libTs L) t), dequeueTrack t s1))"

text \<open>\<^verbatim>\<open>finish\<close>, shared by \<^verbatim>\<open>Ack\<close> (\<^const>\<open>OpAck\<close>) and \<^verbatim>\<open>Nack\<close> (\<^const>\<open>OpNack\<close>), up to its proposal and after it.\<close>

definition finishOp :: "byte \<Rightarrow> string \<Rightarrow> ClusterServer \<Rightarrow> rpcStatus + QueueOp" where
  "finishOp opType taskID s =
     (if \<not> snd (Node_State (csNode s)) then Inl (redirect s)
      else if \<not> Has taskID (csSm s)
      then Inl (statusError NotFound ''unknown task (already acked, dead, or never existed)'')
      else Inr \<lparr>qType = opType, qTask = None, qTaskID = taskID\<rparr>)"

definition ackOp :: "string \<Rightarrow> ClusterServer \<Rightarrow> rpcStatus + QueueOp" where
  "ackOp taskID s = finishOp OpAck taskID s"

definition nackOp :: "string \<Rightarrow> ClusterServer \<Rightarrow> rpcStatus + QueueOp" where
  "nackOp taskID s = finishOp OpNack taskID s"

definition finishAnswer ::
  "string \<Rightarrow> string \<Rightarrow> proposeError option \<Rightarrow> ClusterServer \<Rightarrow> (rpcStatus + unit) \<times> ClusterServer" where
  "finishAnswer encText taskID r s =
     (case r of
        Some e \<Rightarrow> (Inl (answerError encText e s), s)
      | None \<Rightarrow> (Inr (), s\<lparr>csInflight := AList.delete taskID (csInflight s)\<rparr>))"

definition Cluster_Stats :: "ClusterServer \<Rightarrow> StatsResponse" where
  "Cluster_Stats s = statsResponse (SM_Stats (csSm s))"

definition Cluster_ListDLQ :: "clusterLib \<Rightarrow> ClusterServer \<Rightarrow> protoTask list" where
  "Cluster_ListDLQ L s = map (toProto (libTs L)) (SM_ListDLQ (csSm s))"

section \<open>Background scans\<close>

text \<open>The timeout scan under the lock: the tasks past their deadline leave the overlay, in the order of the map.\<close>

definition timeoutScan ::
  "((string \<times> time) list \<Rightarrow> (string \<times> time) list) \<Rightarrow> time \<Rightarrow> ClusterServer \<Rightarrow> string list \<times> ClusterServer" where
  "timeoutScan ord now s =
     fold (\<lambda>(tid, deadline) (expired, s).
             if now > deadline
             then (expired @ [tid], s\<lparr>csInflight := AList.delete tid (csInflight s)\<rparr>)
             else (expired, s))
       (ord (csInflight s)) ([], s)"

text \<open>Then, for each of them: stop when not leader, propose a nack for a task that is still there.\<close>

datatype timeoutAction = TimeoutBreak | TimeoutSkip | TimeoutPropose QueueOp

definition timeoutNext :: "string \<Rightarrow> ClusterServer \<Rightarrow> timeoutAction" where
  "timeoutNext tid s =
     (if \<not> snd (Node_State (csNode s)) then TimeoutBreak
      else if Has tid (csSm s) then TimeoutPropose \<lparr>qType = OpNack, qTask = None, qTaskID = tid\<rparr>
      else TimeoutSkip)"

text \<open>
  A tick of the leadership watch: under the server's lock it notes whether the node is leader, which
  it has read before, and drops the overlay if it was and is not; then it requeues the tasks.
\<close>

definition watchFlag :: "bool \<Rightarrow> ClusterServer \<Rightarrow> bool \<times> ClusterServer" where
  "watchFlag isLeader s =
     (let was = csWasLeader s;
          s1 = s\<lparr>csWasLeader := isLeader\<rparr>
      in if was \<and> \<not> isLeader then (True, s1\<lparr>csInflight := []\<rparr>) else (False, s1))"

definition watchRequeue ::
  "((string \<times> nat) list \<Rightarrow> (string \<times> nat) list) \<Rightarrow> ClusterServer \<Rightarrow> ClusterServer" where
  "watchRequeue ord s = s\<lparr>csSm := RequeueInFlight ord (csSm s)\<rparr>"

definition leadershipWatch ::
  "((string \<times> nat) list \<Rightarrow> (string \<times> nat) list) \<Rightarrow> ClusterServer \<Rightarrow> ClusterServer" where
  "leadershipWatch ord s =
     (case watchFlag (snd (Node_State (csNode s))) s of (lost, s1) \<Rightarrow> if lost then watchRequeue ord s1 else s1)"

end
