(* ===== verification/Broker_Command.thy ===== *)
theory Broker_Command
  imports Complex_Main Cluster_Server
begin

text \<open>
  The parts of the broker command that decide something, \<^verbatim>\<open>src/cmd/broker/\<close>: the tuning file and
  its hot reload, the peer list, and the configurations that the two modes start with.
\<close>

section \<open>Tuning file\<close>

text \<open>
  A finite \<^verbatim>\<open>float64\<close> is a rational. A product rounds to a nearby \<^verbatim>\<open>float64\<close>: the rounding is a
  parameter. The conversion to an integer truncates.
\<close>

record FileConfig =
  fcTaskTimeoutSeconds :: rat
  fcMaxRetries :: int
  fcWorkerCount :: int

definition truncRat :: "rat \<Rightarrow> int" where
  "truncRat x = (if x < 0 then - \<lfloor>- x\<rfloor> else \<lfloor>x\<rfloor>)"

text \<open>\<^verbatim>\<open>toml.DecodeFile\<close> is a library: what it makes of the file is the argument, \<^const>\<open>None\<close> an error.\<close>

definition loadFileConfig :: "FileConfig option \<Rightarrow> FileConfig option" where
  "loadFileConfig decoded = decoded"

definition applyFileConfig :: "(rat \<Rightarrow> rat) \<Rightarrow> FileConfig \<Rightarrow> Broker \<Rightarrow> duration \<times> Broker" where
  "applyFileConfig rnd fc b =
     (let timeout = (if fcTaskTimeoutSeconds fc > 0 then truncRat (rnd (fcTaskTimeoutSeconds fc * 10 ^ 9)) else 0)
      in (timeout, ApplyTuning timeout (fcMaxRetries fc) b))"

definition applyFileConfigOrLog :: "(rat \<Rightarrow> rat) \<Rightarrow> FileConfig option \<Rightarrow> Broker \<Rightarrow> duration \<times> Broker" where
  "applyFileConfigOrLog rnd decoded b =
     (case loadFileConfig decoded of
        None \<Rightarrow> (-1, b)
      | Some fc \<Rightarrow> applyFileConfig rnd fc b)"

text \<open>The reloads of a run: one per SIGHUP, each with what the file decodes to then.\<close>

definition hupLoop :: "(rat \<Rightarrow> rat) \<Rightarrow> FileConfig option list \<Rightarrow> Broker \<Rightarrow> Broker" where
  "hupLoop rnd files b = fold (\<lambda>decoded b. snd (applyFileConfigOrLog rnd decoded b)) files b"

text \<open>The configuration of a single-node start.\<close>

definition singleConfig :: "string \<Rightarrow> duration \<Rightarrow> int \<Rightarrow> int \<Rightarrow> Config" where
  "singleConfig walPath taskTimeout maxRetries compactEvery =
     (DefaultConfig walPath)\<lparr>TaskTimeout := taskTimeout, MaxRetries := maxRetries, CompactEvery := compactEvery\<rparr>"

text \<open>
  A single-node start up to its server: the broker, with the tuning file applied if the flag names
  one that exists. \<open>file\<close> is the log's file, \<open>stat\<close> whether the tuning file is there.
\<close>

definition runSingle ::
  "gob \<Rightarrow> bool \<Rightarrow> replayIO \<Rightarrow> env \<Rightarrow> (rat \<Rightarrow> rat) \<Rightarrow> byte list option \<Rightarrow> string \<Rightarrow> duration \<Rightarrow> int \<Rightarrow> int \<Rightarrow> string \<Rightarrow> bool
     \<Rightarrow> FileConfig option \<Rightarrow> brokerError + Broker" where
  "runSingle G opened io E rnd file walPath taskTimeout maxRetries compactEvery configPath stat decoded =
     (case New G opened io E (singleConfig walPath taskTimeout maxRetries compactEvery) file of
        Inl e \<Rightarrow> Inl e
      | Inr b \<Rightarrow>
          Inr (if configPath \<noteq> [] \<and> stat then snd (applyFileConfigOrLog rnd decoded b) else b))"

section \<open>Peers\<close>

text \<open>\<^verbatim>\<open>strings.Split\<close> with a one-character separator: always at least one piece.\<close>

fun splitOn :: "char \<Rightarrow> string \<Rightarrow> string list" where
  "splitOn sep [] = [[]]"
| "splitOn sep (c # cs) =
     (if c = sep then [] # splitOn sep cs
      else case splitOn sep cs of [] \<Rightarrow> [[c]] | p # ps \<Rightarrow> (c # p) # ps)"

type_synonym addrMap = "(string \<times> string) list"

fun parsePeerParts :: "string list \<Rightarrow> addrMap \<Rightarrow> addrMap \<Rightarrow> string + addrMap \<times> addrMap" where
  "parsePeerParts [] raftAddrs clientAddrs = Inr (raftAddrs, clientAddrs)"
| "parsePeerParts (part # parts) raftAddrs clientAddrs =
     (case splitOn (CHR ''='') part of
        [nid, raftAddr, clientAddr] \<Rightarrow>
          parsePeerParts parts (AList.update nid raftAddr raftAddrs) (AList.update nid clientAddr clientAddrs)
      | _ \<Rightarrow> Inl part)"

text \<open>An error carries the part that is not well-formed.\<close>

definition parsePeers :: "string \<Rightarrow> string + addrMap \<times> addrMap" where
  "parsePeers s = (if s = [] then Inr ([], []) else parsePeerParts (splitOn (CHR '','') s) [] [])"

section \<open>Cluster start\<close>

text \<open>
  What a cluster node is started with: the Raft configuration, whose peers are the keys of the
  address map in the order of its iteration, and the server's. \<open>localAddr\<close> is the printed
  \<^verbatim>\<open>localhost:port\<close>.
\<close>

datatype startError = NoNodeID | BadPeers string

definition clusterStart ::
  "(addrMap \<Rightarrow> addrMap) \<Rightarrow> string \<Rightarrow> string \<Rightarrow> string \<Rightarrow> string \<Rightarrow> duration \<Rightarrow> int \<Rightarrow> int
     \<Rightarrow> startError + raftConfig \<times> addrMap \<times> ClusterConfig" where
  "clusterStart ord nodeID localAddr dataDir peersFlag taskTimeout maxRetries snapEvery =
     (if nodeID = [] then Inl NoNodeID
      else
        case parsePeers peersFlag of
          Inl part \<Rightarrow> Inl (BadPeers part)
        | Inr (peerRaft, peerClient0) \<Rightarrow>
            let peerClient = AList.update nodeID localAddr peerClient0;
                peerIDs = map fst (ord peerRaft)
            in Inr (\<lparr>cID = nodeID, cPeers = peerIDs, cDataDir = dataDir, cElectionTimeoutMin = 0,
                     cElectionTimeoutMax = 0, cHeartbeatInterval = 0\<rparr>,
                    peerRaft,
                    \<lparr>ccTaskTimeout = taskTimeout, ccMaxRetries = maxRetries, ccSnapshotThreshold = snapEvery,
                     ccClientAddrs = peerClient, ccScanInterval = 0\<rparr>))"

text \<open>
  A cluster node's start up to its servers: the node from its disk, a fresh state machine and the
  cluster server around them. \<^const>\<open>None\<close> is a node that cannot read its disk, which ends the process.
\<close>

definition runCluster ::
  "(addrMap \<Rightarrow> addrMap) \<Rightarrow> psCodec \<Rightarrow> readEnv \<Rightarrow> renv \<Rightarrow> raftDisk \<Rightarrow> string \<Rightarrow> string \<Rightarrow> string \<Rightarrow> string \<Rightarrow> duration \<Rightarrow> int \<Rightarrow> int
     \<Rightarrow> startError + ClusterServer res option" where
  "runCluster ord C R E disk nodeID localAddr dataDir peersFlag taskTimeout maxRetries snapEvery =
     (case clusterStart ord nodeID localAddr dataDir peersFlag taskTimeout maxRetries snapEvery of
        Inl e \<Rightarrow> Inl e
      | Inr (rc, peerRaft, cc) \<Rightarrow>
          Inr (map_option (\<lambda>r. bindR r (\<lambda>n. Ok (NewClusterServer n (NewStateMachine maxRetries) cc))) (NewNode C R E rc disk)))"

section \<open>Flags\<close>

record brokerFlags =
  flPort :: int
  flWal :: string
  flTaskTimeout :: duration
  flMaxRetries :: int
  flCompactEvery :: int
  flMetricsPort :: int
  flConfig :: string
  flPidFile :: string
  flCluster :: bool
  flNodeID :: string
  flRaftPort :: int
  flDataDir :: string
  flPeers :: string
  flSnapEvery :: int

definition defaultFlags :: brokerFlags where
  "defaultFlags =
     \<lparr>flPort = 9000, flWal = ''broker.wal'', flTaskTimeout = 30 * 10 ^ 9, flMaxRetries = 5, flCompactEvery = 10000,
      flMetricsPort = 0, flConfig = '''', flPidFile = '''', flCluster = False, flNodeID = '''', flRaftPort = 8000,
      flDataDir = ''data'', flPeers = '''', flSnapEvery = 1000\<rparr>"

text \<open>The two modes with what is passed to them.\<close>

datatype startMode =
  Single (smPort: int) (smMetricsPort: int) (smWal: string) (smTaskTimeout: duration) (smRetries: int) (smCompactEvery: int)
    (smConfig: string) (smPidFile: string)
| Cluster (cmNodeID: string) (cmPort: int) (cmRaftPort: int) (cmMetricsPort: int) (cmDataDir: string) (cmPeers: string)
    (cmTaskTimeout: duration) (cmMaxRetries: int) (cmSnapEvery: int)

definition brokerMain :: "brokerFlags \<Rightarrow> startMode" where
  "brokerMain fl =
     (if flCluster fl
      then Cluster (flNodeID fl) (flPort fl) (flRaftPort fl) (flMetricsPort fl) (flDataDir fl) (flPeers fl)
             (flTaskTimeout fl) (flMaxRetries fl) (flSnapEvery fl)
      else Single (flPort fl) (flMetricsPort fl) (flWal fl) (flTaskTimeout fl) (flMaxRetries fl) (flCompactEvery fl)
             (flConfig fl) (flPidFile fl))"

end
