(* ===== verification/Raft_Local.thy ===== *)
theory Raft_Local
  imports Raft_Node
begin

text \<open>
  Facts about one node: index arithmetic on a well-formed log, and what every handler keeps of the
  term, the vote and the state on disk. A handler is \<open>calm\<close> when it leaves memory and disk in
  agreement, never lowers the term, never changes a vote within a term and does not make the
  node a leader; a panic leaves a disk that such a step could have produced.
\<close>

section \<open>Results\<close>

lemma bindR_Ok_iff: "bindR r k = Ok y \<longleftrightarrow> (\<exists>x. r = Ok x \<and> k x = Ok y)"
  by (cases r) simp_all

lemma bindR_Panic_iff: "bindR r k = Panic d \<longleftrightarrow> r = Panic d \<or> (\<exists>x. r = Ok x \<and> k x = Panic d)"
  by (cases r) simp_all

lemma bindR_assoc: "bindR (bindR r f) g = bindR r (\<lambda>x. bindR (f x) g)"
  by (cases r) simp_all

section \<open>Well-formed logs\<close>

definition log_ok :: "Node \<Rightarrow> bool" where
  "log_ok n \<longleftrightarrow> nLog n \<noteq> [] \<and> 0 \<le> firstIndex n \<and>
     (\<forall>k < length (nLog n). eIndex (nLog n ! k) = firstIndex n + int k)"

lemma log_ok_last: "log_ok n \<Longrightarrow> lastIndex n = firstIndex n + int (length (nLog n)) - 1"
  by (cases "nLog n") (auto simp: log_ok_def lastIndex_def last_conv_nth)

lemma entryAt_Ok:
  assumes "log_ok n" and "firstIndex n \<le> i" and "i \<le> lastIndex n"
  shows "entryAt n i = Ok (nLog n ! nat (i - firstIndex n))"
  using assms log_ok_last [OF assms(1)] by (simp add: entryAt_def)

lemma termAt_Ok:
  assumes "log_ok n" and "firstIndex n \<le> i" and "i \<le> lastIndex n"
  shows "termAt n i = Ok (eTerm (nLog n ! nat (i - firstIndex n)))"
  using entryAt_Ok [OF assms] by (simp add: termAt_def)

lemma sliceFrom_Ok:
  assumes "log_ok n" and "firstIndex n \<le> i" and "i \<le> lastIndex n + 1"
  shows "sliceFrom n i = Ok (drop (nat (i - firstIndex n)) (nLog n))"
  using assms log_ok_last [OF assms(1)] by (simp add: sliceFrom_def)

lemma truncateFrom_Ok:
  assumes "log_ok n" and "firstIndex n \<le> i" and "i \<le> lastIndex n + 1"
  shows "truncateFrom n i = Ok (n\<lparr>nLog := take (nat (i - firstIndex n)) (nLog n)\<rparr>)"
  using assms log_ok_last [OF assms(1)] by (simp add: truncateFrom_def)

text \<open>A panic of an accessor leaves the disk alone.\<close>

lemma accessor_Panic:
  "entryAt n i = Panic d \<Longrightarrow> d = nDisk n" "termAt n i = Panic d \<Longrightarrow> d = nDisk n"
  "sliceFrom n i = Panic d \<Longrightarrow> d = nDisk n" "truncateFrom n i = Panic d \<Longrightarrow> d = nDisk n"
  by (auto simp: entryAt_def termAt_def sliceFrom_def truncateFrom_def Let_def split: if_splits)

section \<open>What is on disk\<close>

definition freshState :: persistentState where
  "freshState = \<lparr>psTerm = 0, psVotedFor = [], psLog = [sentinel 0 0]\<rparr>"

definition loaded :: "psCodec \<Rightarrow> raftDisk \<Rightarrow> persistentState option" where
  "loaded C d = (case dState d of None \<Rightarrow> Some freshState | Some bs \<Rightarrow> ps_decode C bs)"

definition saved :: "psCodec \<Rightarrow> Node \<Rightarrow> bool" where
  "saved C n \<longleftrightarrow> loaded C (nDisk n) = Some (persistentOf n)"

text \<open>A later persistent state: the term does not go back, and within a term a vote stays.\<close>

definition pstep :: "persistentState \<Rightarrow> persistentState \<Rightarrow> bool" where
  "pstep p q \<longleftrightarrow> psTerm p \<le> psTerm q \<and>
     (psTerm q = psTerm p \<longrightarrow> psVotedFor p \<noteq> [] \<longrightarrow> psVotedFor q = psVotedFor p)"

lemma pstep_refl [simp]: "pstep p p"
  by (simp add: pstep_def)

lemma pstep_trans: "pstep p q \<Longrightarrow> pstep q r \<Longrightarrow> pstep p r"
  by (auto simp: pstep_def)

definition drift :: "Node \<Rightarrow> Node \<Rightarrow> bool" where
  "drift n n' \<longleftrightarrow> nCfg n' = nCfg n \<and> pstep (persistentOf n) (persistentOf n') \<and>
     (nState n' = Leader \<longrightarrow> nState n = Leader \<and> nTerm n' = nTerm n)"

definition calm :: "psCodec \<Rightarrow> Node \<Rightarrow> Node \<Rightarrow> bool" where
  "calm C n n' \<longleftrightarrow> drift n n' \<and> saved C n'"

definition calmR :: "psCodec \<Rightarrow> ('a \<Rightarrow> Node) \<Rightarrow> Node \<Rightarrow> 'a res \<Rightarrow> bool" where
  "calmR C g n r \<longleftrightarrow>
     (case r of
        Ok x \<Rightarrow> calm C n (g x)
      | Panic d \<Rightarrow> (\<exists>p. loaded C d = Some p \<and> pstep (persistentOf n) p))"

lemma drift_refl [simp]: "drift n n"
  by (simp add: drift_def)

lemma drift_trans: "drift n n1 \<Longrightarrow> drift n1 n2 \<Longrightarrow> drift n n2"
  by (auto simp: drift_def elim: pstep_trans)

lemma calm_trans: "calm C n n1 \<Longrightarrow> calm C n1 n2 \<Longrightarrow> calm C n n2"
  by (auto simp: calm_def elim: drift_trans)

lemma calm_self: "calm C n n1 \<Longrightarrow> calm C n1 n1"
  by (simp add: calm_def)

lemma calmR_simps [simp]:
  "calmR C g n (Ok x) = calm C n (g x)"
  "calmR C g n (Panic d) = (\<exists>p. loaded C d = Some p \<and> pstep (persistentOf n) p)"
  by (simp_all add: calmR_def)

lemma calmR_bind:
  assumes "calmR C f n r" and "\<And>x. r = Ok x \<Longrightarrow> calm C n (f x) \<Longrightarrow> calmR C g (f x) (k x)"
  shows "calmR C g n (bindR r k)"
proof (cases r)
  case (Ok x)
  then have n1: "calm C n (f x)" "calmR C g (f x) (k x)" using assms by simp_all
  show ?thesis
  proof (cases "k x")
    case (Ok y)
    with \<open>r = Ok x\<close> n1 calm_trans show ?thesis by fastforce
  next
    case (Panic d)
    with n1 obtain p where "loaded C d = Some p" "pstep (persistentOf (f x)) p" by auto
    moreover have "pstep (persistentOf n) (persistentOf (f x))" using n1(1) by (simp add: calm_def drift_def)
    ultimately show ?thesis using \<open>r = Ok x\<close> Panic pstep_trans by (auto intro!: exI [of _ p])
  qed
next
  case (Panic d)
  with assms(1) show ?thesis by simp
qed

lemma calm_if: "(b \<Longrightarrow> calmR C g n r) \<Longrightarrow> (\<not> b \<Longrightarrow> calmR C g n s) \<Longrightarrow> calmR C g n (if b then r else s)"
  by simp

lemma persistLocked_cases:
  assumes "cDataDir (nCfg n) \<noteq> []" and "ps_roundtrip C"
  shows "case persistLocked C r n of
      Ok n' \<Rightarrow> n' = n\<lparr>nDisk := nDisk n'\<rparr> \<and> dSnap (nDisk n') = dSnap (nDisk n) \<and> loaded C (nDisk n') = Some (persistentOf n)
    | Panic d \<Rightarrow> d = nDisk n"
proof -
  have "(nDisk n)\<lparr>dState := dState (nDisk n)\<rparr> = nDisk n" by simp
  then show ?thesis
    using assms unfolding persistLocked_def atomicWrite_def
    by (auto simp: loaded_def ps_roundtrip_def split: option.splits writeResult.splits)
qed

lemma persist_calm:
  assumes "cDataDir (nCfg n) \<noteq> []" and "ps_roundtrip C" and "saved C n" and "drift n n1" and "nDisk n1 = nDisk n"
  shows "calmR C (\<lambda>n. n) n (persistLocked C r n1)"
proof -
  have "cDataDir (nCfg n1) \<noteq> []" using assms(1,4) by (simp add: drift_def)
  note P = persistLocked_cases [OF this assms(2), of r]
  show ?thesis
  proof (cases "persistLocked C r n1")
    case (Ok n2)
    have eq: "n2 = n1\<lparr>nDisk := nDisk n2\<rparr>" and l: "loaded C (nDisk n2) = Some (persistentOf n1)" using P Ok by simp_all
    have f: "nCfg n2 = nCfg n1" "persistentOf n2 = persistentOf n1" "nState n2 = nState n1" "nTerm n2 = nTerm n1"
      by (subst eq, simp add: persistentOf_def)+
    then show ?thesis using Ok assms(4) l by (simp add: calm_def drift_def saved_def)
  next
    case (Panic d)
    with P assms(3,5) show ?thesis by (simp add: saved_def)
  qed
qed


section \<open>Handlers are calm\<close>

definition durable :: "psCodec \<Rightarrow> Node \<Rightarrow> bool" where
  "durable C n \<longleftrightarrow> cDataDir (nCfg n) \<noteq> [] \<and> ps_roundtrip C \<and> saved C n"

lemma durable_calm: "durable C n \<Longrightarrow> calm C n n1 \<Longrightarrow> durable C n1"
  by (simp add: durable_def calm_def drift_def)

lemma durable_refl: "durable C n \<Longrightarrow> calm C n n"
  by (simp add: durable_def calm_def)

lemma durable_persist:
  "durable C n \<Longrightarrow> drift n n1 \<Longrightarrow> nDisk n1 = nDisk n \<Longrightarrow> calmR C (\<lambda>n. n) n (persistLocked C r n1)"
  by (simp add: durable_def persist_calm)

lemma durable_panic: "durable C n \<Longrightarrow> calmR C g n (Panic (nDisk n))"
  by (simp add: durable_def saved_def)

text \<open>Fields that are neither persistent nor the state.\<close>

lemma calm_frame [simp]:
  "calm C n (n1\<lparr>nLeaderID := l\<rparr>) = calm C n n1" "calm C n (n1\<lparr>nNextIndex := m\<rparr>) = calm C n n1"
  "calm C n (n1\<lparr>nMatchIndex := m\<rparr>) = calm C n n1" "calm C n (n1\<lparr>nCommitIndex := i\<rparr>) = calm C n n1"
  "calm C n (n1\<lparr>nLastApplied := i\<rparr>) = calm C n n1" "calm C n (n1\<lparr>nSnapshot := s\<rparr>) = calm C n n1"
  "calm C n (n1\<lparr>nPending := p\<rparr>) = calm C n n1" "calm C n (n1\<lparr>nElections := k\<rparr>) = calm C n n1"
  "calm C n (n1\<lparr>nStopped := b\<rparr>) = calm C n n1"
  "calm C n (resetElectionTimerLocked E n1) = calm C n n1"
  "calm C n (followerCommit i j n1) = calm C n n1" "calm C n (applierSent i n1) = calm C n n1"
  by (simp_all add: calm_def drift_def saved_def persistentOf_def resetElectionTimerLocked_def followerCommit_def applierSent_def Let_def)

lemma reset_sel [simp]:
  "nCfg (resetElectionTimerLocked E n) = nCfg n" "nState (resetElectionTimerLocked E n) = nState n"
  "nTerm (resetElectionTimerLocked E n) = nTerm n" "nVotedFor (resetElectionTimerLocked E n) = nVotedFor n"
  "nLog (resetElectionTimerLocked E n) = nLog n" "nDisk (resetElectionTimerLocked E n) = nDisk n"
  "nCommitIndex (resetElectionTimerLocked E n) = nCommitIndex n" "nLastApplied (resetElectionTimerLocked E n) = nLastApplied n"
  "nMatchIndex (resetElectionTimerLocked E n) = nMatchIndex n" "nNextIndex (resetElectionTimerLocked E n) = nNextIndex n"
  "nPending (resetElectionTimerLocked E n) = nPending n" "nSnapshot (resetElectionTimerLocked E n) = nSnapshot n"
  by (simp_all add: resetElectionTimerLocked_def Let_def)

lemma becomeFollower_sel [simp]:
  "nCfg (becomeFollowerLocked t n) = nCfg n" "nState (becomeFollowerLocked t n) = Follower"
  "nTerm (becomeFollowerLocked t n) = max t (nTerm n)" "nLog (becomeFollowerLocked t n) = nLog n"
  "nVotedFor (becomeFollowerLocked t n) = (if t > nTerm n then [] else nVotedFor n)"
  "nDisk (becomeFollowerLocked t n) = nDisk n" "nCommitIndex (becomeFollowerLocked t n) = nCommitIndex n"
  by (simp_all add: becomeFollowerLocked_def Let_def)

lemma becomeFollower_drift: "drift n (becomeFollowerLocked t n)"
  by (auto simp: drift_def pstep_def persistentOf_def)

lemma log_drift: "drift n (n\<lparr>nLog := l\<rparr>)"
  by (simp add: drift_def pstep_def persistentOf_def)

lemma stepDown_calm: "durable C n \<Longrightarrow> calmR C (\<lambda>n. n) n (stepDown C E t l n)"
  unfolding stepDown_def
  by (rule calmR_bind [where f = "\<lambda>n. n"])
    (auto simp: durable_persist becomeFollower_drift durable_refl intro: calm_self)

lemma HandleRequestVote_calm: "durable C n \<Longrightarrow> calmR C snd n (HandleRequestVote C E args n)"
  unfolding HandleRequestVote_def
proof (rule calmR_bind [where f = "\<lambda>n. n"])
  assume d: "durable C n"
  then show "calmR C (\<lambda>n. n) n (if nTerm n < rvTerm args
      then persistLocked C (reWrite1 E) (becomeFollowerLocked (rvTerm args) n) else Ok n)"
    by (simp add: durable_persist becomeFollower_drift durable_refl)
  fix n1 assume "calm C n n1"
  with d have d1: "durable C n1" by (rule durable_calm)
  have dr: "nVotedFor n1 = [] \<or> nVotedFor n1 = rvCandidateID args \<Longrightarrow> drift n1 (n1\<lparr>nVotedFor := rvCandidateID args\<rparr>)"
    by (auto simp: drift_def pstep_def persistentOf_def)
  show "calmR C snd n1
    (let reply = \<lparr>rvrTerm = nTerm n1, rvrVoteGranted = False\<rparr> in
       if rvTerm args < nTerm n1 then Ok (reply, n1)
       else
         let upToDate = (rvLastLogTerm args > lastTerm n1 \<or>
               (rvLastLogTerm args = lastTerm n1 \<and> rvLastLogIndex args \<ge> lastIndex n1))
         in
           if (nVotedFor n1 = [] \<or> nVotedFor n1 = rvCandidateID args) \<and> upToDate
           then bindR (persistLocked C (reWrite2 E) (n1\<lparr>nVotedFor := rvCandidateID args\<rparr>)) (\<lambda>n2.
                  Ok (reply\<lparr>rvrVoteGranted := True\<rparr>, resetElectionTimerLocked E n2))
           else Ok (reply, n1))"
    unfolding Let_def
    using d1 dr by (intro calm_if calmR_bind [OF durable_persist [OF d1 dr]]) (auto simp: durable_refl intro: calm_self)
qed

lemma loop_Panic:
  "lastOfTerm n t k = Panic d \<Longrightarrow> d = nDisk n" "conflictStart n t k = Panic d \<Longrightarrow> d = nDisk n"
  "advanceLoop k n = Panic d \<Longrightarrow> d = nDisk n" "entriesFrom n i k = Panic d \<Longrightarrow> d = nDisk n"
proof -
  show "lastOfTerm n t k = Panic d \<Longrightarrow> d = nDisk n"
    by (induction k) (auto simp: bindR_Panic_iff split: if_splits dest: accessor_Panic)
  show "conflictStart n t k = Panic d \<Longrightarrow> d = nDisk n"
    by (induction k) (auto simp: Let_def bindR_Panic_iff split: if_splits dest: accessor_Panic)
  show "advanceLoop k n = Panic d \<Longrightarrow> d = nDisk n"
    by (induction k) (auto simp: Let_def bindR_Panic_iff split: if_splits dest: accessor_Panic)
  show "entriesFrom n i k = Panic d \<Longrightarrow> d = nDisk n"
    by (induction k arbitrary: i) (auto simp: bindR_Panic_iff dest: accessor_Panic)
qed

text \<open>A read-only computation before a calm one.\<close>

lemma calmR_read:
  assumes "durable C n" and "\<And>d. r = Panic d \<Longrightarrow> d = nDisk n" and "\<And>x. r = Ok x \<Longrightarrow> calmR C g n (k x)"
  shows "calmR C g n (bindR r k)"
proof (cases r)
  case (Ok x)
  with assms(3) show ?thesis by simp
next
  case (Panic d)
  with assms(2) have "d = nDisk n" by simp
  with Panic assms(1) show ?thesis using durable_panic [of C n g] by simp
qed

lemma appendLoop_Ok: "appendLoop es n = Ok (b, n') \<Longrightarrow> n' = n\<lparr>nLog := nLog n'\<rparr> \<and> (\<not> b \<longrightarrow> n' = n)"
  by (induction es) (auto simp: bindR_Ok_iff truncateFrom_def Let_def split: if_splits)

lemma appendLoop_Panic: "appendLoop es n = Panic d \<Longrightarrow> d = nDisk n"
  by (induction es) (auto simp: bindR_Panic_iff split: if_splits dest: accessor_Panic)

lemma appendChecked_calm:
  assumes d: "durable C n"
  shows "calmR C snd n (appendChecked C E args reply n)"
  unfolding appendChecked_def
proof (intro calm_if calmR_read [OF d])
  show "calmR C snd n (Ok (reply\<lparr>aerConflictTerm := 0, aerConflictIndex := lastIndex n + 1\<rparr>, n))"
    using d by (simp add: durable_refl)
  fix t i
  show "calmR C snd n (Ok (reply\<lparr>aerConflictTerm := t, aerConflictIndex := i\<rparr>, n))"
    using d by (simp add: durable_refl)
next
  fix t and x :: "bool \<times> Node" assume x: "appendLoop (aeEntries args) n = Ok x"
  obtain b n1 where bn: "x = (b, n1)" by (cases x)
  have n1: "n1 = n\<lparr>nLog := nLog n1\<rparr>" "\<not> b \<Longrightarrow> n1 = n" using appendLoop_Ok [of _ n b n1] x bn by blast+
  have "calmR C (\<lambda>n. n) n (if b then persistLocked C (reWrite2 E) n1 else Ok n1)"
    using durable_persist [OF d, of n1] log_drift [of n "nLog n1"] n1 d
    by (cases b) (simp_all add: durable_refl, metis Node.select_convs(17) Node.surjective Node.update_convs(5))
  then show "calmR C snd n (case x of (changed, n1) \<Rightarrow>
      bindR (if changed then persistLocked C (reWrite2 E) n1 else Ok n1) (\<lambda>n2.
        Ok (reply\<lparr>aerSuccess := True\<rparr>,
          followerCommit (aeLeaderCommit args) (aePrevLogIndex args + int (length (aeEntries args))) n2)))"
    unfolding bn prod.case by (rule calmR_bind) (auto intro: calm_self)
qed (auto dest: accessor_Panic loop_Panic appendLoop_Panic)


lemma HandleAppendEntries_calm:
  assumes d: "durable C n"
  shows "calmR C snd n (HandleAppendEntries C E args n)"
  unfolding HandleAppendEntries_def Let_def
proof (intro calm_if calmR_bind [OF stepDown_calm [OF d]])
  fix n1 assume "calm C n n1"
  then have d1: "durable C n1" by (rule durable_calm [OF d])
  show "calmR C snd n1 (Ok (x, n1))" for x :: AppendEntriesReply using d1 by (simp add: durable_refl)
  show "calmR C snd n1 (appendChecked C E a r n1)" for a r by (rule appendChecked_calm [OF d1])
qed (use d durable_calm [OF d] in \<open>auto simp: durable_refl intro: appendChecked_calm\<close>)

lemma persistWithSnapshot_calm:
  assumes "durable C n" and "drift n n1" and "nDisk n1 = nDisk n"
  shows "calmR C (\<lambda>n. n) n (persistWithSnapshotLocked C r1 r2 snap n1)"
proof -
  have dir: "cDataDir (nCfg n1) \<noteq> []" using assms(1,2) by (simp add: durable_def drift_def)
  show ?thesis
  proof (cases "r1 = WDone")
    case True
    let ?n0 = "n\<lparr>nDisk := (nDisk n)\<lparr>dSnap := Some snap\<rparr>\<rparr>"
    let ?n1 = "n1\<lparr>nDisk := (nDisk n1)\<lparr>dSnap := Some snap\<rparr>\<rparr>"
    have "durable C ?n0" using assms(1) by (simp add: durable_def saved_def loaded_def persistentOf_def)
    moreover have "drift ?n0 ?n1" using assms(2) by (simp add: drift_def persistentOf_def)
    ultimately have "calmR C (\<lambda>n. n) ?n0 (persistLocked C r2 ?n1)" by (rule durable_persist) (simp add: assms(3))
    then show ?thesis
      using True dir by (auto simp: persistWithSnapshotLocked_def atomicWrite_def calmR_def calm_def drift_def persistentOf_def
          split: res.splits)
  next
    case False
    have "(nDisk n1)\<lparr>dSnap := dSnap (nDisk n1)\<rparr> = nDisk n" using assms(3) by simp
    then show ?thesis
      using False dir assms(1) by (cases r1) (auto simp: persistWithSnapshotLocked_def atomicWrite_def durable_def saved_def)
  qed
qed

lemma HandleInstallSnapshot_calm:
  assumes d: "durable C n"
  shows "calmR C snd n (HandleInstallSnapshot C E args n)"
  unfolding HandleInstallSnapshot_def Let_def
proof (intro calm_if calmR_bind [OF stepDown_calm [OF d]])
  fix n1 assume "calm C n n1"
  then have d1: "durable C n1" by (rule durable_calm [OF d])
  show "calmR C snd n1 (Ok (x, n1))" for x :: InstallSnapshotReply using d1 by (simp add: durable_refl)
  show "calmR C snd n1
     (bindR (if isLastIncludedIndex args \<le> lastIndex n1
             then bindR (termAt n1 (isLastIncludedIndex args)) (\<lambda>t.
                    if t = isLastIncludedTerm args then sliceFrom n1 (isLastIncludedIndex args + 1) else Ok [])
             else Ok []) (\<lambda>tail.
        bindR (persistWithSnapshotLocked C (reWrite2 E) (reWrite3 E) (isData args)
                 (n1\<lparr>nLog := sentinel (isLastIncludedIndex args) (isLastIncludedTerm args) # tail,
                     nSnapshot := Some (isData args)\<rparr>)) (\<lambda>n2.
          Ok (\<lparr>isrTerm = nTerm n1\<rparr>, n2\<lparr>nCommitIndex := isLastIncludedIndex args,
            nPending := Some (ApplySnapshot (isData args) (isLastIncludedIndex args) (isLastIncludedTerm args))\<rparr>))))"
  proof (rule calmR_read [OF d1])
    fix l
    have "drift n1 (n1\<lparr>nLog := sentinel i t # l, nSnapshot := s\<rparr>)" for i t s
      by (simp add: drift_def pstep_def persistentOf_def)
    note P = persistWithSnapshot_calm [OF d1 this]
    show "calmR C snd n1 (bindR (persistWithSnapshotLocked C (reWrite2 E) (reWrite3 E) (isData args)
                 (n1\<lparr>nLog := sentinel (isLastIncludedIndex args) (isLastIncludedTerm args) # l,
                     nSnapshot := Some (isData args)\<rparr>)) (\<lambda>n2.
          Ok (\<lparr>isrTerm = nTerm n1\<rparr>, n2\<lparr>nCommitIndex := isLastIncludedIndex args,
            nPending := Some (ApplySnapshot (isData args) (isLastIncludedIndex args) (isLastIncludedTerm args))\<rparr>)))"
      by (rule calmR_bind [OF P]) (auto intro: calm_self)
  qed (auto simp: bindR_Panic_iff split: if_splits dest: accessor_Panic)
qed (use d in \<open>simp add: durable_refl\<close>)

lemma Node_Snapshot_calm:
  assumes d: "durable C n"
  shows "calmR C (\<lambda>n. n) n (Node_Snapshot C E index snap n)"
proof -
  have dr: "drift n (n\<lparr>nLog := l, nSnapshot := s\<rparr>)" for l s by (simp add: drift_def pstep_def persistentOf_def)
  show ?thesis unfolding Node_Snapshot_def
    using d by (intro calm_if calmR_read [OF d] persistWithSnapshot_calm dr)
      (auto simp: durable_refl dest: accessor_Panic)
qed

lemma Propose_calm:
  assumes d: "durable C n"
  shows "calmR C snd n (Propose C E command n)"
  unfolding Propose_def Let_def
proof (intro calm_if calmR_bind [where f = "\<lambda>n. n"])
  show "calmR C (\<lambda>n. n) n (persistLocked C (reWrite1 E)
      (n\<lparr>nLog := nLog n @ [\<lparr>eIndex = lastIndex n + 1, eTerm = nTerm n, eCommand = Some command\<rparr>]\<rparr>))"
    using d by (intro durable_persist log_drift) simp_all
qed (use d in \<open>auto simp: durable_refl intro: calm_self\<close>)

text \<open>The reply handlers: a higher term makes the node a follower, an old reply changes nothing.\<close>

lemma step_back_calm:
  assumes "durable C n"
  shows "calmR C snd n (bindR (persistLocked C r (becomeFollowerLocked t n)) (\<lambda>n1. Ok (x, resetElectionTimerLocked E n1)))"
    and "calmR C snd n (bindR (persistLocked C r (becomeFollowerLocked t n)) (\<lambda>n1. Ok (x, n1)))"
  by (rule calmR_bind [OF durable_persist [OF assms becomeFollower_drift]], auto intro: calm_self)+

lemma advanceLoop_Ok: "advanceLoop k n = Ok n' \<Longrightarrow> n' = n\<lparr>nCommitIndex := nCommitIndex n'\<rparr>"
  by (induction k) (auto simp: Let_def bindR_Ok_iff split: if_splits)

lemma calm_advance: "advanceCommitLocked n1 = Ok n2 \<Longrightarrow> calm C n n2 = calm C n n1"
  unfolding advanceCommitLocked_def by (drule advanceLoop_Ok) (metis calm_frame(4))

lemma handleAppendReply_calm:
  assumes d: "durable C n"
  shows "calmR C snd n (handleAppendReply C E peer args reply n)"
proof -
  have adv: "calmR C snd n (bindR (advanceCommitLocked n1) (\<lambda>n2. Ok (True, n2)))"
    if "calm C n n1" "nDisk n1 = nDisk n" for n1
    using that d loop_Panic(3) [of _ n1]
    by (cases "advanceCommitLocked n1") (auto simp: calm_advance advanceCommitLocked_def durable_def saved_def)
  show ?thesis
    unfolding handleAppendReply_def Let_def
    using d by (intro calm_if step_back_calm adv calmR_read [OF d])
      (auto simp: durable_refl conflictNext_def Let_def bindR_Panic_iff split: if_splits dest: loop_Panic)
qed

lemma handleSnapshotReply_calm:
  assumes "durable C n"
  shows "calmR C snd n (handleSnapshotReply C E peer args reply n)"
  unfolding handleSnapshotReply_def Let_def
  using assms by (intro calm_if step_back_calm) (auto simp: durable_refl)

lemma applier_calm:
  assumes d: "durable C n"
  shows "calmR C snd n (applier n)"
proof (cases "nPending n")
  case None
  show ?thesis
    unfolding applier_def Let_def None option.case
    using d durable_panic [OF d] by (intro calm_if calmR_read [OF d]) (auto simp: durable_refl dest: loop_Panic)
next
  case (Some snap)
  with d show ?thesis by (auto simp: applier_def Let_def durable_refl)
qed

lemma startElection_calm:
  assumes d: "durable C n"
  shows "calmR C snd n (startElectionLocked C E n)"
  unfolding startElectionLocked_def Let_def
proof (rule calmR_bind)
  show "calmR C (\<lambda>n. n) n (persistLocked C (reWrite1 E)
      (n\<lparr>nState := Candidate, nTerm := nTerm n + 1, nVotedFor := cID (nCfg n)\<rparr>))"
    using d by (intro durable_persist) (simp_all add: drift_def pstep_def persistentOf_def)
qed (auto intro: calm_self)


section \<open>Elections and votes\<close>

lemma persistLocked_Ok: "persistLocked C r n = Ok n' \<Longrightarrow> n' = n\<lparr>nDisk := nDisk n'\<rparr>"
  by (auto simp: persistLocked_def split: if_splits option.splits prod.splits bool.splits)

lemma persistLocked_sel:
  assumes "persistLocked C r n = Ok n'"
  shows "nCfg n' = nCfg n \<and> nState n' = nState n \<and> nTerm n' = nTerm n \<and> nVotedFor n' = nVotedFor n \<and>
    nLog n' = nLog n \<and> nCommitIndex n' = nCommitIndex n \<and> nLastApplied n' = nLastApplied n \<and>
    nNextIndex n' = nNextIndex n \<and> nMatchIndex n' = nMatchIndex n \<and> nPending n' = nPending n \<and>
    nSnapshot n' = nSnapshot n"
  by (intro conjI; subst persistLocked_Ok [OF assms], simp)

lemma startElection_Ok:
  assumes "startElectionLocked C E n = Ok (args, n')"
  shows "nCfg n' = nCfg n" "nState n' = Candidate" "nTerm n' = nTerm n + 1" "nVotedFor n' = cID (nCfg n)" "nLog n' = nLog n"
    "rvTerm args = nTerm n'" "rvCandidateID args = cID (nCfg n)" "rvLastLogIndex args = lastIndex n"
    "rvLastLogTerm args = lastTerm n" "nCommitIndex n' = nCommitIndex n"
  using assms
  by (auto simp: startElectionLocked_def Let_def bindR_Ok_iff lastIndex_def lastTerm_def dest!: persistLocked_sel)

lemma HandleRequestVote_Ok:
  assumes "HandleRequestVote C E args n = Ok (reply, n')"
  shows "nLog n' = nLog n" "rvrTerm reply = nTerm n'" "nCommitIndex n' = nCommitIndex n"
    "rvrVoteGranted reply \<Longrightarrow> nTerm n' = rvTerm args \<and> nVotedFor n' = rvCandidateID args \<and>
       (rvLastLogTerm args > lastTerm n \<or> rvLastLogTerm args = lastTerm n \<and> rvLastLogIndex args \<ge> lastIndex n)"
  using assms
  by (auto simp: HandleRequestVote_def Let_def bindR_Ok_iff lastIndex_def lastTerm_def split: if_splits
      dest!: persistLocked_sel)

lemma initPeers_sel [simp]:
  "nCfg (initPeers k ps n) = nCfg n" "nState (initPeers k ps n) = nState n" "nTerm (initPeers k ps n) = nTerm n"
  "nVotedFor (initPeers k ps n) = nVotedFor n" "nLog (initPeers k ps n) = nLog n" "nDisk (initPeers k ps n) = nDisk n"
  "nCommitIndex (initPeers k ps n) = nCommitIndex n" "nLastApplied (initPeers k ps n) = nLastApplied n"
  by (induction k ps n rule: initPeers.induct) simp_all

lemma becomeLeader_calm:
  assumes "durable C n"
  shows "calmR C (\<lambda>n. n) (n\<lparr>nState := Leader\<rparr>) (becomeLeaderLocked C r n)"
proof -
  have d: "durable C (n\<lparr>nState := Leader\<rparr>)"
    using assms by (simp add: durable_def saved_def persistentOf_def)
  let ?n2 = "initPeers (lastIndex n + 1) (cPeers (nCfg n)) (n\<lparr>nState := Leader, nLeaderID := cID (nCfg n)\<rparr>)"
  have "drift (n\<lparr>nState := Leader\<rparr>) (?n2\<lparr>nLog := l\<rparr>)" for l
    by (simp add: drift_def pstep_def persistentOf_def)
  note P = durable_persist [OF d this]
  show ?thesis unfolding becomeLeaderLocked_def Let_def
    by (rule calmR_bind [where f = "\<lambda>n. n"]) (use P in \<open>auto simp: lastIndex_def intro: calm_self\<close>)
qed

lemma handleVoteReply_Ok:
  assumes "durable C n" and "handleVoteReply C E t votes reply n = Ok (votes', n')"
  shows "votes' = votes \<and> calm C n n' \<or>
    votes' = votes + 1 \<and> rvrVoteGranted reply \<and> nState n = Candidate \<and> nTerm n = t \<and>
      (n' = n \<or> votes + 1 \<ge> majority n \<and> calm C (n\<lparr>nState := Leader\<rparr>) n')"
proof -
  have down: "calm C n n'" if "bindR (persistLocked C r (becomeFollowerLocked k n)) (\<lambda>n1. Ok (votes, n1)) = Ok (votes', n')" for r k
    using step_back_calm(2) [OF assms(1), of r k votes] that by simp
  have lead: "calm C (n\<lparr>nState := Leader\<rparr>) n'" if "becomeLeaderLocked C r n = Ok n'" for r
    using becomeLeader_calm [OF assms(1), of r] that by simp
  show ?thesis
    using assms(2) down lead durable_refl [OF assms(1)]
    unfolding handleVoteReply_def by (auto simp: bindR_Ok_iff split: if_splits)
qed

lemma handleVoteReply_Panic:
  assumes "durable C n" and "handleVoteReply C E t votes reply n = Panic d"
  shows "\<exists>p. loaded C d = Some p \<and> pstep (persistentOf n) p"
proof -
  have "\<exists>p. loaded C d = Some p \<and> pstep (persistentOf n) p"
    if "bindR (persistLocked C r (becomeFollowerLocked k n)) (\<lambda>n1. Ok (votes, n1)) = Panic d" for r k
    using step_back_calm(2) [OF assms(1), of r k votes] that by simp
  moreover have "\<exists>p. loaded C d = Some p \<and> pstep (persistentOf n) p" if "becomeLeaderLocked C r n = Panic d" for r
    using becomeLeader_calm [OF assms(1), of r] that by (simp add: persistentOf_def)
  ultimately show ?thesis
    using assms(2) unfolding handleVoteReply_def by (auto simp: bindR_Panic_iff split: if_splits)
qed

text \<open>A restart reads back what was saved.\<close>

lemma applyDefaults_sel [simp]:
  "cID (applyDefaults c) = cID c" "cPeers (applyDefaults c) = cPeers c" "cDataDir (applyDefaults c) = cDataDir c"
  by (simp_all add: applyDefaults_def Let_def)

lemma applyDefaults_ok:
  "0 < cElectionTimeoutMin (applyDefaults c)" "cElectionTimeoutMin (applyDefaults c) < cElectionTimeoutMax (applyDefaults c)"
  "0 < cHeartbeatInterval (applyDefaults c)"
  by (simp_all add: applyDefaults_def Let_def)

lemma NewNode_Ok:
  assumes "NewNode C R E cfg d = Some (Ok n)" and "cDataDir cfg \<noteq> []"
  shows "loaded C d = Some (persistentOf n)" "saved C n" "nCfg n = applyDefaults cfg" "nState n = Follower"
    "nCommitIndex n = firstIndex n" "nLastApplied n = firstIndex n" "nLog n \<noteq> []" "nDisk n = d"
  using assms
  by (auto simp: NewNode_def readPersist_def Let_def bindR_Ok_iff loaded_def saved_def persistentOf_def freshState_def
      sentinel_def firstIndex_def split: option.splits if_splits)

end
