(* ===== verification/Raft_Cluster.thy ===== *)
theory Raft_Cluster
  imports Raft_Local
begin

text \<open>
  A cluster of Raft nodes as a step relation. A node is up, with its memory, or down, with its
  disk. Messages and replies stay in the network once sent: they may arrive late, twice, out of
  order or not at all. An election's goroutines are a ballot: the shared count and the peers whose
  reply has not been handled, each handled at most once. A step runs one handler of one node; a
  handler that panics takes its node down with what is on disk then; a node may crash between
  handlers and start again from its disk.
\<close>

section \<open>State\<close>

datatype peer = Up Node | Down raftDisk

record cluster =
  clPeer :: "string \<Rightarrow> peer"
  clVoteReqs :: "(string \<times> RequestVoteArgs) set"
  clVoteReps :: "(string \<times> RequestVoteArgs \<times> RequestVoteReply) set"
  clBallot :: "string \<Rightarrow> int \<Rightarrow> (int \<times> string set) option"
  clAppends :: "(string \<times> AppendEntriesArgs) set"
  clAppendReps :: "(string \<times> AppendEntriesArgs \<times> AppendEntriesReply) set"
  clInstalls :: "(string \<times> InstallSnapshotArgs) set"
  clInstallReps :: "(string \<times> InstallSnapshotArgs \<times> InstallSnapshotReply) set"
  clOutbox :: "string \<Rightarrow> ApplyMsg list"
  clApplied :: "string \<Rightarrow> ApplyMsg list"

definition setPeer :: "string \<Rightarrow> peer \<Rightarrow> cluster \<Rightarrow> cluster" where
  "setPeer i p s = s\<lparr>clPeer := (clPeer s)(i := p)\<rparr>"

text \<open>A process that ends loses its goroutines and what it has not handed over yet; the disk stays.\<close>

definition crashed :: "string \<Rightarrow> raftDisk \<Rightarrow> cluster \<Rightarrow> cluster" where
  "crashed i d s =
     (setPeer i (Down d) s)\<lparr>clBallot := (clBallot s)(i := \<lambda>_. None), clOutbox := (clOutbox s)(i := []),
       clApplied := (clApplied s)(i := [])\<rparr>"

definition settle :: "string \<Rightarrow> cluster \<Rightarrow> ('a \<Rightarrow> cluster) \<Rightarrow> 'a res \<Rightarrow> cluster" where
  "settle i s k r = (case r of Ok x \<Rightarrow> k x | Panic d \<Rightarrow> crashed i d s)"

section \<open>Steps\<close>

definition elect :: "string \<Rightarrow> RequestVoteArgs option \<times> Node \<Rightarrow> cluster \<Rightarrow> cluster" where
  "elect i x s =
     (case x of
        (None, n) \<Rightarrow> setPeer i (Up n) s
      | (Some args, n) \<Rightarrow>
          (setPeer i (Up n) s)\<lparr>clVoteReqs := clVoteReqs s \<union> (\<lambda>p. (p, args)) ` set (cPeers (nCfg n)),
            clBallot := (clBallot s)(i := (clBallot s i)(rvTerm args \<mapsto> (1, set (cPeers (nCfg n)))))\<rparr>)"

text \<open>
  \<^verbatim>\<open>sendAppendEntries\<close> gives up the lock before \<^verbatim>\<open>sendInstallSnapshot\<close> takes it again, so the second
  is a step of its own.
\<close>

definition sendAppend :: "string \<Rightarrow> sendAction \<Rightarrow> cluster \<Rightarrow> cluster" where
  "sendAppend p a s =
     (case a of
        NotLeader \<Rightarrow> s
      | SendSnapshot \<Rightarrow> s
      | SendAppend args \<Rightarrow> s\<lparr>clAppends := insert (p, args) (clAppends s)\<rparr>)"

definition outbox :: "string \<Rightarrow> applierAction \<times> Node \<Rightarrow> cluster \<Rightarrow> cluster" where
  "outbox i x s =
     (case x of
        (ApplierSend ms, n) \<Rightarrow> (setPeer i (Up n) s)\<lparr>clOutbox := (clOutbox s)(i := ms)\<rparr>
      | (_, n) \<Rightarrow> setPeer i (Up n) s)"

text \<open>The applier hands over one message; after a command it advances \<^verbatim>\<open>lastApplied\<close>.\<close>

definition handOver :: "string \<Rightarrow> ApplyMsg \<Rightarrow> ApplyMsg list \<Rightarrow> Node \<Rightarrow> cluster \<Rightarrow> cluster" where
  "handOver i m ms n s =
     (setPeer i (Up (case m of ApplyCommand c k t \<Rightarrow> applierSent k n | ApplySnapshot d k t \<Rightarrow> n)) s)
       \<lparr>clOutbox := (clOutbox s)(i := ms), clApplied := (clApplied s)(i := clApplied s i @ [m])\<rparr>"

inductive node_step :: "psCodec \<Rightarrow> string list \<Rightarrow> (string \<Rightarrow> raftConfig) \<Rightarrow> cluster \<Rightarrow> cluster \<Rightarrow> bool"
  for C :: psCodec and members :: "string list" and cfg :: "string \<Rightarrow> raftConfig" where
  Tick: "i \<in> set members \<Longrightarrow> clPeer s i = Up n \<Longrightarrow>
    node_step C members cfg s (settle i s (\<lambda>x. elect i x s) (electionLoop C E n))"
| VoteRequest: "i \<in> set members \<Longrightarrow> clPeer s i = Up n \<Longrightarrow> (i, args) \<in> clVoteReqs s \<Longrightarrow>
    node_step C members cfg s (settle i s (\<lambda>(reply, n1).
      (setPeer i (Up n1) s)\<lparr>clVoteReps := insert (i, args, reply) (clVoteReps s)\<rparr>) (HandleRequestVote C E args n))"
| VoteReply: "i \<in> set members \<Longrightarrow> clPeer s i = Up n \<Longrightarrow> (p, args, reply) \<in> clVoteReps s \<Longrightarrow> rvCandidateID args = i \<Longrightarrow>
    clBallot s i (rvTerm args) = Some (votes, waiting) \<Longrightarrow> p \<in> waiting \<Longrightarrow>
    node_step C members cfg s (settle i s (\<lambda>(votes1, n1).
      (setPeer i (Up n1) s)\<lparr>clBallot := (clBallot s)(i := (clBallot s i)(rvTerm args \<mapsto> (votes1, waiting - {p})))\<rparr>)
      (handleVoteReply C E (rvTerm args) votes reply n))"
| Proposal: "i \<in> set members \<Longrightarrow> clPeer s i = Up n \<Longrightarrow>
    node_step C members cfg s (settle i s (\<lambda>(_, n1). setPeer i (Up n1) s) (Propose C E command n))"
| Send: "i \<in> set members \<Longrightarrow> clPeer s i = Up n \<Longrightarrow> p \<in> set (cPeers (nCfg n)) \<Longrightarrow>
    node_step C members cfg s (settle i s (\<lambda>a. sendAppend p a s) (sendAppendEntries p n))"
| SendInstall: "i \<in> set members \<Longrightarrow> clPeer s i = Up n \<Longrightarrow> p \<in> set (cPeers (nCfg n)) \<Longrightarrow> sendInstallSnapshot n = Some args \<Longrightarrow>
    node_step C members cfg s (s\<lparr>clInstalls := insert (p, args) (clInstalls s)\<rparr>)"
| AppendRequest: "i \<in> set members \<Longrightarrow> clPeer s i = Up n \<Longrightarrow> (i, args) \<in> clAppends s \<Longrightarrow>
    node_step C members cfg s (settle i s (\<lambda>(reply, n1).
      (setPeer i (Up n1) s)\<lparr>clAppendReps := insert (i, args, reply) (clAppendReps s)\<rparr>) (HandleAppendEntries C E args n))"
| AppendReply: "i \<in> set members \<Longrightarrow> clPeer s i = Up n \<Longrightarrow> (p, args, reply) \<in> clAppendReps s \<Longrightarrow> aeLeaderID args = i \<Longrightarrow>
    node_step C members cfg s (settle i s (\<lambda>(_, n1). setPeer i (Up n1) s) (handleAppendReply C E p args reply n))"
| InstallRequest: "i \<in> set members \<Longrightarrow> clPeer s i = Up n \<Longrightarrow> (i, args) \<in> clInstalls s \<Longrightarrow>
    node_step C members cfg s (settle i s (\<lambda>(reply, n1).
      (setPeer i (Up n1) s)\<lparr>clInstallReps := insert (i, args, reply) (clInstallReps s)\<rparr>) (HandleInstallSnapshot C E args n))"
| InstallReply: "i \<in> set members \<Longrightarrow> clPeer s i = Up n \<Longrightarrow> (p, args, reply) \<in> clInstallReps s \<Longrightarrow> isLeaderID args = i \<Longrightarrow>
    node_step C members cfg s (settle i s (\<lambda>(_, n1). setPeer i (Up n1) s) (handleSnapshotReply C E p args reply n))"
| Applier: "i \<in> set members \<Longrightarrow> clPeer s i = Up n \<Longrightarrow> clOutbox s i = [] \<Longrightarrow>
    node_step C members cfg s (settle i s (\<lambda>x. outbox i x s) (applier n))"
| HandOver: "i \<in> set members \<Longrightarrow> clPeer s i = Up n \<Longrightarrow> clOutbox s i = m # ms \<Longrightarrow>
    node_step C members cfg s (handOver i m ms n s)"
| Stop: "i \<in> set members \<Longrightarrow> clPeer s i = Up n \<Longrightarrow> node_step C members cfg s (setPeer i (Up (Node_Stop n)) s)"
| Crash: "i \<in> set members \<Longrightarrow> clPeer s i = Up n \<Longrightarrow> node_step C members cfg s (crashed i (nDisk n) s)"
| Restart: "i \<in> set members \<Longrightarrow> clPeer s i = Down d \<Longrightarrow> NewNode C R E (cfg i) d = Some (Ok n) \<Longrightarrow>
    node_step C members cfg s (setPeer i (Up n) s)"

text \<open>The state machine's owner may also compact the log, with what it says is a snapshot at that index.\<close>

inductive raft_step :: "psCodec \<Rightarrow> string list \<Rightarrow> (string \<Rightarrow> raftConfig) \<Rightarrow> cluster \<Rightarrow> cluster \<Rightarrow> bool"
  for C :: psCodec and members :: "string list" and cfg :: "string \<Rightarrow> raftConfig" where
  Node_Step: "node_step C members cfg s s' \<Longrightarrow> raft_step C members cfg s s'"
| Compact: "i \<in> set members \<Longrightarrow> clPeer s i = Up n \<Longrightarrow>
    raft_step C members cfg s (settle i s (\<lambda>n1. setPeer i (Up n1) s) (Node_Snapshot C E index snap n))"

definition emptyDisk :: raftDisk where
  "emptyDisk = \<lparr>dState = None, dSnap = None\<rparr>"

text \<open>At first every node is down with an empty disk.\<close>

definition raft_init :: cluster where
  "raft_init =
     \<lparr>clPeer = (\<lambda>_. Down emptyDisk), clVoteReqs = {}, clVoteReps = {}, clBallot = (\<lambda>_ _. None),
      clAppends = {}, clAppendReps = {}, clInstalls = {}, clInstallReps = {},
      clOutbox = (\<lambda>_. []), clApplied = (\<lambda>_. [])\<rparr>"

inductive raft_reach :: "psCodec \<Rightarrow> string list \<Rightarrow> (string \<Rightarrow> raftConfig) \<Rightarrow> cluster \<Rightarrow> bool"
  for C :: psCodec and members :: "string list" and cfg :: "string \<Rightarrow> raftConfig" where
  Raft_Init: "raft_reach C members cfg raft_init"
| Raft_Step: "raft_reach C members cfg s \<Longrightarrow> raft_step C members cfg s s' \<Longrightarrow> raft_reach C members cfg s'"

lemma raft_reach_node: "raft_reach C members cfg s \<Longrightarrow> node_step C members cfg s s' \<Longrightarrow> raft_reach C members cfg s'"
  by (rule Raft_Step [OF _ Node_Step])

text \<open>
  The members have different, non-empty names, each is configured with its own name, a data
  directory and all the others as peers.
\<close>

definition cluster_cfg :: "string list \<Rightarrow> (string \<Rightarrow> raftConfig) \<Rightarrow> bool" where
  "cluster_cfg members cfg \<longleftrightarrow> distinct members \<and>
     (\<forall>i \<in> set members. i \<noteq> [] \<and> cID (cfg i) = i \<and> cDataDir (cfg i) \<noteq> [] \<and>
        distinct (cPeers (cfg i)) \<and> set (cPeers (cfg i)) = set members - {i})"

section \<open>Votes\<close>

definition pstate :: "psCodec \<Rightarrow> cluster \<Rightarrow> string \<Rightarrow> persistentState option" where
  "pstate C s i = (case clPeer s i of Up n \<Rightarrow> Some (persistentOf n) | Down d \<Rightarrow> loaded C d)"

text \<open>
  \<open>voted s p t c\<close>: the network shows that \<open>p\<close> voted for \<open>c\<close> in term \<open>t\<close>, by a granted vote or, for a
  candidate's own vote, by a request of its own.
\<close>

definition voted :: "cluster \<Rightarrow> string \<Rightarrow> int \<Rightarrow> string \<Rightarrow> bool" where
  "voted s p t c \<longleftrightarrow>
     (\<exists>a r. (p, a, r) \<in> clVoteReps s \<and> rvrVoteGranted r \<and> rvTerm a = t \<and> rvCandidateID a = c) \<or>
     (p = c \<and> (\<exists>q a. (q, a) \<in> clVoteReqs s \<and> rvTerm a = t \<and> rvCandidateID a = c))"

definition elected :: "string list \<Rightarrow> cluster \<Rightarrow> string \<Rightarrow> int \<Rightarrow> bool" where
  "elected members s c t \<longleftrightarrow>
     (\<exists>Q \<subseteq> set members. 2 * card Q > length members \<and> (\<forall>p \<in> Q. voted s p t c))"

definition nodes_ok :: "psCodec \<Rightarrow> string list \<Rightarrow> (string \<Rightarrow> raftConfig) \<Rightarrow> cluster \<Rightarrow> bool" where
  "nodes_ok C members cfg s \<longleftrightarrow>
     (\<forall>i \<in> set members. case clPeer s i of
        Up n \<Rightarrow> nCfg n = applyDefaults (cfg i) \<and> durable C n
      | Down d \<Rightarrow> loaded C d \<noteq> None)"

definition votes_ok :: "psCodec \<Rightarrow> string list \<Rightarrow> cluster \<Rightarrow> bool" where
  "votes_ok C members s \<longleftrightarrow>
     (\<forall>i t c. voted s i t c \<longrightarrow> i \<in> set members \<and> c \<in> set members \<and>
        (\<forall>p. pstate C s i = Some p \<longrightarrow> t < psTerm p \<or> t = psTerm p \<and> psVotedFor p = c) \<and>
        (\<forall>c'. voted s i t c' \<longrightarrow> c' = c))"

definition ballots_ok :: "(string \<Rightarrow> raftConfig) \<Rightarrow> cluster \<Rightarrow> bool" where
  "ballots_ok cfg s \<longleftrightarrow>
     (\<forall>c t v w. clBallot s c t = Some (v, w) \<longrightarrow> w \<subseteq> set (cPeers (cfg c)) \<and>
        v \<le> 1 + int (card {p \<in> set (cPeers (cfg c)) - w. voted s p t c}) \<and>
        (cPeers (cfg c) \<noteq> [] \<longrightarrow> voted s c t c))"

definition leaders_ok :: "string list \<Rightarrow> cluster \<Rightarrow> bool" where
  "leaders_ok members s \<longleftrightarrow>
     (\<forall>i \<in> set members. \<forall>n. clPeer s i = Up n \<longrightarrow> nState n = Leader \<longrightarrow> elected members s i (nTerm n))"

definition election_inv :: "psCodec \<Rightarrow> string list \<Rightarrow> (string \<Rightarrow> raftConfig) \<Rightarrow> cluster \<Rightarrow> bool" where
  "election_inv C members cfg s \<longleftrightarrow>
     nodes_ok C members cfg s \<and> votes_ok C members s \<and> ballots_ok cfg s \<and> leaders_ok members s"


section \<open>Steps keep the invariant\<close>

lemma setPeer_sel [simp]:
  "clPeer (setPeer i p s) = (clPeer s)(i := p)" "clVoteReqs (setPeer i p s) = clVoteReqs s"
  "clVoteReps (setPeer i p s) = clVoteReps s" "clBallot (setPeer i p s) = clBallot s"
  by (simp_all add: setPeer_def)

lemma crashed_sel [simp]:
  "clPeer (crashed i d s) = (clPeer s)(i := Down d)" "clVoteReqs (crashed i d s) = clVoteReqs s"
  "clVoteReps (crashed i d s) = clVoteReps s" "clBallot (crashed i d s) = (clBallot s)(i := \<lambda>_. None)"
  by (simp_all add: crashed_def)

lemma voted_mono:
  "clVoteReqs s \<subseteq> clVoteReqs s' \<Longrightarrow> clVoteReps s \<subseteq> clVoteReps s' \<Longrightarrow> voted s p t c \<Longrightarrow> voted s' p t c"
  unfolding voted_def by blast

lemma voted_cong: "clVoteReqs s' = clVoteReqs s \<Longrightarrow> clVoteReps s' = clVoteReps s \<Longrightarrow> voted s' = voted s"
  unfolding voted_def by (intro ext) simp

lemma elected_mono: "(\<And>p. voted s p t c \<Longrightarrow> voted s' p t c) \<Longrightarrow> elected members s c t \<Longrightarrow> elected members s' c t"
  unfolding elected_def by blast

lemma votes_advance:
  assumes ok: "votes_ok C members s" and "[] \<notin> set members" and "i \<in> set members"
    and p: "pstate C s i = Some p" "pstate C s' i = Some p'" "pstep p p'"
    and others: "\<And>j. j \<noteq> i \<Longrightarrow> clPeer s' j = clPeer s j"
    and old: "\<And>j t c. voted s j t c \<Longrightarrow> voted s' j t c"
    and new: "\<And>j t c. voted s' j t c \<Longrightarrow> voted s j t c \<or> j = i \<and> t = psTerm p' \<and> c = psVotedFor p' \<and> c \<in> set members"
  shows "votes_ok C members s'"
proof -
  have V: "j \<in> set members" "c \<in> set members" "pstate C s j = Some q \<Longrightarrow> t < psTerm q \<or> t = psTerm q \<and> psVotedFor q = c"
    "voted s j t c' \<Longrightarrow> c' = c" if "voted s j t c" for j t c c' q
    using ok that unfolding votes_ok_def by blast+
  have now: "t < psTerm p' \<or> t = psTerm p' \<and> psVotedFor p' = c" if "voted s i t c" for t c
  proof -
    have "c \<noteq> []" using V(2) [OF that] assms(2) by blast
    with V(3) [OF that p(1)] p(3) show ?thesis by (auto simp: pstep_def)
  qed
  have now': "t < psTerm p' \<or> t = psTerm p' \<and> psVotedFor p' = c" if "voted s' i t c" for t c
    using new [OF that] now by blast
  show ?thesis
    unfolding votes_ok_def
  proof (intro allI impI conjI)
    fix j t c assume v: "voted s' j t c"
    show "j \<in> set members" "c \<in> set members" using new [OF v] V(1,2) assms(3) by blast+
    show "t < psTerm q \<or> t = psTerm q \<and> psVotedFor q = c" if "pstate C s' j = Some q" for q
    proof (cases "j = i")
      case True
      with v that now' p(2) show ?thesis by simp
    next
      case False
      then have "voted s j t c" "pstate C s j = Some q" using new [OF v] others that by (auto simp: pstate_def)
      then show ?thesis by (rule V(3))
    qed
    show "c' = c" if v': "voted s' j t c'" for c'
    proof (cases "voted s j t c \<and> voted s j t c'")
      case True
      then show ?thesis using V(4) by blast
    next
      case False
      then have "j = i" "t = psTerm p'" using new [OF v] new [OF v'] by blast+
      then show ?thesis using now' [of t c] now' [of t c'] v v' by simp
    qed
  qed
qed

lemma ballots_mono:
  assumes "ballots_ok cfg s" and "\<And>c t x. clBallot s' c t = Some x \<Longrightarrow> clBallot s c t = Some x"
    and "\<And>p t c. voted s p t c \<Longrightarrow> voted s' p t c"
  shows "ballots_ok cfg s'"
  unfolding ballots_ok_def
proof (intro allI impI)
  fix c t v w assume "clBallot s' c t = Some (v, w)"
  then have b: "w \<subseteq> set (cPeers (cfg c))" "v \<le> 1 + int (card {p \<in> set (cPeers (cfg c)) - w. voted s p t c})"
    "cPeers (cfg c) \<noteq> [] \<Longrightarrow> voted s c t c"
    using assms(1,2) unfolding ballots_ok_def by blast+
  have "card {p \<in> set (cPeers (cfg c)) - w. voted s p t c} \<le> card {p \<in> set (cPeers (cfg c)) - w. voted s' p t c}"
    using assms(3) by (intro card_mono) auto
  with b assms(3) show "w \<subseteq> set (cPeers (cfg c)) \<and>
      v \<le> 1 + int (card {p \<in> set (cPeers (cfg c)) - w. voted s' p t c}) \<and> (cPeers (cfg c) \<noteq> [] \<longrightarrow> voted s' c t c)"
    by auto
qed

lemma election_invD:
  assumes "election_inv C members cfg s" and "i \<in> set members"
  shows "votes_ok C members s" "ballots_ok cfg s" "leaders_ok members s"
    "clPeer s i = Up n \<Longrightarrow> durable C n" "clPeer s i = Up n \<Longrightarrow> nCfg n = applyDefaults (cfg i)"
    "clPeer s i = Down d \<Longrightarrow> loaded C d \<noteq> None"
  using assms by (auto simp: election_inv_def nodes_ok_def split: peer.splits dest: bspec)

lemma nodes_ok_upd:
  "nodes_ok C members cfg s \<Longrightarrow> clPeer s' = (clPeer s)(i := P) \<Longrightarrow>
   (\<And>n. P = Up n \<Longrightarrow> nCfg n = applyDefaults (cfg i) \<and> durable C n) \<Longrightarrow> (\<And>d. P = Down d \<Longrightarrow> loaded C d \<noteq> None) \<Longrightarrow>
   nodes_ok C members cfg s'"
  by (auto simp: nodes_ok_def split: peer.splits)

text \<open>The common step: one node changes calmly and votes only for whom its new state says.\<close>

lemma node_step:
  assumes inv: "election_inv C members cfg s" and cc: "cluster_cfg members cfg"
    and i: "i \<in> set members" "clPeer s i = Up n" and calm: "calm C n n'"
    and peer: "clPeer s' = (clPeer s)(i := Up n')"
    and old: "\<And>j t c. voted s j t c \<Longrightarrow> voted s' j t c"
    and new: "\<And>j t c. voted s' j t c \<Longrightarrow> voted s j t c \<or> j = i \<and> t = nTerm n' \<and> c = nVotedFor n' \<and> c \<in> set members"
    and ballots: "ballots_ok cfg s'"
  shows "election_inv C members cfg s'"
proof -
  note I = election_invD [OF inv i(1)]
  have d: "durable C n" "nCfg n = applyDefaults (cfg i)" using I(4,5) i(2) by blast+
  have d': "durable C n'" "nCfg n' = applyDefaults (cfg i)"
    using durable_calm [OF d(1) calm] calm d(2) by (simp_all add: calm_def drift_def)
  have "nodes_ok C members cfg s'"
    by (rule nodes_ok_upd [OF _ peer]) (use inv d' in \<open>auto simp: election_inv_def\<close>)
  moreover have "votes_ok C members s'"
  proof (rule votes_advance [OF I(1)])
    show "pstate C s i = Some (persistentOf n)" "pstate C s' i = Some (persistentOf n')"
      using i(2) peer by (simp_all add: pstate_def)
    show "pstep (persistentOf n) (persistentOf n')" using calm by (simp add: calm_def drift_def)
    show "[] \<notin> set members" using cc by (auto simp: cluster_cfg_def)
  qed (use i(1) peer old new in \<open>auto simp: persistentOf_def\<close>)
  moreover have "leaders_ok members s'"
    unfolding leaders_ok_def
  proof (intro ballI allI impI)
    fix j m assume j: "j \<in> set members" "clPeer s' j = Up m" "nState m = Leader"
    have "elected members s j (nTerm m)"
      using I(3) j i peer calm unfolding leaders_ok_def
      by (cases "j = i") (auto simp: calm_def drift_def)
    then show "elected members s' j (nTerm m)" using old by (rule elected_mono [rotated])
  qed
  ultimately show ?thesis using ballots by (simp add: election_inv_def)
qed

lemma quiet_step:
  assumes "election_inv C members cfg s" and "cluster_cfg members cfg"
    and "i \<in> set members" "clPeer s i = Up n" and "calm C n n'"
    and "clPeer s' = (clPeer s)(i := Up n')"
    and same: "clVoteReqs s' = clVoteReqs s" "clVoteReps s' = clVoteReps s" "clBallot s' = clBallot s"
  shows "election_inv C members cfg s'"
proof -
  note eq = voted_cong [OF same(1,2)]
  have "ballots_ok cfg s'"
    by (rule ballots_mono [OF election_invD(2) [OF assms(1,3)]]) (simp_all add: eq same)
  then show ?thesis by (intro node_step [OF assms(1-6)]) (simp_all add: eq)
qed

lemma crash_step:
  assumes inv: "election_inv C members cfg s" and cc: "cluster_cfg members cfg" and i: "i \<in> set members"
    and p: "pstate C s i = Some p" "loaded C d = Some p'" "pstep p p'"
  shows "election_inv C members cfg (crashed i d s)"
proof -
  note I = election_invD [OF inv i]
  have eq: "voted (crashed i d s) = voted s" by (rule voted_cong) simp_all
  have "nodes_ok C members cfg (crashed i d s)"
    by (rule nodes_ok_upd [where s = s and i = i and P = "Down d"]) (use inv p in \<open>auto simp: election_inv_def\<close>)
  moreover have "votes_ok C members (crashed i d s)"
  proof (rule votes_advance [OF I(1) _ i p(1) _ p(3)])
    show "pstate C (crashed i d s) i = Some p'" using p(2) by (simp add: pstate_def)
    show "[] \<notin> set members" using cc by (auto simp: cluster_cfg_def)
  qed (simp_all add: eq)
  moreover have "ballots_ok cfg (crashed i d s)"
    by (rule ballots_mono [OF I(2)]) (auto simp: eq split: if_splits)
  moreover have "leaders_ok members (crashed i d s)"
    using I(3) by (auto simp: leaders_ok_def elected_def eq)
  ultimately show ?thesis by (simp add: election_inv_def)
qed

lemma settle_inv:
  assumes "election_inv C members cfg s" and "cluster_cfg members cfg" and "i \<in> set members" and "clPeer s i = Up n"
    and "calmR C g n r"
    and "\<And>x. r = Ok x \<Longrightarrow> calm C n (g x) \<Longrightarrow> election_inv C members cfg (k x)"
  shows "election_inv C members cfg (settle i s k r)"
proof (cases r)
  case (Ok x)
  with assms(5,6) show ?thesis by (simp add: settle_def)
next
  case (Panic d)
  have "pstate C s i = Some (persistentOf n)" using assms(4) by (simp add: pstate_def)
  with crash_step [OF assms(1-3)] Panic assms(5) show ?thesis by (auto simp: settle_def)
qed


lemma members_cfg:
  assumes "election_inv C members cfg s" and "cluster_cfg members cfg" and "i \<in> set members" and "clPeer s i = Up n"
  shows "cID (nCfg n) = i" "cPeers (nCfg n) = cPeers (cfg i)" "set (cPeers (cfg i)) = set members - {i}"
    "distinct (cPeers (cfg i))" "length members = Suc (length (cPeers (cfg i)))"
    "majority n = int (length members) div 2 + 1"
proof -
  have c: "nCfg n = applyDefaults (cfg i)" using election_invD(5) [OF assms(1,3,4)] .
  have m: "distinct members" "cID (cfg i) = i" "set (cPeers (cfg i)) = set members - {i}" "distinct (cPeers (cfg i))"
    using assms(2,3) by (simp_all add: cluster_cfg_def)
  show "cID (nCfg n) = i" "cPeers (nCfg n) = cPeers (cfg i)" "set (cPeers (cfg i)) = set members - {i}" "distinct (cPeers (cfg i))"
    using c m by simp_all
  have "length (cPeers (cfg i)) = card (set members - {i})" using m(3,4) distinct_card by metis
  then show len: "length members = Suc (length (cPeers (cfg i)))"
    using m(1) assms(3) distinct_card [OF m(1)] card_Suc_Diff1 [of "set members" i] by simp
  show "majority n = int (length members) div 2 + 1" using c len by (simp add: majority_def add.commute)
qed

lemma request_member:
  assumes "election_inv C members cfg s" and "i \<in> set members" and "(q, args) \<in> clVoteReqs s"
  shows "rvCandidateID args \<in> set members"
proof -
  have "voted s (rvCandidateID args) (rvTerm args) (rvCandidateID args)" using assms(3) unfolding voted_def by blast
  with election_invD(1) [OF assms(1,2)] show ?thesis unfolding votes_ok_def by blast
qed

lemma tick_step:
  assumes inv: "election_inv C members cfg s" and cc: "cluster_cfg members cfg"
    and i: "i \<in> set members" "clPeer s i = Up n"
  shows "election_inv C members cfg (settle i s (\<lambda>x. elect i x s) (electionLoop C E n))"
proof (rule settle_inv [OF inv cc i])
  have d: "durable C n" using election_invD(4) [OF inv i] .
  have "calmR C snd n (bindR (startElectionLocked C E n) (\<lambda>(args, n1). Ok (Some args, n1)))"
    by (rule calmR_bind [OF startElection_calm [OF d]]) (auto intro: calm_self)
  then show "calmR C snd n (electionLoop C E n)" using d by (simp add: electionLoop_def durable_refl)
  fix x assume x: "electionLoop C E n = Ok x" and calm: "calm C n (snd x)"
  obtain r n1 where rn: "x = (r, n1)" by (cases x)
  show "election_inv C members cfg (elect i x s)"
  proof (cases r)
    case None
    then show ?thesis
      using calm rn by (intro quiet_step [OF inv cc i, of n1]) (simp_all add: elect_def)
  next
    case (Some args)
    then have "startElectionLocked C E n = Ok (args, n1)"
      using x rn by (auto simp: electionLoop_def bindR_Ok_iff split: if_splits)
    note S = startElection_Ok [OF this]
    note M = members_cfg [OF inv cc i]
    let ?s = "elect i x s"
    have s: "clPeer ?s = (clPeer s)(i := Up n1)" "clVoteReps ?s = clVoteReps s"
      "clVoteReqs ?s = clVoteReqs s \<union> (\<lambda>p. (p, args)) ` set (cPeers (cfg i))"
      "clBallot ?s = (clBallot s)(i := (clBallot s i)(nTerm n1 \<mapsto> (1, set (cPeers (cfg i)))))"
      using rn Some S(1,6) M(2) by (simp_all add: elect_def)
    have old: "voted ?s j t c" if "voted s j t c" for j t c by (rule voted_mono [OF _ _ that]) (auto simp: s)
    have new: "voted s j t c \<or> j = i \<and> t = nTerm n1 \<and> c = nVotedFor n1 \<and> c \<in> set members" if "voted ?s j t c" for j t c
      using that S(4,6,7) M(1) i(1) unfolding voted_def s by auto
    have "ballots_ok cfg ?s"
      unfolding ballots_ok_def
    proof (intro allI impI)
      fix c t v w assume b: "clBallot ?s c t = Some (v, w)"
      show "w \<subseteq> set (cPeers (cfg c)) \<and> v \<le> 1 + int (card {p \<in> set (cPeers (cfg c)) - w. voted ?s p t c}) \<and>
        (cPeers (cfg c) \<noteq> [] \<longrightarrow> voted ?s c t c)"
      proof (cases "c = i \<and> t = nTerm n1")
        case True
        then have "v = 1" "w = set (cPeers (cfg i))" using b s(4) by simp_all
        moreover have "voted ?s i (nTerm n1) i" if "cPeers (cfg i) \<noteq> []"
        proof -
          have "(hd (cPeers (cfg i)), args) \<in> clVoteReqs ?s" using that s(3) by simp
          then show ?thesis using S(6,7) M(1) unfolding voted_def by blast
        qed
        ultimately show ?thesis using True by simp
      next
        case False
        then have "clBallot s c t = Some (v, w)" using b s(4) by (auto split: if_splits)
        then show ?thesis
          using ballots_mono [OF election_invD(2) [OF inv i(1)], of "?s\<lparr>clBallot := clBallot s\<rparr>"] old
          by (auto simp: ballots_ok_def voted_def)
      qed
    qed
    then show ?thesis using calm rn by (intro node_step [OF inv cc i _ s(1) old new]) simp_all
  qed
qed

lemma vote_request_step:
  assumes inv: "election_inv C members cfg s" and cc: "cluster_cfg members cfg"
    and i: "i \<in> set members" "clPeer s i = Up n" and req: "(i, args) \<in> clVoteReqs s"
  shows "election_inv C members cfg (settle i s (\<lambda>(reply, n1).
      (setPeer i (Up n1) s)\<lparr>clVoteReps := insert (i, args, reply) (clVoteReps s)\<rparr>) (HandleRequestVote C E args n))"
proof (rule settle_inv [OF inv cc i HandleRequestVote_calm [OF election_invD(4) [OF inv i]]])
  fix x assume x: "HandleRequestVote C E args n = Ok x" and calm: "calm C n (snd x)"
  obtain reply n1 where rn: "x = (reply, n1)" by (cases x)
  note G = HandleRequestVote_Ok(4) [OF x [unfolded rn]]
  let ?s = "(setPeer i (Up n1) s)\<lparr>clVoteReps := insert (i, args, reply) (clVoteReps s)\<rparr>"
  have old: "voted ?s j t c" if "voted s j t c" for j t c by (rule voted_mono [OF _ _ that]) auto
  have new: "voted s j t c \<or> j = i \<and> t = nTerm n1 \<and> c = nVotedFor n1 \<and> c \<in> set members" if "voted ?s j t c" for j t c
    using that G request_member [OF inv i(1) req] unfolding voted_def by auto
  have "ballots_ok cfg ?s"
    by (rule ballots_mono [OF election_invD(2) [OF inv i(1)]]) (simp_all add: old)
  then show "election_inv C members cfg (case x of (reply, n1) \<Rightarrow>
      (setPeer i (Up n1) s)\<lparr>clVoteReps := insert (i, args, reply) (clVoteReps s)\<rparr>)"
    using calm rn old new by (intro node_step [OF inv cc i, of n1]) simp_all
qed

lemma ballot_step:
  assumes inv: "election_inv C members cfg s" and b: "clBallot s i t = Some (v, w)" and p: "p \<in> w"
    and v': "v' = v \<or> v' = v + 1 \<and> voted s p t i"
  shows "election_inv C members cfg (s\<lparr>clBallot := (clBallot s)(i := (clBallot s i)(t \<mapsto> (v', w - {p})))\<rparr>)"
    (is "election_inv C members cfg ?s")
proof -
  have eq: "voted ?s = voted s" by (rule voted_cong) simp_all
  have B: "ballots_ok cfg s" using inv by (simp add: election_inv_def)
  have w: "w \<subseteq> set (cPeers (cfg i))" "v \<le> 1 + int (card {q \<in> set (cPeers (cfg i)) - w. voted s q t i})"
    "cPeers (cfg i) \<noteq> [] \<Longrightarrow> voted s i t i"
    using B b unfolding ballots_ok_def by blast+
  let ?A = "{q \<in> set (cPeers (cfg i)) - w. voted s q t i}" and ?B = "{q \<in> set (cPeers (cfg i)) - (w - {p}). voted s q t i}"
  have "v' \<le> 1 + int (card ?B)"
  proof (cases "voted s p t i")
    case True
    then have "?B = insert p ?A" "p \<notin> ?A" using w(1) p by auto
    then have "card ?B = Suc (card ?A)" by simp
    with v' w(2) show ?thesis by auto
  next
    case False
    then have "?B = ?A" using p by auto
    with v' w(2) False show ?thesis by simp
  qed
  then have "ballots_ok cfg ?s"
    using B w(1,3) unfolding ballots_ok_def eq by (auto split: if_splits)
  then show ?thesis
    using inv by (simp add: election_inv_def nodes_ok_def votes_ok_def leaders_ok_def elected_def pstate_def eq)
qed

lemma leader_step:
  assumes inv: "election_inv C members cfg s" and i: "i \<in> set members" "clPeer s i = Up n"
    and el: "elected members s i (nTerm n)"
  shows "election_inv C members cfg (setPeer i (Up (n\<lparr>nState := Leader\<rparr>)) s)"
proof -
  let ?s = "setPeer i (Up (n\<lparr>nState := Leader\<rparr>)) s"
  have eq: "voted ?s = voted s" by (rule voted_cong) simp_all
  have p: "pstate C ?s = pstate C s" using i(2) by (auto simp: pstate_def persistentOf_def fun_eq_iff)
  have "nodes_ok C members cfg ?s"
    by (rule nodes_ok_upd [where s = s and i = i])
      (use inv election_invD(4,5) [OF inv i] in \<open>auto simp: election_inv_def durable_def saved_def persistentOf_def\<close>)
  moreover have "leaders_ok members ?s"
    using inv el by (auto simp: election_inv_def leaders_ok_def elected_def eq)
  ultimately show ?thesis using inv by (simp add: election_inv_def votes_ok_def ballots_ok_def eq p)
qed

lemma ballot_elects:
  assumes inv: "election_inv C members cfg s" and cc: "cluster_cfg members cfg" and i: "i \<in> set members" "clPeer s i = Up n"
    and b: "clBallot s i t = Some (v, w)" and v: "majority n \<le> v" and ne: "cPeers (cfg i) \<noteq> []"
  shows "elected members s i t"
proof -
  have B: "v \<le> 1 + int (card {q \<in> set (cPeers (cfg i)) - w. voted s q t i})" "voted s i t i"
    using election_invD(2) [OF inv i(1)] b ne unfolding ballots_ok_def by blast+
  note M = members_cfg [OF inv cc i]
  let ?A = "{q \<in> set (cPeers (cfg i)) - w. voted s q t i}"
  have "i \<notin> ?A" using M(3) by auto
  then have "card (insert i ?A) = Suc (card ?A)" by simp
  then have "2 * card (insert i ?A) > length members" using B(1) v M(6) by linarith
  moreover have "insert i ?A \<subseteq> set members" using M(3) i(1) by auto
  ultimately show ?thesis using B(2) unfolding elected_def by (intro exI [of _ "insert i ?A"]) auto
qed


lemma vote_reply_step:
  assumes inv: "election_inv C members cfg s" and cc: "cluster_cfg members cfg"
    and i: "i \<in> set members" "clPeer s i = Up n"
    and reply: "(p, args, reply) \<in> clVoteReps s" "rvCandidateID args = i"
    and b: "clBallot s i (rvTerm args) = Some (votes, waiting)" "p \<in> waiting"
  shows "election_inv C members cfg (settle i s (\<lambda>(votes1, n1).
      (setPeer i (Up n1) s)\<lparr>clBallot := (clBallot s)(i := (clBallot s i)(rvTerm args \<mapsto> (votes1, waiting - {p})))\<rparr>)
      (handleVoteReply C E (rvTerm args) votes reply n))"
proof (cases "handleVoteReply C E (rvTerm args) votes reply n")
  case (Panic d)
  have "pstate C s i = Some (persistentOf n)" using i(2) by (simp add: pstate_def)
  with crash_step [OF inv cc i(1)] handleVoteReply_Panic [OF election_invD(4) [OF inv i] Panic] Panic
  show ?thesis by (auto simp: settle_def)
next
  case (Ok x)
  obtain votes1 n1 where x: "x = (votes1, n1)" by (cases x)
  note H = handleVoteReply_Ok [OF election_invD(4) [OF inv i] Ok [unfolded x]]
  let ?s1 = "s\<lparr>clBallot := (clBallot s)(i := (clBallot s i)(rvTerm args \<mapsto> (votes1, waiting - {p})))\<rparr>"
  let ?s2 = "(setPeer i (Up n1) s)\<lparr>clBallot := (clBallot s)(i := (clBallot s i)(rvTerm args \<mapsto> (votes1, waiting - {p})))\<rparr>"
  have "voted s p (rvTerm args) i" if "rvrVoteGranted reply" using reply that unfolding voted_def by blast
  then have "votes1 = votes \<or> votes1 = votes + 1 \<and> voted s p (rvTerm args) i" using H by blast
  then have inv1: "election_inv C members cfg ?s1" by (rule ballot_step [OF inv b])
  have up: "clPeer ?s1 i = Up n" using i(2) by simp
  have "election_inv C members cfg ?s2"
    using H
  proof (elim disjE conjE)
    assume "calm C n n1"
    then show ?thesis by (intro quiet_step [OF inv1 cc i(1) up]) simp_all
  next
    assume "n1 = n"
    then have "calm C n n1" using durable_refl [OF election_invD(4) [OF inv i]] by simp
    then show ?thesis by (intro quiet_step [OF inv1 cc i(1) up]) simp_all
  next
    assume win: "votes1 = votes + 1" "nTerm n = rvTerm args" "majority n \<le> votes + 1" "calm C (n\<lparr>nState := Leader\<rparr>) n1"
    have "waiting \<subseteq> set (cPeers (cfg i))"
      using election_invD(2) [OF inv i(1)] b(1) unfolding ballots_ok_def by blast
    then have "cPeers (cfg i) \<noteq> []" using b(2) by auto
    then have "elected members ?s1 i (nTerm n)"
      using ballot_elects [OF inv1 cc i(1) up, of "rvTerm args" votes1 "waiting - {p}"] win by simp
    note inv2 = leader_step [OF inv1 i(1) up this]
    show ?thesis
      by (rule quiet_step [OF inv2 cc i(1) _ win(4)]) simp_all
  qed
  with Ok x show ?thesis by (simp add: settle_def)
qed

lemma restart_step:
  assumes inv: "election_inv C members cfg s" and cc: "cluster_cfg members cfg" and rt: "ps_roundtrip C"
    and i: "i \<in> set members" "clPeer s i = Down d" and new: "NewNode C R E (cfg i) d = Some (Ok n)"
  shows "election_inv C members cfg (setPeer i (Up n) s)"
proof -
  have dir: "cDataDir (cfg i) \<noteq> []" using cc i(1) by (simp add: cluster_cfg_def)
  note N = NewNode_Ok [OF new dir]
  let ?s = "setPeer i (Up n) s"
  have eq: "voted ?s = voted s" by (rule voted_cong) simp_all
  have "pstate C ?s = pstate C s" using i(2) N(1) by (auto simp: pstate_def fun_eq_iff)
  moreover have "nodes_ok C members cfg ?s"
    by (rule nodes_ok_upd [where s = s and i = i]) (use inv N dir rt in \<open>auto simp: election_inv_def durable_def\<close>)
  moreover have "leaders_ok members ?s"
    using inv N(4) by (auto simp: election_inv_def leaders_ok_def elected_def eq)
  ultimately show ?thesis using inv by (simp add: election_inv_def votes_ok_def ballots_ok_def eq)
qed

lemma node_step_election:
  assumes "node_step C members cfg s s'" and inv: "election_inv C members cfg s"
    and cc: "cluster_cfg members cfg" and rt: "ps_roundtrip C"
  shows "election_inv C members cfg s'"
  using assms(1)
proof cases
  case (Tick i n E)
  then show ?thesis by (simp add: tick_step [OF inv cc])
next
  case (VoteRequest i n args E)
  then show ?thesis using vote_request_step [OF inv cc] by simp
next
  case (VoteReply i n p args reply votes waiting E)
  then show ?thesis using vote_reply_step [OF inv cc] by simp
next
  case (Proposal i n E command)
  show ?thesis unfolding Proposal(1)
    by (rule settle_inv [OF inv cc Proposal(2,3) Propose_calm [OF election_invD(4) [OF inv Proposal(2,3)]]])
      (auto intro!: quiet_step [OF inv cc Proposal(2,3)])
next
  case (Send i n p)
  note d = election_invD(4) [OF inv Send(2,3)]
  have "calmR C (\<lambda>_. n) n (sendAppendEntries p n)"
    using d by (cases "sendAppendEntries p n")
      (auto simp: durable_refl sendAppendEntries_def Let_def bindR_Panic_iff durable_def saved_def split: if_splits dest: accessor_Panic)
  then show ?thesis unfolding Send(1)
  proof (rule settle_inv [OF inv cc Send(2,3)])
    fix a assume "calm C n n"
    then show "election_inv C members cfg (sendAppend p a s)"
      using Send(3) by (intro quiet_step [OF inv cc Send(2,3)]) (auto simp: sendAppend_def split: sendAction.splits)
  qed
next
  case (SendInstall i n p args)
  then show ?thesis
    using durable_refl [OF election_invD(4) [OF inv SendInstall(2,3)]] by (intro quiet_step [OF inv cc SendInstall(2,3)]) auto
next
  case (AppendRequest i n args E)
  show ?thesis unfolding AppendRequest(1)
    by (rule settle_inv [OF inv cc AppendRequest(2,3) HandleAppendEntries_calm [OF election_invD(4) [OF inv AppendRequest(2,3)]]])
      (auto intro!: quiet_step [OF inv cc AppendRequest(2,3)])
next
  case (AppendReply i n p args reply E)
  show ?thesis unfolding AppendReply(1)
    by (rule settle_inv [OF inv cc AppendReply(2,3) handleAppendReply_calm [OF election_invD(4) [OF inv AppendReply(2,3)]]])
      (auto intro!: quiet_step [OF inv cc AppendReply(2,3)])
next
  case (InstallRequest i n args E)
  show ?thesis unfolding InstallRequest(1)
    by (rule settle_inv [OF inv cc InstallRequest(2,3) HandleInstallSnapshot_calm [OF election_invD(4) [OF inv InstallRequest(2,3)]]])
      (auto intro!: quiet_step [OF inv cc InstallRequest(2,3)])
next
  case (InstallReply i n p args reply E)
  show ?thesis unfolding InstallReply(1)
    by (rule settle_inv [OF inv cc InstallReply(2,3) handleSnapshotReply_calm [OF election_invD(4) [OF inv InstallReply(2,3)]]])
      (auto intro!: quiet_step [OF inv cc InstallReply(2,3)])
next
  case (Applier i n)
  show ?thesis unfolding Applier(1)
    by (rule settle_inv [OF inv cc Applier(2,3) applier_calm [OF election_invD(4) [OF inv Applier(2,3)]]])
      (auto simp: outbox_def split: applierAction.splits intro!: quiet_step [OF inv cc Applier(2,3)])
next
  case (HandOver i n m ms)
  show ?thesis unfolding HandOver(1) using durable_refl [OF election_invD(4) [OF inv HandOver(2,3)]]
    by (intro quiet_step [OF inv cc HandOver(2,3), of "case m of ApplyCommand c k t \<Rightarrow> applierSent k n | ApplySnapshot d k t \<Rightarrow> n"])
      (simp_all add: handOver_def split: ApplyMsg.splits)
next
  case (Stop i n)
  show ?thesis unfolding Stop(1) using durable_refl [OF election_invD(4) [OF inv Stop(2,3)]]
    by (intro quiet_step [OF inv cc Stop(2,3), of "Node_Stop n"]) (simp_all add: Node_Stop_def)
next
  case (Crash i n)
  have "loaded C (nDisk n) = Some (persistentOf n)" using election_invD(4) [OF inv Crash(2,3)] by (simp add: durable_def saved_def)
  with Crash show ?thesis by (auto intro!: crash_step [OF inv cc, of i "persistentOf n"] simp: pstate_def)
next
  case (Restart i d R E n)
  then show ?thesis using restart_step [OF inv cc rt] by simp
qed

lemma raft_step_election:
  assumes "raft_step C members cfg s s'" and inv: "election_inv C members cfg s"
    and cc: "cluster_cfg members cfg" and rt: "ps_roundtrip C"
  shows "election_inv C members cfg s'"
  using assms(1)
proof cases
  case Node_Step
  then show ?thesis by (rule node_step_election [OF _ inv cc rt])
next
  case (Compact i n E index snap)
  show ?thesis unfolding Compact(1)
    by (rule settle_inv [OF inv cc Compact(2,3) Node_Snapshot_calm [OF election_invD(4) [OF inv Compact(2,3)]]])
      (auto intro!: quiet_step [OF inv cc Compact(2,3)])
qed

lemma raft_reach_election:
  assumes "raft_reach C members cfg s" and "cluster_cfg members cfg" and "ps_roundtrip C"
  shows "election_inv C members cfg s"
  using assms(1)
proof induction
  case Raft_Init
  show ?case
    by (simp add: raft_init_def election_inv_def nodes_ok_def votes_ok_def ballots_ok_def leaders_ok_def voted_def
        loaded_def emptyDisk_def)
next
  case (Raft_Step s s')
  then show ?case using raft_step_election assms(2,3) by blast
qed

lemma elected_unique:
  assumes "election_inv C members cfg s" and "distinct members" and "elected members s c1 t" and "elected members s c2 t"
  shows "c1 = c2"
proof -
  obtain Q1 Q2 where Q: "Q1 \<subseteq> set members" "2 * card Q1 > length members" "\<forall>p \<in> Q1. voted s p t c1"
    "Q2 \<subseteq> set members" "2 * card Q2 > length members" "\<forall>p \<in> Q2. voted s p t c2"
    using assms(3,4) unfolding elected_def by blast
  have "Q1 \<inter> Q2 \<noteq> {}"
  proof
    assume "Q1 \<inter> Q2 = {}"
    then have "card (Q1 \<union> Q2) = card Q1 + card Q2" using Q(1,4) by (intro card_Un_disjoint) (auto intro: finite_subset)
    moreover have "card (Q1 \<union> Q2) \<le> length members"
      using Q(1,4) card_mono [of "set members" "Q1 \<union> Q2"] distinct_card [OF assms(2)] by simp
    ultimately show False using Q(2,5) by linarith
  qed
  then obtain p where "voted s p t c1" "voted s p t c2" using Q(3,6) by blast
  with assms(1) show ?thesis unfolding election_inv_def votes_ok_def by blast
qed

end
