(* ===== verification/Raft_Log.thy ===== *)
theory Raft_Log
  imports Raft_Local
begin

text \<open>
  What the handlers do to one node's log: appending a leader's entries, compacting, installing a
  snapshot, finding the commit index, and the conflict hints that move a leader back to the
  point where a follower's log agrees.
\<close>

section \<open>Entries in sequence\<close>

definition contiguous :: "int \<Rightarrow> raftEntry list \<Rightarrow> bool" where
  "contiguous p es \<longleftrightarrow> (\<forall>k < length es. eIndex (es ! k) = p + 1 + int k)"

lemma contiguous_Nil [simp]: "contiguous p []"
  by (simp add: contiguous_def)

lemma contiguous_Cons: "contiguous p (e # es) \<longleftrightarrow> eIndex e = p + 1 \<and> contiguous (p + 1) es"
  by (auto simp: contiguous_def less_Suc_eq_0_disj add.assoc [symmetric])

lemma contiguous_append: "contiguous p (xs @ ys) \<longleftrightarrow> contiguous p xs \<and> contiguous (p + int (length xs)) ys"
  by (induction xs arbitrary: p) (auto simp: contiguous_Cons ac_simps)

lemma contiguous_take: "contiguous p es \<Longrightarrow> contiguous p (take k es)"
  by (simp add: contiguous_def)

lemma contiguous_drop: "contiguous p es \<Longrightarrow> k \<le> length es \<Longrightarrow> contiguous (p + int k) (drop k es)"
  by (simp add: contiguous_def)

lemma log_ok_Cons: "log_ok n \<longleftrightarrow> (\<exists>h t. nLog n = h # t \<and> 0 \<le> eIndex h \<and> contiguous (eIndex h) t)"
proof (cases "nLog n")
  case (Cons h t)
  then show ?thesis
    by (auto simp: log_ok_def contiguous_def firstIndex_def nth_Cons less_Suc_eq_0_disj split: nat.splits)
qed (simp add: log_ok_def)

lemma log_ok_append:
  assumes "log_ok n" and "contiguous (lastIndex n) es" and "nLog n' = nLog n @ es"
  shows "log_ok n'"
proof -
  obtain h t where ht: "nLog n = h # t" "0 \<le> eIndex h" "contiguous (eIndex h) t" using assms(1) log_ok_Cons by blast
  then have "lastIndex n = eIndex h + int (length t)" using log_ok_last [OF assms(1)] by (simp add: firstIndex_def)
  with assms(2,3) ht show ?thesis unfolding log_ok_Cons by (simp add: contiguous_append)
qed

lemma log_ok_take:
  assumes "log_ok n" and "0 < k" and "nLog n' = take k (nLog n)"
  shows "log_ok n'"
  using assms by (auto simp: log_ok_Cons take_Cons' contiguous_take)

section \<open>Appending\<close>

text \<open>The specification: held entries stay as long as the terms agree; from the first one that differs the new ones replace them.\<close>

fun mergeLog :: "raftEntry list \<Rightarrow> raftEntry list \<Rightarrow> raftEntry list" where
  "mergeLog held [] = held"
| "mergeLog [] es = es"
| "mergeLog (h # held) (e # es) = (if eTerm h = eTerm e then h # mergeLog held es else e # es)"

lemma mergeLog_Nil [simp]: "mergeLog [] es = es"
  by (cases es) simp_all

lemma mergeLog_length: "length es \<le> length (mergeLog held es)"
  by (induction held es rule: mergeLog.induct) simp_all

lemma mergeLog_terms: "k < length es \<Longrightarrow> eTerm (mergeLog held es ! k) = eTerm (es ! k)"
  by (induction held es arbitrary: k rule: mergeLog.induct) (auto simp: nth_Cons split: nat.splits)

lemma mergeLog_contiguous: "contiguous p held \<Longrightarrow> contiguous p es \<Longrightarrow> contiguous p (mergeLog held es)"
  by (induction held es arbitrary: p rule: mergeLog.induct) (auto simp: contiguous_Cons)

lemma mergeLog_agree:
  "(\<And>k. k < length es \<Longrightarrow> k < length held \<Longrightarrow> eTerm (held ! k) = eTerm (es ! k)) \<Longrightarrow>
   mergeLog held es = held @ drop (length held) es"
proof (induction held es rule: mergeLog.induct)
  case (3 h held e es)
  have "eTerm (held ! k) = eTerm (es ! k)" if "k < length es" "k < length held" for k
    using "3.prems" [of "Suc k"] that by simp
  with 3 show ?case using "3.prems" [of 0] by simp
qed simp_all

text \<open>Sending the same entries again changes nothing.\<close>

lemma mergeLog_again: "mergeLog (mergeLog held es) es = mergeLog held es"
proof -
  have "mergeLog (mergeLog held es) es = mergeLog held es @ drop (length (mergeLog held es)) es"
    by (rule mergeLog_agree) (simp add: mergeLog_terms)
  then show ?thesis using mergeLog_length [of es held] by simp
qed

lemma appendLoop_merge:
  assumes "log_ok n" and "m < length (nLog n)" and "contiguous (firstIndex n + int m) es"
  shows "\<exists>b. appendLoop es n = Ok (b, n\<lparr>nLog := take (Suc m) (nLog n) @ mergeLog (drop (Suc m) (nLog n)) es\<rparr>)"
  using assms(2,3)
proof (induction es arbitrary: m)
  case Nil
  then show ?case by auto
next
  case (Cons e es)
  have e: "eIndex e = firstIndex n + int (Suc m)" "contiguous (firstIndex n + int (Suc m)) es"
    using Cons.prems(2) by (simp_all add: contiguous_Cons ac_simps)
  note L = log_ok_last [OF assms(1)]
  show ?case
  proof (cases "Suc m < length (nLog n)")
    case True
    have pos: "nat (eIndex e - firstIndex n) = Suc m" using e(1) by simp
    have le: "firstIndex n \<le> eIndex e" "eIndex e \<le> lastIndex n" using e(1) L True by simp_all
    have t: "termAt n (eIndex e) = Ok (eTerm (nLog n ! Suc m))" using termAt_Ok [OF assms(1) le] pos by simp
    have split: "drop (Suc m) (nLog n) = nLog n ! Suc m # drop (Suc (Suc m)) (nLog n)" using True Cons_nth_drop_Suc by metis
    show ?thesis
    proof (cases "eTerm (nLog n ! Suc m) = eTerm e")
      case eq: True
      have "take (Suc m) (nLog n) @ mergeLog (drop (Suc m) (nLog n)) (e # es) =
          take (Suc (Suc m)) (nLog n) @ mergeLog (drop (Suc (Suc m)) (nLog n)) es"
        using eq split take_Suc_conv_app_nth [OF True] by simp
      with Cons.IH [OF True e(2)] t le eq show ?thesis by simp
    next
      case False
      have "truncateFrom n (eIndex e) = Ok (n\<lparr>nLog := take (Suc m) (nLog n)\<rparr>)"
        using truncateFrom_Ok [OF assms(1) le(1)] le(2) pos by simp
      with t le False split show ?thesis by auto
    qed
  next
    case False
    then have "\<not> eIndex e \<le> lastIndex n" "drop (Suc m) (nLog n) = []" "take (Suc m) (nLog n) = nLog n"
      using e(1) L Cons.prems(1) by simp_all
    then show ?thesis by auto
  qed
qed

lemma merged_ok:
  assumes "log_ok n" and "m < length (nLog n)" and "contiguous (firstIndex n + int m) es"
    and "nLog n' = take (Suc m) (nLog n) @ mergeLog (drop (Suc m) (nLog n)) es"
  shows "log_ok n'" "firstIndex n' = firstIndex n"
proof -
  obtain h t where ht: "nLog n = h # t" "0 \<le> eIndex h" "contiguous (eIndex h) t" using assms(1) log_ok_Cons by blast
  have len: "m \<le> length t" using assms(2) ht(1) by simp
  then have "contiguous (eIndex h + int m) (mergeLog (drop m t) es)"
    using assms(3) ht by (intro mergeLog_contiguous contiguous_drop) (simp_all add: firstIndex_def)
  with len have "contiguous (eIndex h) (take m t @ mergeLog (drop m t) es)"
    using contiguous_take [OF ht(3), of m] by (simp add: contiguous_append)
  with ht assms(4) show "log_ok n'" unfolding log_ok_Cons by simp
  show "firstIndex n' = firstIndex n" using assms(4) ht(1) by (simp add: firstIndex_def)
qed


section \<open>HandleAppendEntries\<close>

lemma log_ok_cong: "nLog n' = nLog n \<Longrightarrow> log_ok n' = log_ok n"
  by (simp add: log_ok_Cons)

lemma index_cong:
  "nLog n' = nLog n \<Longrightarrow> firstIndex n' = firstIndex n" "nLog n' = nLog n \<Longrightarrow> lastIndex n' = lastIndex n"
  "nLog n' = nLog n \<Longrightarrow> lastTerm n' = lastTerm n"
  by (simp_all add: firstIndex_def lastIndex_def lastTerm_def)

lemma stepDown_Ok:
  assumes "stepDown C E t l n = Ok n1"
  shows "nLog n1 = nLog n" "nTerm n1 = max t (nTerm n)" "nState n1 = Follower" "nCommitIndex n1 = nCommitIndex n"
    "nCfg n1 = nCfg n" "nLastApplied n1 = nLastApplied n"
proof -
  have "nLastApplied (becomeFollowerLocked t n) = nLastApplied n" by (simp add: becomeFollowerLocked_def Let_def)
  then show "nLog n1 = nLog n" "nTerm n1 = max t (nTerm n)" "nState n1 = Follower" "nCommitIndex n1 = nCommitIndex n"
    "nCfg n1 = nCfg n" "nLastApplied n1 = nLastApplied n"
    using assms by (auto simp: stepDown_def bindR_Ok_iff max_def split: if_splits dest!: persistLocked_sel)
qed

text \<open>The environment of a working disk.\<close>

definition disk_works :: "psCodec \<Rightarrow> renv \<Rightarrow> bool" where
  "disk_works C E \<longleftrightarrow> (\<forall>ps. ps_encode C ps \<noteq> None) \<and> reWrite1 E = WDone \<and> reWrite2 E = WDone \<and> reWrite3 E = WDone"

lemma persist_works: "\<forall>ps. ps_encode C ps \<noteq> None \<Longrightarrow> \<exists>n'. persistLocked C WDone n = Ok n'"
proof -
  assume "\<forall>ps. ps_encode C ps \<noteq> None"
  then obtain bs where "ps_encode C (persistentOf n) = Some bs" by blast
  then show ?thesis by (simp add: persistLocked_def atomicWrite_def)
qed

lemma stepDown_works: "disk_works C E \<Longrightarrow> \<exists>n1. stepDown C E t l n = Ok n1"
  using persist_works [of C "becomeFollowerLocked t n"] by (auto simp: stepDown_def disk_works_def)

lemma conflictStart_Ok:
  assumes "log_ok n" and "k < length (nLog n)"
  shows "\<exists>i. conflictStart n t k = Ok i \<and> firstIndex n \<le> i \<and> i \<le> firstIndex n + int k \<and> (k > 0 \<longrightarrow> firstIndex n < i) \<and>
    (\<forall>j. i \<le> j \<and> j < firstIndex n + int k \<longrightarrow> termAt n j = Ok t)"
  using assms(2)
proof (induction k)
  case 0
  then show ?case by auto
next
  case (Suc k)
  note L = log_ok_last [OF assms(1)]
  show ?case
  proof (cases "k = 0")
    case True
    then show ?thesis by auto
  next
    case k: False
    have t: "termAt n (firstIndex n + int k) = Ok (eTerm (nLog n ! k))"
      using termAt_Ok [OF assms(1), of "firstIndex n + int k"] L Suc.prems by simp
    have run: "conflictStart n t (Suc k) =
        (if eTerm (nLog n ! k) = t then conflictStart n t k else Ok (firstIndex n + int (Suc k)))"
      using t k by simp
    show ?thesis
    proof (cases "eTerm (nLog n ! k) = t")
      case True
      obtain i where i: "conflictStart n t k = Ok i" "firstIndex n \<le> i" "i \<le> firstIndex n + int k" "firstIndex n < i"
        "\<forall>j. i \<le> j \<and> j < firstIndex n + int k \<longrightarrow> termAt n j = Ok t"
        using Suc.IH Suc.prems k by auto
      have "termAt n j = Ok t" if "i \<le> j" "j < firstIndex n + int (Suc k)" for j
      proof (cases "j = firstIndex n + int k")
        case False
        with that i(5) show ?thesis by simp
      qed (use t True in simp)
      with i run True show ?thesis by (intro exI [of _ i]) (simp del: conflictStart.simps)
    next
      case False
      with run show ?thesis by (intro exI [of _ "firstIndex n + int (Suc k)"]) (auto simp del: conflictStart.simps)
    qed
  qed
qed

text \<open>After the window is shifted to the boundary: position of the previous entry, and the entries.\<close>

definition windowPos :: "AppendEntriesArgs \<Rightarrow> Node \<Rightarrow> nat" where
  "windowPos args n = nat (aePrevLogIndex args - firstIndex n)"

definition windowEntries :: "AppendEntriesArgs \<Rightarrow> Node \<Rightarrow> raftEntry list" where
  "windowEntries args n = drop (nat (firstIndex n - aePrevLogIndex args)) (aeEntries args)"

definition appendLog :: "AppendEntriesArgs \<Rightarrow> Node \<Rightarrow> raftEntry list" where
  "appendLog args n =
     (let m = windowPos args n in take (Suc m) (nLog n) @ mergeLog (drop (Suc m) (nLog n)) (windowEntries args n))"

text \<open>Success means that the previous entry agrees, or lies below the snapshot boundary.\<close>

definition prevAgrees :: "AppendEntriesArgs \<Rightarrow> Node \<Rightarrow> bool" where
  "prevAgrees args n \<longleftrightarrow> aePrevLogIndex args < firstIndex n \<or> termAt n (aePrevLogIndex args) = Ok (aePrevLogTerm args)"

lemma appendChecked_run:
  assumes ok: "log_ok n" and p: "firstIndex n \<le> aePrevLogIndex args" and es: "contiguous (aePrevLogIndex args) (aeEntries args)"
  shows "(\<exists>reply'. appendChecked C E args reply n = Ok (reply', n) \<and> aerSuccess reply' = aerSuccess reply \<and>
        termAt n (aePrevLogIndex args) \<noteq> Ok (aePrevLogTerm args)) \<or>
    (\<exists>b. appendChecked C E args reply n =
        bindR (if b then persistLocked C (reWrite2 E) (n\<lparr>nLog := appendLog args n\<rparr>) else Ok (n\<lparr>nLog := appendLog args n\<rparr>)) (\<lambda>n2.
          Ok (reply\<lparr>aerSuccess := True\<rparr>,
            followerCommit (aeLeaderCommit args) (aePrevLogIndex args + int (length (aeEntries args))) n2))) \<and>
      termAt n (aePrevLogIndex args) = Ok (aePrevLogTerm args)"
proof -
  note L = log_ok_last [OF ok]
  let ?p = "aePrevLogIndex args" and ?m = "windowPos args n"
  have w: "windowEntries args n = aeEntries args" "firstIndex n + int ?m = ?p"
    using p by (simp_all add: windowEntries_def windowPos_def)
  show ?thesis
  proof (cases "?p > lastIndex n")
    case True
    then have "termAt n ?p \<noteq> Ok (aePrevLogTerm args)" using p L by (simp add: termAt_def entryAt_def)
    with True show ?thesis by (simp add: appendChecked_def)
  next
    case False
    then have t: "termAt n ?p = Ok (eTerm (nLog n ! ?m))" and m: "?m < length (nLog n)"
      using termAt_Ok [OF ok p] p L by (simp_all add: windowPos_def)
    show ?thesis
    proof (cases "eTerm (nLog n ! ?m) = aePrevLogTerm args")
      case True
      obtain b where "appendLoop (aeEntries args) n = Ok (b, n\<lparr>nLog := appendLog args n\<rparr>)"
        using appendLoop_merge [OF ok m, of "aeEntries args"] es w by (auto simp: appendLog_def Let_def)
      with True t False show ?thesis by (auto simp: appendChecked_def intro!: exI [of _ b])
    next
      case ne: False
      obtain i where "conflictStart n (eTerm (nLog n ! ?m)) ?m = Ok i" using conflictStart_Ok [OF ok m] by blast
      with ne t False show ?thesis by (simp add: appendChecked_def windowPos_def)
    qed
  qed
qed


lemma persist_run_log:
  assumes "bindR (if b then persistLocked C r n1 else Ok n1) (\<lambda>n2. Ok (x, followerCommit c l n2)) = Ok (reply, n')"
  shows "reply = x" "nLog n' = nLog n1"
  using assms by (auto simp: bindR_Ok_iff followerCommit_def split: if_splits dest!: persistLocked_sel)

lemma HandleAppendEntries_run:
  assumes ok: "log_ok n" and es: "contiguous (aePrevLogIndex args) (aeEntries args)" and t: "nTerm n \<le> aeTerm args"
    and s: "stepDown C E (aeTerm args) (aeLeaderID args) n = Ok n1"
  shows "(\<exists>reply. HandleAppendEntries C E args n = Ok (reply, n1) \<and> \<not> aerSuccess reply \<and> \<not> prevAgrees args n) \<or>
    (\<exists>reply. HandleAppendEntries C E args n = Ok (reply, n1) \<and> aerSuccess reply \<and> prevAgrees args n \<and> nLog n = appendLog args n) \<or>
    (\<exists>b reply c l. aerSuccess reply \<and> prevAgrees args n \<and> HandleAppendEntries C E args n =
       bindR (if b then persistLocked C (reWrite2 E) (n1\<lparr>nLog := appendLog args n\<rparr>) else Ok (n1\<lparr>nLog := appendLog args n\<rparr>)) (\<lambda>n2.
         Ok (reply, followerCommit c l n2)))"
proof -
  note S = stepDown_Ok [OF s]
  have ok1: "log_ok n1" using ok log_ok_cong [OF S(1)] by simp
  note ix = index_cong [OF S(1)]
  have term1: "termAt n1 i = Ok u \<longleftrightarrow> termAt n i = Ok u" for i u
    using S(1) ix by (simp add: termAt_def entryAt_def Let_def bindR_Ok_iff)
  let ?p = "aePrevLogIndex args" and ?r = "\<lparr>aerTerm = nTerm n, aerSuccess = False, aerConflictTerm = 0, aerConflictIndex = 0\<rparr>\<lparr>aerTerm := nTerm n1\<rparr>"
  show ?thesis
  proof (cases "?p < firstIndex n")
    case False
    have H: "HandleAppendEntries C E args n = appendChecked C E args ?r n1"
      using t s False ix by (simp add: HandleAppendEntries_def Let_def)
    have "appendLog args n1 = appendLog args n"
      using S(1) ix by (simp add: appendLog_def windowPos_def windowEntries_def)
    moreover have "firstIndex n1 \<le> ?p" using False ix by simp
    note run = appendChecked_run [OF ok1 this es, of C E ?r, folded H, unfolded term1 calculation]
    have pa: "prevAgrees args n \<longleftrightarrow> termAt n ?p = Ok (aePrevLogTerm args)" using False by (simp add: prevAgrees_def)
    show ?thesis
    proof (cases "prevAgrees args n")
      case True
      then obtain b where b: "HandleAppendEntries C E args n =
          bindR (if b then persistLocked C (reWrite2 E) (n1\<lparr>nLog := appendLog args n\<rparr>) else Ok (n1\<lparr>nLog := appendLog args n\<rparr>)) (\<lambda>n2.
            Ok (?r\<lparr>aerSuccess := True\<rparr>, followerCommit (aeLeaderCommit args) (?p + int (length (aeEntries args))) n2))"
        using run pa by (elim disjE exE conjE) simp_all
      have "aerSuccess (?r\<lparr>aerSuccess := True\<rparr>)" by simp
      with b True show ?thesis by blast
    next
      case ne: False
      then obtain x where "HandleAppendEntries C E args n = Ok (x, n1)" "aerSuccess x = aerSuccess ?r"
        using run pa by (elim disjE exE conjE) simp_all
      moreover have "\<not> aerSuccess ?r" by simp
      ultimately show ?thesis using ne by blast
    qed
  next
    case True
    let ?cut = "firstIndex n - ?p"
    have pa: "prevAgrees args n" using True by (simp add: prevAgrees_def)
    show ?thesis
    proof (cases "?cut > int (length (aeEntries args))")
      case cut: True
      have "HandleAppendEntries C E args n = Ok (?r\<lparr>aerSuccess := True\<rparr>, n1)"
        using t s True cut ix by (simp add: HandleAppendEntries_def Let_def)
      moreover have "appendLog args n = nLog n" using True cut by (simp add: appendLog_def windowEntries_def windowPos_def)
      ultimately show ?thesis using pa by simp
    next
      case cut: False
      define a where "a = args\<lparr>aeEntries := drop (nat ?cut) (aeEntries args), aePrevLogIndex := firstIndex n, aePrevLogTerm := eTerm (hd (nLog n))\<rparr>"
      have H: "HandleAppendEntries C E args n = appendChecked C E a ?r n1"
        using t s True cut ix S(1) by (simp add: HandleAppendEntries_def Let_def a_def)
      have c: "contiguous (aePrevLogIndex a) (aeEntries a)"
        using contiguous_drop [OF es, of "nat ?cut"] True cut by (simp add: a_def)
      have first: "firstIndex n1 \<le> aePrevLogIndex a" using ix by (simp add: a_def)
      have log: "appendLog a n1 = appendLog args n"
        using S(1) ix True by (simp add: appendLog_def windowPos_def windowEntries_def a_def)
      have "termAt n1 (firstIndex n) = Ok (eTerm (hd (nLog n)))"
        using termAt_Ok [OF ok1, of "firstIndex n"] ix log_ok_last [OF ok] S(1) ok by (simp add: hd_conv_nth log_ok_def)
      then have "termAt n1 (aePrevLogIndex a) = Ok (aePrevLogTerm a)" by (simp add: a_def)
      then obtain b where "HandleAppendEntries C E args n =
          bindR (if b then persistLocked C (reWrite2 E) (n1\<lparr>nLog := appendLog args n\<rparr>) else Ok (n1\<lparr>nLog := appendLog args n\<rparr>)) (\<lambda>n2.
            Ok (?r\<lparr>aerSuccess := True\<rparr>,
              followerCommit (aeLeaderCommit a) (aePrevLogIndex a + int (length (aeEntries a))) n2))"
        using appendChecked_run [OF ok1 first c, of C E ?r, folded H, unfolded log] by (elim disjE exE conjE) simp_all
      moreover have "aerSuccess (?r\<lparr>aerSuccess := True\<rparr>)" by simp
      ultimately show ?thesis using pa by blast
    qed
  qed
qed

lemma appendLog_ok:
  assumes ok: "log_ok n" and es: "contiguous (aePrevLogIndex args) (aeEntries args)" and pa: "prevAgrees args n"
    and n': "nLog n' = appendLog args n"
  shows "log_ok n'" "firstIndex n' = firstIndex n" "windowPos args n < length (nLog n)"
proof -
  note L = log_ok_last [OF ok]
  show m: "windowPos args n < length (nLog n)"
    using pa ok by (auto simp: prevAgrees_def windowPos_def termAt_def entryAt_def Let_def log_ok_def split: if_splits)
  have w: "contiguous (firstIndex n + int (windowPos args n)) (windowEntries args n)"
  proof (cases "aePrevLogIndex args < firstIndex n")
    case False
    with es show ?thesis by (simp add: windowPos_def windowEntries_def)
  next
    case True
    show ?thesis
    proof (cases "nat (firstIndex n - aePrevLogIndex args) \<le> length (aeEntries args)")
      case le: True
      with contiguous_drop [OF es le] True show ?thesis by (simp add: windowPos_def windowEntries_def)
    qed (simp add: windowEntries_def)
  qed
  show "log_ok n'" "firstIndex n' = firstIndex n"
    using merged_ok [OF ok m w, of n'] n' by (simp_all add: appendLog_def Let_def)
qed

lemma HandleAppendEntries_Ok:
  assumes ok: "log_ok n" and es: "contiguous (aePrevLogIndex args) (aeEntries args)"
    and r: "HandleAppendEntries C E args n = Ok (reply, n')"
  shows "log_ok n'" "aerSuccess reply \<Longrightarrow> nTerm n \<le> aeTerm args \<and> prevAgrees args n \<and> nLog n' = appendLog args n"
    "\<not> aerSuccess reply \<Longrightarrow> nLog n' = nLog n"
proof -
  have "log_ok n' \<and> (aerSuccess reply \<longrightarrow> nTerm n \<le> aeTerm args \<and> prevAgrees args n \<and> nLog n' = appendLog args n) \<and>
    (\<not> aerSuccess reply \<longrightarrow> nLog n' = nLog n)"
  proof (cases "aeTerm args < nTerm n")
    case True
    with r ok show ?thesis by (auto simp: HandleAppendEntries_def Let_def)
  next
    case False
    then obtain n1 where n1: "stepDown C E (aeTerm args) (aeLeaderID args) n = Ok n1"
      using r by (auto simp: HandleAppendEntries_def Let_def bindR_Ok_iff)
    note S = stepDown_Ok [OF n1]
    have t: "nTerm n \<le> aeTerm args" using False by simp
    from HandleAppendEntries_run [OF ok es t n1] show ?thesis
    proof (elim disjE exE conjE)
      fix b x c l
      assume x: "aerSuccess x" "prevAgrees args n" "HandleAppendEntries C E args n =
        bindR (if b then persistLocked C (reWrite2 E) (n1\<lparr>nLog := appendLog args n\<rparr>) else Ok (n1\<lparr>nLog := appendLog args n\<rparr>)) (\<lambda>n2.
          Ok (x, followerCommit c l n2))"
      then have "reply = x" "nLog n' = appendLog args n" using persist_run_log [OF x(3) [unfolded r, symmetric]] by simp_all
      with x t appendLog_ok(1) [OF ok es x(2)] show ?thesis by simp
    qed (use r S(1) ok t log_ok_cong [OF S(1)] in auto)
  qed
  then show "log_ok n'" "aerSuccess reply \<Longrightarrow> nTerm n \<le> aeTerm args \<and> prevAgrees args n \<and> nLog n' = appendLog args n"
    "\<not> aerSuccess reply \<Longrightarrow> nLog n' = nLog n" by blast+
qed

text \<open>With a working disk the handler returns: no index is out of range.\<close>

lemma HandleAppendEntries_works:
  assumes ok: "log_ok n" and es: "contiguous (aePrevLogIndex args) (aeEntries args)" and d: "disk_works C E"
  shows "\<exists>reply n'. HandleAppendEntries C E args n = Ok (reply, n')"
proof (cases "aeTerm args < nTerm n")
  case True
  then show ?thesis by (simp add: HandleAppendEntries_def Let_def)
next
  case False
  obtain n1 where n1: "stepDown C E (aeTerm args) (aeLeaderID args) n = Ok n1" using stepDown_works [OF d] by blast
  have t: "nTerm n \<le> aeTerm args" using False by simp
  from HandleAppendEntries_run [OF ok es t n1] show ?thesis
  proof (elim disjE exE conjE)
    fix b x c l
    assume x: "HandleAppendEntries C E args n =
      bindR (if b then persistLocked C (reWrite2 E) (n1\<lparr>nLog := appendLog args n\<rparr>) else Ok (n1\<lparr>nLog := appendLog args n\<rparr>)) (\<lambda>n2.
        Ok (x, followerCommit c l n2))"
    obtain n2 where "persistLocked C (reWrite2 E) (n1\<lparr>nLog := appendLog args n\<rparr>) = Ok n2"
      using d persist_works [of C "n1\<lparr>nLog := appendLog args n\<rparr>"] by (auto simp: disk_works_def)
    with x show ?thesis by (cases b) simp_all
  qed blast+
qed

text \<open>What the merged log holds.\<close>

lemma appendLog_entries:
  assumes ok: "log_ok n" and es: "contiguous (aePrevLogIndex args) (aeEntries args)" and pa: "prevAgrees args n"
    and n': "nLog n' = appendLog args n" and e: "e \<in> set (aeEntries args)" "firstIndex n < eIndex e"
  shows "termAt n' (eIndex e) = Ok (eTerm e)"
proof -
  note A = appendLog_ok [OF ok es pa n']
  obtain k where k: "k < length (aeEntries args)" "e = aeEntries args ! k" using e(1) by (metis in_set_conv_nth)
  then have ie: "eIndex e = aePrevLogIndex args + 1 + int k" using es by (simp add: contiguous_def)
  let ?c = "nat (firstIndex n - aePrevLogIndex args)" and ?m = "windowPos args n"
  have ck: "?c \<le> k" using ie e(2) by linarith
  have pos: "nat (eIndex e - firstIndex n') = Suc ?m + (k - ?c)"
    using ie ck e(2) A(2) by (simp add: windowPos_def)
  have w: "k - ?c < length (windowEntries args n)" "windowEntries args n ! (k - ?c) = e"
    using k ck by (simp_all add: windowEntries_def)
  let ?M = "mergeLog (drop (Suc ?m) (nLog n)) (windowEntries args n)"
  have len: "length (take (Suc ?m) (nLog n)) = Suc ?m" using A(3) by simp
  have nth: "nLog n' ! (Suc ?m + (k - ?c)) = ?M ! (k - ?c)"
    unfolding n' appendLog_def Let_def using len by (simp add: nth_append)
  have "eTerm (nLog n' ! (Suc ?m + (k - ?c))) = eTerm e" unfolding nth using mergeLog_terms [OF w(1)] w(2) by simp
  moreover have "Suc ?m + (k - ?c) < length (nLog n')"
    using mergeLog_length [of "windowEntries args n" "drop (Suc ?m) (nLog n)"] w(1) len
    unfolding n' appendLog_def Let_def by simp
  ultimately show ?thesis
    using pos e(2) A(2) by (auto simp: termAt_def entryAt_def Let_def nat_less_iff)
qed

lemma appendLog_keeps:
  assumes ok: "log_ok n" and es: "contiguous (aePrevLogIndex args) (aeEntries args)" and pa: "prevAgrees args n"
    and n': "nLog n' = appendLog args n" and i: "firstIndex n \<le> i" "i \<le> max (firstIndex n) (aePrevLogIndex args)"
  shows "entryAt n' i = Ok (nLog n ! nat (i - firstIndex n))"
proof -
  note A = appendLog_ok [OF ok es pa n']
  let ?m = "windowPos args n"
  have k: "nat (i - firstIndex n) < Suc ?m" using i by (simp add: windowPos_def)
  have len: "length (take (Suc ?m) (nLog n)) = Suc ?m" using A(3) by simp
  have "nat (i - firstIndex n) < length (nLog n')" "nLog n' ! nat (i - firstIndex n) = nLog n ! nat (i - firstIndex n)"
    unfolding n' appendLog_def Let_def using k len by (simp_all add: nth_append)
  then show ?thesis using i(1) A(2) by (auto simp: entryAt_def Let_def nat_less_iff)
qed


section \<open>The leader's commit index\<close>

text \<open>An index the leader may commit: above the commit index, of its own term, and on a majority.\<close>

definition commitable :: "Node \<Rightarrow> int \<Rightarrow> int \<Rightarrow> bool" where
  "commitable n hi i \<longleftrightarrow> nCommitIndex n < i \<and> firstIndex n < i \<and> i \<le> hi \<and>
     (\<forall>j. i \<le> j \<and> j \<le> hi \<longrightarrow> termAt n j = Ok (nTerm n)) \<and> matchCount i n \<ge> majority n"

definition best_commit :: "Node \<Rightarrow> int \<Rightarrow> int \<Rightarrow> bool" where
  "best_commit n hi c \<longleftrightarrow>
     (commitable n hi c \<or> c = nCommitIndex n) \<and> (\<forall>i. commitable n hi i \<longrightarrow> i \<le> c)"

lemma advanceLoop_Ok_best:
  assumes ok: "log_ok n" and "k < length (nLog n)"
  shows "\<exists>c. advanceLoop k n = Ok (n\<lparr>nCommitIndex := c\<rparr>) \<and> best_commit n (firstIndex n + int k) c"
  using assms(2)
proof (induction k)
  case 0
  then show ?case by (intro exI [of _ "nCommitIndex n"]) (auto simp: best_commit_def commitable_def)
next
  case (Suc k)
  let ?i = "firstIndex n + int (Suc k)"
  obtain c where c: "advanceLoop k n = Ok (n\<lparr>nCommitIndex := c\<rparr>)" "best_commit n (firstIndex n + int k) c"
    using Suc by auto
  have t: "termAt n ?i = Ok (eTerm (nLog n ! Suc k))"
    using termAt_Ok [OF ok, of ?i] log_ok_last [OF ok] Suc.prems by (simp add: nat_add_distrib)
  have low: "i \<le> ?i" if "commitable n ?i i" for i using that by (simp add: commitable_def)
  have hi: "termAt n ?i = Ok (nTerm n)" if "commitable n ?i i" for i using that by (auto simp: commitable_def)
  have down: "commitable n ?i i \<longleftrightarrow> commitable n (firstIndex n + int k) i"
    if "termAt n ?i = Ok (nTerm n)" "\<not> (nCommitIndex n < ?i \<and> matchCount ?i n \<ge> majority n)" for i
  proof -
    have "j \<le> ?i \<longleftrightarrow> j = ?i \<or> j \<le> firstIndex n + int k" for j by auto
    with that show ?thesis unfolding commitable_def by fastforce
  qed
  consider (below) "?i \<le> nCommitIndex n" | (other) "nCommitIndex n < ?i" "eTerm (nLog n ! Suc k) \<noteq> nTerm n"
    | (win) "nCommitIndex n < ?i" "eTerm (nLog n ! Suc k) = nTerm n" "matchCount ?i n \<ge> majority n"
    | (more) "nCommitIndex n < ?i" "eTerm (nLog n ! Suc k) = nTerm n" "matchCount ?i n < majority n" by linarith
  then show ?case
  proof cases
    case below
    then have "advanceLoop (Suc k) n = Ok (n\<lparr>nCommitIndex := nCommitIndex n\<rparr>)" by simp
    moreover have "best_commit n ?i (nCommitIndex n)" using below by (auto simp: best_commit_def commitable_def)
    ultimately show ?thesis by blast
  next
    case other
    then have "advanceLoop (Suc k) n = Ok (n\<lparr>nCommitIndex := nCommitIndex n\<rparr>)" using t by simp
    moreover have "best_commit n ?i (nCommitIndex n)" using other t hi by (auto simp: best_commit_def)
    ultimately show ?thesis by blast
  next
    case win
    then have "advanceLoop (Suc k) n = Ok (n\<lparr>nCommitIndex := ?i\<rparr>)" using t by simp
    moreover have "commitable n ?i ?i" using win t by (auto simp: commitable_def)
    ultimately show ?thesis using low unfolding best_commit_def by blast
  next
    case more
    then have "advanceLoop (Suc k) n = Ok (n\<lparr>nCommitIndex := c\<rparr>)" using t c(1) by simp
    moreover have "best_commit n ?i c" using c(2) down t more by (simp add: best_commit_def)
    ultimately show ?thesis by blast
  qed
qed

lemma advanceCommit_best:
  assumes "log_ok n"
  shows "\<exists>c. advanceCommitLocked n = Ok (n\<lparr>nCommitIndex := c\<rparr>) \<and> best_commit n (lastIndex n) c"
proof -
  have "nLog n \<noteq> []" using assms by (simp add: log_ok_def)
  then have k: "nat (lastIndex n - firstIndex n) < length (nLog n)"
      "firstIndex n + int (nat (lastIndex n - firstIndex n)) = lastIndex n"
    using log_ok_last [OF assms] by (cases "nLog n"; simp)+
  show ?thesis using advanceLoop_Ok_best [OF assms k(1)] unfolding k(2) advanceCommitLocked_def .
qed

section \<open>Compaction\<close>

lemma compact_log:
  assumes ok: "log_ok n" and i: "firstIndex n < i" "i \<le> lastIndex n"
    and n': "nLog n' = sentinel i (eTerm (nLog n ! nat (i - firstIndex n))) # drop (Suc (nat (i - firstIndex n))) (nLog n)"
  shows "log_ok n'" "firstIndex n' = i" "lastIndex n' = lastIndex n" "lastTerm n' = lastTerm n"
    "i \<le> j \<Longrightarrow> j \<le> lastIndex n \<Longrightarrow> termAt n' j = termAt n j"
    "i < j \<Longrightarrow> j \<le> lastIndex n \<Longrightarrow> entryAt n' j = entryAt n j"
proof -
  note L = log_ok_last [OF ok]
  define m where "m = nat (i - firstIndex n)"
  have m: "0 < m" "m < length (nLog n)" "int m = i - firstIndex n" using i L by (simp_all add: m_def)
  have n'm: "nLog n' = sentinel i (eTerm (nLog n ! m)) # drop (Suc m) (nLog n)" using n' by (simp add: m_def)
  have "eIndex (nLog n ! (Suc m + k)) = i + 1 + int k" if "Suc m + k < length (nLog n)" for k
    using ok that m(3) by (simp add: log_ok_def)
  then have "contiguous i (drop (Suc m) (nLog n))" by (simp add: contiguous_def)
  moreover have "0 \<le> i" using ok i(1) by (simp add: log_ok_def)
  ultimately show ok': "log_ok n'" unfolding log_ok_Cons n'm by (simp add: sentinel_def)
  show first: "firstIndex n' = i" by (simp add: firstIndex_def n'm sentinel_def)
  have len: "length (nLog n') = length (nLog n) - m" using m(2) n'm by simp
  show last: "lastIndex n' = lastIndex n" using log_ok_last [OF ok'] first L len m by simp
  have nth: "nLog n' ! k = nLog n ! (m + k)" if "0 < k" "k < length (nLog n')" for k
    using that n'm m(2) by (simp add: nth_Cons')
  have tm: "eTerm (nLog n' ! k) = eTerm (nLog n ! (m + k))" if "k < length (nLog n')" for k
    using nth [of k] that n'm by (cases k) (simp_all add: sentinel_def)
  have pos: "nat (j - firstIndex n) = m + nat (j - i)" "nat (j - i) < length (nLog n')" if "i \<le> j" "j \<le> lastIndex n" for j
    using that m len L by linarith+
  show "lastTerm n' = lastTerm n"
    using tm [of "length (nLog n') - 1"] len m(2) ok ok' by (simp add: lastTerm_def last_conv_nth log_ok_def)
  show "termAt n' j = termAt n j" if "i \<le> j" "j \<le> lastIndex n"
    using termAt_Ok [OF ok', of j] termAt_Ok [OF ok, of j] that i first last tm [OF pos(2) [OF that]] pos(1) [OF that] by simp
  show "entryAt n' j = entryAt n j" if "i < j" "j \<le> lastIndex n"
  proof -
    have j: "i \<le> j" using that by simp
    show ?thesis
      using entryAt_Ok [OF ok', of j] entryAt_Ok [OF ok, of j] that i first last nth [OF _ pos(2) [OF j that(2)]] pos(1) [OF j that(2)]
      by simp
  qed
qed

lemma Node_Snapshot_run:
  assumes ok: "log_ok n" and i: "firstIndex n < i" "i \<le> nLastApplied n" "i \<le> lastIndex n"
  shows "Node_Snapshot C E i snap n = persistWithSnapshotLocked C (reWrite1 E) (reWrite2 E) snap
    (n\<lparr>nLog := sentinel i (eTerm (nLog n ! nat (i - firstIndex n))) # drop (Suc (nat (i - firstIndex n))) (nLog n),
       nSnapshot := Some snap\<rparr>)"
proof -
  have "nat (i + 1 - firstIndex n) = Suc (nat (i - firstIndex n))" using i(1) by simp
  then show ?thesis
    using i termAt_Ok [OF ok, of i] sliceFrom_Ok [OF ok, of "i + 1"] by (simp add: Node_Snapshot_def)
qed

lemma persistWithSnapshot_Ok:
  assumes "persistWithSnapshotLocked C r1 r2 snap n = Ok n'"
  shows "n' = n\<lparr>nDisk := nDisk n'\<rparr>" "cDataDir (nCfg n) \<noteq> [] \<Longrightarrow> dSnap (nDisk n') = Some snap"
  using assms
  by (auto simp: persistWithSnapshotLocked_def persistLocked_def atomicWrite_def
      split: if_splits option.splits prod.splits bool.splits writeResult.splits)

lemma persistLocked_file:
  "persistLocked C r n = Ok n' \<Longrightarrow> cDataDir (nCfg n) \<noteq> [] \<Longrightarrow> \<exists>bs. dState (nDisk n') = Some bs"
  by (cases r; cases "ps_encode C (persistentOf n)") (auto simp: persistLocked_def atomicWrite_def)

lemma persistWithSnapshot_file:
  assumes "persistWithSnapshotLocked C r1 r2 snap n = Ok n'" and "cDataDir (nCfg n) \<noteq> []"
  shows "\<exists>bs. dState (nDisk n') = Some bs"
proof -
  have "persistLocked C r2 (n\<lparr>nDisk := (nDisk n)\<lparr>dSnap := Some snap\<rparr>\<rparr>) = Ok n'"
    using assms by (cases r1) (auto simp: persistWithSnapshotLocked_def atomicWrite_def)
  then show ?thesis by (rule persistLocked_file) (simp add: assms(2))
qed

section \<open>Conflict hints\<close>

lemma lastOfTerm_Ok:
  assumes ok: "log_ok n" and "k < length (nLog n)"
  shows "\<exists>l. lastOfTerm n t k = Ok l \<and> (l = 0 \<or> firstIndex n < l \<and> l \<le> firstIndex n + int k \<and> termAt n l = Ok t)"
  using assms(2)
proof (induction k)
  case (Suc k)
  have t: "termAt n (firstIndex n + int (Suc k)) = Ok (eTerm (nLog n ! Suc k))"
    using termAt_Ok [OF ok, of "firstIndex n + int (Suc k)"] log_ok_last [OF ok] Suc.prems by (simp add: nat_add_distrib)
  obtain l where l: "lastOfTerm n t k = Ok l" "l = 0 \<or> firstIndex n < l \<and> l \<le> firstIndex n + int k \<and> termAt n l = Ok t"
    using Suc by auto
  show ?case
  proof (cases "eTerm (nLog n ! Suc k) = t")
    case True
    with t show ?thesis by (intro exI [of _ "firstIndex n + int (Suc k)"]) simp
  next
    case False
    with t l show ?thesis by (cases "eTerm (nLog n ! Suc k) < t") (auto intro!: exI [of _ l])
  qed
qed simp

text \<open>The index a leader retries from is lower than before, or at its snapshot boundary.\<close>

lemma conflictNext_lower:
  assumes ok: "log_ok n" and hint: "aerConflictIndex reply < next"
    and none: "\<And>j. next - 1 \<le> j \<Longrightarrow> termAt n j \<noteq> Ok (aerConflictTerm reply)"
  shows "\<exists>i. conflictNext reply n = Ok i \<and> 1 \<le> i \<and> (i < next \<or> i = max 1 (firstIndex n))"
proof -
  have "nLog n \<noteq> []" using ok by (simp add: log_ok_def)
  then have k: "nat (lastIndex n - firstIndex n) < length (nLog n)" using log_ok_last [OF ok] by (cases "nLog n") simp_all
  obtain l where l: "lastOfTerm n (aerConflictTerm reply) (nat (lastIndex n - firstIndex n)) = Ok l"
    "l = 0 \<or> termAt n l = Ok (aerConflictTerm reply)" using lastOfTerm_Ok [OF ok k] by blast
  have "l = 0 \<or> l + 1 < next" using l(2) none [of l] by (cases "next - 1 \<le> l") auto
  with l(1) hint show ?thesis by (auto simp: conflictNext_def Let_def max_def)
qed


lemma appendLog_extends:
  assumes ok: "log_ok n" and es: "contiguous (aePrevLogIndex args) (aeEntries args)" and pa: "prevAgrees args n"
    and agree: "\<forall>e \<in> set (aeEntries args). firstIndex n < eIndex e \<and> eIndex e \<le> lastIndex n \<longrightarrow> termAt n (eIndex e) = Ok (eTerm e)"
  shows "\<exists>new. appendLog args n = nLog n @ new"
proof -
  let ?m = "windowPos args n" and ?c = "nat (firstIndex n - aePrevLogIndex args)" and ?w = "windowEntries args n"
  have "eTerm (drop (Suc ?m) (nLog n) ! k) = eTerm (?w ! k)" if k: "k < length ?w" "k < length (drop (Suc ?m) (nLog n))" for k
  proof -
    let ?e = "aeEntries args ! (?c + k)"
    have k2: "Suc ?m + k < length (nLog n)" using k(2) by simp
    have c: "?c + k < length (aeEntries args)" "?w ! k = ?e" using k(1) by (simp_all add: windowEntries_def)
    have ie: "eIndex ?e = aePrevLogIndex args + 1 + int (?c + k)" using es c(1) by (simp add: contiguous_def)
    have pos: "nat (eIndex ?e - firstIndex n) = Suc ?m + k" unfolding ie windowPos_def by linarith
    have range: "firstIndex n < eIndex ?e" "eIndex ?e \<le> lastIndex n"
      using pos k2 log_ok_last [OF ok] by linarith+
    have "termAt n (eIndex ?e) = Ok (eTerm (nLog n ! (Suc ?m + k)))"
      using termAt_Ok [OF ok, of "eIndex ?e"] range pos by simp
    moreover have "termAt n (eIndex ?e) = Ok (eTerm ?e)" using agree range c(1) by simp
    ultimately show ?thesis using c(2) k(2) by simp
  qed
  then have "mergeLog (drop (Suc ?m) (nLog n)) ?w = drop (Suc ?m) (nLog n) @ drop (length (drop (Suc ?m) (nLog n))) ?w"
    by (intro mergeLog_agree) blast
  then show ?thesis unfolding appendLog_def Let_def by (metis append_assoc append_take_drop_id)
qed

lemma sliceFrom_contiguous:
  assumes ok: "log_ok n" and s: "sliceFrom n i = Ok es" and i: "firstIndex n < i"
  shows "contiguous (i - 1) es"
proof -
  have e: "es = drop (nat (i - firstIndex n)) (nLog n)" using s by (auto simp: sliceFrom_def Let_def split: if_splits)
  have "eIndex (nLog n ! (nat (i - firstIndex n) + k)) = i + int k" if "nat (i - firstIndex n) + k < length (nLog n)" for k
    using ok that i by (simp add: log_ok_def)
  then show ?thesis unfolding e contiguous_def by simp
qed

lemma sendAppendEntries_args:
  assumes ok: "log_ok n" and s: "sendAppendEntries p n = Ok (SendAppend args)"
  shows "nState n = Leader" "firstIndex n < intAt (nNextIndex n) p" "aePrevLogIndex args = intAt (nNextIndex n) p - 1"
    "aeTerm args = nTerm n" "termAt n (aePrevLogIndex args) = Ok (aePrevLogTerm args)"
    "contiguous (aePrevLogIndex args) (aeEntries args)"
  using s sliceFrom_contiguous [OF ok]
  by (auto simp: sendAppendEntries_def Let_def bindR_Ok_iff split: if_splits)

text \<open>A follower's hint points at or below the index the leader asked about.\<close>

lemma HandleAppendEntries_hint:
  assumes ok: "log_ok f" and r: "HandleAppendEntries C E args f = Ok (reply, f')" and "\<not> aerSuccess reply"
    and t: "nTerm f \<le> aeTerm args"
  shows "aerConflictIndex reply \<le> aePrevLogIndex args"
proof -
  obtain n1 where n1: "stepDown C E (aeTerm args) (aeLeaderID args) f = Ok n1"
    using r t by (auto simp: HandleAppendEntries_def Let_def bindR_Ok_iff)
  note S = stepDown_Ok [OF n1]
  have ok1: "log_ok n1" using ok log_ok_cong [OF S(1)] by simp
  have hint: "aerConflictIndex y \<le> aePrevLogIndex a"
    if a: "appendChecked C E a x n1 = Ok (y, f')" "\<not> aerSuccess y" "firstIndex n1 \<le> aePrevLogIndex a" for a x y
  proof (cases "aePrevLogIndex a > lastIndex n1")
    case True
    with a show ?thesis by (auto simp: appendChecked_def)
  next
    case False
    let ?k = "nat (aePrevLogIndex a - firstIndex n1)"
    have "?k < length (nLog n1)" using False a(3) log_ok_last [OF ok1] ok1 by (simp add: log_ok_def)
    note K = conflictStart_Ok [OF ok1 this]
    obtain u where u: "termAt n1 (aePrevLogIndex a) = Ok u" using termAt_Ok [OF ok1 a(3)] False by auto
    show ?thesis
    proof (cases "u = aePrevLogTerm a")
      case True
      with u False a(1) have "aerSuccess y" by (auto simp: appendChecked_def bindR_Ok_iff)
      with a(2) show ?thesis by simp
    next
      case ne: False
      obtain i where i: "conflictStart n1 u ?k = Ok i" "i \<le> firstIndex n1 + int ?k" using K [of u] by blast
      with u False ne a(1) have "aerConflictIndex y = i" by (auto simp: appendChecked_def)
      with i(2) a(3) show ?thesis by simp
    qed
  qed
  show ?thesis
  proof (cases "aePrevLogIndex args < firstIndex n1")
    case False
    then show ?thesis using r n1 t hint assms(3) by (simp add: HandleAppendEntries_def Let_def)
  next
    case True
    let ?cut = "firstIndex n1 - aePrevLogIndex args"
    have "termAt n1 (firstIndex n1) = Ok (eTerm (hd (nLog n1)))"
      using termAt_Ok [OF ok1, of "firstIndex n1"] log_ok_last [OF ok1] ok1 by (simp add: hd_conv_nth log_ok_def)
    then have succ: "aerSuccess y" if "appendChecked C E a x n1 = Ok (y, f')" "aePrevLogIndex a = firstIndex n1"
        "aePrevLogTerm a = eTerm (hd (nLog n1))" for a x y
      using that log_ok_last [OF ok1] ok1 by (auto simp: appendChecked_def bindR_Ok_iff log_ok_def)
    have "aerSuccess reply"
    proof (cases "?cut > int (length (aeEntries args))")
      case True
      then show ?thesis using r n1 t \<open>aePrevLogIndex args < firstIndex n1\<close> by (auto simp: HandleAppendEntries_def Let_def)
    next
      case False
      then have "appendChecked C E (args\<lparr>aeEntries := drop (nat ?cut) (aeEntries args), aePrevLogIndex := firstIndex n1,
          aePrevLogTerm := eTerm (hd (nLog n1))\<rparr>) (\<lparr>aerTerm = nTerm n1, aerSuccess = False, aerConflictTerm = 0, aerConflictIndex = 0\<rparr>) n1
          = Ok (reply, f')"
        using r n1 t True by (simp add: HandleAppendEntries_def Let_def)
      then show ?thesis by (rule succ) simp_all
    qed
    with assms(3) show ?thesis by simp
  qed
qed

end
