(* ===== verification/Raft_History.thy ===== *)
theory Raft_History
  imports Raft_Log
begin

text \<open>
  Raft without snapshots, messages and crashes: the abstract system that the cluster is shown to
  implement. A node has a term and its whole log from index 1 on. The history keeps, for each
  term, the log of its leader and the log it started with; for each vote, the voter's log at
  that time; and what each node has acknowledged to the leader of a term.

  An entry is committed when a majority has acknowledged it to the leader of its own term. Leader
  completeness: the leader of every later term has it. It is proved from the history alone.
\<close>

section \<open>Logs\<close>

type_synonym rlog = "raftEntry list"

text \<open>The term at an index, 0 at index 0.\<close>

definition tm :: "rlog \<Rightarrow> nat \<Rightarrow> int" where
  "tm l k = (if k = 0 then 0 else eTerm (l ! (k - 1)))"

definition log_in :: "int \<Rightarrow> rlog \<Rightarrow> bool" where
  "log_in T l \<longleftrightarrow> contiguous 0 l \<and> sorted (map eTerm l) \<and> (\<forall>e \<in> set l. 1 \<le> eTerm e \<and> eTerm e \<le> T)"

definition older :: "rlog \<Rightarrow> rlog \<Rightarrow> bool" where
  "older v w \<longleftrightarrow> tm v (length v) < tm w (length w) \<or>
     tm v (length v) = tm w (length w) \<and> length v \<le> length w"

text \<open>Taking over a leader's log up to \<open>e\<close>: nothing changes if it is there.\<close>

definition adopt :: "nat \<Rightarrow> rlog \<Rightarrow> rlog \<Rightarrow> rlog" where
  "adopt e l x = (if take e x = take e l then x else take e l)"

lemma tm_Suc [simp]: "tm l (Suc k) = eTerm (l ! k)" "tm l 0 = 0"
  by (simp_all add: tm_def)

lemma tm_take [simp]: "k \<le> e \<Longrightarrow> tm (take e l) k = tm l k"
  by (auto simp: tm_def)

lemma tm_append [simp]: "k \<le> length l \<Longrightarrow> tm (l @ r) k = tm l k"
  by (auto simp: tm_def nth_append)

lemma tm_prefix: "take e x = take e l \<Longrightarrow> k \<le> e \<Longrightarrow> tm x k = tm l k"
  by (metis tm_take)

lemma take_le: "take e x = take e l \<Longrightarrow> k \<le> e \<Longrightarrow> take k x = take k l"
proof -
  assume "take e x = take e l" and "k \<le> e"
  then have "take k (take e x) = take k (take e l)" by simp
  with \<open>k \<le> e\<close> show ?thesis by (simp add: min_absorb1)
qed

lemma take_of_take: "x = take n l \<Longrightarrow> k \<le> n \<Longrightarrow> take k x = take k l"
  by (simp add: min_absorb1)

lemma log_in_mono: "log_in T l \<Longrightarrow> T \<le> U \<Longrightarrow> log_in U l"
  by (force simp: log_in_def)

lemma log_in_take: "log_in T l \<Longrightarrow> log_in T (take e l)"
  unfolding log_in_def
  by (auto simp: contiguous_take take_map [symmetric] sorted_wrt_take dest: in_set_takeD)

lemma log_in_Nil [simp]: "log_in T []"
  by (simp add: log_in_def)

lemma log_in_append:
  "log_in T (l @ r) \<longleftrightarrow> log_in T l \<and> contiguous (int (length l)) r \<and> sorted (map eTerm r) \<and>
     (\<forall>e \<in> set r. 1 \<le> eTerm e \<and> eTerm e \<le> T) \<and> (\<forall>e \<in> set l. \<forall>f \<in> set r. eTerm e \<le> eTerm f)"
  by (auto simp: log_in_def contiguous_append sorted_append)

lemma log_in_snoc:
  "log_in T l \<Longrightarrow> 1 \<le> T \<Longrightarrow> eIndex e = int (length l) + 1 \<Longrightarrow> eTerm e = T \<Longrightarrow> log_in T (l @ [e])"
  unfolding log_in_append by (auto simp: contiguous_Cons log_in_def)

lemma log_in_term_le: "log_in T l \<Longrightarrow> j \<le> k \<Longrightarrow> k < length l \<Longrightarrow> eTerm (l ! j) \<le> eTerm (l ! k)"
  by (auto simp: log_in_def sorted_iff_nth_mono)

lemma log_in_nth: "log_in T l \<Longrightarrow> k < length l \<Longrightarrow> 1 \<le> eTerm (l ! k) \<and> eTerm (l ! k) \<le> T"
  by (auto simp: log_in_def)

lemma log_in_tm: "log_in T l \<Longrightarrow> 0 \<le> T \<Longrightarrow> k \<le> length l \<Longrightarrow> 0 \<le> tm l k \<and> tm l k \<le> T"
  using log_in_nth [of T l "k - 1"] by (cases k) auto

lemma adopt_take: "take e (adopt e l x) = take e l"
  by (simp add: adopt_def)

lemma adopt_keeps: "take j x = take j l \<Longrightarrow> take j (adopt e l x) = take j x"
  by (cases "j \<le> e") (auto simp: adopt_def min_def dest: take_le [of _ _ _ e])

lemma adopt_log_in: "log_in T l \<Longrightarrow> log_in T x \<Longrightarrow> log_in T (adopt e l x)"
  by (simp add: adopt_def log_in_take)

section \<open>History\<close>

record history =
  hFull :: "string \<Rightarrow> rlog"
  hTerm :: "string \<Rightarrow> int"
  hLog :: "int \<Rightarrow> rlog option"
  hBase :: "int \<Rightarrow> rlog"
  hVote :: "int \<Rightarrow> string \<Rightarrow> rlog option"
  hAck :: "(string \<times> int \<times> nat) set"

definition hist_init :: history where
  "hist_init = \<lparr>hFull = (\<lambda>_. []), hTerm = (\<lambda>_. 0), hLog = (\<lambda>_. None), hBase = (\<lambda>_. []),
     hVote = (\<lambda>_ _. None), hAck = {}\<rparr>"

definition quorum :: "string list \<Rightarrow> string set \<Rightarrow> bool" where
  "quorum members Q \<longleftrightarrow> Q \<subseteq> set members \<and> 2 * card Q > length members"

text \<open>Every entry of the log came from the leader of its term, with everything before it.\<close>

definition traced :: "history \<Rightarrow> rlog \<Rightarrow> bool" where
  "traced H l \<longleftrightarrow> (\<forall>k < length l. \<exists>l'. hLog H (eTerm (l ! k)) = Some l' \<and> k < length l' \<and> take (Suc k) l = take (Suc k) l')"

definition acked :: "history \<Rightarrow> string \<Rightarrow> int \<Rightarrow> nat \<Rightarrow> bool" where
  "acked H p T m \<longleftrightarrow> (\<exists>m' \<ge> m. (p, T, m') \<in> hAck H)"

definition committed :: "string list \<Rightarrow> history \<Rightarrow> int \<Rightarrow> nat \<Rightarrow> bool" where
  "committed members H T m \<longleftrightarrow>
     (\<exists>l. hLog H T = Some l \<and> 0 < m \<and> m \<le> length l \<and> tm l m = T) \<and>
     (\<exists>Q. quorum members Q \<and> (\<forall>p \<in> Q. acked H p T m))"

text \<open>A sequence of entries that the leaders up to term \<open>T\<close> have committed.\<close>

definition agreed :: "string list \<Rightarrow> history \<Rightarrow> int \<Rightarrow> rlog \<Rightarrow> bool" where
  "agreed members H T x \<longleftrightarrow> x = [] \<or>
     (\<exists>T0 m l. T0 \<le> T \<and> committed members H T0 m \<and> hLog H T0 = Some l \<and> length x \<le> m \<and> x = take (length x) l)"

text \<open>
  The log \<open>x\<close> still has what was acknowledged to the leader of term \<open>T\<close>, unless a leader of a term
  before \<open>T'\<close> did not have it.
\<close>

definition held :: "history \<Rightarrow> int \<Rightarrow> nat \<Rightarrow> int \<Rightarrow> rlog \<Rightarrow> bool" where
  "held H T m T' x \<longleftrightarrow>
     (\<exists>l. hLog H T = Some l \<and> m \<le> length l \<and>
        (take m x = take m l \<or> (\<exists>U u. T < U \<and> U < T' \<and> hLog H U = Some u \<and> take m u \<noteq> take m l)))"

definition term_log_ok :: "string list \<Rightarrow> history \<Rightarrow> int \<Rightarrow> rlog \<Rightarrow> bool" where
  "term_log_ok members H T l \<longleftrightarrow> 1 \<le> T \<and> log_in T l \<and> traced H l \<and>
     length (hBase H T) < length l \<and> hBase H T = take (length (hBase H T)) l \<and>
     (\<forall>k < length l. if k < length (hBase H T) then eTerm (l ! k) < T else eTerm (l ! k) = T) \<and>
     (\<exists>Q. quorum members Q \<and> (\<forall>p \<in> Q. \<exists>v. hVote H T p = Some v \<and> older v (hBase H T)))"

definition hist_inv :: "string list \<Rightarrow> history \<Rightarrow> bool" where
  "hist_inv members H \<longleftrightarrow>
     (\<forall>T l. hLog H T = Some l \<longrightarrow> term_log_ok members H T l) \<and>
     (\<forall>i. 0 \<le> hTerm H i \<and> log_in (hTerm H i) (hFull H i) \<and> traced H (hFull H i)) \<and>
     (\<forall>T p v. hVote H T p = Some v \<longrightarrow> T \<le> hTerm H p \<and> log_in T v) \<and>
     (\<forall>p T m. acked H p T m \<longrightarrow> T \<le> hTerm H p \<and> held H T m (hTerm H p + 1) (hFull H p) \<and>
        (\<forall>T' v. T < T' \<longrightarrow> hVote H T' p = Some v \<longrightarrow> held H T m T' v))"

lemma hist_init_inv: "hist_inv members hist_init"
  by (simp add: hist_inv_def hist_init_def traced_def acked_def)

lemma quorum_meet:
  assumes "distinct members" and "quorum members P" and "quorum members Q"
  shows "\<exists>p. p \<in> P \<and> p \<in> Q"
proof (rule ccontr)
  assume "\<not> ?thesis"
  then have "card (P \<union> Q) = card P + card Q"
    using assms by (intro card_Un_disjoint) (auto simp: quorum_def intro: finite_subset)
  moreover have "card (P \<union> Q) \<le> length members"
    using assms card_mono [of "set members" "P \<union> Q"] distinct_card [OF assms(1)] by (simp add: quorum_def)
  ultimately show False using assms(2,3) by (simp add: quorum_def)
qed

section \<open>Log matching\<close>

lemma log_matching:
  assumes "traced H x" and "traced H y" and "k \<le> length x" and "k \<le> length y" and "tm x k = tm y k"
  shows "take k x = take k y"
proof (cases k)
  case (Suc j)
  then obtain l where "hLog H (eTerm (x ! j)) = Some l" "take k x = take k l"
    using assms(1,3) unfolding traced_def by (metis Suc_le_eq)
  moreover obtain l' where "hLog H (eTerm (y ! j)) = Some l'" "take k y = take k l'"
    using assms(2,4) Suc unfolding traced_def by (metis Suc_le_eq)
  ultimately show ?thesis using assms(5) Suc by simp
qed simp

lemma traced_take: "traced H l \<Longrightarrow> traced H (take e l)"
  by (auto simp: traced_def min_def)

lemma adopt_traced: "traced H l \<Longrightarrow> traced H x \<Longrightarrow> traced H (adopt e l x)"
  by (simp add: adopt_def traced_take)

text \<open>What the append handler does to a log that agrees with the leader's up to \<open>q\<close>.\<close>

lemma merge_adopt:
  assumes "traced H x" and "traced H l" and "e \<le> length l"
  shows "q \<le> e \<Longrightarrow> q \<le> length x \<Longrightarrow> take q x = take q l \<Longrightarrow>
    take q x @ mergeLog (drop q x) (drop q (take e l)) = adopt e l x"
proof (induction "e - q" arbitrary: q)
  case 0
  then have "e = q" by simp
  with 0 append_take_drop_id [of q x] show ?case by (simp add: adopt_def)
next
  case (Suc d)
  then have q: "q < e" by simp
  have es: "drop q (take e l) = l ! q # drop (Suc q) (take e l)"
    using q assms(3) by (simp add: Cons_nth_drop_Suc [symmetric])
  have ad: "take q l @ l ! q # drop (Suc q) (take e l) = take e l"
    using append_take_drop_id [of q "take e l"] q es by (simp add: min_def)
  show ?case
  proof (cases "q < length x \<and> eTerm (x ! q) = eTerm (l ! q)")
    case True
    have tq: "take (Suc q) x = take (Suc q) l"
      by (rule log_matching [OF assms(1,2)]) (use True q assms(3) in auto)
    then have "x ! q = l ! q" using nth_take [of q "Suc q" x] nth_take [of q "Suc q" l] by simp
    moreover have "take (Suc q) x @ mergeLog (drop (Suc q) x) (drop (Suc q) (take e l)) = adopt e l x"
      by (rule Suc.hyps(1)) (use Suc.hyps(2) q True tq in auto)
    moreover have "drop q x = x ! q # drop (Suc q) x" using True by (simp add: Cons_nth_drop_Suc)
    ultimately show ?thesis using True by (simp add: es take_Suc_conv_app_nth)
  next
    case False
    have "take e x \<noteq> take e l"
    proof
      assume "take e x = take e l"
      then have eq: "take (Suc q) x = take (Suc q) l" by (rule take_le) (use q in simp)
      moreover have "length (take (Suc q) l) = Suc q" using q assms(3) by simp
      ultimately have "length (take (Suc q) x) = Suc q" by simp
      then have "q < length x" by (simp add: min_def split: if_splits)
      moreover have "x ! q = l ! q" using eq nth_take [of q "Suc q" x] nth_take [of q "Suc q" l] by simp
      ultimately show False using False by simp
    qed
    moreover have "mergeLog (drop q x) (drop q (take e l)) = drop q (take e l)"
      using False by (cases "q < length x") (auto simp: es Cons_nth_drop_Suc [symmetric])
    ultimately show ?thesis using Suc.prems(3) ad es by (simp add: adopt_def)
  qed
qed


section \<open>Leader completeness\<close>

lemma hist_invD:
  assumes "hist_inv members H"
  shows "hLog H T = Some l \<Longrightarrow> term_log_ok members H T l"
    and "0 \<le> hTerm H i" and "log_in (hTerm H i) (hFull H i)" and "traced H (hFull H i)"
    and "hVote H T p = Some v \<Longrightarrow> T \<le> hTerm H p" and "hVote H T p = Some v \<Longrightarrow> log_in T v"
    and "acked H p T m \<Longrightarrow> T \<le> hTerm H p" and "acked H p T m \<Longrightarrow> held H T m (hTerm H p + 1) (hFull H p)"
    and "acked H p T m \<Longrightarrow> T < T' \<Longrightarrow> hVote H T' p = Some v \<Longrightarrow> held H T m T' v"
  using assms unfolding hist_inv_def by blast+

lemma term_logD:
  assumes "hist_inv members H" and "hLog H T = Some l"
  shows "1 \<le> T" "log_in T l" "traced H l" "length (hBase H T) < length l" "hBase H T = take (length (hBase H T)) l"
    "k < length (hBase H T) \<Longrightarrow> eTerm (l ! k) < T" "length (hBase H T) \<le> k \<Longrightarrow> k < length l \<Longrightarrow> eTerm (l ! k) = T"
    "\<exists>Q. quorum members Q \<and> (\<forall>p \<in> Q. \<exists>v. hVote H T p = Some v \<and> older v (hBase H T))"
proof -
  have L: "term_log_ok members H T l" using hist_invD(1) [OF assms(1)] assms(2) .
  then show "1 \<le> T" "log_in T l" "traced H l" "length (hBase H T) < length l" "hBase H T = take (length (hBase H T)) l"
    "\<exists>Q. quorum members Q \<and> (\<forall>p \<in> Q. \<exists>v. hVote H T p = Some v \<and> older v (hBase H T))"
    unfolding term_log_ok_def by blast+
  have K: "if k < length (hBase H T) then eTerm (l ! k) < T else eTerm (l ! k) = T" if "k < length l" for k
    using L that unfolding term_log_ok_def by blast
  have len: "length (hBase H T) < length l" using L unfolding term_log_ok_def by blast
  show "k < length (hBase H T) \<Longrightarrow> eTerm (l ! k) < T" using K [of k] len by simp
  show "length (hBase H T) \<le> k \<Longrightarrow> k < length l \<Longrightarrow> eTerm (l ! k) = T" using K [of k] by simp
qed

lemma leader_completeness:
  assumes inv: "hist_inv members H" and dist: "distinct members"
    and com: "committed members H T m" and l: "hLog H T = Some l"
  shows "T < T' \<Longrightarrow> hLog H T' = Some l' \<Longrightarrow> take m l' = take m l"
proof (induction "nat T'" arbitrary: T' l' rule: less_induct)
  case less
  note L = term_logD [OF inv l] and L' = term_logD [OF inv less.prems(2)]
  have m: "0 < m" "m \<le> length l" "tm l m = T" using com l by (auto simp: committed_def)
  obtain Q where Q: "quorum members Q" "\<And>p. p \<in> Q \<Longrightarrow> acked H p T m" using com by (auto simp: committed_def)
  obtain Q' where Q': "quorum members Q'" "\<And>p. p \<in> Q' \<Longrightarrow> \<exists>v. hVote H T' p = Some v \<and> older v (hBase H T')"
    using L'(8) by blast
  obtain p where "p \<in> Q" "p \<in> Q'" using quorum_meet [OF dist Q(1) Q'(1)] by blast
  then obtain v where p: "acked H p T m" "hVote H T' p = Some v" "older v (hBase H T')" using Q(2) Q'(2) by blast
  have IH: "take m u = take m l" if "T < U" "U < T'" "hLog H U = Some u" for U u
    using less.hyps [of U u] that L(1) by simp
  have "take m v = take m l" using hist_invD(9) [OF inv p(1) less.prems(1) p(2)] l IH by (auto simp: held_def)
  then have v: "m \<le> length v" "tm v m = T" using m by (metis length_take min.absorb2 min_le_iff_disj nle_le, metis tm_prefix m(3) order_refl)
  let ?b = "hBase H T'"
  let ?U = "tm ?b (length ?b)"
  have "T \<le> tm v (length v)"
    using log_in_term_le [OF hist_invD(6) [OF inv p(2)], of "m - 1" "length v - 1"] v m(1) by (auto simp: tm_def)
  then have U: "T \<le> ?U" "?U = T \<Longrightarrow> m \<le> length ?b" using p(3) v(1) by (auto simp: older_def)
  then have b: "0 < length ?b" using L(1) by (auto simp: tm_def split: if_splits)
  let ?k = "length ?b - 1"
  have k: "?k < length l'" "Suc ?k = length ?b" using b L'(4) by simp_all
  have Uk: "eTerm (l' ! ?k) = ?U"
    using b L'(5) by (metis One_nat_def k(2) lessI nth_take tm_Suc(1))
  then obtain u where u: "hLog H ?U = Some u" "?k < length u" "take (length ?b) l' = take (length ?b) u"
    using L'(3) k unfolding traced_def by metis
  have mb: "m \<le> length ?b \<and> take m u = take m l"
  proof (cases "?U = T")
    case True
    then show ?thesis using U(2) u(1) l by simp
  next
    case False
    have "?U < T'" using L'(6) [of ?k] Uk b by simp
    then have eq: "take m u = take m l" using IH [OF _ _ u(1)] U(1) False by simp
    have "m \<le> length ?b"
    proof (rule ccontr)
      assume "\<not> m \<le> length ?b"
      then have "tm u (length ?b) = tm l (length ?b)" using tm_prefix [OF eq] by simp
      moreover have "tm u (length ?b) = ?U"
        using tm_prefix [OF u(3) order_refl] Uk k(2) by (metis tm_Suc(1))
      moreover have "tm l (length ?b) \<le> T"
        using log_in_tm [OF L(2)] L(1) m(2) \<open>\<not> m \<le> length ?b\<close> by simp
      ultimately show False using U(1) False by simp
    qed
    with eq show ?thesis by simp
  qed
  then show ?case using take_le [OF u(3)] by simp
qed


section \<open>What is agreed\<close>

lemma agreed_Nil [simp]: "agreed members H T []"
  by (simp add: agreed_def)

lemma agreed_mono: "agreed members H T x \<Longrightarrow> T \<le> T' \<Longrightarrow> agreed members H T' x"
  unfolding agreed_def by (meson order_trans)

lemma agreed_take: "agreed members H T x \<Longrightarrow> agreed members H T (take j x)"
  unfolding agreed_def
proof (elim disjE exE conjE)
  fix T0 m l
  assume *: "T0 \<le> T" "committed members H T0 m" "hLog H T0 = Some l" "length x \<le> m" "x = take (length x) l"
  have "take j x = take j (take (length x) l)" using *(5) by (rule arg_cong)
  then have "take j x = take (min j (length x)) l" by simp
  then have "take j x = take (length (take j x)) l" unfolding length_take by (simp only: min.commute)
  moreover have "length (take j x) \<le> m" using *(4) unfolding length_take by simp
  ultimately show "take j x = [] \<or> (\<exists>T0 m l. T0 \<le> T \<and> committed members H T0 m \<and> hLog H T0 = Some l \<and>
      length (take j x) \<le> m \<and> take j x = take (length (take j x)) l)"
    using *(1,2,3) by blast
qed simp

lemma agreed_leader:
  assumes "hist_inv members H" and "distinct members" and "agreed members H T x" and "T \<le> T'" and "hLog H T' = Some l"
  shows "take (length x) l = x" "length x \<le> length l"
proof -
  have eq: "take (length x) l = x"
  proof (cases "x = []")
    case False
    then obtain T0 m l0 where 0: "T0 \<le> T" "committed members H T0 m" "hLog H T0 = Some l0" "length x \<le> m"
      "x = take (length x) l0"
      using assms(3) unfolding agreed_def by blast
    have "take m l = take m l0"
      using leader_completeness [OF assms(1,2) 0(2,3) _ assms(5)] 0(1,3) assms(4,5) by (cases "T0 = T'") auto
    then have "take (length x) l = take (length x) l0" using 0(4) by (rule take_le)
    then show ?thesis by (rule trans [OF _ 0(5) [symmetric]])
  qed simp
  then show "take (length x) l = x" .
  show "length x \<le> length l" using arg_cong [OF eq, of length] by simp
qed

text \<open>Any two agreed sequences: one continues the other.\<close>

lemma agreed_comparable:
  assumes "hist_inv members H" and "distinct members" and "agreed members H T x" and "agreed members H T' y"
    and "k \<le> length x" and "k \<le> length y"
  shows "take k x = take k y"
proof -
  have go: "take k x = take k y"
    if "agreed members H T x" "agreed members H T' y" "k \<le> length x" "k \<le> length y" "T0 \<le> T1" "T0' \<le> T0" "y = take (length y) l"
      "hLog H T0 = Some l" "agreed members H T0' x" for x y T T' T0 T0' T1 l
  proof -
    have "take k x = take k l" by (rule take_of_take [OF agreed_leader(1) [OF assms(1,2) that(9,6,8), symmetric] that(3)])
    moreover have "take k y = take k l" by (rule take_of_take [OF that(7,4)])
    ultimately show ?thesis by simp
  qed
  show ?thesis
  proof (cases "x = [] \<or> y = []")
    case False
    then obtain T1 m1 l1 where 1: "T1 \<le> T" "committed members H T1 m1" "hLog H T1 = Some l1" "length x \<le> m1" "x = take (length x) l1"
      using assms(3) unfolding agreed_def by blast
    from False obtain T2 m2 l2 where 2: "T2 \<le> T'" "committed members H T2 m2" "hLog H T2 = Some l2" "length y \<le> m2" "y = take (length y) l2"
      using assms(4) unfolding agreed_def by blast
    have x: "agreed members H T1 x" unfolding agreed_def using 1 by blast
    have y: "agreed members H T2 y" unfolding agreed_def using 2 by blast
    show ?thesis
    proof (cases "T1 \<le> T2")
      case True
      show ?thesis using go [OF x y assms(5,6) order_refl True 2(5,3) x] .
    next
      case False
      then have le: "T2 \<le> T1" by simp
      show ?thesis using go [OF y x assms(6,5) order_refl le 1(5,3) y] by simp
    qed
  qed (use assms(5,6) in auto)
qed

section \<open>Growing histories\<close>

definition extends :: "history \<Rightarrow> history \<Rightarrow> bool" where
  "extends H H' \<longleftrightarrow>
     (\<forall>T l. hLog H T = Some l \<longrightarrow> (\<exists>r. hLog H' T = Some (l @ r) \<and> (\<forall>e \<in> set r. eTerm e = T)) \<and> hBase H' T = hBase H T) \<and>
     (\<forall>T p v. hVote H T p = Some v \<longrightarrow> hVote H' T p = Some v) \<and> hAck H \<subseteq> hAck H' \<and>
     (\<forall>i. hTerm H i \<le> hTerm H' i)"

lemma extends_refl [simp]: "extends H H"
  by (simp add: extends_def)

lemma extends_trans:
  assumes "extends H H1" and "extends H1 H2"
  shows "extends H H2"
  unfolding extends_def
proof (intro conjI allI impI)
  fix T l assume l: "hLog H T = Some l"
  then obtain r where r: "hLog H1 T = Some (l @ r)" "\<forall>e \<in> set r. eTerm e = T" "hBase H1 T = hBase H T"
    using assms(1) unfolding extends_def by blast
  then obtain r' where r': "hLog H2 T = Some ((l @ r) @ r')" "\<forall>e \<in> set r'. eTerm e = T" "hBase H2 T = hBase H1 T"
    using assms(2) unfolding extends_def by blast
  show "\<exists>r. hLog H2 T = Some (l @ r) \<and> (\<forall>e \<in> set r. eTerm e = T)"
    using r r' by (intro exI [of _ "r @ r'"]) auto
  show "hBase H2 T = hBase H T" using r r' by simp
qed (use assms in \<open>auto simp: extends_def intro: order_trans\<close>)

lemma extends_log:
  assumes "extends H H'" and "hLog H T = Some l"
  obtains r where "hLog H' T = Some (l @ r)" and "\<forall>e \<in> set r. eTerm e = T"
  using assms unfolding extends_def by blast

lemma extends_traced: "extends H H' \<Longrightarrow> traced H x \<Longrightarrow> traced H' x"
  unfolding traced_def
proof (intro allI impI)
  fix k assume ext: "extends H H'" and x: "\<forall>k < length x. \<exists>l. hLog H (eTerm (x ! k)) = Some l \<and> k < length l \<and> take (Suc k) x = take (Suc k) l"
    and k: "k < length x"
  then obtain l where l: "hLog H (eTerm (x ! k)) = Some l" "k < length l" "take (Suc k) x = take (Suc k) l" by blast
  obtain r where "hLog H' (eTerm (x ! k)) = Some (l @ r)" using extends_log [OF ext l(1)] by blast
  with l show "\<exists>l. hLog H' (eTerm (x ! k)) = Some l \<and> k < length l \<and> take (Suc k) x = take (Suc k) l" by simp
qed

lemma extends_acked: "extends H H' \<Longrightarrow> acked H p T m \<Longrightarrow> acked H' p T m"
  unfolding extends_def acked_def by blast

lemma extends_committed: "extends H H' \<Longrightarrow> committed members H T m \<Longrightarrow> committed members H' T m"
proof -
  assume ext: "extends H H'" and c: "committed members H T m"
  then obtain l where l: "hLog H T = Some l" "0 < m" "m \<le> length l" "tm l m = T" unfolding committed_def by blast
  obtain r where "hLog H' T = Some (l @ r)" using extends_log [OF ext l(1)] by blast
  with l have "\<exists>l. hLog H' T = Some l \<and> 0 < m \<and> m \<le> length l \<and> tm l m = T" by auto
  moreover have "\<exists>Q. quorum members Q \<and> (\<forall>p \<in> Q. acked H' p T m)"
    using c extends_acked [OF ext] unfolding committed_def by blast
  ultimately show ?thesis by (simp add: committed_def)
qed

lemma extends_agreed: "extends H H' \<Longrightarrow> agreed members H T x \<Longrightarrow> agreed members H' T x"
proof -
  assume ext: "extends H H'" and "agreed members H T x"
  then consider "x = []" | T0 m l where "T0 \<le> T" "committed members H T0 m" "hLog H T0 = Some l" "length x \<le> m" "x = take (length x) l"
    unfolding agreed_def by blast
  then show ?thesis
  proof cases
    case 2
    obtain r where r: "hLog H' T0 = Some (l @ r)" using extends_log [OF ext 2(3)] by blast
    have "length x \<le> length l" using arg_cong [OF 2(5), of length] by simp
    then have "x = take (length x) (l @ r)" using 2(5) by simp
    with 2 r extends_committed [OF ext 2(2)] show ?thesis unfolding agreed_def by blast
  qed simp
qed

lemma extends_held:
  assumes inv: "hist_inv members H" and ext: "extends H H'" and "held H T m T' x"
  shows "held H' T m T' x"
proof -
  obtain l where l: "hLog H T = Some l" "m \<le> length l"
    "take m x = take m l \<or> (\<exists>U u. T < U \<and> U < T' \<and> hLog H U = Some u \<and> take m u \<noteq> take m l)"
    using assms(3) unfolding held_def by blast
  obtain r where r: "hLog H' T = Some (l @ r)" using extends_log [OF ext l(1)] by blast
  have tk: "take m (l @ r) = take m l" "m \<le> length (l @ r)" using l(2) by simp_all
  from l(3) show ?thesis
  proof (elim disjE exE conjE)
    assume "take m x = take m l"
    with r tk show ?thesis by (simp add: held_def)
  next
    fix U u assume u: "T < U" "U < T'" "hLog H U = Some u" "take m u \<noteq> take m l"
    obtain w where w: "hLog H' U = Some (u @ w)" "\<forall>e \<in> set w. eTerm e = U" using extends_log [OF ext u(3)] by blast
    have "take m (u @ w) \<noteq> take m l"
    proof
      assume eq: "take m (u @ w) = take m l"
      show False
      proof (cases "m \<le> length u")
        case True
        with eq u(4) show False by simp
      next
        case False
        have "length (take m (u @ w)) = m" using eq l(2) by simp
        then have lw: "length u < length (u @ w)" using False by (cases w) auto
        have "length u < m" using False by simp
        then have "take m (u @ w) ! length u = (u @ w) ! length u" "take m l ! length u = l ! length u"
          by (simp_all only: nth_take)
        then have "(u @ w) ! length u = l ! length u" using eq by simp
        moreover have "(u @ w) ! length u \<in> set w" using lw by (simp add: nth_append)
        moreover have "eTerm (l ! length u) \<le> T" using log_in_nth [OF term_logD(2) [OF inv l(1)]] l(2) False by simp
        ultimately show False using w(2) u(1) by auto
      qed
    qed
    with w(1) u(1,2) r tk show ?thesis unfolding held_def by (intro exI [of _ "l @ r"]) auto
  qed
qed

lemma extends_term_log:
  assumes "extends H H'" and "term_log_ok members H T l" and "hLog H T = Some l"
  shows "term_log_ok members H' T l"
proof -
  have b: "hBase H' T = hBase H T" using assms(1,3) unfolding extends_def by blast
  have v: "hVote H T p = Some v \<Longrightarrow> hVote H' T p = Some v" for p v using assms(1) unfolding extends_def by blast
  have "\<exists>Q. quorum members Q \<and> (\<forall>p \<in> Q. \<exists>v. hVote H' T p = Some v \<and> older v (hBase H T))"
    using assms(2) v unfolding term_log_ok_def by blast
  then show ?thesis using assms(2) extends_traced [OF assms(1)] unfolding term_log_ok_def b by blast
qed


section \<open>Steps\<close>

definition h_elect :: "string \<Rightarrow> raftEntry \<Rightarrow> history \<Rightarrow> history" where
  "h_elect i e H =
     (let T = hTerm H i; x = hFull H i @ [e] in
      H\<lparr>hFull := (hFull H)(i := x), hLog := (hLog H)(T \<mapsto> x), hBase := (hBase H)(T := hFull H i),
        hAck := insert (i, T, length x) (hAck H)\<rparr>)"

definition h_extend :: "string \<Rightarrow> raftEntry \<Rightarrow> history \<Rightarrow> history" where
  "h_extend i e H =
     (let T = hTerm H i; x = hFull H i @ [e] in
      H\<lparr>hFull := (hFull H)(i := x), hLog := (hLog H)(T \<mapsto> x), hAck := insert (i, T, length x) (hAck H)\<rparr>)"

definition h_adopt :: "string \<Rightarrow> nat \<Rightarrow> rlog \<Rightarrow> history \<Rightarrow> history" where
  "h_adopt i k l H =
     H\<lparr>hFull := (hFull H)(i := adopt k l (hFull H i)), hAck := insert (i, hTerm H i, k) (hAck H)\<rparr>"

text \<open>
  A node may move to a later term, record its vote while its term has no leader, become leader with
  the votes of a majority for a log at least as new as theirs and an entry of its own term, append
  as leader, or take over the log of its term's leader up to some index.
\<close>

inductive hist_step :: "string list \<Rightarrow> history \<Rightarrow> history \<Rightarrow> bool" for members :: "string list" where
  H_Advance: "hTerm H i \<le> T \<Longrightarrow> hist_step members H (H\<lparr>hTerm := (hTerm H)(i := T)\<rparr>)"
| H_Vote: "hLog H (hTerm H i) = None \<Longrightarrow> hVote H (hTerm H i) i = None \<Longrightarrow>
    hist_step members H (H\<lparr>hVote := (hVote H)(hTerm H i := (hVote H (hTerm H i))(i \<mapsto> hFull H i))\<rparr>)"
| H_Elect: "hLog H (hTerm H i) = None \<Longrightarrow> 1 \<le> hTerm H i \<Longrightarrow> quorum members Q \<Longrightarrow>
    (\<And>p. p \<in> Q \<Longrightarrow> \<exists>v. hVote H (hTerm H i) p = Some v \<and> older v (hFull H i)) \<Longrightarrow>
    eIndex e = int (length (hFull H i)) + 1 \<Longrightarrow> eTerm e = hTerm H i \<Longrightarrow> hist_step members H (h_elect i e H)"
| H_Extend: "hLog H (hTerm H i) = Some (hFull H i) \<Longrightarrow>
    eIndex e = int (length (hFull H i)) + 1 \<Longrightarrow> eTerm e = hTerm H i \<Longrightarrow> hist_step members H (h_extend i e H)"
| H_Adopt: "hLog H (hTerm H i) = Some l \<Longrightarrow> k \<le> length l \<Longrightarrow> hist_step members H (h_adopt i k l H)"

lemma held_later: "held H T m T' x \<Longrightarrow> T' \<le> T'' \<Longrightarrow> held H T m T'' x"
  unfolding held_def by (meson order_less_le_trans)

lemma held_here: "hLog H T = Some l \<Longrightarrow> m \<le> length l \<Longrightarrow> take m x = take m l \<Longrightarrow> held H T m T' x"
  by (simp add: held_def)

lemma hist_inv_step:
  assumes inv: "hist_inv members H" and ext: "extends H H'"
    and logs: "\<And>T l. hLog H' T = Some l \<Longrightarrow> hLog H T = Some l \<or> term_log_ok members H' T l"
    and nodes: "\<And>i. log_in (hTerm H' i) (hFull H' i) \<and> traced H' (hFull H' i)"
    and votes: "\<And>T p v. hVote H' T p = Some v \<Longrightarrow> hVote H T p = Some v \<or>
       T \<le> hTerm H' p \<and> log_in T v \<and> (\<forall>U m. acked H' p U m \<longrightarrow> U < T \<longrightarrow> held H' U m T v)"
    and acks: "\<And>p T m. acked H' p T m \<Longrightarrow>
       (acked H p T m \<or> T = hTerm H p) \<and> T \<le> hTerm H' p \<and> held H' T m (hTerm H' p + 1) (hFull H' p)"
  shows "hist_inv members H'"
proof -
  note I = hist_invD [OF inv]
  have le: "hTerm H i \<le> hTerm H' i" for i using ext by (simp add: extends_def)
  show ?thesis
    unfolding hist_inv_def
  proof (intro conjI allI impI)
    fix T l assume "hLog H' T = Some l"
    then show "term_log_ok members H' T l" using logs extends_term_log [OF ext] I(1) by blast
  next
    fix i show "0 \<le> hTerm H' i" using I(2) [of i] le [of i] by simp
    show "log_in (hTerm H' i) (hFull H' i)" "traced H' (hFull H' i)" using nodes by simp_all
  next
    fix T p v assume v: "hVote H' T p = Some v"
    show "T \<le> hTerm H' p" using votes [OF v] I(5) [of T p v] le [of p] by auto
    show "log_in T v" using votes [OF v] I(6) [of T p v] by auto
  next
    fix p T m assume a: "acked H' p T m"
    show "T \<le> hTerm H' p" "held H' T m (hTerm H' p + 1) (hFull H' p)" using acks [OF a] by simp_all
    fix T' v assume v: "T < T'" "hVote H' T' p = Some v"
    from votes [OF v(2)] show "held H' T m T' v"
    proof
      assume v': "hVote H T' p = Some v"
      then have "T' \<le> hTerm H p" by (rule I(5))
      with acks [OF a] v(1) have "acked H p T m" by auto
      then show ?thesis using extends_held [OF inv ext I(9) [OF _ v(1) v']] by simp
    qed (use a v in blast)
  qed
qed

lemma acked_insert: "acked (H\<lparr>hAck := insert (i, T, k) (hAck H)\<rparr>) p U m \<longleftrightarrow> acked H p U m \<or> p = i \<and> U = T \<and> m \<le> k"
  by (auto simp: acked_def)

lemma acked_cong: "hAck H' = hAck H \<Longrightarrow> acked H' = acked H"
  by (simp add: acked_def fun_eq_iff)


lemma advance_step:
  assumes inv: "hist_inv members H" and T: "hTerm H i \<le> T"
  defines "H' \<equiv> H\<lparr>hTerm := (hTerm H)(i := T)\<rparr>"
  shows "extends H H'" "hist_inv members H'"
proof -
  note I = hist_invD [OF inv]
  have le: "hTerm H j \<le> hTerm H' j" for j using T by (simp add: H'_def)
  show ext: "extends H H'" using le by (auto simp: extends_def H'_def)
  have same: "hFull H' = hFull H" "hLog H' = hLog H" "hVote H' = hVote H" by (simp_all add: H'_def)
  have ak: "acked H' = acked H" by (rule acked_cong) (simp add: H'_def)
  show "hist_inv members H'"
  proof (rule hist_inv_step [OF inv ext])
    show "log_in (hTerm H' j) (hFull H' j) \<and> traced H' (hFull H' j)" for j
      using I(3,4) [of j] extends_traced [OF ext] le [of j] by (auto simp: same intro: log_in_mono)
    show "(acked H p U m \<or> U = hTerm H p) \<and> U \<le> hTerm H' p \<and> held H' U m (hTerm H' p + 1) (hFull H' p)" if "acked H' p U m" for p U m
    proof -
      have a: "acked H p U m" using that by (simp add: ak)
      have "held H' U m (hTerm H p + 1) (hFull H p)" by (rule extends_held [OF inv ext I(8) [OF a]])
      with a I(7) [OF a] le [of p] show ?thesis by (auto simp: same elim: held_later)
    qed
  qed (simp_all add: same)
qed

lemma vote_step:
  assumes inv: "hist_inv members H" and no: "hLog H (hTerm H i) = None" "hVote H (hTerm H i) i = None"
  defines "H' \<equiv> H\<lparr>hVote := (hVote H)(hTerm H i := (hVote H (hTerm H i))(i \<mapsto> hFull H i))\<rparr>"
  shows "extends H H'" "hist_inv members H'"
proof -
  note I = hist_invD [OF inv]
  have same: "hFull H' = hFull H" "hLog H' = hLog H" "hTerm H' = hTerm H" by (simp_all add: H'_def)
  show ext: "extends H H'" using no(2) by (auto simp: extends_def H'_def)
  have ak: "acked H' = acked H" by (rule acked_cong) (simp add: H'_def)
  show "hist_inv members H'"
  proof (rule hist_inv_step [OF inv ext])
    show "log_in (hTerm H' j) (hFull H' j) \<and> traced H' (hFull H' j)" for j
      using I(3,4) [of j] extends_traced [OF ext] by (simp add: same)
    show "(acked H p U m \<or> U = hTerm H p) \<and> U \<le> hTerm H' p \<and> held H' U m (hTerm H' p + 1) (hFull H' p)" if "acked H' p U m" for p U m
      using that I(7) [of p U m] extends_held [OF inv ext I(8) [of p U m]] by (simp add: ak same)
    show "hVote H T p = Some v \<or> T \<le> hTerm H' p \<and> log_in T v \<and> (\<forall>U m. acked H' p U m \<longrightarrow> U < T \<longrightarrow> held H' U m T v)"
      if "hVote H' T p = Some v" for T p v
    proof (cases "p = i \<and> T = hTerm H i")
      case False
      with that show ?thesis by (auto simp: H'_def split: if_splits)
    next
      case True
      then have v: "v = hFull H i" using that by (simp add: H'_def)
      have "held H' U m T v" if "acked H' p U m" "U < T" for U m
      proof -
        have "held H U m (T + 1) v" using that I(8) [of p U m] True v by (simp add: ak)
        then have "held H U m T v" using no(1) True by (fastforce simp: held_def order_less_le)
        then show ?thesis by (rule extends_held [OF inv ext])
      qed
      then show ?thesis using True v I(3) [of i] by (simp add: same)
    qed
  qed (simp_all add: same)
qed

lemma adopt_step:
  assumes inv: "hist_inv members H" and l: "hLog H (hTerm H i) = Some l" and k: "k \<le> length l"
  shows "extends H (h_adopt i k l H)" "hist_inv members (h_adopt i k l H)"
proof -
  let ?H = "h_adopt i k l H" and ?T = "hTerm H i"
  note I = hist_invD [OF inv] and L = term_logD [OF inv l]
  have same: "hLog ?H = hLog H" "hTerm ?H = hTerm H" "hVote ?H = hVote H" by (simp_all add: h_adopt_def)
  show ext: "extends H ?H" by (auto simp: extends_def h_adopt_def)
  have ak: "acked ?H p U m \<longleftrightarrow> acked H p U m \<or> p = i \<and> U = ?T \<and> m \<le> k" for p U m
    by (auto simp: acked_def h_adopt_def)
  show "hist_inv members ?H"
  proof (rule hist_inv_step [OF inv ext])
    show "log_in (hTerm ?H j) (hFull ?H j) \<and> traced ?H (hFull ?H j)" for j
      using adopt_log_in [OF L(2) I(3) [of i], of k] adopt_traced [OF L(3) I(4) [of i], of k] I(3,4) [of j] extends_traced [OF ext]
      by (simp add: h_adopt_def)
    show "(acked H p U m \<or> U = hTerm H p) \<and> U \<le> hTerm ?H p \<and> held ?H U m (hTerm ?H p + 1) (hFull ?H p)" if a: "acked ?H p U m" for p U m
    proof (cases "p = i")
      case False
      with a have "acked H p U m" by (simp add: ak)
      with False I(7) [of p U m] extends_held [OF inv ext I(8) [of p U m]] show ?thesis by (simp add: h_adopt_def)
    next
      case True
      show ?thesis
      proof (cases "acked H p U m")
        case old: True
        then have UT: "U \<le> ?T" using I(7) \<open>p = i\<close> by simp
        obtain u where u: "hLog H U = Some u" "m \<le> length u"
          "take m (hFull H i) = take m u \<or> (\<exists>V w. U < V \<and> V < ?T + 1 \<and> hLog H V = Some w \<and> take m w \<noteq> take m u)"
          using I(8) [OF old] \<open>p = i\<close> unfolding held_def by blast
        have "take m (adopt k l (hFull H i)) = take m u \<or> (\<exists>V w. U < V \<and> V < ?T + 1 \<and> hLog H V = Some w \<and> take m w \<noteq> take m u)"
        proof (cases "take m l = take m u")
          case True
          then show ?thesis using u(3) adopt_keeps [of m "hFull H i" l k] by auto
        next
          case False
          then have "U \<noteq> ?T" using u(1) l by auto
          then have "U < ?T" using UT by simp
          then show ?thesis using False l by (intro disjI2 exI [of _ ?T] exI [of _ l]) simp
        qed
        then have "held ?H U m (?T + 1) (adopt k l (hFull H i))" using u(1,2) unfolding held_def same by blast
        with old UT \<open>p = i\<close> show ?thesis by (simp add: h_adopt_def)
      next
        case False
        then have "U = ?T" "m \<le> k" using a \<open>p = i\<close> by (simp_all add: ak)
        moreover have "take m (adopt k l (hFull H i)) = take m l" using take_le [OF adopt_take \<open>m \<le> k\<close>] .
        ultimately show ?thesis using \<open>p = i\<close> l k held_here [of ?H ?T l m] by (simp add: h_adopt_def)
      qed
    qed
  qed (simp_all add: same)
qed


lemma held_snoc: "held H T m T' x \<Longrightarrow> held H T m T' (x @ [e])"
proof -
  assume "held H T m T' x"
  then obtain l where l: "hLog H T = Some l" "m \<le> length l"
    "take m x = take m l \<or> (\<exists>U u. T < U \<and> U < T' \<and> hLog H U = Some u \<and> take m u \<noteq> take m l)"
    unfolding held_def by blast
  have "take m (x @ [e]) = take m l" if eq: "take m x = take m l"
  proof -
    have "length (take m x) = m" using eq l(2) by simp
    then have "m \<le> length x" by simp
    with eq show ?thesis by simp
  qed
  with l show ?thesis unfolding held_def by blast
qed

text \<open>The common part of an election and of a leader's append.\<close>

lemma leader_append_inv:
  assumes inv: "hist_inv members H" and ext: "extends H H'"
    and x: "x = hFull H i @ [e]" and T: "T = hTerm H i" "1 \<le> T" and e: "eIndex e = int (length (hFull H i)) + 1" "eTerm e = T"
    and H': "hFull H' = (hFull H)(i := x)" "hLog H' = (hLog H)(T \<mapsto> x)" "hTerm H' = hTerm H" "hVote H' = hVote H"
      "hAck H' = insert (i, T, length x) (hAck H)"
    and ok: "log_in T x \<Longrightarrow> traced H' x \<Longrightarrow> term_log_ok members H' T x"
  shows "hist_inv members H'"
proof -
  note I = hist_invD [OF inv]
  have lx: "log_in T x" unfolding x using log_in_snoc I(3) [of i] T e by simp
  have tx: "traced H' x"
    unfolding traced_def
  proof (intro allI impI)
    fix k assume k: "k < length x"
    show "\<exists>l'. hLog H' (eTerm (x ! k)) = Some l' \<and> k < length l' \<and> take (Suc k) x = take (Suc k) l'"
    proof (cases "k = length (hFull H i)")
      case True
      then show ?thesis using e(2) k by (simp add: H' x)
    next
      case False
      then have k': "k < length (hFull H i)" using k by (simp add: x)
      then obtain l' where "hLog H' (eTerm (hFull H i ! k)) = Some l'" "k < length l'" "take (Suc k) (hFull H i) = take (Suc k) l'"
        using extends_traced [OF ext I(4) [of i]] unfolding traced_def by blast
      then show ?thesis using k' by (simp add: x nth_append)
    qed
  qed
  have ak: "acked H' p U m \<longleftrightarrow> acked H p U m \<or> p = i \<and> U = T \<and> m \<le> length x" for p U m
    by (auto simp: acked_def H')
  show ?thesis
  proof (rule hist_inv_step [OF inv ext])
    show "hLog H U = Some l \<or> term_log_ok members H' U l" if "hLog H' U = Some l" for U l
      using that ok [OF lx tx] by (auto simp: H' split: if_splits)
    show "log_in (hTerm H' j) (hFull H' j) \<and> traced H' (hFull H' j)" for j
      using lx tx T I(3,4) [of j] extends_traced [OF ext] by (auto simp: H')
    show "(acked H p U m \<or> U = hTerm H p) \<and> U \<le> hTerm H' p \<and> held H' U m (hTerm H' p + 1) (hFull H' p)" if a: "acked H' p U m" for p U m
    proof (cases "acked H p U m")
      case True
      have h: "held H' U m (hTerm H p + 1) (hFull H p)" by (rule extends_held [OF inv ext I(8) [OF True]])
      then have "held H' U m (hTerm H p + 1) (hFull H' p)" using held_snoc [OF h, of e] by (cases "p = i") (simp_all add: H' x)
      with True I(7) [OF True] show ?thesis by (simp add: H')
    next
      case False
      then show ?thesis using a T held_here [of H' T x m x] by (simp add: ak H')
    qed
  qed (simp_all add: H')
qed

lemma elect_step:
  assumes inv: "hist_inv members H" and no: "hLog H (hTerm H i) = None" and T: "1 \<le> hTerm H i"
    and Q: "quorum members Q" "\<And>p. p \<in> Q \<Longrightarrow> \<exists>v. hVote H (hTerm H i) p = Some v \<and> older v (hFull H i)"
    and e: "eIndex e = int (length (hFull H i)) + 1" "eTerm e = hTerm H i"
  shows "extends H (h_elect i e H)" "hist_inv members (h_elect i e H)"
proof -
  let ?T = "hTerm H i" and ?b = "hFull H i"
  note I = hist_invD [OF inv]
  show ext: "extends H (h_elect i e H)" using no by (auto simp: extends_def h_elect_def Let_def)
  have before: "eTerm (?b ! k) < ?T" if k: "k < length ?b" for k
  proof -
    have "hLog H (eTerm (?b ! k)) \<noteq> None" using I(4) [of i] k unfolding traced_def by blast
    then have "eTerm (?b ! k) \<noteq> ?T" using no by auto
    then show ?thesis using log_in_nth [OF I(3) k] by simp
  qed
  have "\<exists>Q. quorum members Q \<and> (\<forall>p \<in> Q. \<exists>v. hVote H ?T p = Some v \<and> older v ?b)" using Q by blast
  then show "hist_inv members (h_elect i e H)"
    by (intro leader_append_inv [OF inv ext refl refl T e])
      (use before T e(2) in \<open>simp_all add: h_elect_def Let_def term_log_ok_def nth_append less_Suc_eq\<close>)
qed

lemma extend_step:
  assumes inv: "hist_inv members H" and l: "hLog H (hTerm H i) = Some (hFull H i)"
    and e: "eIndex e = int (length (hFull H i)) + 1" "eTerm e = hTerm H i"
  shows "extends H (h_extend i e H)" "hist_inv members (h_extend i e H)"
proof -
  let ?T = "hTerm H i" and ?b = "hBase H (hTerm H i)" and ?x = "hFull H i"
  note L = term_logD [OF inv l]
  show ext: "extends H (h_extend i e H)" using l e(2) by (auto simp: extends_def h_extend_def Let_def)
  have k: "if k < length ?b then eTerm ((?x @ [e]) ! k) < ?T else eTerm ((?x @ [e]) ! k) = ?T" if "k < length (?x @ [e])" for k
    using L(4) L(6,7) [of k] e(2) that by (auto simp: nth_append less_Suc_eq)
  have b: "length ?b < length (?x @ [e])" "?b = take (length ?b) (?x @ [e])" using L(4,5) by simp_all
  show "hist_inv members (h_extend i e H)"
  proof (rule leader_append_inv [OF inv ext refl refl L(1) e])
    assume "log_in ?T (?x @ [e])" "traced (h_extend i e H) (?x @ [e])"
    moreover have "hBase (h_extend i e H) = hBase H" "hVote (h_extend i e H) = hVote H" by (simp_all add: h_extend_def Let_def)
    ultimately show "term_log_ok members (h_extend i e H) ?T (?x @ [e])"
      using L(1,8) b k unfolding term_log_ok_def by (metis (no_types, lifting))
  qed (simp_all add: h_extend_def Let_def)
qed

lemma hist_step_inv:
  assumes "hist_step members H H'" and inv: "hist_inv members H"
  shows "hist_inv members H' \<and> extends H H'"
  using assms(1)
proof cases
  case (H_Elect i Q e)
  then show ?thesis using elect_step [OF inv H_Elect(2,3,4,5,6,7)] by simp
qed (use advance_step [OF inv] vote_step [OF inv] extend_step [OF inv] adopt_step [OF inv] in auto)

lemma hist_steps_inv:
  assumes "(hist_step members)\<^sup>*\<^sup>* H H'" and "hist_inv members H"
  shows "hist_inv members H' \<and> extends H H'"
  using assms
proof (induction rule: rtranclp_induct)
  case (step H1 H2)
  then show ?case using hist_step_inv [OF step(2)] extends_trans by blast
qed simp

end
