(* ===== verification/Raft_Effects.thy ===== *)
theory Raft_Effects
  imports Raft_Cluster Raft_History
begin

text \<open>
  What each handler does to the fields that safety rests on, on a node whose log is a view of a
  whole log: the entries above some index, behind a sentinel that has the index and its term.
  A handler that panics leaves the log on disk as it was.
\<close>

section \<open>Views\<close>

definition view :: "nat \<Rightarrow> rlog \<Rightarrow> rlog" where
  "view f x = sentinel (int f) (tm x f) # drop f x"

lemma view_0: "view 0 x = sentinel 0 0 # x"
  by (simp add: view_def)

lemma sentinel_sel [simp]: "eIndex (sentinel i t) = i" "eTerm (sentinel i t) = t"
  by (simp_all add: sentinel_def)

lemma view_log_ok:
  assumes "nLog n = view f x" and "contiguous 0 x" and "f \<le> length x"
  shows "log_ok n" "firstIndex n = int f" "lastIndex n = int (length x)"
proof -
  show "log_ok n"
    unfolding log_ok_Cons using assms contiguous_drop [OF assms(2,3)] by (simp add: view_def)
  then show "firstIndex n = int f" "lastIndex n = int (length x)"
    using log_ok_last [of n] assms(1,3) by (simp_all add: firstIndex_def view_def)
qed

lemma view_nth:
  assumes "f \<le> k" and "k \<le> length x"
  shows "eTerm (view f x ! (k - f)) = tm x k" and "f < k \<Longrightarrow> view f x ! (k - f) = x ! (k - 1)"
proof -
  have above: "view f x ! (k - f) = x ! (k - 1)" if fk: "f < k"
  proof -
    obtain j where "k = Suc (f + j)" using less_imp_Suc_add [OF fk] by blast
    then show ?thesis using assms(2) by (simp add: view_def Suc_diff_le)
  qed
  then show "f < k \<Longrightarrow> view f x ! (k - f) = x ! (k - 1)" .
  show "eTerm (view f x ! (k - f)) = tm x k"
    using assms(1) above by (cases "k = f") (auto simp: view_def tm_def)
qed

lemma view_termAt:
  assumes "nLog n = view f x" and "contiguous 0 x" and "f \<le> length x" and "int f \<le> i" and "i \<le> int (length x)"
  shows "termAt n i = Ok (tm x (nat i))"
proof -
  note V = view_log_ok [OF assms(1,2,3)]
  have "nat (i - int f) = nat i - f" using assms(4) by simp
  then show ?thesis
    using termAt_Ok [OF V(1), of i] V(2,3) assms view_nth(1) [of f "nat i" x] by simp
qed

lemma view_lastTerm:
  assumes "nLog n = view f x" and "contiguous 0 x" and "f \<le> length x"
  shows "lastTerm n = tm x (length x)"
proof -
  have "last (view f x) = view f x ! (length x - f)" using assms(3) by (simp add: view_def last_conv_nth)
  then show ?thesis using view_nth(1) [OF assms(3) order_refl] assms(1) by (simp add: lastTerm_def)
qed

lemma view_sliceFrom:
  assumes "nLog n = view f x" and "contiguous 0 x" and "f \<le> length x" and "int f < i" and "i \<le> int (length x) + 1"
  shows "sliceFrom n i = Ok (drop (nat i - 1) x)"
proof -
  note V = view_log_ok [OF assms(1,2,3)]
  obtain j where j: "nat (i - int f) = Suc j" "nat i - 1 = f + j" using assms(4) by (cases "nat (i - int f)") auto
  then show ?thesis using sliceFrom_Ok [OF V(1), of i] V(2,3) assms by (simp add: view_def add.commute)
qed

lemma view_compact:
  assumes "f \<le> g" and "g \<le> length x"
  shows "sentinel (int g) (tm x g) # drop g x = view g x"
  by (simp add: view_def)

lemma view_snoc: "f \<le> length x \<Longrightarrow> view f x @ [e] = view f (x @ [e])"
  by (simp add: view_def)

text \<open>The append handler on a view.\<close>

lemma view_appendLog:
  assumes x: "nLog n = view f x" "contiguous 0 x" "f \<le> length x" "traced H x" and l: "traced H l"
    and a: "aePrevLogIndex args = int k" "aeEntries args = take (length (aeEntries args)) (drop k l)"
      "k + length (aeEntries args) \<le> length l"
    and q: "q = max f k" "q \<le> length x" "take q x = take q l"
  shows "appendLog args n = view f (adopt (k + length (aeEntries args)) l x)"
    and "take f (adopt (k + length (aeEntries args)) l x) = take f x"
    and "f \<le> length (adopt (k + length (aeEntries args)) l x)"
proof -
  let ?e = "k + length (aeEntries args)"
  have V: "firstIndex n = int f" using view_log_ok [OF x(1,2,3)] by simp
  have m: "windowPos args n = q - f" using V a(1) q(1) by (simp add: windowPos_def nat_diff_distrib')
  have cut: "nat (firstIndex n - aePrevLogIndex args) = q - k" using V a(1) q(1) by (simp add: nat_diff_distrib')
  have es: "aeEntries args = drop k (take ?e l)" using a(2) by (simp add: drop_take)
  have w: "windowEntries args n = drop q (take ?e l)"
    unfolding windowEntries_def cut by (subst es) (use q(1) in simp)
  have fq: "take f x = take f l" using take_le [OF q(3)] q(1) by simp
  show keep: "take f (adopt ?e l x) = take f x" by (rule adopt_keeps [OF fq])
  have "length (take f (adopt ?e l x)) = f" unfolding keep using x(3) by simp
  then show fl: "f \<le> length (adopt ?e l x)" by simp
  have merged: "take q x @ mergeLog (drop q x) (drop q (take ?e l)) = adopt ?e l x"
  proof (cases "q \<le> ?e")
    case True
    show ?thesis by (rule merge_adopt [OF x(4) l a(3) True q(2,3)])
  next
    case False
    then show ?thesis using take_le [OF q(3), of ?e] by (simp add: adopt_def)
  qed
  have "tm (adopt ?e l x) f = tm x f" using tm_prefix [OF keep order_refl] .
  moreover have "take (q - f) (drop f x) = drop f (take q x)" using q(1) by (simp add: drop_take)
  moreover have "drop f (take q x) @ mergeLog (drop q x) (drop q (take ?e l)) = drop f (adopt ?e l x)"
    unfolding merged [symmetric] using q(1,2) by simp
  moreover have "Suc q - f = Suc (q - f)" "Suc (q - f) + f = Suc q" using q(1) by auto
  ultimately show "appendLog args n = view f (adopt ?e l x)"
    unfolding appendLog_def Let_def m w x(1) by (simp add: view_def add.commute)
qed


section \<open>Fields\<close>

definition same_body :: "Node \<Rightarrow> Node \<Rightarrow> bool" where
  "same_body n n' \<longleftrightarrow> nCfg n' = nCfg n \<and> nLog n' = nLog n \<and> nCommitIndex n' = nCommitIndex n \<and>
     nLastApplied n' = nLastApplied n \<and> nPending n' = nPending n \<and> nMatchIndex n' = nMatchIndex n"

text \<open>The term may rise; the node does not become candidate or leader.\<close>

definition calmer :: "Node \<Rightarrow> Node \<Rightarrow> bool" where
  "calmer n n' \<longleftrightarrow> nTerm n \<le> nTerm n' \<and> (nState n' \<noteq> Follower \<longrightarrow> nState n' = nState n \<and> nTerm n' = nTerm n)"

lemma same_body_refl [simp]: "same_body n n" and calmer_refl [simp]: "calmer n n"
  by (simp_all add: same_body_def calmer_def)

lemma same_body_trans: "same_body n n1 \<Longrightarrow> same_body n1 n2 \<Longrightarrow> same_body n n2"
  by (simp add: same_body_def)

lemma becomeFollower_body [simp]: "same_body n (becomeFollowerLocked t n)" "calmer n (becomeFollowerLocked t n)"
  by (simp_all add: same_body_def calmer_def becomeFollowerLocked_def Let_def)

lemma reset_body [simp]:
  "same_body n (resetElectionTimerLocked E n1) = same_body n n1" "calmer n (resetElectionTimerLocked E n1) = calmer n n1"
  by (simp_all add: same_body_def calmer_def)

lemma persist_body:
  "persistLocked C r n = Ok n' \<Longrightarrow> same_body m n' = same_body m n \<and> calmer m n' = calmer m n"
  using persistLocked_sel [of C r n n'] by (simp add: same_body_def calmer_def)

lemma stepDown_body:
  assumes "stepDown C E t l n = Ok n1"
  shows "same_body n n1" "calmer n n1" "nState n1 = Follower" "nTerm n1 = max t (nTerm n)"
proof -
  have "same_body n (becomeFollowerLocked t n)" "calmer n (becomeFollowerLocked t n)" by simp_all
  then show "same_body n n1" "calmer n n1"
    using assms by (auto simp: stepDown_def bindR_Ok_iff same_body_def calmer_def split: if_splits dest!: persistLocked_sel)
qed (rule stepDown_Ok [OF assms])+

lemma HandleRequestVote_body:
  assumes "HandleRequestVote C E args n = Ok (reply, n')"
  shows "same_body n n'" "calmer n n'"
proof -
  obtain n1 where n1: "(if rvTerm args > nTerm n then persistLocked C (reWrite1 E) (becomeFollowerLocked (rvTerm args) n) else Ok n) = Ok n1"
    using assms unfolding HandleRequestVote_def bindR_Ok_iff by blast
  then have b: "same_body n n1" "calmer n n1"
    using persist_body [of C "reWrite1 E" "becomeFollowerLocked (rvTerm args) n" n1 n] by (auto split: if_splits)
  have "n' = n1 \<or> (\<exists>n2 E v. n' = resetElectionTimerLocked E n2 \<and> persistLocked C (reWrite2 E) (n1\<lparr>nVotedFor := v\<rparr>) = Ok n2)"
    using assms unfolding HandleRequestVote_def n1 bindR.simps Let_def by (auto simp: bindR_Ok_iff split: if_splits)
  moreover have "same_body n (n1\<lparr>nVotedFor := v\<rparr>)" "calmer n (n1\<lparr>nVotedFor := v\<rparr>)" for v
    using b by (simp_all add: same_body_def calmer_def)
  ultimately show "same_body n n'" "calmer n n'" using b persist_body by auto
qed

lemma startElection_body:
  assumes "startElectionLocked C E n = Ok (args, n')"
  shows "same_body n n'"
  using assms
  by (auto simp: startElectionLocked_def Let_def bindR_Ok_iff same_body_def dest!: persistLocked_sel)

section \<open>Panics\<close>

text \<open>Whatever makes a handler panic, the log on disk is the one from before.\<close>

definition old_log :: "psCodec \<Rightarrow> Node \<Rightarrow> 'a res \<Rightarrow> bool" where
  "old_log C n r \<longleftrightarrow> (\<forall>d p. r = Panic d \<longrightarrow> loaded C d = Some p \<longrightarrow> psLog p = nLog n)"

lemma old_log_Ok [simp]: "old_log C n (Ok x)"
  by (simp add: old_log_def)

lemma old_log_disk: "saved C n \<Longrightarrow> old_log C n (Panic (nDisk n))"
  by (simp add: old_log_def saved_def persistentOf_def)

lemma persist_Panic: "persistLocked C r n = Panic d \<Longrightarrow> d = nDisk n"
proof -
  have "(nDisk n)\<lparr>dState := dState (nDisk n)\<rparr> = nDisk n" by simp
  then show "persistLocked C r n = Panic d \<Longrightarrow> d = nDisk n"
    unfolding persistLocked_def atomicWrite_def by (auto split: if_splits option.splits writeResult.splits)
qed

lemma old_log_persist:
  "saved C n \<Longrightarrow> nDisk n1 = nDisk n \<Longrightarrow> old_log C n (persistLocked C r n1)"
  using persist_Panic [of C r n1] by (auto simp: old_log_def saved_def persistentOf_def)

lemma old_log_persistWithSnapshot:
  assumes "saved C n" and "nDisk n1 = nDisk n"
  shows "old_log C n (persistWithSnapshotLocked C r1 r2 snap n1)"
proof (cases "cDataDir (nCfg n1) = []")
  case False
  have l: "loaded C ((nDisk n)\<lparr>dSnap := f\<rparr>) = loaded C (nDisk n)" for f by (simp add: loaded_def)
  show ?thesis
    unfolding old_log_def
  proof (intro allI impI)
    fix d p assume P: "persistWithSnapshotLocked C r1 r2 snap n1 = Panic d" "loaded C d = Some p"
    have "\<exists>f. d = (nDisk n)\<lparr>dSnap := f\<rparr>"
      using P(1) False assms(2)
      by (auto simp: persistWithSnapshotLocked_def split: prod.splits bool.splits dest!: persist_Panic)
    then have "loaded C (nDisk n) = Some p" using P(2) l by auto
    then show "psLog p = nLog n" using assms(1) by (simp add: saved_def persistentOf_def)
  qed
qed (simp add: persistWithSnapshotLocked_def)

lemma old_log_bind:
  assumes "old_log C n r" and "\<And>x. r = Ok x \<Longrightarrow> old_log C n (k x)"
  shows "old_log C n (bindR r k)"
proof (cases r)
  case (Ok x)
  with assms(2) show ?thesis by simp
next
  case (Panic d)
  with assms(1) show ?thesis by (simp add: old_log_def)
qed

lemma old_log_read: "saved C n \<Longrightarrow> (\<And>d. r = Panic d \<Longrightarrow> d = nDisk n) \<Longrightarrow> old_log C n r"
  unfolding old_log_def by (metis old_log_def old_log_disk)

lemma old_log_access:
  assumes "saved C n"
  shows "old_log C n (entryAt n i)" "old_log C n (termAt n i)" "old_log C n (sliceFrom n i)"
    "old_log C n (lastOfTerm n t k)" "old_log C n (conflictStart n t k)"
    "old_log C n (entriesFrom n i k)" "old_log C n (appendLoop es n)" "old_log C n (conflictNext reply n)"
    "nDisk n1 = nDisk n \<Longrightarrow> old_log C n (advanceCommitLocked n1)"
proof -
  have "conflictNext reply n = Panic d \<Longrightarrow> d = nDisk n" for d
    by (auto simp: conflictNext_def Let_def bindR_Panic_iff split: if_splits dest: loop_Panic)
  then show "old_log C n (conflictNext reply n)" by (rule old_log_read [OF assms])
  show "nDisk n1 = nDisk n \<Longrightarrow> old_log C n (advanceCommitLocked n1)"
    using loop_Panic(3) [of _ n1] by (auto simp: advanceCommitLocked_def intro!: old_log_read [OF assms])
qed (auto intro!: old_log_read [OF assms] dest: accessor_Panic loop_Panic appendLoop_Panic)

lemma old_log_cong: "nLog n1 = nLog n \<Longrightarrow> old_log C n1 r = old_log C n r"
  by (simp add: old_log_def)

text \<open>After a first, successful persist the node is saved again.\<close>

lemma persist_saved:
  "durable C n \<Longrightarrow> drift n n1 \<Longrightarrow> nDisk n1 = nDisk n \<Longrightarrow> persistLocked C r n1 = Ok n2 \<Longrightarrow> saved C n2"
  using durable_persist [of C n n1 r] by (simp add: calm_def)

lemma stepDown_old: "durable C n \<Longrightarrow> old_log C n (stepDown C E t l n)"
  unfolding stepDown_def
  by (intro old_log_bind) (auto simp: durable_def intro: old_log_persist)

lemma stepDown_saved: "durable C n \<Longrightarrow> stepDown C E t l n = Ok n1 \<Longrightarrow> durable C n1"
  using stepDown_calm [of C n E t l] durable_calm [of C n n1] by simp

lemma HandleRequestVote_old: "durable C n \<Longrightarrow> old_log C n (HandleRequestVote C E args n)"
  unfolding HandleRequestVote_def
proof (rule old_log_bind)
  assume d: "durable C n"
  let ?r = "if nTerm n < rvTerm args then persistLocked C (reWrite1 E) (becomeFollowerLocked (rvTerm args) n) else Ok n"
  show "old_log C n ?r" using d by (auto simp: durable_def intro: old_log_persist)
  fix n1 assume n1: "?r = Ok n1"
  have "saved C n1"
    using d n1 persist_saved [OF d becomeFollower_drift] by (auto simp: durable_def split: if_splits)
  moreover have "nLog n1 = nLog n" using n1 by (auto split: if_splits dest!: persistLocked_sel)
  ultimately have "old_log C n (persistLocked C (reWrite2 E) (n1\<lparr>nVotedFor := rvCandidateID args\<rparr>))"
    using old_log_persist [of C n1 "n1\<lparr>nVotedFor := rvCandidateID args\<rparr>" "reWrite2 E"] by (simp add: old_log_def)
  then show "old_log C n (let reply = \<lparr>rvrTerm = nTerm n1, rvrVoteGranted = False\<rparr> in
       if rvTerm args < nTerm n1 then Ok (reply, n1)
       else
         let upToDate = (rvLastLogTerm args > lastTerm n1 \<or>
               (rvLastLogTerm args = lastTerm n1 \<and> rvLastLogIndex args \<ge> lastIndex n1))
         in
           if (nVotedFor n1 = [] \<or> nVotedFor n1 = rvCandidateID args) \<and> upToDate
           then bindR (persistLocked C (reWrite2 E) (n1\<lparr>nVotedFor := rvCandidateID args\<rparr>)) (\<lambda>n2.
                  Ok (reply\<lparr>rvrVoteGranted := True\<rparr>, resetElectionTimerLocked E n2))
           else Ok (reply, n1))"
    by (auto simp: Let_def intro: old_log_bind)
qed


lemma startElection_old: "durable C n \<Longrightarrow> old_log C n (startElectionLocked C E n)"
  unfolding startElectionLocked_def Let_def
  by (intro old_log_bind) (auto simp: durable_def intro: old_log_persist)

lemma electionLoop_old: "durable C n \<Longrightarrow> old_log C n (electionLoop C E n)"
  using startElection_old [of C n E] unfolding electionLoop_def
  by (auto intro: old_log_bind split: prod.splits)

lemma step_back_old: "durable C n \<Longrightarrow> old_log C n (bindR (persistLocked C r (becomeFollowerLocked t n)) (\<lambda>n1. Ok (g n1)))"
  by (intro old_log_bind) (auto simp: durable_def intro: old_log_persist)

lemma becomeLeader_old: "durable C n \<Longrightarrow> old_log C n (becomeLeaderLocked C r n)"
  unfolding becomeLeaderLocked_def Let_def
  by (intro old_log_bind) (auto simp: durable_def intro: old_log_persist)

lemma handleVoteReply_old: "durable C n \<Longrightarrow> old_log C n (handleVoteReply C E t votes reply n)"
  using becomeLeader_old [of C n "reWrite1 E"] step_back_old [of C n "reWrite1 E" "rvrTerm reply" "\<lambda>n1. (votes, n1)"]
  unfolding handleVoteReply_def by (auto intro: old_log_bind)

lemma Propose_old: "durable C n \<Longrightarrow> old_log C n (Propose C E command n)"
  unfolding Propose_def Let_def
  by (auto simp: durable_def intro!: old_log_bind intro: old_log_persist)

lemma appendChecked_old:
  assumes s: "saved C n"
  shows "old_log C n (appendChecked C E args reply n)"
proof -
  have P: "old_log C n (bindR (if b then persistLocked C (reWrite2 E) n1 else Ok n1) (\<lambda>n2. Ok (g n2)))"
    if "appendLoop (aeEntries args) n = Ok (b, n1)" for b n1 and g :: "Node \<Rightarrow> AppendEntriesReply \<times> Node"
  proof -
    have "n1 = n\<lparr>nLog := nLog n1\<rparr>" using appendLoop_Ok [OF that] by simp
    then have "nDisk n1 = nDisk n" by (metis Node.select_convs(17) Node.surjective Node.update_convs(5))
    then show ?thesis using old_log_persist [OF s, of n1] by (intro old_log_bind) auto
  qed
  show ?thesis
    unfolding appendChecked_def
    by (auto intro!: old_log_bind P old_log_access [OF s] split: prod.splits)
qed

lemma HandleAppendEntries_old:
  assumes d: "durable C n"
  shows "old_log C n (HandleAppendEntries C E args n)"
  unfolding HandleAppendEntries_def Let_def
proof (auto intro!: old_log_bind stepDown_old [OF d])
  fix n1 assume n1: "stepDown C E (aeTerm args) (aeLeaderID args) n = Ok n1"
  have "saved C n1" using stepDown_saved [OF d n1] by (simp add: durable_def)
  then show "old_log C n (appendChecked C E a r n1)" for a r
    using appendChecked_old [of C n1 E a r] stepDown_Ok(1) [OF n1] by (simp add: old_log_def)
  then show "old_log C n (appendChecked C E a r n1)" for a r .
qed

lemma handleAppendReply_old:
  assumes d: "durable C n"
  shows "old_log C n (handleAppendReply C E peer args reply n)"
proof -
  have s: "saved C n" using d by (simp add: durable_def)
  show ?thesis
    unfolding handleAppendReply_def Let_def
    by (auto intro!: step_back_old [OF d] old_log_bind [OF old_log_access(8) [OF s]] old_log_bind [OF old_log_access(9) [OF s]])
qed

lemma handleSnapshotReply_old: "durable C n \<Longrightarrow> old_log C n (handleSnapshotReply C E peer args reply n)"
  unfolding handleSnapshotReply_def Let_def by (auto intro!: step_back_old)

lemma Node_Snapshot_old:
  assumes d: "durable C n"
  shows "old_log C n (Node_Snapshot C E index snap n)"
proof -
  have s: "saved C n" using d by (simp add: durable_def)
  show ?thesis unfolding Node_Snapshot_def
    by (auto intro!: old_log_bind old_log_access [OF s] old_log_persistWithSnapshot [OF s])
qed

lemma HandleInstallSnapshot_old:
  assumes d: "durable C n"
  shows "old_log C n (HandleInstallSnapshot C E args n)"
  unfolding HandleInstallSnapshot_def Let_def
proof (auto intro!: old_log_bind stepDown_old [OF d])
  fix n1 assume n1: "stepDown C E (isTerm args) (isLeaderID args) n = Ok n1"
  have s: "saved C n1" using stepDown_saved [OF d n1] by (simp add: durable_def)
  have eq: "old_log C n r = old_log C n1 r" for r :: "'x res" using stepDown_Ok(1) [OF n1] by (simp add: old_log_def)
  show "old_log C n (termAt n1 i)" for i by (simp only: eq) (rule old_log_access [OF s])
  show "old_log C n (sliceFrom n1 i)" for i by (simp only: eq) (rule old_log_access [OF s])
  show "old_log C n (persistWithSnapshotLocked C (reWrite2 E) (reWrite3 E) (isData args)
      (n1\<lparr>nLog := l, nSnapshot := sn\<rparr>))" for l sn
    by (simp only: eq) (rule old_log_persistWithSnapshot [OF s], simp)
  then show "old_log C n (persistWithSnapshotLocked C (reWrite2 E) (reWrite3 E) (isData args)
      (n1\<lparr>nLog := l, nSnapshot := sn\<rparr>))" for l sn .
qed

lemma applier_old:
  assumes d: "durable C n"
  shows "old_log C n (applier n)"
proof -
  have s: "saved C n" using d by (simp add: durable_def)
  have e: "old_log C n (bindR (entriesFrom n i k) (\<lambda>es. Ok (g es)))" for i k and g :: "raftEntry list \<Rightarrow> applierAction \<times> Node"
    by (rule old_log_bind) (auto intro!: old_log_access [OF s])
  show ?thesis
    unfolding applier_def Let_def using old_log_disk [OF s] e by (auto split: option.splits)
qed

lemma sendAppendEntries_old:
  assumes d: "durable C n"
  shows "old_log C n (sendAppendEntries p n)"
proof -
  have s: "saved C n" using d by (simp add: durable_def)
  show ?thesis unfolding sendAppendEntries_def Let_def
    by (auto intro!: old_log_bind old_log_access [OF s])
qed


section \<open>Results\<close>

text \<open>Everything but the log, the commit index and the match indices.\<close>

definition same_rest :: "Node \<Rightarrow> Node \<Rightarrow> bool" where
  "same_rest n n' \<longleftrightarrow> nCfg n' = nCfg n \<and> nState n' = nState n \<and> nTerm n' = nTerm n \<and>
     nLastApplied n' = nLastApplied n \<and> nPending n' = nPending n"

lemma initPeers_match: "nMatchIndex (initPeers k ps n) = fold (\<lambda>p. AList.update p 0) ps (nMatchIndex n)"
  by (induction k ps n rule: initPeers.induct) simp_all

lemma initPeers_pending [simp]: "nPending (initPeers k ps n) = nPending n"
  by (induction k ps n rule: initPeers.induct) simp_all

lemma becomeLeader_effect:
  assumes "becomeLeaderLocked C r n = Ok n'"
  shows "nState n' = Leader" "nTerm n' = nTerm n" "nCfg n' = nCfg n" "nCommitIndex n' = nCommitIndex n"
    "nLastApplied n' = nLastApplied n" "nPending n' = nPending n"
    "nLog n' = nLog n @ [\<lparr>eIndex = lastIndex n + 1, eTerm = nTerm n, eCommand = None\<rparr>]"
    "nMatchIndex n' = AList.update (cID (nCfg n)) (lastIndex n + 1) (fold (\<lambda>p. AList.update p 0) (cPeers (nCfg n)) (nMatchIndex n))"
  using assms
  by (auto simp: becomeLeaderLocked_def Let_def bindR_Ok_iff initPeers_match lastIndex_def dest!: persistLocked_sel)

lemma handleVoteReply_effect:
  assumes "handleVoteReply C E t votes reply n = Ok (votes', n')"
  shows "same_body n n' \<and> calmer n n' \<or>
    nState n = Candidate \<and> nTerm n = t \<and> votes + 1 \<ge> majority n \<and> rvrVoteGranted reply \<and> becomeLeaderLocked C (reWrite1 E) n = Ok n'"
proof -
  have "same_body n n1 \<and> calmer n n1" if "persistLocked C (reWrite1 E) (becomeFollowerLocked (rvrTerm reply) n) = Ok n1" for n1
    using persist_body [OF that, of n] by simp
  then show ?thesis using assms unfolding handleVoteReply_def by (auto simp: bindR_Ok_iff split: if_splits)
qed

lemma Propose_effect:
  assumes "Propose C E command n = Ok ((index, t, ok), n')"
  shows "nState n \<noteq> Leader \<and> n' = n \<and> \<not> ok \<or>
    nState n = Leader \<and> ok \<and> index = lastIndex n + 1 \<and> t = nTerm n \<and> same_rest n n' \<and> nCommitIndex n' = nCommitIndex n \<and>
      nLog n' = nLog n @ [\<lparr>eIndex = index, eTerm = t, eCommand = Some command\<rparr>] \<and>
      nMatchIndex n' = AList.update (cID (nCfg n)) index (nMatchIndex n)"
  using assms unfolding Propose_def same_rest_def Let_def
  by (auto simp: bindR_Ok_iff split: if_splits dest!: persistLocked_sel)

lemma appendChecked_effect:
  assumes "appendChecked C E args reply n = Ok (reply', n')"
  shows "same_rest n n'" "nMatchIndex n' = nMatchIndex n" "aerTerm reply' = aerTerm reply"
    "nCommitIndex n' = nCommitIndex n \<or> aerSuccess reply' \<and> aeLeaderCommit args > nCommitIndex n \<and>
       nCommitIndex n' = min (aeLeaderCommit args) (aePrevLogIndex args + int (length (aeEntries args)))"
proof -
  let ?c = "\<lambda>n2. followerCommit (aeLeaderCommit args) (aePrevLogIndex args + int (length (aeEntries args))) n2"
  have "n' = n \<and> aerTerm reply' = aerTerm reply \<or>
    (\<exists>b n1 n2. appendLoop (aeEntries args) n = Ok (b, n1) \<and> (if b then persistLocked C (reWrite2 E) n1 else Ok n1) = Ok n2 \<and>
       reply' = reply\<lparr>aerSuccess := True\<rparr> \<and> n' = ?c n2)"
  proof (cases "aePrevLogIndex args > lastIndex n")
    case True
    with assms show ?thesis by (auto simp: appendChecked_def)
  next
    case False
    then obtain t where t: "termAt n (aePrevLogIndex args) = Ok t" using assms by (auto simp: appendChecked_def bindR_Ok_iff)
    note R = assms [unfolded appendChecked_def t bindR.simps if_not_P [OF False]]
    show ?thesis
    proof (cases "t = aePrevLogTerm args")
      case True
      then obtain b n1 where a: "appendLoop (aeEntries args) n = Ok (b, n1)" using R by (auto simp: bindR_Ok_iff)
      then obtain n2 where "(if b then persistLocked C (reWrite2 E) n1 else Ok n1) = Ok n2" using R True by (auto simp: bindR_Ok_iff)
      with a R True show ?thesis by auto
    next
      case False
      with R show ?thesis by (auto simp: bindR_Ok_iff)
    qed
  qed
  then show "same_rest n n'" "nMatchIndex n' = nMatchIndex n" "aerTerm reply' = aerTerm reply"
    "nCommitIndex n' = nCommitIndex n \<or> aerSuccess reply' \<and> aeLeaderCommit args > nCommitIndex n \<and>
       nCommitIndex n' = min (aeLeaderCommit args) (aePrevLogIndex args + int (length (aeEntries args)))"
  proof (atomize (full), elim disjE exE conjE)
    fix b n1 n2 assume a: "appendLoop (aeEntries args) n = Ok (b, n1)" and p: "(if b then persistLocked C (reWrite2 E) n1 else Ok n1) = Ok n2"
      and r: "reply' = reply\<lparr>aerSuccess := True\<rparr>"
      and n': "n' = followerCommit (aeLeaderCommit args) (aePrevLogIndex args + int (length (aeEntries args))) n2"
    have n1: "n1 = n\<lparr>nLog := nLog n1\<rparr>" using appendLoop_Ok [OF a] by simp
    have "same_rest n n1" "nMatchIndex n1 = nMatchIndex n" "nCommitIndex n1 = nCommitIndex n"
      by (subst n1, simp add: same_rest_def)+
    then have "same_rest n n2" "nMatchIndex n2 = nMatchIndex n" "nCommitIndex n2 = nCommitIndex n"
      using p by (auto simp: same_rest_def split: if_splits dest!: persistLocked_sel)
    then show "(same_rest n n' \<and> nMatchIndex n' = nMatchIndex n) \<and> aerTerm reply' = aerTerm reply \<and>
      (nCommitIndex n' = nCommitIndex n \<or> aerSuccess reply' \<and> aeLeaderCommit args > nCommitIndex n \<and>
       nCommitIndex n' = min (aeLeaderCommit args) (aePrevLogIndex args + int (length (aeEntries args))))"
      unfolding n' r by (auto simp: followerCommit_def same_rest_def)
  qed (simp_all add: same_rest_def)
qed


lemma HandleAppendEntries_effect:
  assumes "HandleAppendEntries C E args n = Ok (reply, n')" and "nTerm n \<le> aeTerm args"
  shows "nTerm n' = aeTerm args" "nState n' = Follower" "nCfg n' = nCfg n" "nLastApplied n' = nLastApplied n"
    "nPending n' = nPending n" "nMatchIndex n' = nMatchIndex n"
    "nCommitIndex n' = nCommitIndex n \<or> aerSuccess reply \<and> aeLeaderCommit args > nCommitIndex n \<and>
       nCommitIndex n' = min (aeLeaderCommit args) (aePrevLogIndex args + int (length (aeEntries args)))"
proof -
  obtain n1 where n1: "stepDown C E (aeTerm args) (aeLeaderID args) n = Ok n1"
    using assms by (auto simp: HandleAppendEntries_def Let_def bindR_Ok_iff split: if_splits)
  have t: "\<not> aeTerm args < nTerm n" using assms(2) by simp
  let ?r = "\<lparr>aerTerm = nTerm n, aerSuccess = False, aerConflictTerm = 0, aerConflictIndex = 0\<rparr>\<lparr>aerTerm := nTerm n1\<rparr>"
  note R = assms(1) [unfolded HandleAppendEntries_def Let_def if_not_P [OF t] n1 bindR.simps]
  let ?cut = "firstIndex n1 - aePrevLogIndex args"
  let ?a = "args\<lparr>aeEntries := drop (nat ?cut) (aeEntries args), aePrevLogIndex := firstIndex n1, aePrevLogTerm := eTerm (hd (nLog n1))\<rparr>"
  have "n' = n1 \<or> appendChecked C E args ?r n1 = Ok (reply, n') \<or>
      appendChecked C E ?a ?r n1 = Ok (reply, n') \<and> ?cut \<ge> 0 \<and> ?cut \<le> int (length (aeEntries args))"
    using R by (auto split: if_splits)
  then have eff: "same_rest n1 n' \<and> nMatchIndex n' = nMatchIndex n1 \<and>
    (nCommitIndex n' = nCommitIndex n1 \<or> aerSuccess reply \<and> aeLeaderCommit args > nCommitIndex n1 \<and>
       nCommitIndex n' = min (aeLeaderCommit args) (aePrevLogIndex args + int (length (aeEntries args))))"
  proof (elim disjE conjE)
    assume a: "appendChecked C E ?a ?r n1 = Ok (reply, n')" and c: "0 \<le> ?cut" "?cut \<le> int (length (aeEntries args))"
    then show ?thesis using appendChecked_effect [OF a] by auto
  qed (use appendChecked_effect [of C E args ?r n1 reply n'] in \<open>simp_all add: same_rest_def\<close>)
  note S = stepDown_body [OF n1]
  from eff S assms(2) show "nTerm n' = aeTerm args" "nState n' = Follower" "nCfg n' = nCfg n" "nLastApplied n' = nLastApplied n"
    "nPending n' = nPending n" "nMatchIndex n' = nMatchIndex n"
    "nCommitIndex n' = nCommitIndex n \<or> aerSuccess reply \<and> aeLeaderCommit args > nCommitIndex n \<and>
       nCommitIndex n' = min (aeLeaderCommit args) (aePrevLogIndex args + int (length (aeEntries args)))"
    by (simp_all add: same_rest_def same_body_def)
qed

lemma HandleAppendEntries_stale:
  "aeTerm args < nTerm n \<Longrightarrow> HandleAppendEntries C E args n = Ok (reply, n') \<Longrightarrow> n' = n \<and> \<not> aerSuccess reply"
  by (auto simp: HandleAppendEntries_def Let_def)

lemma step_back_body:
  assumes "bindR (persistLocked C r (becomeFollowerLocked t n)) (\<lambda>n1. Ok (b, resetElectionTimerLocked E n1)) = Ok (b', n')"
  shows "same_body n n' \<and> calmer n n'"
proof -
  obtain n1 where "persistLocked C r (becomeFollowerLocked t n) = Ok n1" "n' = resetElectionTimerLocked E n1"
    using assms by (auto simp: bindR_Ok_iff)
  then show ?thesis using persist_body [of C r "becomeFollowerLocked t n" n1 n] by simp
qed

lemma handleAppendReply_effect:
  assumes "handleAppendReply C E peer args reply n = Ok (b, n')" and "log_ok n"
  shows "same_body n n' \<and> calmer n n' \<or>
    nState n = Leader \<and> nTerm n = aeTerm args \<and> aerTerm reply \<le> nTerm n \<and> aerSuccess reply \<and> same_rest n n' \<and> nLog n' = nLog n \<and>
    (nMatchIndex n' = nMatchIndex n \<or>
     nMatchIndex n' = AList.update peer (aePrevLogIndex args + int (length (aeEntries args))) (nMatchIndex n)) \<and>
    (nCommitIndex n' = nCommitIndex n \<or>
     nCommitIndex n < nCommitIndex n' \<and> nCommitIndex n' \<le> lastIndex n \<and> firstIndex n < nCommitIndex n' \<and>
     termAt n (nCommitIndex n') = Ok (nTerm n) \<and> majority n \<le> matchCount (nCommitIndex n') n')"
proof (cases "aerTerm reply > nTerm n")
  case True
  then show ?thesis using assms(1) step_back_body unfolding handleAppendReply_def by simp
next
  case low: False
  show ?thesis
  proof (cases "nState n \<noteq> Leader \<or> nTerm n \<noteq> aeTerm args")
    case True
    with low assms(1) show ?thesis by (auto simp: handleAppendReply_def)
  next
    case lead: False
    show ?thesis
    proof (cases "aerSuccess reply")
      case False
      then obtain i where "n' = n\<lparr>nNextIndex := AList.update peer i (nNextIndex n)\<rparr>"
        using assms(1) low lead by (auto simp: handleAppendReply_def bindR_Ok_iff)
      then show ?thesis by (simp add: same_body_def calmer_def)
    next
      case True
      define k where "k = aePrevLogIndex args + int (length (aeEntries args))"
      define n1 where "n1 = (if k > intAt (nMatchIndex n) peer then n\<lparr>nMatchIndex := AList.update peer k (nMatchIndex n)\<rparr> else n)"
      define n2 where "n2 = n1\<lparr>nNextIndex := AList.update peer (intAt (nMatchIndex n1) peer + 1) (nNextIndex n1)\<rparr>"
      have r: "bindR (advanceCommitLocked n2) (\<lambda>n3. Ok (True, n3)) = Ok (b, n')"
        using assms(1) low lead True unfolding handleAppendReply_def n2_def n1_def k_def Let_def by simp
      have n2: "nLog n2 = nLog n" "nCommitIndex n2 = nCommitIndex n" "same_rest n n2"
        "nMatchIndex n2 = nMatchIndex n \<or> nMatchIndex n2 = AList.update peer k (nMatchIndex n)"
        by (simp_all add: n2_def n1_def same_rest_def)
      have "log_ok n2" using log_ok_cong [OF n2(1)] assms(2) by simp
      then obtain c where c: "advanceCommitLocked n2 = Ok (n2\<lparr>nCommitIndex := c\<rparr>)" "best_commit n2 (lastIndex n2) c"
        using advanceCommit_best by blast
      have n': "n' = n2\<lparr>nCommitIndex := c\<rparr>" using r c(1) by simp
      have ix: "firstIndex n2 = firstIndex n" "lastIndex n2 = lastIndex n" using index_cong [OF n2(1)] by simp_all
      have tA: "termAt n2 j = Ok u \<longleftrightarrow> termAt n j = Ok u" for j u
        using n2(1) ix(1) by (simp add: termAt_def entryAt_def Let_def bindR_Ok_iff)
      have "c = nCommitIndex n \<or> nCommitIndex n < c \<and> c \<le> lastIndex n \<and> firstIndex n < c \<and> termAt n c = Ok (nTerm n) \<and> majority n \<le> matchCount c n2"
        using c(2) n2(2,3) ix tA unfolding best_commit_def commitable_def by (auto simp: same_rest_def majority_def)
      then show ?thesis using low lead True n2 by (simp add: n' same_rest_def k_def [symmetric] matchCount_def)
    qed
  qed
qed

lemma handleSnapshotReply_effect:
  assumes "handleSnapshotReply C E peer args reply n = Ok (b, n')"
  shows "same_body n n' \<and> calmer n n' \<or>
    nState n = Leader \<and> nTerm n = isTerm args \<and> isrTerm reply \<le> nTerm n \<and> same_rest n n' \<and> nLog n' = nLog n \<and>
    nCommitIndex n' = nCommitIndex n \<and>
    (nMatchIndex n' = nMatchIndex n \<or> nMatchIndex n' = AList.update peer (isLastIncludedIndex args) (nMatchIndex n))"
proof (cases "isrTerm reply > nTerm n")
  case True
  then show ?thesis using assms(1) step_back_body unfolding handleSnapshotReply_def by simp
next
  case False
  then show ?thesis
    using assms(1) by (auto simp: handleSnapshotReply_def Let_def same_body_def calmer_def same_rest_def split: if_splits)
qed


lemma persistWithSnapshot_sel:
  assumes "persistWithSnapshotLocked C r1 r2 snap n = Ok n'"
  shows "same_rest n n' \<and> nLog n' = nLog n \<and> nCommitIndex n' = nCommitIndex n \<and> nMatchIndex n' = nMatchIndex n"
  by (subst persistWithSnapshot_Ok(1) [OF assms], simp add: same_rest_def)+

lemma Node_Snapshot_effect:
  assumes "Node_Snapshot C E index snap n = Ok n'"
    and x: "nLog n = view f x" "contiguous 0 x" "f \<le> length x" and a: "nLastApplied n \<le> int (length x)"
  shows "n' = n \<or> same_rest n n' \<and> nCommitIndex n' = nCommitIndex n \<and> nMatchIndex n' = nMatchIndex n \<and>
    int f < index \<and> index \<le> nLastApplied n \<and> nLog n' = view (nat index) x"
proof (cases "index \<le> firstIndex n \<or> index > nLastApplied n")
  case True
  with assms(1) show ?thesis by (simp add: Node_Snapshot_def)
next
  case False
  note V = view_log_ok [OF x]
  have i: "int f < index" "index \<le> nLastApplied n" "index \<le> int (length x)" using False V(2) a by simp_all
  have t: "termAt n index = Ok (tm x (nat index))" by (rule view_termAt [OF x]) (use i in simp_all)
  have sl: "sliceFrom n (index + 1) = Ok (drop (nat index) x)"
    using view_sliceFrom [OF x, of "index + 1"] i by (simp add: nat_add_distrib)
  have "persistWithSnapshotLocked C (reWrite1 E) (reWrite2 E) snap
      (n\<lparr>nLog := sentinel index (tm x (nat index)) # drop (nat index) x, nSnapshot := Some snap\<rparr>) = Ok n'"
    using assms(1) False t sl by (simp add: Node_Snapshot_def)
  from persistWithSnapshot_sel [OF this] i show ?thesis by (auto simp: same_rest_def view_def)
qed

lemma HandleInstallSnapshot_effect:
  assumes "HandleInstallSnapshot C E args n = Ok (reply, n')"
    and x: "nLog n = view f x" "contiguous 0 x" "f \<le> length x" "traced H x" and l: "traced H l"
    and a: "isLastIncludedIndex args = int k" "isLastIncludedTerm args = tm l k" "k \<le> length l"
    and c: "int f \<le> nCommitIndex n" and t: "nTerm n \<le> isTerm args"
  shows "nTerm n' = isTerm args \<and> nState n' = Follower \<and> nCfg n' = nCfg n \<and> nLastApplied n' = nLastApplied n \<and>
    nMatchIndex n' = nMatchIndex n \<and> isrTerm reply = isTerm args \<and>
    (if int k \<le> nCommitIndex n then nLog n' = nLog n \<and> nCommitIndex n' = nCommitIndex n \<and> nPending n' = nPending n
     else nLog n' = view k (adopt k l x) \<and> k \<le> length (adopt k l x) \<and> nCommitIndex n' = int k \<and>
       nPending n' = Some (ApplySnapshot (isData args) (int k) (tm l k)))"
proof -
  obtain n1 where n1: "stepDown C E (isTerm args) (isLeaderID args) n = Ok n1"
    using assms(1) t by (auto simp: HandleInstallSnapshot_def Let_def bindR_Ok_iff split: if_splits)
  note S = stepDown_body [OF n1]
  have t': "\<not> isTerm args < nTerm n" using t by simp
  note R = assms(1) [unfolded HandleInstallSnapshot_def Let_def if_not_P [OF t'] n1 bindR.simps]
  have S': "nTerm n1 = isTerm args" "nLog n1 = view f x" "nCommitIndex n1 = nCommitIndex n" "nLastApplied n1 = nLastApplied n"
    "nCfg n1 = nCfg n" "nPending n1 = nPending n" "nMatchIndex n1 = nMatchIndex n" "nState n1 = Follower"
    using S t x(1) by (simp_all add: same_body_def)
  note V = view_log_ok [OF S'(2) x(2,3)]
  show ?thesis
  proof (cases "int k \<le> nCommitIndex n")
    case True
    then have "n' = n1" "reply = \<lparr>isrTerm = nTerm n1\<rparr>" using R S'(3) a(1) by (auto split: if_splits)
    with True S' x(1) show ?thesis by simp
  next
    case False
    let ?T = "if isLastIncludedIndex args \<le> lastIndex n1
       then bindR (termAt n1 (isLastIncludedIndex args)) (\<lambda>t. if t = isLastIncludedTerm args then sliceFrom n1 (isLastIncludedIndex args + 1) else Ok [])
       else Ok []"
    have fk: "f < k" using False c by simp
    have tail: "?T = Ok (drop k (adopt k l x))"
    proof (cases "k \<le> length x")
      case True
      have u: "termAt n1 (int k) = Ok (tm x k)" using view_termAt [OF S'(2) x(2,3), of "int k"] True fk by simp
      have v: "sliceFrom n1 (int k + 1) = Ok (drop k x)"
        using view_sliceFrom [OF S'(2) x(2,3), of "int k + 1"] True fk by (simp add: nat_add_distrib)
      have "take k x = take k l \<longleftrightarrow> tm x k = tm l k"
        using log_matching [OF x(4) l True a(3)] tm_prefix [of k x l k] by blast
      then show ?thesis using True u v V(3) a by (auto simp: adopt_def)
    next
      case False
      then have "take k x \<noteq> take k l" using arg_cong [of "take k x" "take k l" length] a(3) by auto
      then show ?thesis using False V(3) a by (simp add: adopt_def)
    qed
    have tk: "tm (adopt k l x) k = tm l k" using tm_prefix [OF adopt_take order_refl] .
    have nc: "\<not> isLastIncludedIndex args \<le> nCommitIndex n1" using False a(1) S'(3) by simp
    obtain n2 where n2: "persistWithSnapshotLocked C (reWrite2 E) (reWrite3 E) (isData args)
         (n1\<lparr>nLog := view k (adopt k l x), nSnapshot := Some (isData args)\<rparr>) = Ok n2"
      and n': "n' = n2\<lparr>nCommitIndex := int k, nPending := Some (ApplySnapshot (isData args) (int k) (tm l k))\<rparr>"
        "reply = \<lparr>isrTerm = nTerm n1\<rparr>"
      using R [unfolded if_not_P [OF nc] tail bindR.simps] by (auto simp: bindR_Ok_iff view_def tk a(1,2))
    have "length (take k (adopt k l x)) = k" unfolding adopt_take using a(3) by simp
    then have "k \<le> length (adopt k l x)" by simp
    with persistWithSnapshot_sel [OF n2] S' n' False show ?thesis by (simp add: same_rest_def)
  qed
qed

lemma HandleInstallSnapshot_stale:
  "isTerm args < nTerm n \<Longrightarrow> HandleInstallSnapshot C E args n = Ok (reply, n') \<Longrightarrow> n' = n \<and> isrTerm reply = nTerm n"
  by (auto simp: HandleInstallSnapshot_def Let_def)


lemma view_entryAt:
  assumes "nLog n = view f x" and "contiguous 0 x" and "f \<le> length x" and "int f < i" and "i \<le> int (length x)"
  shows "entryAt n i = Ok (x ! (nat i - 1))"
proof -
  note V = view_log_ok [OF assms(1,2,3)]
  have "nat (i - int f) = nat i - f" using assms(4) by simp
  then show ?thesis
    using entryAt_Ok [OF V(1), of i] V(2,3) assms view_nth(2) [of f "nat i" x] by simp
qed

lemma view_entriesFrom:
  assumes x: "nLog n = view f x" "contiguous 0 x" "f \<le> length x"
  shows "int f < i \<Longrightarrow> i + int k \<le> int (length x) + 1 \<Longrightarrow> entriesFrom n i k = Ok (take k (drop (nat i - 1) x))"
proof (induction k arbitrary: i)
  case (Suc k)
  have e: "entryAt n i = Ok (x ! (nat i - 1))" by (rule view_entryAt [OF x]) (use Suc.prems in simp_all)
  have "entriesFrom n (i + 1) k = Ok (take k (drop (nat (i + 1) - 1) x))" by (rule Suc.IH) (use Suc.prems in simp_all)
  moreover have "nat (i + 1) - 1 = Suc (nat i - 1)" "nat i - 1 < length x" using Suc.prems by linarith+
  ultimately show ?case using e by (simp add: Cons_nth_drop_Suc [symmetric])
qed simp

definition applyFrom :: "Node \<Rightarrow> int" where
  "applyFrom n = (if nLastApplied n + 1 \<le> firstIndex n then firstIndex n + 1 else nLastApplied n + 1)"

lemma applier_effect:
  assumes "applier n = Ok (act, n')"
    and x: "nLog n = view f x" "contiguous 0 x" "f \<le> length x" and c: "nCommitIndex n \<le> int (length x)"
  shows "n' = n \<and> (\<forall>ms. act \<noteq> ApplierSend ms) \<or>
    (\<exists>snap. nPending n = Some snap \<and> act = ApplierSend [snap] \<and>
       n' = n\<lparr>nPending := None, nLastApplied := max (nLastApplied n) (amIndex snap)\<rparr>) \<or>
    nPending n = None \<and> nLastApplied n < nCommitIndex n \<and> n' = n \<and> applyFrom n \<le> nCommitIndex n + 1 \<and>
      act = ApplierSend (map applyMsgOf (take (nat (nCommitIndex n - applyFrom n + 1)) (drop (nat (applyFrom n) - 1) x)))"
proof (cases "nPending n = None \<and> nLastApplied n \<ge> nCommitIndex n \<or> nStopped n")
  case True
  then show ?thesis using assms(1) by (auto simp: applier_def split: if_splits)
next
  case go: False
  show ?thesis
  proof (cases "nPending n")
    case (Some snap)
    have "n\<lparr>nPending := None\<rparr> = n\<lparr>nPending := None, nLastApplied := nLastApplied n\<rparr>" by simp
    then show ?thesis using go Some assms(1) by (auto simp: applier_def Let_def max_def split: if_splits)
  next
    case None
    note R = assms(1) [unfolded applier_def Let_def None option.case applyFrom_def [symmetric]]
    have ge: "\<not> nCommitIndex n - applyFrom n + 1 < 0" using R go None by (auto split: if_splits)
    have "int f < applyFrom n" using view_log_ok(2) [OF x] by (auto simp: applyFrom_def)
    then have "entriesFrom n (applyFrom n) (nat (nCommitIndex n - applyFrom n + 1)) =
        Ok (take (nat (nCommitIndex n - applyFrom n + 1)) (drop (nat (applyFrom n) - 1) x))"
      by (rule view_entriesFrom [OF x]) (use ge c in simp)
    then show ?thesis using R go None ge by (auto split: if_splits)
  qed
qed

lemma NewNode_effect:
  assumes "NewNode C R E cfg d = Some (Ok n)"
  shows "nMatchIndex n = []" "nPending n = None \<or> (\<exists>snap t. nPending n = Some (ApplySnapshot snap (firstIndex n) t) \<and> dSnap d = Some snap \<and> snap \<noteq> [])"
  using assms
  by (auto simp: NewNode_def readPersist_def Let_def bindR_Ok_iff firstIndex_def split: option.splits if_splits)

end
