(* ===== verification/Raft_Safety.thy ===== *)
theory Raft_Safety
  imports Raft_Effects
begin

text \<open>
  The cluster implements the abstract Raft of \<open>Raft_History\<close>: there is a history such that every
  node's log, in memory or on disk, is a view of its whole log in the history, every message is a
  part of the log of its term's leader, and everything that a node regards as committed is agreed.
  The relation is an invariant of the cluster's steps; each step takes the history some abstract
  steps further. State machine safety follows: what is handed to the state machines agrees.
\<close>

section \<open>The relation\<close>

definition pers_ok :: "string list \<Rightarrow> history \<Rightarrow> string \<Rightarrow> persistentState \<Rightarrow> bool" where
  "pers_ok members H i p \<longleftrightarrow> hTerm H i = psTerm p \<and>
     (\<exists>f. f \<le> length (hFull H i) \<and> psLog p = view f (hFull H i) \<and> agreed members H (psTerm p) (take f (hFull H i)))"

definition upto_ok :: "string list \<Rightarrow> history \<Rightarrow> string \<Rightarrow> int \<Rightarrow> bool" where
  "upto_ok members H i k \<longleftrightarrow> 0 \<le> k \<and> k \<le> int (length (hFull H i)) \<and>
     agreed members H (hTerm H i) (take (nat k) (hFull H i))"

definition match_ok :: "history \<Rightarrow> int \<Rightarrow> (string \<times> int) list \<Rightarrow> bool" where
  "match_ok H T m \<longleftrightarrow> (\<forall>e \<in> set m. snd e \<le> 0 \<or> acked H (fst e) T (nat (snd e)))"

definition node_safe :: "string list \<Rightarrow> history \<Rightarrow> string \<Rightarrow> Node \<Rightarrow> bool" where
  "node_safe members H i n \<longleftrightarrow> pers_ok members H i (persistentOf n) \<and>
     firstIndex n \<le> nCommitIndex n \<and> upto_ok members H i (nCommitIndex n) \<and> upto_ok members H i (nLastApplied n) \<and>
     nLastApplied n \<le> nCommitIndex n \<and>
     (\<forall>m. nPending n = Some m \<longrightarrow> (\<exists>d k t. m = ApplySnapshot d k t \<and> k \<le> nCommitIndex n \<and> upto_ok members H i k)) \<and>
     go_map (nMatchIndex n) \<and> fst ` set (nMatchIndex n) \<subseteq> set members \<and>
     (nState n = Leader \<longrightarrow> hLog H (nTerm n) = Some (hFull H i) \<and> match_ok H (nTerm n) (nMatchIndex n))"

definition peer_safe :: "psCodec \<Rightarrow> string list \<Rightarrow> history \<Rightarrow> string \<Rightarrow> peer \<Rightarrow> bool" where
  "peer_safe C members H i P \<longleftrightarrow>
     (case P of
        Up n \<Rightarrow> node_safe members H i n
      | Down d \<Rightarrow> (\<forall>p. loaded C d = Some p \<longrightarrow> pers_ok members H i p))"

text \<open>Votes: a voter's log at the time of its vote is not newer than the candidate's.\<close>

definition key_le :: "rlog \<Rightarrow> RequestVoteArgs \<Rightarrow> bool" where
  "key_le v a \<longleftrightarrow> tm v (length v) < rvLastLogTerm a \<or> tm v (length v) = rvLastLogTerm a \<and> int (length v) \<le> rvLastLogIndex a"

definition key_eq :: "rlog \<Rightarrow> RequestVoteArgs \<Rightarrow> bool" where
  "key_eq v a \<longleftrightarrow> tm v (length v) = rvLastLogTerm a \<and> int (length v) = rvLastLogIndex a"

definition requested :: "cluster \<Rightarrow> RequestVoteArgs \<Rightarrow> bool" where
  "requested s a \<longleftrightarrow> (\<exists>q. (q, a) \<in> clVoteReqs s)"

definition votes_safe :: "string list \<Rightarrow> history \<Rightarrow> cluster \<Rightarrow> bool" where
  "votes_safe members H s \<longleftrightarrow>
     (\<forall>a. requested s a \<longrightarrow> hLog H (rvTerm a) = None \<longrightarrow> (\<exists>v. hVote H (rvTerm a) (rvCandidateID a) = Some v \<and> key_le v a)) \<and>
     (\<forall>p a r. (p, a, r) \<in> clVoteReps s \<longrightarrow> requested s a \<and>
        (rvrVoteGranted r \<longrightarrow> hLog H (rvTerm a) = None \<longrightarrow> (\<exists>v. hVote H (rvTerm a) p = Some v \<and> key_le v a))) \<and>
     (\<forall>i \<in> set members. \<forall>n a. clPeer s i = Up n \<longrightarrow> nState n = Candidate \<longrightarrow> requested s a \<longrightarrow> rvCandidateID a = i \<longrightarrow>
        rvTerm a = nTerm n \<longrightarrow> key_eq (hFull H i) a) \<and>
     (\<forall>T p v. hVote H T p = Some v \<longrightarrow> (\<exists>a. requested s a \<and> rvTerm a = T \<and> key_le v a \<and> voted s p T (rvCandidateID a))) \<and>
     (\<forall>a a'. requested s a \<longrightarrow> requested s a' \<longrightarrow> rvCandidateID a' = rvCandidateID a \<longrightarrow> rvTerm a' = rvTerm a \<longrightarrow>
        rvLastLogTerm a' = rvLastLogTerm a \<and> rvLastLogIndex a' = rvLastLogIndex a) \<and>
     (\<forall>a. requested s a \<longrightarrow> 1 \<le> rvTerm a)"

text \<open>The leader of a term that has one was elected and is not a candidate in that term any more.\<close>

definition owners_safe :: "string list \<Rightarrow> history \<Rightarrow> cluster \<Rightarrow> bool" where
  "owners_safe members H s \<longleftrightarrow>
     (\<forall>T l. hLog H T = Some l \<longrightarrow> (\<exists>c \<in> set members. elected members s c T \<and> T \<le> hTerm H c \<and>
        (\<forall>n. clPeer s c = Up n \<longrightarrow> nTerm n = T \<longrightarrow> nState n \<noteq> Candidate)))"

text \<open>Messages are parts of the log of their term's leader.\<close>

definition append_ok :: "string list \<Rightarrow> history \<Rightarrow> AppendEntriesArgs \<Rightarrow> bool" where
  "append_ok members H a \<longleftrightarrow>
     (\<exists>l k. hLog H (aeTerm a) = Some l \<and> aePrevLogIndex a = int k \<and> k + length (aeEntries a) \<le> length l \<and>
        aeEntries a = take (length (aeEntries a)) (drop k l) \<and> aePrevLogTerm a = tm l k \<and>
        0 \<le> aeLeaderCommit a \<and> aeLeaderCommit a \<le> int (k + length (aeEntries a)) \<and>
        agreed members H (aeTerm a) (take (nat (aeLeaderCommit a)) l))"

definition install_ok :: "string list \<Rightarrow> history \<Rightarrow> InstallSnapshotArgs \<Rightarrow> bool" where
  "install_ok members H a \<longleftrightarrow>
     (\<exists>l k. hLog H (isTerm a) = Some l \<and> isLastIncludedIndex a = int k \<and> k \<le> length l \<and>
        isLastIncludedTerm a = tm l k \<and> agreed members H (isTerm a) (take k l))"

definition msgs_safe :: "string list \<Rightarrow> history \<Rightarrow> cluster \<Rightarrow> bool" where
  "msgs_safe members H s \<longleftrightarrow>
     (\<forall>p a. (p, a) \<in> clAppends s \<longrightarrow> append_ok members H a) \<and>
     (\<forall>p a r. (p, a, r) \<in> clAppendReps s \<longrightarrow> p \<in> set members \<and> append_ok members H a \<and>
        (aerSuccess r \<longrightarrow> acked H p (aeTerm a) (nat (aePrevLogIndex a + int (length (aeEntries a)))))) \<and>
     (\<forall>p a. (p, a) \<in> clInstalls s \<longrightarrow> install_ok members H a) \<and>
     (\<forall>p a r. (p, a, r) \<in> clInstallReps s \<longrightarrow> p \<in> set members \<and> install_ok members H a \<and>
        (isrTerm r \<le> isTerm a \<longrightarrow> acked H p (isTerm a) (nat (isLastIncludedIndex a))))"

text \<open>What is handed to a state machine.\<close>

definition msg_agreed :: "string list \<Rightarrow> history \<Rightarrow> ApplyMsg \<Rightarrow> bool" where
  "msg_agreed members H m \<longleftrightarrow>
     (\<exists>T x. agreed members H T x \<and> int (length x) = amIndex m \<and>
        (\<forall>c k t. m = ApplyCommand c k t \<longrightarrow> x \<noteq> [] \<and> last x = \<lparr>eIndex = k, eTerm = t, eCommand = c\<rparr>))"

definition deliver_safe :: "string list \<Rightarrow> history \<Rightarrow> cluster \<Rightarrow> bool" where
  "deliver_safe members H s \<longleftrightarrow>
     (\<forall>i m. m \<in> set (clOutbox s i) \<union> set (clApplied s i) \<longrightarrow> msg_agreed members H m) \<and>
     (\<forall>i n m. clPeer s i = Up n \<longrightarrow> m \<in> set (clOutbox s i) \<longrightarrow> 0 \<le> amIndex m \<and> amIndex m \<le> nCommitIndex n) \<and>
     (\<forall>i d. clPeer s i = Down d \<longrightarrow> clOutbox s i = [])"

definition safe :: "psCodec \<Rightarrow> string list \<Rightarrow> history \<Rightarrow> cluster \<Rightarrow> bool" where
  "safe C members H s \<longleftrightarrow> hist_inv members H \<and> (\<forall>i \<in> set members. peer_safe C members H i (clPeer s i)) \<and>
     votes_safe members H s \<and> owners_safe members H s \<and> msgs_safe members H s \<and> deliver_safe members H s"

section \<open>Growing histories\<close>

lemma pers_ok_mono:
  "pers_ok members H i p \<Longrightarrow> extends H H' \<Longrightarrow> hFull H' i = hFull H i \<Longrightarrow> hTerm H' i = hTerm H i \<Longrightarrow> pers_ok members H' i p"
  unfolding pers_ok_def using extends_agreed by auto

lemma upto_ok_mono:
  "upto_ok members H i k \<Longrightarrow> extends H H' \<Longrightarrow> hFull H' i = hFull H i \<Longrightarrow> hTerm H i \<le> hTerm H' i \<Longrightarrow> upto_ok members H' i k"
  unfolding upto_ok_def using extends_agreed agreed_mono by metis

lemma match_ok_mono: "match_ok H T m \<Longrightarrow> extends H H' \<Longrightarrow> match_ok H' T m"
  unfolding match_ok_def using extends_acked by blast

lemma node_safe_mono:
  assumes "node_safe members H i n" and "extends H H'" and "hFull H' i = hFull H i" and "hTerm H' i = hTerm H i"
    and "nState n = Leader \<Longrightarrow> hLog H' (nTerm n) = hLog H (nTerm n)"
  shows "node_safe members H' i n"
proof -
  have "upto_ok members H' i k" if "upto_ok members H i k" for k using upto_ok_mono [OF that assms(2,3)] assms(4) by simp
  then show ?thesis
    using assms pers_ok_mono [OF _ assms(2,3,4)] match_ok_mono [OF _ assms(2)] unfolding node_safe_def by fastforce
qed

lemma append_ok_mono:
  assumes "append_ok members H a" and "extends H H'"
  shows "append_ok members H' a"
proof -
  obtain l k where l: "hLog H (aeTerm a) = Some l" and k: "aePrevLogIndex a = int k" "k + length (aeEntries a) \<le> length l"
      "aeEntries a = take (length (aeEntries a)) (drop k l)" "aePrevLogTerm a = tm l k"
      "0 \<le> aeLeaderCommit a" "aeLeaderCommit a \<le> int (k + length (aeEntries a))"
      "agreed members H (aeTerm a) (take (nat (aeLeaderCommit a)) l)"
    using assms(1) unfolding append_ok_def by blast
  obtain r where r: "hLog H' (aeTerm a) = Some (l @ r)" using extends_log [OF assms(2) l] by blast
  have "aeEntries a = take (length (aeEntries a)) (drop k (l @ r))" "aePrevLogTerm a = tm (l @ r) k"
    "take (nat (aeLeaderCommit a)) (l @ r) = take (nat (aeLeaderCommit a)) l"
    using k by auto
  then show ?thesis
    unfolding append_ok_def using r k extends_agreed [OF assms(2)] by (intro exI [of _ "l @ r"] exI [of _ k]) auto
qed

lemma install_ok_mono:
  assumes "install_ok members H a" and "extends H H'"
  shows "install_ok members H' a"
proof -
  obtain l k where l: "hLog H (isTerm a) = Some l" and k: "isLastIncludedIndex a = int k" "k \<le> length l"
      "isLastIncludedTerm a = tm l k" "agreed members H (isTerm a) (take k l)"
    using assms(1) unfolding install_ok_def by blast
  obtain r where "hLog H' (isTerm a) = Some (l @ r)" using extends_log [OF assms(2) l] by blast
  then show ?thesis unfolding install_ok_def using k extends_agreed [OF assms(2)] by (intro exI [of _ "l @ r"] exI [of _ k]) auto
qed

lemma msg_agreed_mono: "msg_agreed members H m \<Longrightarrow> extends H H' \<Longrightarrow> msg_agreed members H' m"
  unfolding msg_agreed_def using extends_agreed by blast


lemma msgs_safe_step:
  assumes "msgs_safe members H s" and "extends H H'"
    and "\<And>p a. (p, a) \<in> clAppends s' \<Longrightarrow> (p, a) \<in> clAppends s \<or> append_ok members H' a"
    and "\<And>p a r. (p, a, r) \<in> clAppendReps s' \<Longrightarrow> (p, a, r) \<in> clAppendReps s \<or> p \<in> set members \<and> append_ok members H' a \<and>
       (aerSuccess r \<longrightarrow> acked H' p (aeTerm a) (nat (aePrevLogIndex a + int (length (aeEntries a)))))"
    and "\<And>p a. (p, a) \<in> clInstalls s' \<Longrightarrow> (p, a) \<in> clInstalls s \<or> install_ok members H' a"
    and "\<And>p a r. (p, a, r) \<in> clInstallReps s' \<Longrightarrow> (p, a, r) \<in> clInstallReps s \<or> p \<in> set members \<and> install_ok members H' a \<and>
       (isrTerm r \<le> isTerm a \<longrightarrow> acked H' p (isTerm a) (nat (isLastIncludedIndex a)))"
  shows "msgs_safe members H' s'"
  unfolding msgs_safe_def
proof (intro conjI allI impI)
  fix p a assume "(p, a) \<in> clAppends s'"
  then show "append_ok members H' a"
    using assms(1,3) append_ok_mono [OF _ assms(2)] unfolding msgs_safe_def by blast
next
  fix p a r assume "(p, a, r) \<in> clAppendReps s'"
  then show "p \<in> set members" "append_ok members H' a"
    "aerSuccess r \<Longrightarrow> acked H' p (aeTerm a) (nat (aePrevLogIndex a + int (length (aeEntries a))))"
    using assms(1,4) append_ok_mono [OF _ assms(2)] extends_acked [OF assms(2)] unfolding msgs_safe_def by blast+
next
  fix p a assume "(p, a) \<in> clInstalls s'"
  then show "install_ok members H' a"
    using assms(1,5) install_ok_mono [OF _ assms(2)] unfolding msgs_safe_def by blast
next
  fix p a r assume "(p, a, r) \<in> clInstallReps s'"
  then show "p \<in> set members" "install_ok members H' a"
    "isrTerm r \<le> isTerm a \<Longrightarrow> acked H' p (isTerm a) (nat (isLastIncludedIndex a))"
    using assms(1,6) install_ok_mono [OF _ assms(2)] extends_acked [OF assms(2)] unfolding msgs_safe_def by blast+
qed

lemma deliver_safe_step:
  assumes D: "deliver_safe members H s" and ext: "extends H H'"
    and new: "\<And>j m. m \<in> set (clOutbox s' j) \<union> set (clApplied s' j) \<Longrightarrow>
      m \<in> set (clOutbox s j) \<union> set (clApplied s j) \<or> msg_agreed members H' m"
    and P: "clPeer s' = (clPeer s)(i := P)" and others: "\<And>j. j \<noteq> i \<Longrightarrow> clOutbox s' j = clOutbox s j"
    and box: "\<And>n m. P = Up n \<Longrightarrow> m \<in> set (clOutbox s' i) \<Longrightarrow> 0 \<le> amIndex m \<and> amIndex m \<le> nCommitIndex n"
    and down: "\<And>d. P = Down d \<Longrightarrow> clOutbox s' i = []"
  shows "deliver_safe members H' s'"
  unfolding deliver_safe_def
proof (intro conjI allI impI)
  fix j m assume "m \<in> set (clOutbox s' j) \<union> set (clApplied s' j)"
  then show "msg_agreed members H' m" using new [of m j] D msg_agreed_mono [OF _ ext] unfolding deliver_safe_def by blast
next
  fix j n m assume up: "clPeer s' j = Up n" "m \<in> set (clOutbox s' j)"
  have "0 \<le> amIndex m \<and> amIndex m \<le> nCommitIndex n"
  proof (cases "j = i")
    case True
    with up P box show ?thesis by simp
  next
    case False
    then have "clPeer s j = Up n" "m \<in> set (clOutbox s j)" using up P others by simp_all
    then show ?thesis using D unfolding deliver_safe_def by blast
  qed
  then show "0 \<le> amIndex m" "amIndex m \<le> nCommitIndex n" by simp_all
next
  fix j d assume dn: "clPeer s' j = Down d"
  show "clOutbox s' j = []"
  proof (cases "j = i")
    case True
    with dn P down show ?thesis by simp
  next
    case False
    then have "clPeer s j = Down d" "clOutbox s' j = clOutbox s j" using dn P others by simp_all
    then show ?thesis using D unfolding deliver_safe_def by metis
  qed
qed

lemma deliver_safe_up:
  assumes D: "deliver_safe members H s" and ext: "extends H H'" and i: "clPeer s i = Up n"
    and s': "clPeer s' = (clPeer s)(i := Up n')" "clOutbox s' = clOutbox s" "clApplied s' = clApplied s"
    and le: "nCommitIndex n \<le> nCommitIndex n'"
  shows "deliver_safe members H' s'"
proof (rule deliver_safe_step [OF D ext _ s'(1)])
  fix n1 m assume "Up n' = Up n1" "m \<in> set (clOutbox s' i)"
  moreover have "0 \<le> amIndex m \<and> amIndex m \<le> nCommitIndex n" if "m \<in> set (clOutbox s i)" for m
    using D i that unfolding deliver_safe_def by blast
  ultimately show "0 \<le> amIndex m \<and> amIndex m \<le> nCommitIndex n1" using s'(2) le by force
qed (use s' in simp_all)

lemma peers_safe_step:
  assumes "\<forall>i \<in> set members. peer_safe C members H i (clPeer s i)" and el: "election_inv C members cfg s" and "distinct members"
    and i: "i \<in> set members" "clPeer s i = Up n \<or> nState n \<noteq> Leader" and P: "clPeer s' = (clPeer s)(i := P)" "peer_safe C members H' i P"
    and ext: "extends H H'" and others: "\<And>j. j \<noteq> i \<Longrightarrow> hFull H' j = hFull H j \<and> hTerm H' j = hTerm H j"
    and logs: "\<And>U. hLog H' U = hLog H U \<or> hLog H U = None \<or> nState n = Leader \<and> nTerm n = U"
  shows "\<forall>i \<in> set members. peer_safe C members H' i (clPeer s' i)"
proof
  fix j assume j: "j \<in> set members"
  show "peer_safe C members H' j (clPeer s' j)"
  proof (cases "j = i")
    case False
    then have old: "peer_safe C members H j (clPeer s j)" "clPeer s' j = clPeer s j" using assms(1) j P(1) by simp_all
    note O = others [OF False]
    show ?thesis
    proof (cases "clPeer s j")
      case (Down d)
      with old O show ?thesis using pers_ok_mono [OF _ ext] by (simp add: peer_safe_def)
    next
      case (Up m)
      then have m: "node_safe members H j m" using old(1) by (simp add: peer_safe_def)
      have "hLog H' (nTerm m) = hLog H (nTerm m)" if "nState m = Leader"
      proof (rule ccontr)
        assume ne: "hLog H' (nTerm m) \<noteq> hLog H (nTerm m)"
        have "hLog H (nTerm m) \<noteq> None" using m that by (simp add: node_safe_def)
        then have n: "nState n = Leader" "nTerm n = nTerm m" using logs [of "nTerm m"] ne by auto
        have L: "leaders_ok members s" using el by (simp add: election_inv_def)
        have "elected members s i (nTerm n)" using L i n unfolding leaders_ok_def by blast
        moreover have "elected members s j (nTerm m)" using L j Up that unfolding leaders_ok_def by blast
        ultimately show False using elected_unique [OF el assms(3)] n(2) False by metis
      qed
      then have "node_safe members H' j m" using node_safe_mono [OF m ext] O by simp
      then show ?thesis using old(2) Up by (simp add: peer_safe_def)
    qed
  qed (use P in simp)
qed

lemma elected_grow:
  "clVoteReqs s \<subseteq> clVoteReqs s' \<Longrightarrow> clVoteReps s \<subseteq> clVoteReps s' \<Longrightarrow> elected members s c T \<Longrightarrow> elected members s' c T"
  using elected_mono [of s T c s' members] voted_mono by blast

lemma votes_safeD:
  assumes "votes_safe members H s"
  shows "requested s a \<Longrightarrow> hLog H (rvTerm a) = None \<Longrightarrow> \<exists>v. hVote H (rvTerm a) (rvCandidateID a) = Some v \<and> key_le v a"
    and "(p, a, r) \<in> clVoteReps s \<Longrightarrow> requested s a"
    and "(p, a, r) \<in> clVoteReps s \<Longrightarrow> rvrVoteGranted r \<Longrightarrow> hLog H (rvTerm a) = None \<Longrightarrow> \<exists>v. hVote H (rvTerm a) p = Some v \<and> key_le v a"
    and "i \<in> set members \<Longrightarrow> clPeer s i = Up n \<Longrightarrow> nState n = Candidate \<Longrightarrow> requested s a \<Longrightarrow> rvCandidateID a = i \<Longrightarrow>
       rvTerm a = nTerm n \<Longrightarrow> key_eq (hFull H i) a"
    and "hVote H T p = Some v \<Longrightarrow> \<exists>a. requested s a \<and> rvTerm a = T \<and> key_le v a \<and> voted s p T (rvCandidateID a)"
    and "requested s a \<Longrightarrow> requested s a' \<Longrightarrow> rvCandidateID a' = rvCandidateID a \<Longrightarrow> rvTerm a' = rvTerm a \<Longrightarrow>
       rvLastLogTerm a' = rvLastLogTerm a \<and> rvLastLogIndex a' = rvLastLogIndex a"
    and "requested s a \<Longrightarrow> 1 \<le> rvTerm a"
  using assms unfolding votes_safe_def by blast+

text \<open>A step without votes and without a new leader.\<close>

lemma votes_safe_quiet:
  assumes V: "votes_safe members H s" and ext: "extends H H'" and vote: "hVote H' = hVote H"
    and none: "\<And>U. hLog H' U = None \<Longrightarrow> hLog H U = None"
    and net: "clVoteReqs s' = clVoteReqs s" "clVoteReps s' = clVoteReps s"
    and cand: "\<And>j m. j \<in> set members \<Longrightarrow> clPeer s' j = Up m \<Longrightarrow> nState m = Candidate \<Longrightarrow>
      \<exists>m0. clPeer s j = Up m0 \<and> nState m0 = Candidate \<and> nTerm m0 = nTerm m \<and> hFull H' j = hFull H j"
  shows "votes_safe members H' s'"
proof -
  have rq: "requested s' = requested s" by (simp add: requested_def net fun_eq_iff)
  have vt: "voted s' = voted s" by (rule voted_cong [OF net])
  show ?thesis
    unfolding votes_safe_def rq vt net vote
  proof (intro conjI allI impI ballI)
    show "\<exists>v. hVote H (rvTerm a) (rvCandidateID a) = Some v \<and> key_le v a" if "requested s a" "hLog H' (rvTerm a) = None" for a
      by (rule votes_safeD(1) [OF V that(1) none [OF that(2)]])
    show "requested s a" if "(p, a, r) \<in> clVoteReps s" for p a r by (rule votes_safeD(2) [OF V that])
    show "\<exists>v. hVote H (rvTerm a) p = Some v \<and> key_le v a"
      if "(p, a, r) \<in> clVoteReps s" "rvrVoteGranted r" "hLog H' (rvTerm a) = None" for p a r
      by (rule votes_safeD(3) [OF V that(1,2) none [OF that(3)]])
    show "\<exists>a. requested s a \<and> rvTerm a = T \<and> key_le v a \<and> voted s p T (rvCandidateID a)" if "hVote H T p = Some v" for T p v
      by (rule votes_safeD(5) [OF V that])
    show "rvLastLogTerm a' = rvLastLogTerm a" "rvLastLogIndex a' = rvLastLogIndex a"
      if "requested s a" "requested s a'" "rvCandidateID a' = rvCandidateID a" "rvTerm a' = rvTerm a" for a a'
      using votes_safeD(6) [OF V that] by simp_all
    show "1 \<le> rvTerm a" if "requested s a" for a by (rule votes_safeD(7) [OF V that])
    fix j m a assume *: "j \<in> set members" "clPeer s' j = Up m" "nState m = Candidate" "requested s a" "rvCandidateID a = j" "rvTerm a = nTerm m"
    obtain m0 where "clPeer s j = Up m0" "nState m0 = Candidate" "nTerm m0 = nTerm m" "hFull H' j = hFull H j"
      using cand [OF *(1-3)] by blast
    then show "key_eq (hFull H' j) a" using votes_safeD(4) [OF V, of j m0 a] * by simp
  qed
qed

lemma owners_safe_quiet:
  assumes O: "owners_safe members H s" and ext: "extends H H'"
    and some: "\<And>U l. hLog H' U = Some l \<Longrightarrow> hLog H U \<noteq> None"
    and net: "clVoteReqs s \<subseteq> clVoteReqs s'" "clVoteReps s \<subseteq> clVoteReps s'"
    and cand: "\<And>j m. j \<in> set members \<Longrightarrow> clPeer s' j = Up m \<Longrightarrow> nState m = Candidate \<Longrightarrow>
      (\<exists>m0. clPeer s j = Up m0 \<and> nState m0 = Candidate \<and> nTerm m0 = nTerm m) \<or> hTerm H j < nTerm m"
  shows "owners_safe members H' s'"
  unfolding owners_safe_def
proof (intro allI impI)
  fix T l assume "hLog H' T = Some l"
  then obtain l0 where "hLog H T = Some l0" using some by blast
  then obtain c where c: "c \<in> set members" "elected members s c T" "T \<le> hTerm H c"
      "\<forall>n. clPeer s c = Up n \<longrightarrow> nTerm n = T \<longrightarrow> nState n \<noteq> Candidate"
    using O unfolding owners_safe_def by blast
  have "elected members s' c T" using elected_grow [OF net c(2)] .
  moreover have "T \<le> hTerm H' c" using ext c(3) by (auto simp: extends_def intro: order_trans)
  moreover have "nState m \<noteq> Candidate" if "clPeer s' c = Up m" "nTerm m = T" for m
    using cand [OF c(1) that(1)] c(3,4) that(2) by auto
  ultimately show "\<exists>c \<in> set members. elected members s' c T \<and> T \<le> hTerm H' c \<and>
      (\<forall>n. clPeer s' c = Up n \<longrightarrow> nTerm n = T \<longrightarrow> nState n \<noteq> Candidate)"
    using c(1) by blast
qed

lemma safeD:
  assumes "safe C members H s"
  shows "hist_inv members H" "\<forall>i \<in> set members. peer_safe C members H i (clPeer s i)" "votes_safe members H s"
    "owners_safe members H s" "msgs_safe members H s" "deliver_safe members H s"
  using assms by (simp_all add: safe_def)

lemma safe_quiet:
  assumes safe: "safe C members H s" and el: "election_inv C members cfg s" and dist: "distinct members"
    and i: "i \<in> set members" "clPeer s i = Up n" and P: "clPeer s' = (clPeer s)(i := P)" "peer_safe C members H' i P"
    and H': "hist_inv members H'" "extends H H'" "hVote H' = hVote H"
      "\<And>j. j \<noteq> i \<Longrightarrow> hFull H' j = hFull H j \<and> hTerm H' j = hTerm H j"
      "\<And>U. hLog H' U = hLog H U \<or> nState n = Leader \<and> nTerm n = U"
    and cand: "\<And>n'. P = Up n' \<Longrightarrow> nState n' = Candidate \<Longrightarrow> nState n = Candidate \<and> nTerm n' = nTerm n \<and> hFull H' i = hFull H i"
    and net: "clVoteReqs s' = clVoteReqs s" "clVoteReps s' = clVoteReps s"
    and msgs: "msgs_safe members H' s'" and deliver: "deliver_safe members H' s'"
  shows "safe C members H' s'"
proof -
  note S = safeD [OF safe]
  have cand': "\<exists>m0. clPeer s j = Up m0 \<and> nState m0 = Candidate \<and> nTerm m0 = nTerm m \<and> hFull H' j = hFull H j"
    if "j \<in> set members" "clPeer s' j = Up m" "nState m = Candidate" for j m
    using that P(1) H'(4) [of j] cand [of m] i(2) by (cases "j = i") auto
  have lead: "hLog H (nTerm n) \<noteq> None" if "nState n = Leader"
  proof -
    have "node_safe members H i n" using S(2) i by (auto simp: peer_safe_def dest: bspec)
    with that show ?thesis by (simp add: node_safe_def)
  qed
  have none: "hLog H U = None \<longleftrightarrow> hLog H' U = None" for U
  proof
    show "hLog H U = None \<Longrightarrow> hLog H' U = None" using H'(5) [of U] lead by auto
    assume "hLog H' U = None"
    then show "hLog H U = None" using H'(2) extends_log [of H H' U] by (cases "hLog H U") auto
  qed
  have "\<forall>i \<in> set members. peer_safe C members H' i (clPeer s' i)"
    by (rule peers_safe_step [OF S(2) el dist i(1) _ P H'(2,4), where n = n]) (use i(2) H'(5) in auto)
  moreover have "votes_safe members H' s'"
  proof (rule votes_safe_quiet [OF S(3) H'(2,3) _ net])
    show "hLog H' U = None \<Longrightarrow> hLog H U = None" for U using none by simp
  qed (rule cand')
  moreover have "owners_safe members H' s'"
  proof (rule owners_safe_quiet [OF S(4) H'(2)])
    show "hLog H' U = Some l \<Longrightarrow> hLog H U \<noteq> None" for U l using none by simp
    show "(\<exists>m0. clPeer s j = Up m0 \<and> nState m0 = Candidate \<and> nTerm m0 = nTerm m) \<or> hTerm H j < nTerm m"
      if "j \<in> set members" "clPeer s' j = Up m" "nState m = Candidate" for j m using cand' [OF that] by blast
  qed (simp_all add: net)
  ultimately show ?thesis using H'(1) msgs deliver by (simp add: safe_def)
qed


section \<open>Steps of one node\<close>

lemma node_safeD:
  assumes "safe C members H s" and "i \<in> set members" and "clPeer s i = Up n"
  shows "node_safe members H i n"
  using assms by (auto simp: safe_def peer_safe_def dest: bspec)

lemma node_view:
  assumes "safe C members H s" and "i \<in> set members" and "clPeer s i = Up n"
  obtains f where "f \<le> length (hFull H i)" and "nLog n = view f (hFull H i)" and "agreed members H (nTerm n) (take f (hFull H i))"
    and "hTerm H i = nTerm n" and "contiguous 0 (hFull H i)" and "log_in (nTerm n) (hFull H i)" and "traced H (hFull H i)"
    and "firstIndex n = int f" and "int f \<le> nCommitIndex n"
proof -
  have n: "node_safe members H i n" by (rule node_safeD [OF assms])
  then obtain f where f: "f \<le> length (hFull H i)" "nLog n = view f (hFull H i)" "agreed members H (nTerm n) (take f (hFull H i))" "hTerm H i = nTerm n"
    unfolding node_safe_def pers_ok_def persistentOf_def by auto
  note I = hist_invD [OF safeD(1) [OF assms(1)]]
  have l: "log_in (nTerm n) (hFull H i)" "traced H (hFull H i)" using I(3,4) [of i] f(4) by simp_all
  then have c: "contiguous 0 (hFull H i)" by (simp add: log_in_def)
  have "firstIndex n = int f" by (rule view_log_ok(2) [OF f(2) c f(1)])
  moreover have "firstIndex n \<le> nCommitIndex n" using n by (simp add: node_safe_def)
  ultimately show ?thesis using that f l c by simp
qed

lemma node_calmer:
  assumes n: "node_safe members H i n" and b: "same_body n n'" "calmer n n'" and inv: "hist_inv members H"
  defines "H' \<equiv> H\<lparr>hTerm := (hTerm H)(i := nTerm n')\<rparr>"
  shows "node_safe members H' i n'" "extends H H'" "hist_inv members H'"
proof -
  have t: "hTerm H i = nTerm n" using n by (simp add: node_safe_def pers_ok_def persistentOf_def)
  have le: "nTerm n \<le> nTerm n'" using b(2) by (simp add: calmer_def)
  note A = advance_step [OF inv, of i "nTerm n'", folded H'_def]
  show ext: "extends H H'" and "hist_inv members H'" using A t le by simp_all
  have f: "hFull H' i = hFull H i" "hTerm H' i = nTerm n'" "hLog H' = hLog H" by (simp_all add: H'_def)
  have up: "upto_ok members H' i k" if "upto_ok members H i k" for k using upto_ok_mono [OF that ext] f t le by simp
  obtain g where g: "g \<le> length (hFull H i)" "nLog n = view g (hFull H i)" "agreed members H (nTerm n) (take g (hFull H i))"
    using n unfolding node_safe_def pers_ok_def persistentOf_def by auto
  have "agreed members H' (nTerm n') (take g (hFull H i))"
    using extends_agreed [OF ext g(3)] le by (rule agreed_mono)
  then have "pers_ok members H' i (persistentOf n')"
    using g f b(1) by (auto simp: pers_ok_def persistentOf_def same_body_def)
  moreover have "firstIndex n' = firstIndex n" using b(1) by (simp add: same_body_def firstIndex_def)
  moreover have "nState n' = Leader \<Longrightarrow> nState n = Leader \<and> nTerm n' = nTerm n" using b(2) by (auto simp: calmer_def)
  ultimately show "node_safe members H' i n'"
    using n up b(1) f match_ok_mono [OF _ ext] unfolding node_safe_def same_body_def by (metis (no_types, lifting))
qed

lemma safe_calmer:
  assumes safe: "safe C members H s" and el: "election_inv C members cfg s" and dist: "distinct members"
    and i: "i \<in> set members" "clPeer s i = Up n" and P: "clPeer s' = (clPeer s)(i := Up n')"
    and b: "same_body n n'" "calmer n n'"
    and net: "clVoteReqs s' = clVoteReqs s" "clVoteReps s' = clVoteReps s"
  defines "H' \<equiv> H\<lparr>hTerm := (hTerm H)(i := nTerm n')\<rparr>"
  assumes msgs: "msgs_safe members H' s'" and deliver: "deliver_safe members H' s'"
  shows "safe C members H' s'"
proof -
  note N = node_calmer [OF node_safeD [OF safe i] b safeD(1) [OF safe], folded H'_def]
  show ?thesis
    by (rule safe_quiet [OF safe el dist i P _ N(3,2)])
      (use N(1) b(2) net msgs deliver in \<open>auto simp: peer_safe_def H'_def calmer_def\<close>)
qed

lemma crashed_net [simp]:
  "clAppends (crashed i d s) = clAppends s" "clAppendReps (crashed i d s) = clAppendReps s"
  "clInstalls (crashed i d s) = clInstalls s" "clInstallReps (crashed i d s) = clInstallReps s"
  "clOutbox (crashed i d s) = (clOutbox s)(i := [])" "clApplied (crashed i d s) = (clApplied s)(i := [])"
  by (simp_all add: crashed_def setPeer_def)

lemma setPeer_net [simp]:
  "clAppends (setPeer i p s) = clAppends s" "clAppendReps (setPeer i p s) = clAppendReps s"
  "clInstalls (setPeer i p s) = clInstalls s" "clInstallReps (setPeer i p s) = clInstallReps s"
  "clOutbox (setPeer i p s) = clOutbox s" "clApplied (setPeer i p s) = clApplied s"
  by (simp_all add: setPeer_def)

text \<open>What a step comes to: the history grows to one that explains the new state.\<close>

definition grows :: "psCodec \<Rightarrow> string list \<Rightarrow> history \<Rightarrow> cluster \<Rightarrow> bool" where
  "grows C members H s \<longleftrightarrow> (\<exists>H'. extends H H' \<and> safe C members H' s)"

lemma growsI: "extends H H' \<Longrightarrow> safe C members H' s \<Longrightarrow> grows C members H s"
  unfolding grows_def by blast

lemma grows_same: "safe C members H s \<Longrightarrow> grows C members H s"
  by (rule growsI [OF extends_refl])

lemma safe_crash:
  assumes safe: "safe C members H s" and el: "election_inv C members cfg s" and dist: "distinct members"
    and i: "i \<in> set members" "clPeer s i = Up n" and p: "loaded C d = Some p" "nTerm n \<le> psTerm p" "psLog p = nLog n"
  shows "grows C members H (crashed i d s)"
proof -
  obtain f where f: "f \<le> length (hFull H i)" "nLog n = view f (hFull H i)" "agreed members H (nTerm n) (take f (hFull H i))"
      "hTerm H i = nTerm n"
    using node_view [OF safe i] by blast
  define H' where "H' = H\<lparr>hTerm := (hTerm H)(i := psTerm p)\<rparr>"
  note A = advance_step [OF safeD(1) [OF safe], of i "psTerm p", folded H'_def]
  have ext: "extends H H'" "hist_inv members H'" using A f(4) p(2) by simp_all
  have "agreed members H' (psTerm p) (take f (hFull H i))" using extends_agreed [OF ext(1) f(3)] p(2) by (rule agreed_mono)
  then have "pers_ok members H' i p" using f p by (auto simp: pers_ok_def H'_def)
  then have P: "peer_safe C members H' i (Down d)" using p(1) by (simp add: peer_safe_def)
  have "safe C members H' (crashed i d s)"
  proof (rule safe_quiet [OF safe el dist i _ P ext(2,1)])
    show "msgs_safe members H' (crashed i d s)" by (rule msgs_safe_step [OF safeD(5) [OF safe] ext(1)]) simp_all
    show "deliver_safe members H' (crashed i d s)"
      by (rule deliver_safe_step [OF safeD(6) [OF safe] ext(1), where i = i and P = "Down d"]) (auto split: if_splits)
  qed (simp_all add: H'_def)
  then show ?thesis by (rule growsI [OF ext(1)])
qed

lemma safe_settle:
  assumes safe: "safe C members H s" and el: "election_inv C members cfg s" and dist: "distinct members"
    and i: "i \<in> set members" "clPeer s i = Up n" and old: "old_log C n r"
    and panic: "\<And>d. r = Panic d \<Longrightarrow> \<exists>p. loaded C d = Some p \<and> pstep (persistentOf n) p"
    and ok: "\<And>x. r = Ok x \<Longrightarrow> grows C members H (k x)"
  shows "grows C members H (settle i s k r)"
proof (cases r)
  case (Ok x)
  with ok show ?thesis by (simp add: settle_def)
next
  case (Panic d)
  then obtain p where p: "loaded C d = Some p" "pstep (persistentOf n) p" using panic by blast
  have "psLog p = nLog n" using old Panic p(1) by (simp add: old_log_def)
  moreover have "nTerm n \<le> psTerm p" using p(2) by (simp add: pstep_def persistentOf_def)
  ultimately show ?thesis using safe_crash [OF safe el dist i p(1)] Panic by (simp add: settle_def)
qed

lemma calmR_Panic: "calmR C g n r \<Longrightarrow> r = Panic d \<Longrightarrow> \<exists>p. loaded C d = Some p \<and> pstep (persistentOf n) p"
  by simp


lemma safe_same:
  assumes safe: "safe C members H s" and el: "election_inv C members cfg s" and dist: "distinct members"
    and i: "i \<in> set members" "clPeer s i = Up n" and same: "clPeer s' = clPeer s" "clVoteReqs s' = clVoteReqs s" "clVoteReps s' = clVoteReps s"
    and msgs: "msgs_safe members H s'" and deliver: "deliver_safe members H s'"
  shows "safe C members H s'"
proof (rule safe_quiet [OF safe el dist i])
  show "clPeer s' = (clPeer s)(i := Up n)" using same(1) i(2) by auto
  show "peer_safe C members H i (Up n)" using node_safeD [OF safe i] by (simp add: peer_safe_def)
qed (use same msgs deliver safeD(1) [OF safe] in auto)

lemma leader_log:
  assumes "safe C members H s" and "i \<in> set members" and "clPeer s i = Up n" and "nState n = Leader"
  shows "hLog H (nTerm n) = Some (hFull H i)" "match_ok H (nTerm n) (nMatchIndex n)"
  using node_safeD [OF assms(1-3)] assms(4) by (simp_all add: node_safe_def)

lemma upto_commit:
  assumes "safe C members H s" and "i \<in> set members" and "clPeer s i = Up n"
  shows "upto_ok members H i (nCommitIndex n)" "upto_ok members H i (nLastApplied n)"
  using node_safeD [OF assms] by (simp_all add: node_safe_def)

lemma send_step:
  assumes safe: "safe C members H s" and el: "election_inv C members cfg s" and dist: "distinct members"
    and i: "i \<in> set members" "clPeer s i = Up n" and a: "sendAppendEntries p n = Ok a"
  shows "safe C members H (sendAppend p a s)"
proof -
  have "append_ok members H args" if aa: "a = SendAppend args" for args
  proof -
    obtain f where f: "f \<le> length (hFull H i)" "nLog n = view f (hFull H i)" "contiguous 0 (hFull H i)" "firstIndex n = int f" "hTerm H i = nTerm n"
      using node_view [OF safe i] by blast
    let ?x = "hFull H i" and ?next = "intAt (nNextIndex n) p"
    have ns: "nState n = Leader" by (rule ccontr) (use a aa in \<open>simp add: sendAppendEntries_def\<close>)
    have nx: "int f < ?next" by (rule ccontr) (use a aa ns f(4) in \<open>simp add: sendAppendEntries_def Let_def\<close>)
    have "bindR (termAt n (?next - 1)) (\<lambda>t. bindR (sliceFrom n ?next) (\<lambda>es. Ok (SendAppend \<lparr>aeTerm = nTerm n,
        aeLeaderID = cID (nCfg n), aePrevLogIndex = ?next - 1, aePrevLogTerm = t, aeEntries = es, aeLeaderCommit = nCommitIndex n\<rparr>))) =
        Ok (SendAppend args)"
      using a aa ns nx f(4) by (simp add: sendAppendEntries_def Let_def)
    then obtain t es where te: "termAt n (?next - 1) = Ok t" "sliceFrom n ?next = Ok es"
      "args = \<lparr>aeTerm = nTerm n, aeLeaderID = cID (nCfg n), aePrevLogIndex = ?next - 1, aePrevLogTerm = t, aeEntries = es, aeLeaderCommit = nCommitIndex n\<rparr>"
      unfolding bindR_Ok_iff by blast
    note lead = ns nx
    note V = view_log_ok [OF f(2,3,1)]
    have "?next - 1 \<le> lastIndex n" using te(1) V(2) log_ok_last [OF V(1)] lead(2)
      by (auto simp: termAt_def entryAt_def Let_def split: if_splits)
    then have le: "?next \<le> int (length ?x) + 1" using V(3) by simp
    define k where "k = nat (?next - 1)"
    have k: "?next = int k + 1" "k \<le> length ?x" using le lead(2) by (simp_all add: k_def)
    have "nat ?next - 1 = k" unfolding k(1) by simp
    then have es: "es = drop k ?x" using view_sliceFrom [OF f(2,3,1) lead(2) le] te(2) by simp
    have t: "t = tm ?x k" using view_termAt [OF f(2,3,1), of "int k"] te(1) k lead(2) by simp
    note U = upto_commit(1) [OF safe i]
    show ?thesis
      unfolding append_ok_def
    proof (intro exI [of _ ?x] exI [of _ k] conjI)
      show "hLog H (aeTerm args) = Some ?x" using leader_log(1) [OF safe i lead(1)] te(3) by simp
      show "agreed members H (aeTerm args) (take (nat (aeLeaderCommit args)) ?x)" using U te(3) f(5) by (simp add: upto_ok_def)
    qed (use k es t U te(3) in \<open>simp_all add: upto_ok_def\<close>)
  qed
  then have "msgs_safe members H (sendAppend p a s)"
    by (intro msgs_safe_step [OF safeD(5) [OF safe]]) (auto simp: sendAppend_def split: sendAction.splits)
  moreover have "deliver_safe members H (sendAppend p a s)"
    by (rule deliver_safe_up [OF safeD(6) [OF safe] _ i(2), where n' = n])
      (use i(2) in \<open>auto simp: sendAppend_def fun_eq_iff split: sendAction.splits\<close>)
  ultimately show ?thesis
    by (intro safe_same [OF safe el dist i]) (simp_all add: sendAppend_def split: sendAction.splits)
qed

lemma send_install_step:
  assumes safe: "safe C members H s" and el: "election_inv C members cfg s" and dist: "distinct members"
    and i: "i \<in> set members" "clPeer s i = Up n" and a: "sendInstallSnapshot n = Some args"
  shows "safe C members H (s\<lparr>clInstalls := insert (p, args) (clInstalls s)\<rparr>)"
proof -
  obtain f where f: "f \<le> length (hFull H i)" "nLog n = view f (hFull H i)" "firstIndex n = int f" "agreed members H (nTerm n) (take f (hFull H i))"
    using node_view [OF safe i] by blast
  have "nState n = Leader" "isTerm args = nTerm n" "isLastIncludedIndex args = int f" "isLastIncludedTerm args = tm (hFull H i) f"
    using a f(2,3) by (auto simp: sendInstallSnapshot_def view_def split: if_splits option.splits)
  then have "install_ok members H args"
    unfolding install_ok_def using leader_log(1) [OF safe i] f by auto
  then have "msgs_safe members H (s\<lparr>clInstalls := insert (p, args) (clInstalls s)\<rparr>)"
    by (intro msgs_safe_step [OF safeD(5) [OF safe]]) auto
  moreover have "deliver_safe members H (s\<lparr>clInstalls := insert (p, args) (clInstalls s)\<rparr>)"
    using safeD(6) [OF safe] by (simp add: deliver_safe_def)
  ultimately show ?thesis by (intro safe_same [OF safe el dist i]) simp_all
qed


section \<open>Taking over a leader's log\<close>

definition h_follow :: "string \<Rightarrow> int \<Rightarrow> nat \<Rightarrow> rlog \<Rightarrow> history \<Rightarrow> history" where
  "h_follow i T e l H = h_adopt i e l (H\<lparr>hTerm := (hTerm H)(i := T)\<rparr>)"

lemma follow_sel [simp]:
  "hFull (h_follow i T e l H) = (hFull H)(i := adopt e l (hFull H i))" "hTerm (h_follow i T e l H) = (hTerm H)(i := T)"
  "hLog (h_follow i T e l H) = hLog H" "hVote (h_follow i T e l H) = hVote H"
  by (simp_all add: h_follow_def h_adopt_def)

lemma follow_step:
  assumes "hist_inv members H" and "hTerm H i \<le> T" and "hLog H T = Some l" and "e \<le> length l"
  shows "extends H (h_follow i T e l H)" "hist_inv members (h_follow i T e l H)" "acked (h_follow i T e l H) i T e"
proof -
  let ?H = "H\<lparr>hTerm := (hTerm H)(i := T)\<rparr>"
  note A = advance_step [OF assms(1,2)]
  have l: "hLog ?H (hTerm ?H i) = Some l" using assms(3) by simp
  note B = adopt_step [OF A(2) l assms(4)]
  show "extends H (h_follow i T e l H)" "hist_inv members (h_follow i T e l H)"
    unfolding h_follow_def using extends_trans [OF A(1) B(1)] B(2) by simp_all
  show "acked (h_follow i T e l H) i T e" by (auto simp: acked_def h_follow_def h_adopt_def)
qed

text \<open>What is agreed stays.\<close>

lemma agreed_in_leader:
  assumes "hist_inv members H" and "distinct members" and "upto_ok members H i k" and "hTerm H i \<le> T" and "hLog H T = Some l"
  shows "take (nat k) (hFull H i) = take (nat k) l" "nat k \<le> length l"
proof -
  let ?y = "take (nat k) (hFull H i)"
  have len: "length ?y = nat k" using assms(3) by (simp add: upto_ok_def nat_le_iff)
  have "agreed members H (hTerm H i) ?y" using assms(3) by (simp add: upto_ok_def)
  from agreed_leader [OF assms(1,2) this assms(4,5)] len show "?y = take (nat k) l" "nat k \<le> length l" by simp_all
qed

lemma follow_upto:
  assumes "hist_inv members H" and "distinct members" and k: "upto_ok members H i k" and "hTerm H i \<le> T" and "hLog H T = Some l" and "e \<le> length l"
  shows "upto_ok members (h_follow i T e l H) i k" "take (nat k) (adopt e l (hFull H i)) = take (nat k) (hFull H i)"
proof -
  let ?x = "adopt e l (hFull H i)"
  note F = follow_step [OF assms(1,4,5,6)] and L = agreed_in_leader [OF assms(1-5)]
  show eq: "take (nat k) ?x = take (nat k) (hFull H i)" by (rule adopt_keeps [OF L(1)])
  have "length (take (nat k) ?x) = nat k" unfolding eq using k by (simp add: upto_ok_def nat_le_iff)
  then have "nat k \<le> length ?x" by simp
  moreover have "agreed members (h_follow i T e l H) T (take (nat k) (hFull H i))"
    using extends_agreed [OF F(1)] k assms(4) by (auto simp: upto_ok_def intro: agreed_mono)
  ultimately show "upto_ok members (h_follow i T e l H) i k" using k eq by (auto simp: upto_ok_def)
qed

text \<open>The leader's log up to an agreed index that the node now has.\<close>

lemma follow_leader_upto:
  assumes "hist_inv members H" and "hTerm H i \<le> T" and "hLog H T = Some l" and "e \<le> length l"
    and c: "0 \<le> c" "c \<le> int e" "agreed members H T (take (nat c) l)"
  shows "upto_ok members (h_follow i T e l H) i c"
proof -
  let ?x = "adopt e l (hFull H i)"
  note F = follow_step [OF assms(1-4)]
  have eq: "take (nat c) ?x = take (nat c) l" using take_le [OF adopt_take] c(2) by simp
  have "length (take e ?x) = e" unfolding adopt_take using assms(4) by simp
  then have "e \<le> length ?x" by simp
  then show ?thesis using c eq extends_agreed [OF F(1) c(3)] by (simp add: upto_ok_def)
qed

lemma safe_follow:
  assumes safe: "safe C members H s" and el: "election_inv C members cfg s" and dist: "distinct members"
    and i: "i \<in> set members" "clPeer s i = Up n" and l: "nTerm n \<le> T" "hLog H T = Some l" "e \<le> length l"
  defines "H' \<equiv> h_follow i T e l H"
  assumes n': "nTerm n' = T" "nState n' = Follower" "nMatchIndex n' = nMatchIndex n" "nLastApplied n' = nLastApplied n"
    and log: "nLog n' = view f (hFull H' i)" "f \<le> length (hFull H' i)" "upto_ok members H' i (int f)"
    and com: "int f \<le> nCommitIndex n'" "upto_ok members H' i (nCommitIndex n')" "nCommitIndex n \<le> nCommitIndex n'"
    and pend: "nPending n' = nPending n \<or>
      (\<exists>d k t. nPending n' = Some (ApplySnapshot d k t) \<and> k \<le> nCommitIndex n' \<and> upto_ok members H' i k)"
    and s': "clPeer s' = (clPeer s)(i := Up n')" "clVoteReqs s' = clVoteReqs s" "clVoteReps s' = clVoteReps s"
    and msgs: "msgs_safe members H' s'" and deliver: "deliver_safe members H' s'"
  shows "safe C members H' s'"
proof -
  have n: "node_safe members H i n" by (rule node_safeD [OF safe i])
  note inv = safeD(1) [OF safe]
  have t: "hTerm H i \<le> T" using n l(1) by (simp add: node_safe_def pers_ok_def persistentOf_def)
  note F = follow_step [OF inv t l(2,3), folded H'_def]
  have keep: "upto_ok members H' i k" if "upto_ok members H i k" for k
    using follow_upto(1) [OF inv dist that t l(2,3)] by (simp add: H'_def)
  have ci: "contiguous 0 (hFull H' i)" using hist_invD(3) [OF F(2), of i] by (simp add: log_in_def)
  have "pers_ok members H' i (persistentOf n')"
    using log n'(1) by (auto simp: pers_ok_def persistentOf_def upto_ok_def H'_def)
  moreover have "firstIndex n' = int f" by (rule view_log_ok(2) [OF log(1) ci log(2)])
  moreover have "upto_ok members H' i (nLastApplied n')" using n n'(4) keep by (simp add: node_safe_def)
  moreover have "nLastApplied n' \<le> nCommitIndex n'" using n n'(4) com(3) by (simp add: node_safe_def)
  moreover have "\<exists>d k t. m = ApplySnapshot d k t \<and> k \<le> nCommitIndex n' \<and> upto_ok members H' i k" if m: "nPending n' = Some m" for m
    using pend
  proof
    assume "nPending n' = nPending n"
    then have "nPending n = Some m" using m by simp
    then obtain d k t where "m = ApplySnapshot d k t" "k \<le> nCommitIndex n" "upto_ok members H i k" using n unfolding node_safe_def by blast
    then show ?thesis using keep com(3) by (intro exI [of _ d] exI [of _ k] exI [of _ t]) simp
  qed (use m in auto)
  ultimately have "node_safe members H' i n'" using n n' com unfolding node_safe_def by simp
  then have "peer_safe C members H' i (Up n')" by (simp add: peer_safe_def)
  then show ?thesis
    by (rule safe_quiet [OF safe el dist i s'(1) _ F(2,1)])
      (use n'(2) s' msgs deliver in \<open>auto simp: H'_def\<close>)
qed


lemma node_upto_first:
  assumes "safe C members H s" and "i \<in> set members" and "clPeer s i = Up n"
    and "f \<le> length (hFull H i)" and "agreed members H (nTerm n) (take f (hFull H i))" and "hTerm H i = nTerm n"
  shows "upto_ok members H i (int f)"
  using assms by (simp add: upto_ok_def)

lemma safe_reply:
  assumes safe: "safe C members H s" and el: "election_inv C members cfg s" and dist: "distinct members"
    and i: "i \<in> set members" "clPeer s i = Up n" and b: "same_body n n'" "calmer n n'"
    and s': "clPeer s' = (clPeer s)(i := Up n')" "clVoteReqs s' = clVoteReqs s" "clVoteReps s' = clVoteReps s"
      "clAppends s' = clAppends s" "clInstalls s' = clInstalls s" "clOutbox s' = clOutbox s" "clApplied s' = clApplied s"
    and ar: "\<And>p a r. (p, a, r) \<in> clAppendReps s' \<Longrightarrow> (p, a, r) \<in> clAppendReps s \<or> p \<in> set members \<and> append_ok members H a \<and> \<not> aerSuccess r"
    and ir: "\<And>p a r. (p, a, r) \<in> clInstallReps s' \<Longrightarrow> (p, a, r) \<in> clInstallReps s \<or> p \<in> set members \<and> install_ok members H a \<and> isTerm a < isrTerm r"
  shows "grows C members H s'"
proof -
  define H' where "H' = H\<lparr>hTerm := (hTerm H)(i := nTerm n')\<rparr>"
  note N = node_calmer [OF node_safeD [OF safe i] b safeD(1) [OF safe], folded H'_def]
  have "msgs_safe members H' s'"
  proof (rule msgs_safe_step [OF safeD(5) [OF safe] N(2)])
    fix p a r assume "(p, a, r) \<in> clAppendReps s'"
    from ar [OF this] show "(p, a, r) \<in> clAppendReps s \<or> p \<in> set members \<and> append_ok members H' a \<and>
       (aerSuccess r \<longrightarrow> acked H' p (aeTerm a) (nat (aePrevLogIndex a + int (length (aeEntries a)))))"
      using append_ok_mono [OF _ N(2)] by blast
  next
    fix p a r assume "(p, a, r) \<in> clInstallReps s'"
    from ir [OF this] show "(p, a, r) \<in> clInstallReps s \<or> p \<in> set members \<and> install_ok members H' a \<and>
       (isrTerm r \<le> isTerm a \<longrightarrow> acked H' p (isTerm a) (nat (isLastIncludedIndex a)))"
      using install_ok_mono [OF _ N(2)] by fastforce
  qed (simp_all add: s')
  moreover have "deliver_safe members H' s'"
    by (rule deliver_safe_up [OF safeD(6) [OF safe] N(2) i(2) s'(1,6,7)]) (use b(1) in \<open>simp add: same_body_def\<close>)
  ultimately have "safe C members H' s'"
    unfolding H'_def by (rule safe_calmer [OF safe el dist i s'(1) b s'(2,3)])
  then show ?thesis by (rule growsI [OF N(2)])
qed

lemma append_step:
  assumes safe: "safe C members H s" and el: "election_inv C members cfg s" and dist: "distinct members"
    and i: "i \<in> set members" "clPeer s i = Up n" and a: "(j, args) \<in> clAppends s"
    and r: "HandleAppendEntries C E args n = Ok (reply, n')"
    and s': "s' = (setPeer i (Up n') s)\<lparr>clAppendReps := insert (i, args, reply) (clAppendReps s)\<rparr>"
  shows "grows C members H s'"
proof -
  note inv = safeD(1) [OF safe]
  have ok: "append_ok members H args" using safeD(5) [OF safe] a by (simp add: msgs_safe_def)
  then obtain l k where l: "hLog H (aeTerm args) = Some l" and k: "aePrevLogIndex args = int k" "k + length (aeEntries args) \<le> length l"
      "aeEntries args = take (length (aeEntries args)) (drop k l)" "aePrevLogTerm args = tm l k"
      "0 \<le> aeLeaderCommit args" "aeLeaderCommit args \<le> int (k + length (aeEntries args))"
      "agreed members H (aeTerm args) (take (nat (aeLeaderCommit args)) l)"
    unfolding append_ok_def by blast
  let ?x = "hFull H i" and ?e = "k + length (aeEntries args)" and ?T = "aeTerm args"
  obtain f where f: "f \<le> length ?x" "nLog n = view f ?x" "agreed members H (nTerm n) (take f ?x)" "hTerm H i = nTerm n"
    "contiguous 0 ?x" "traced H ?x" "firstIndex n = int f" "int f \<le> nCommitIndex n"
    using node_view [OF safe i] by blast
  note V = view_log_ok [OF f(2,5,1)]
  note L = term_logD [OF inv l]
  have "contiguous 0 l" using L(2) by (simp add: log_in_def)
  then have "contiguous (int k) (drop k l)" using contiguous_drop [of 0 l k] k(2) by simp
  then have es: "contiguous (aePrevLogIndex args) (aeEntries args)" by (subst k(3)) (simp add: k(1) contiguous_take)
  note R = HandleAppendEntries_Ok [OF V(1) es r]
  show ?thesis
  proof (cases "nTerm n \<le> ?T \<and> aerSuccess reply")
    case False
    have b: "same_body n n' \<and> calmer n n' \<and> \<not> aerSuccess reply"
    proof (cases "nTerm n \<le> ?T")
      case True
      with False have ns: "\<not> aerSuccess reply" by simp
      with HandleAppendEntries_effect [OF r True] R(3) True show ?thesis by (simp add: same_body_def calmer_def)
    qed (use HandleAppendEntries_stale [OF _ r] in simp)
    then have "same_body n n'" "calmer n n'" by simp_all
    then show ?thesis
      by (rule safe_reply [OF safe el dist i]) (use b ok i(1) in \<open>auto simp: s'\<close>)
  next
    case True
    then have t: "nTerm n \<le> ?T" "hTerm H i \<le> ?T" and pa: "prevAgrees args n" and log: "nLog n' = appendLog args n"
      using R(2) f(4) by auto
    note U = node_upto_first [OF safe i f(1,3,4)]
    define q where "q = max f k"
    have q: "q \<le> length ?x \<and> take q ?x = take q l"
    proof (cases "k < f")
      case True
      then show ?thesis using f(1) agreed_in_leader [OF inv dist U t(2) l] by (simp add: q_def)
    next
      case False
      then have tk: "termAt n (int k) = Ok (tm l k)" using pa f(7) k(1,4) by (simp add: prevAgrees_def)
      then have kx: "k \<le> length ?x"
        using V(2,3) log_ok_last [OF V(1)] by (auto simp: termAt_def entryAt_def Let_def split: if_splits)
      then have "tm ?x k = tm l k" using view_termAt [OF f(2,5,1), of "int k"] tk False by simp
      then show ?thesis using log_matching [OF f(6) L(3) kx] k(2) kx False by (simp add: q_def)
    qed
    note A = view_appendLog [OF f(2,5,1,6) L(3) k(1,3,2) q_def conjunct1 [OF q] conjunct2 [OF q]]
    let ?H = "h_follow i ?T ?e l H"
    note F = follow_step [OF inv t(2) l k(2)]
    note Eff = HandleAppendEntries_effect [OF r t(1)]
    have fs: "hFull ?H i = adopt ?e l ?x" by simp
    have "safe C members ?H s'"
    proof (rule safe_follow [OF safe el dist i t(1) l k(2) Eff(1,2,6,4)])
      show "nLog n' = view f (hFull ?H i)" "f \<le> length (hFull ?H i)" using A(1,3) log fs by simp_all
      show "upto_ok members ?H i (int f)" by (rule follow_upto(1) [OF inv dist U t(2) l k(2)])
      have min: "min (aeLeaderCommit args) (aePrevLogIndex args + int (length (aeEntries args))) = aeLeaderCommit args"
        using k(1,6) by simp
      show "int f \<le> nCommitIndex n'" using Eff(7) f(8) min by auto
      have "upto_ok members ?H i (nCommitIndex n)" by (rule follow_upto(1) [OF inv dist upto_commit(1) [OF safe i] t(2) l k(2)])
      moreover have "upto_ok members ?H i (aeLeaderCommit args)" by (rule follow_leader_upto [OF inv t(2) l k(2,5,6,7)])
      ultimately show "upto_ok members ?H i (nCommitIndex n')" using Eff(7) min by auto
      show "msgs_safe members ?H s'"
        by (rule msgs_safe_step [OF safeD(5) [OF safe] F(1)])
          (use i(1) F(3) k(1) append_ok_mono [OF ok F(1)] in \<open>auto simp: s' nat_add_distrib\<close>)
      show "nCommitIndex n \<le> nCommitIndex n'" using Eff(7) min by auto
      then show "deliver_safe members ?H s'" by (intro deliver_safe_up [OF safeD(6) [OF safe] F(1) i(2)]) (simp_all add: s')
    qed (use Eff(5) in \<open>simp_all add: s'\<close>)
    then show ?thesis by (rule growsI [OF F(1)])
  qed
qed


lemma install_step:
  assumes safe: "safe C members H s" and el: "election_inv C members cfg s" and dist: "distinct members"
    and i: "i \<in> set members" "clPeer s i = Up n" and a: "(j, args) \<in> clInstalls s"
    and r: "HandleInstallSnapshot C E args n = Ok (reply, n')"
    and s': "s' = (setPeer i (Up n') s)\<lparr>clInstallReps := insert (i, args, reply) (clInstallReps s)\<rparr>"
  shows "grows C members H s'"
proof -
  note inv = safeD(1) [OF safe]
  have ok: "install_ok members H args" using safeD(5) [OF safe] a by (simp add: msgs_safe_def)
  then obtain l k where l: "hLog H (isTerm args) = Some l" and k: "isLastIncludedIndex args = int k" "isLastIncludedTerm args = tm l k"
      "k \<le> length l" "agreed members H (isTerm args) (take k l)"
    unfolding install_ok_def by blast
  let ?x = "hFull H i" and ?T = "isTerm args"
  obtain f where f: "f \<le> length ?x" "nLog n = view f ?x" "agreed members H (nTerm n) (take f ?x)" "hTerm H i = nTerm n"
    "contiguous 0 ?x" "traced H ?x" "int f \<le> nCommitIndex n"
    using node_view [OF safe i] by blast
  note L = term_logD [OF inv l]
  show ?thesis
  proof (cases "nTerm n \<le> ?T")
    case False
    then have st: "n' = n" "isTerm args < isrTerm reply" using HandleInstallSnapshot_stale [OF _ r] by auto
    then have "same_body n n'" "calmer n n'" by simp_all
    then show ?thesis
      by (rule safe_reply [OF safe el dist i]) (use st ok i(1) in \<open>auto simp: s'\<close>)
  next
    case t: True
    then have t': "hTerm H i \<le> ?T" using f(4) by simp
    let ?H = "h_follow i ?T k l H"
    note F = follow_step [OF inv t' l k(3)]
    note Eff = HandleInstallSnapshot_effect [OF r f(2,5,1,6) L(3) k(1,2,3) f(7) t]
    note U = node_upto_first [OF safe i f(1,3,4)] and Uc = upto_commit(1) [OF safe i]
    note keep = follow_upto [OF inv dist _ t' l k(3)]
    have fs: "hFull ?H i = adopt k l ?x" by simp
    have uk: "upto_ok members ?H i (int k)" using follow_leader_upto [OF inv t' l k(3), of "int k"] k(4) by simp
    have E: "nTerm n' = ?T" "nState n' = Follower" "nMatchIndex n' = nMatchIndex n" "nLastApplied n' = nLastApplied n" using Eff by simp_all
    have msgs: "msgs_safe members ?H s'"
      by (rule msgs_safe_step [OF safeD(5) [OF safe] F(1)])
        (use i(1) F(3) k(1) install_ok_mono [OF ok F(1)] in \<open>auto simp: s'\<close>)
    have le: "nCommitIndex n \<le> nCommitIndex n'" using Eff by (auto split: if_splits)
    then have deliver: "deliver_safe members ?H s'"
      by (intro deliver_safe_up [OF safeD(6) [OF safe] F(1) i(2)]) (simp_all add: s')
    have "safe C members ?H s'"
    proof (cases "int k \<le> nCommitIndex n")
      case True
      then have e: "nLog n' = nLog n" "nCommitIndex n' = nCommitIndex n" "nPending n' = nPending n" using Eff by simp_all
      have "take k ?x = take k l" using take_le [OF agreed_in_leader(1) [OF inv dist Uc t' l], of k] True by simp
      then have x: "hFull ?H i = ?x" by (simp add: adopt_def)
      show ?thesis
        by (rule safe_follow [OF safe el dist i t l k(3) E, where f = f])
          (use e f x le keep(1) [OF U] keep(1) [OF Uc] msgs deliver in \<open>simp_all add: s'\<close>)
    next
      case False
      then have e: "nLog n' = view k (adopt k l ?x)" "k \<le> length (adopt k l ?x)" "nCommitIndex n' = int k"
        "nPending n' = Some (ApplySnapshot (isData args) (int k) (tm l k))" using Eff by simp_all
      show ?thesis
        by (rule safe_follow [OF safe el dist i t l k(3) E, where f = k])
          (use e uk le msgs deliver in \<open>simp_all add: s'\<close>)
    qed
    then show ?thesis by (rule growsI [OF F(1)])
  qed
qed

section \<open>The leader's steps\<close>

lemma set_update_cases: "y \<in> set (AList.update p k m) \<Longrightarrow> y = (p, k) \<or> y \<in> set m"
  by (induction m) (auto split: if_splits)

lemma match_update: "match_ok H T m \<Longrightarrow> k \<le> 0 \<or> acked H p T (nat k) \<Longrightarrow> match_ok H T (AList.update p k m)"
  unfolding match_ok_def by (auto dest: set_update_cases)

lemma keys_update: "fst ` set (AList.update p k m) = insert p (fst ` set m)"
  by (simp add: dom_update)

lemma node_safeI:
  assumes "pers_ok members H i (persistentOf n)" and "firstIndex n \<le> nCommitIndex n"
    and "upto_ok members H i (nCommitIndex n)" and "upto_ok members H i (nLastApplied n)"
    and "nLastApplied n \<le> nCommitIndex n"
    and "\<And>m. nPending n = Some m \<Longrightarrow> \<exists>d k t. m = ApplySnapshot d k t \<and> k \<le> nCommitIndex n \<and> upto_ok members H i k"
    and "go_map (nMatchIndex n)" and "fst ` set (nMatchIndex n) \<subseteq> set members"
    and "nState n = Leader \<Longrightarrow> hLog H (nTerm n) = Some (hFull H i)"
    and "nState n = Leader \<Longrightarrow> match_ok H (nTerm n) (nMatchIndex n)"
  shows "node_safe members H i n"
  using assms by (simp add: node_safe_def)

lemma node_safe_parts:
  assumes "node_safe members H i n"
  shows "pers_ok members H i (persistentOf n)" "firstIndex n \<le> nCommitIndex n"
    "upto_ok members H i (nCommitIndex n)" "upto_ok members H i (nLastApplied n)"
    "nPending n = Some m \<Longrightarrow> \<exists>d k t. m = ApplySnapshot d k t \<and> k \<le> nCommitIndex n \<and> upto_ok members H i k"
    "go_map (nMatchIndex n)" "fst ` set (nMatchIndex n) \<subseteq> set members" "nLastApplied n \<le> nCommitIndex n"
  using assms unfolding node_safe_def by blast+

lemma propose_step:
  assumes safe: "safe C members H s" and el: "election_inv C members cfg s" and dist: "distinct members"
    and i: "i \<in> set members" "clPeer s i = Up n" and cid: "cID (nCfg n) = i" and r: "Propose C E command n = Ok (res, n')"
  shows "grows C members H (setPeer i (Up n') s)"
proof -
  note inv = safeD(1) [OF safe]
  obtain index t b where res: "res = (index, t, b)" by (cases res) auto
  from Propose_effect [OF r [unfolded res]] show ?thesis
  proof (elim disjE conjE)
    assume "n' = n"
    then have "same_body n n'" "calmer n n'" by simp_all
    then show ?thesis by (rule safe_reply [OF safe el dist i]) simp_all
  next
    assume lead: "nState n = Leader" and ix: "index = lastIndex n + 1" "t = nTerm n" and same: "same_rest n n'" "nCommitIndex n' = nCommitIndex n"
      and log: "nLog n' = nLog n @ [\<lparr>eIndex = index, eTerm = t, eCommand = Some command\<rparr>]"
      and mat: "nMatchIndex n' = AList.update (cID (nCfg n)) index (nMatchIndex n)"
    let ?x = "hFull H i" and ?e = "\<lparr>eIndex = index, eTerm = t, eCommand = Some command\<rparr>"
    obtain f where f: "f \<le> length ?x" "nLog n = view f ?x" "agreed members H (nTerm n) (take f ?x)" "hTerm H i = nTerm n"
      "contiguous 0 ?x" "firstIndex n = int f" "int f \<le> nCommitIndex n"
      using node_view [OF safe i] by blast
    note V = view_log_ok [OF f(2,5,1)]
    have hl: "hLog H (hTerm H i) = Some ?x" using leader_log(1) [OF safe i lead] f(4) by simp
    have e: "eIndex ?e = int (length ?x) + 1" "eTerm ?e = hTerm H i" using ix V(3) f(4) by simp_all
    let ?H = "h_extend i ?e H"
    note X = extend_step [OF inv hl e]
    have n: "node_safe members H i n" by (rule node_safeD [OF safe i])
    have sel: "hFull ?H i = ?x @ [?e]" "hTerm ?H = hTerm H" "hLog ?H (nTerm n) = Some (?x @ [?e])" "hVote ?H = hVote H"
      using f(4) by (simp_all add: h_extend_def Let_def)
    have up: "upto_ok members ?H i k" if "upto_ok members H i k" for k
      using that extends_agreed [OF X(1)] sel(1,2) by (auto simp: upto_ok_def nat_le_iff)
    have ack: "acked ?H i (nTerm n) (length ?x + 1)" using f(4) by (auto simp: acked_def h_extend_def Let_def)
    note N = node_safe_parts [OF n]
    have st: "nTerm n' = nTerm n" "nState n' = nState n" "nLastApplied n' = nLastApplied n" "nPending n' = nPending n"
      using same(1) by (simp_all add: same_rest_def)
    have "node_safe members ?H i n'"
    proof (rule node_safeI)
      have "nLog n' = view f (hFull ?H i)" using log f(2) view_snoc [OF f(1), of ?e] sel(1) by simp
      moreover have "take f (hFull ?H i) = take f ?x" "f \<le> length (hFull ?H i)" using f(1) sel(1) by simp_all
      ultimately show "pers_ok members ?H i (persistentOf n')"
        unfolding pers_ok_def using extends_agreed [OF X(1) f(3)] sel(2) f(4) st(1)
        by (simp add: persistentOf_def) (metis)
      have "firstIndex n' = firstIndex n" using log f(2) by (simp add: firstIndex_def view_def)
      then show "firstIndex n' \<le> nCommitIndex n'" using N(2) same(2) by simp
      show "upto_ok members ?H i (nCommitIndex n')" "upto_ok members ?H i (nLastApplied n')"
        using up N(3,4) same(2) st(3) by simp_all
      show "nLastApplied n' \<le> nCommitIndex n'" using N(8) st(3) same(2) by simp
      show "\<exists>d k t. m = ApplySnapshot d k t \<and> k \<le> nCommitIndex n' \<and> upto_ok members ?H i k" if "nPending n' = Some m" for m
        using N(5) [of m] that up st(4) same(2) by metis
      show "go_map (nMatchIndex n')" using N(6) unfolding mat by simp
      show "fst ` set (nMatchIndex n') \<subseteq> set members" using N(7) i(1) unfolding mat cid keys_update by simp
      show "hLog ?H (nTerm n') = Some (hFull ?H i)" using sel(1,3) st(1) by simp
      have "acked ?H i (nTerm n) (nat index)" using ack ix V(3) by (simp add: nat_add_distrib)
      then show "match_ok ?H (nTerm n') (nMatchIndex n')"
        unfolding mat cid st(1) by (intro match_update match_ok_mono [OF leader_log(2) [OF safe i lead] X(1)]) simp
    qed
    then have P: "peer_safe C members ?H i (Up n')" by (simp add: peer_safe_def)
    have "safe C members ?H (setPeer i (Up n') s)"
    proof (rule safe_quiet [OF safe el dist i _ P X(2,1)])
      show "msgs_safe members ?H (setPeer i (Up n') s)" by (rule msgs_safe_step [OF safeD(5) [OF safe] X(1)]) simp_all
      show "deliver_safe members ?H (setPeer i (Up n') s)"
        by (rule deliver_safe_up [OF safeD(6) [OF safe] X(1) i(2), where n' = n']) (use same(2) in simp_all)
    qed (use lead same f(4) in \<open>auto simp: h_extend_def Let_def same_rest_def\<close>)
    then show ?thesis by (rule growsI [OF X(1)])
  qed
qed


lemma acked_le: "acked H p T m \<Longrightarrow> m' \<le> m \<Longrightarrow> acked H p T m'"
  unfolding acked_def by (meson order_trans)

lemma match_learns:
  assumes "match_ok H T m" "go_map m" "fst ` set m \<subseteq> M" and "p \<in> M" "acked H p T (nat k)" and "m' = m \<or> m' = AList.update p k m"
  shows "match_ok H T m'" "go_map m'" "fst ` set m' \<subseteq> M"
proof -
  have "match_ok H T (AList.update p k m)" by (rule match_update) (use assms in simp_all)
  moreover have "fst ` set (AList.update p k m) \<subseteq> M" unfolding keys_update using assms by simp
  moreover have "go_map (AList.update p k m)" using assms(2) by simp
  ultimately show "match_ok H T m'" "go_map m'" "fst ` set m' \<subseteq> M" using assms(1,2,3,6) by blast+
qed

text \<open>Match indices on a majority commit.\<close>

lemma match_commits:
  assumes m: "match_ok H T m" "go_map m" "fst ` set m \<subseteq> set members"
    and maj: "int (length members) div 2 + 1 \<le> int (length (filter (\<lambda>e. snd e \<ge> c) m))"
    and l: "hLog H T = Some l" "0 < c" "c \<le> int (length l)" "tm l (nat c) = T"
  shows "committed members H T (nat c)"
proof -
  let ?f = "filter (\<lambda>e. snd e \<ge> c) m" and ?Q = "fst ` set (filter (\<lambda>e. snd e \<ge> c) m)"
  have "distinct (map fst ?f)" using go_map_filter [OF m(2)] by (simp add: go_map_def)
  then have "card ?Q = length ?f" using distinct_card [of "map fst ?f"] by simp
  moreover have "?Q \<subseteq> set members" using m(3) by auto
  ultimately have "quorum members ?Q" using maj by (simp add: quorum_def)
  moreover have "acked H p T (nat c)" if p: "p \<in> ?Q" for p
  proof -
    obtain k where k: "(p, k) \<in> set m" "c \<le> k" using p by auto
    then have "acked H p T (nat k)" using m(1) l(2) unfolding match_ok_def by force
    then show ?thesis using k(2) by (elim acked_le) simp
  qed
  moreover have "\<exists>l. hLog H T = Some l \<and> 0 < nat c \<and> nat c \<le> length l \<and> tm l (nat c) = T" using l by auto
  ultimately show ?thesis unfolding committed_def by blast
qed

lemma agreed_committed: "committed members H T m \<Longrightarrow> hLog H T = Some l \<Longrightarrow> agreed members H T (take m l)"
  unfolding agreed_def committed_def by (intro disjI2 exI [of _ T] exI [of _ m] exI [of _ l]) auto

text \<open>A leader that only learns more about its peers, or commits more.\<close>

lemma leader_learns:
  assumes safe: "safe C members H s" and el: "election_inv C members cfg s" and dist: "distinct members"
    and i: "i \<in> set members" "clPeer s i = Up n" and lead: "nState n = Leader"
    and same: "same_rest n n'" "nLog n' = nLog n"
    and mat: "match_ok H (nTerm n) (nMatchIndex n')" "go_map (nMatchIndex n')" "fst ` set (nMatchIndex n') \<subseteq> set members"
    and com: "nCommitIndex n \<le> nCommitIndex n'" "upto_ok members H i (nCommitIndex n')"
  shows "safe C members H (setPeer i (Up n') s)"
proof -
  have n: "node_safe members H i n" by (rule node_safeD [OF safe i])
  note N = node_safe_parts [OF n]
  have st: "nTerm n' = nTerm n" "nState n' = nState n" "nLastApplied n' = nLastApplied n" "nPending n' = nPending n"
    using same(1) by (simp_all add: same_rest_def)
  have fi: "firstIndex n' = firstIndex n" using same(2) by (simp add: firstIndex_def)
  have "node_safe members H i n'"
  proof (rule node_safeI)
    show "pers_ok members H i (persistentOf n')" using N(1) st(1) same(2) by (simp add: pers_ok_def persistentOf_def)
    show "\<exists>d k t. m = ApplySnapshot d k t \<and> k \<le> nCommitIndex n' \<and> upto_ok members H i k" if m: "nPending n' = Some m" for m
    proof -
      have "nPending n = Some m" using m st(4) by simp
      then obtain d k t where "m = ApplySnapshot d k t" "k \<le> nCommitIndex n" "upto_ok members H i k" using N(5) by blast
      then show ?thesis using com(1) by (intro exI [of _ d] exI [of _ k] exI [of _ t]) simp
    qed
  qed (use N(2,4,8) st mat com fi leader_log(1) [OF safe i lead] in simp_all)
  then have P: "peer_safe C members H i (Up n')" by (simp add: peer_safe_def)
  show ?thesis
  proof (rule safe_quiet [OF safe el dist i _ P safeD(1) [OF safe]])
    show "msgs_safe members H (setPeer i (Up n') s)" by (rule msgs_safe_step [OF safeD(5) [OF safe]]) simp_all
    show "deliver_safe members H (setPeer i (Up n') s)"
      by (rule deliver_safe_up [OF safeD(6) [OF safe] extends_refl i(2), where n' = n']) (use com(1) in simp_all)
  qed (use lead st in simp_all)
qed

lemma append_reply_step:
  assumes safe: "safe C members H s" and el: "election_inv C members cfg s" and cc: "cluster_cfg members cfg"
    and i: "i \<in> set members" "clPeer s i = Up n" and a: "(p, args, reply) \<in> clAppendReps s"
    and r: "handleAppendReply C E p args reply n = Ok (b, n')"
  shows "grows C members H (setPeer i (Up n') s)"
proof -
  have dist: "distinct members" using cc by (simp add: cluster_cfg_def)
  obtain f where f: "f \<le> length (hFull H i)" "nLog n = view f (hFull H i)" "contiguous 0 (hFull H i)" "hTerm H i = nTerm n"
    "firstIndex n = int f" "int f \<le> nCommitIndex n"
    using node_view [OF safe i] by blast
  note V = view_log_ok [OF f(2,3,1)]
  from handleAppendReply_effect [OF r V(1)] show ?thesis
  proof (elim disjE [of "same_body n n' \<and> calmer n n'"])
    assume "same_body n n' \<and> calmer n n'"
    then have "same_body n n'" "calmer n n'" by simp_all
    then show ?thesis by (rule safe_reply [OF safe el dist i]) simp_all
  next
    let ?k = "aePrevLogIndex args + int (length (aeEntries args))"
    assume *: "nState n = Leader \<and> nTerm n = aeTerm args \<and> aerTerm reply \<le> nTerm n \<and> aerSuccess reply \<and> same_rest n n' \<and> nLog n' = nLog n \<and>
      (nMatchIndex n' = nMatchIndex n \<or> nMatchIndex n' = AList.update p ?k (nMatchIndex n)) \<and>
      (nCommitIndex n' = nCommitIndex n \<or>
       nCommitIndex n < nCommitIndex n' \<and> nCommitIndex n' \<le> lastIndex n \<and> firstIndex n < nCommitIndex n' \<and>
       termAt n (nCommitIndex n') = Ok (nTerm n) \<and> majority n \<le> matchCount (nCommitIndex n') n')"
    then have lead: "nState n = Leader" and t: "nTerm n = aeTerm args" and same: "same_rest n n'" "nLog n' = nLog n"
      and mat: "nMatchIndex n' = nMatchIndex n \<or> nMatchIndex n' = AList.update p ?k (nMatchIndex n)" by auto
    have ack: "p \<in> set members" "acked H p (nTerm n) (nat ?k)" using safeD(5) [OF safe] a * unfolding msgs_safe_def by auto
    note N = node_safe_parts [OF node_safeD [OF safe i]] and L = leader_log [OF safe i lead]
    note m' = match_learns [OF L(2) N(6,7) ack mat]
    have com: "nCommitIndex n \<le> nCommitIndex n' \<and> upto_ok members H i (nCommitIndex n')"
    proof (cases "nCommitIndex n' = nCommitIndex n")
      case False
      let ?c = "nCommitIndex n'"
      have c: "?c \<le> lastIndex n" "nCommitIndex n < ?c" "termAt n ?c = Ok (nTerm n)" "majority n \<le> matchCount ?c n'" using * False by auto
      have c0: "0 < ?c" "?c \<le> int (length (hFull H i))" using c V(3) f(6) by simp_all
      have "tm (hFull H i) (nat ?c) = nTerm n" using view_termAt [OF f(2,3,1), of ?c] c f(6) V(3) by simp
      then have "committed members H (nTerm n) (nat ?c)"
        using match_commits [OF m' _ L(1) c0] c(4) members_cfg(6) [OF el cc i] by (simp add: matchCount_def)
      from agreed_committed [OF this L(1)] show ?thesis using c0 c(2) f(4) by (simp add: upto_ok_def)
    qed (use N(2,3) in simp)
    show ?thesis by (rule grows_same [OF leader_learns [OF safe el dist i lead same m']]) (use com in auto)
  qed
qed

lemma install_reply_step:
  assumes safe: "safe C members H s" and el: "election_inv C members cfg s" and dist: "distinct members"
    and i: "i \<in> set members" "clPeer s i = Up n" and a: "(p, args, reply) \<in> clInstallReps s"
    and r: "handleSnapshotReply C E p args reply n = Ok (b, n')"
  shows "grows C members H (setPeer i (Up n') s)"
  using handleSnapshotReply_effect [OF r]
proof (elim disjE [of "same_body n n' \<and> calmer n n'"])
  assume "same_body n n' \<and> calmer n n'"
  then have "same_body n n'" "calmer n n'" by simp_all
  then show ?thesis by (rule safe_reply [OF safe el dist i]) simp_all
next
  assume *: "nState n = Leader \<and> nTerm n = isTerm args \<and> isrTerm reply \<le> nTerm n \<and> same_rest n n' \<and> nLog n' = nLog n \<and>
    nCommitIndex n' = nCommitIndex n \<and>
    (nMatchIndex n' = nMatchIndex n \<or> nMatchIndex n' = AList.update p (isLastIncludedIndex args) (nMatchIndex n))"
  then have lead: "nState n = Leader" and same: "same_rest n n'" "nLog n' = nLog n" "nCommitIndex n' = nCommitIndex n" by auto
  have ack: "p \<in> set members" "acked H p (nTerm n) (nat (isLastIncludedIndex args))"
    using safeD(5) [OF safe] a * unfolding msgs_safe_def by auto
  note N = node_safe_parts [OF node_safeD [OF safe i]] and L = leader_log [OF safe i lead]
  have mat: "nMatchIndex n' = nMatchIndex n \<or> nMatchIndex n' = AList.update p (isLastIncludedIndex args) (nMatchIndex n)" using * by blast
  show ?thesis
    by (rule grows_same [OF leader_learns [OF safe el dist i lead same(1,2) match_learns [OF L(2) N(6,7) ack mat]]]) (use N(2,3) same(3) in auto)
qed


section \<open>Local steps\<close>

lemma safe_local:
  assumes safe: "safe C members H s" and el: "election_inv C members cfg s" and dist: "distinct members"
    and i: "i \<in> set members" "clPeer s i = Up n" and n': "node_safe members H i n'" "nState n' = nState n" "nTerm n' = nTerm n"
    and s': "clPeer s' = (clPeer s)(i := Up n')" "clVoteReqs s' = clVoteReqs s" "clVoteReps s' = clVoteReps s"
      "clAppends s' = clAppends s" "clAppendReps s' = clAppendReps s" "clInstalls s' = clInstalls s" "clInstallReps s' = clInstallReps s"
    and deliver: "deliver_safe members H s'"
  shows "safe C members H s'"
proof (rule safe_quiet [OF safe el dist i s'(1) _ safeD(1) [OF safe]])
  show "peer_safe C members H i (Up n')" using n'(1) by (simp add: peer_safe_def)
  show "msgs_safe members H s'" by (rule msgs_safe_step [OF safeD(5) [OF safe]]) (simp_all add: s')
qed (use n' s' deliver in simp_all)

lemma upto_ok_le: "upto_ok members H i k \<Longrightarrow> 0 \<le> j \<Longrightarrow> j \<le> k \<Longrightarrow> upto_ok members H i j"
  using agreed_take [of members H "hTerm H i" "take (nat k) (hFull H i)" "nat j"]
  by (simp add: upto_ok_def min_absorb1 nat_mono)

lemma compact_step:
  assumes safe: "safe C members H s" and el: "election_inv C members cfg s" and dist: "distinct members"
    and i: "i \<in> set members" "clPeer s i = Up n" and r: "Node_Snapshot C E index snap n = Ok n'"
  shows "grows C members H (setPeer i (Up n') s)"
proof -
  let ?x = "hFull H i"
  obtain f where f: "f \<le> length ?x" "nLog n = view f ?x" "hTerm H i = nTerm n" "contiguous 0 ?x"
    using node_view [OF safe i] by blast
  note N = node_safe_parts [OF node_safeD [OF safe i]]
  have la: "nLastApplied n \<le> int (length ?x)" using N(4) by (simp add: upto_ok_def)
  from Node_Snapshot_effect [OF r f(2,4,1) la] show ?thesis
  proof (elim disjE conjE)
    assume "n' = n"
    then have "same_body n n'" "calmer n n'" by simp_all
    then show ?thesis by (rule safe_reply [OF safe el dist i]) simp_all
  next
    assume same: "same_rest n n'" "nCommitIndex n' = nCommitIndex n" "nMatchIndex n' = nMatchIndex n"
      and ix: "int f < index" "index \<le> nLastApplied n" and log: "nLog n' = view (nat index) ?x"
    have st: "nTerm n' = nTerm n" "nState n' = nState n" "nLastApplied n' = nLastApplied n" "nPending n' = nPending n"
      using same(1) by (simp_all add: same_rest_def)
    have ui: "upto_ok members H i index" by (rule upto_ok_le [OF N(4)]) (use ix in simp_all)
    have le: "nat index \<le> length ?x" using ui by (simp add: upto_ok_def nat_le_iff)
    have "node_safe members H i n'"
    proof (rule node_safeI)
      show "pers_ok members H i (persistentOf n')"
        using ui le log st(1) f(3) by (auto simp: pers_ok_def persistentOf_def upto_ok_def intro!: exI [of _ "nat index"])
      show "firstIndex n' \<le> nCommitIndex n'" using view_log_ok(2) [OF log f(4) le] ix N(8) same(2) by simp
      show "\<exists>d k t. m = ApplySnapshot d k t \<and> k \<le> nCommitIndex n' \<and> upto_ok members H i k" if "nPending n' = Some m" for m
        using N(5) [of m] that st(4) same(2) by simp
    qed (use N st same leader_log [OF safe i] in simp_all)
    then have "safe C members H (setPeer i (Up n') s)"
      by (rule safe_local [OF safe el dist i _ st(2,1)])
        (use deliver_safe_up [OF safeD(6) [OF safe] extends_refl i(2), of "setPeer i (Up n') s" n'] same(2) in simp_all)
    then show ?thesis by (rule grows_same)
  qed
qed

lemma applier_msg_agreed:
  assumes "upto_ok members H i c" and "contiguous 0 (hFull H i)" and "k < length (hFull H i)" and "int k < c"
  shows "msg_agreed members H (applyMsgOf (hFull H i ! k))" "amIndex (applyMsgOf (hFull H i ! k)) = int k + 1"
proof -
  let ?x = "hFull H i"
  have ix: "eIndex (?x ! k) = int k + 1" using assms(2,3) by (simp add: contiguous_def)
  then show "amIndex (applyMsgOf (?x ! k)) = int k + 1" by (simp add: applyMsgOf_def)
  have u: "upto_ok members H i (int k + 1)" by (rule upto_ok_le [OF assms(1)]) (use assms(4) in simp_all)
  then have "agreed members H (hTerm H i) (take (Suc k) ?x)" by (simp add: upto_ok_def nat_add_distrib)
  moreover have "int (length (take (Suc k) ?x)) = amIndex (applyMsgOf (?x ! k))" using assms(3) ix by (simp add: applyMsgOf_def)
  moreover have "take (Suc k) ?x \<noteq> []" "last (take (Suc k) ?x) = ?x ! k" using assms(3) by (auto simp: take_Suc_conv_app_nth)
  ultimately show "msg_agreed members H (applyMsgOf (?x ! k))"
    unfolding msg_agreed_def applyMsgOf_def by (intro exI [of _ "hTerm H i"] exI [of _ "take (Suc k) ?x"]) auto
qed

lemma upto_msg_agreed:
  "upto_ok members H i k \<Longrightarrow> msg_agreed members H (ApplySnapshot d k t)"
  unfolding msg_agreed_def upto_ok_def
  by (intro exI [of _ "hTerm H i"] exI [of _ "take (nat k) (hFull H i)"]) auto

lemma applier_step:
  assumes safe: "safe C members H s" and el: "election_inv C members cfg s" and dist: "distinct members"
    and i: "i \<in> set members" "clPeer s i = Up n" and r: "applier n = Ok (act, n')"
  shows "safe C members H (outbox i (act, n') s)"
proof -
  let ?x = "hFull H i" and ?s = "outbox i (act, n') s"
  obtain f where f: "f \<le> length ?x" "nLog n = view f ?x" "contiguous 0 ?x" "firstIndex n = int f"
    using node_view [OF safe i] by blast
  note ns = node_safeD [OF safe i]
  note N = node_safe_parts [OF ns]
  have c: "nCommitIndex n \<le> int (length ?x)" using N(3) by (simp add: upto_ok_def)
  have net: "clVoteReqs ?s = clVoteReqs s" "clVoteReps ?s = clVoteReps s" "clAppends ?s = clAppends s" "clAppendReps ?s = clAppendReps s"
    "clInstalls ?s = clInstalls s" "clInstallReps ?s = clInstallReps s" "clApplied ?s = clApplied s" "clPeer ?s = (clPeer s)(i := Up n')"
    by (simp_all add: outbox_def split: applierAction.splits)
  have go: "safe C members H ?s" if n': "node_safe members H i n'" "nState n' = nState n" "nTerm n' = nTerm n" "nCommitIndex n' = nCommitIndex n"
    and ms: "clOutbox ?s = clOutbox s \<or> (\<exists>ms. clOutbox ?s = (clOutbox s)(i := ms) \<and>
      (\<forall>m \<in> set ms. msg_agreed members H m \<and> 0 \<le> amIndex m \<and> amIndex m \<le> nCommitIndex n))"
  proof (rule safe_local [OF safe el dist i n'(1,2,3) net(8,1,2,3,4,5,6)])
    show "deliver_safe members H ?s"
      using ms
    proof (elim disjE exE conjE)
      assume "clOutbox ?s = clOutbox s"
      then show ?thesis using deliver_safe_up [OF safeD(6) [OF safe] extends_refl i(2) net(8)] net(7) n'(4) by simp
    next
      fix ms assume ms: "clOutbox ?s = (clOutbox s)(i := ms)"
        "\<forall>m \<in> set ms. msg_agreed members H m \<and> 0 \<le> amIndex m \<and> amIndex m \<le> nCommitIndex n"
      show ?thesis
        by (rule deliver_safe_step [OF safeD(6) [OF safe] extends_refl _ net(8)])
          (use ms net(7) n'(4) in \<open>auto split: if_splits\<close>)
    qed
  qed
  from applier_effect [OF r f(2,3,1) c] show ?thesis
  proof (elim disjE exE conjE)
    assume "n' = n" "\<forall>ms. act \<noteq> ApplierSend ms"
    then show ?thesis using ns by (intro go) (auto simp: outbox_def split: applierAction.splits)
  next
    fix snap assume p: "nPending n = Some snap" "act = ApplierSend [snap]"
      "n' = n\<lparr>nPending := None, nLastApplied := max (nLastApplied n) (amIndex snap)\<rparr>"
    obtain d k t where k: "snap = ApplySnapshot d k t" "k \<le> nCommitIndex n" "upto_ok members H i k" using N(5) [OF p(1)] by blast
    have fi: "firstIndex n' = firstIndex n" using p(3) by (simp add: firstIndex_def)
    have "node_safe members H i n'"
      by (rule node_safeI) (use N k fi leader_log [OF safe i] in \<open>auto simp: p(3) persistentOf_def max_def\<close>)
    then show ?thesis
      by (rule go) (use p(2,3) k upto_msg_agreed [OF k(3)] in \<open>auto simp: outbox_def upto_ok_def\<close>)
  next
    assume p: "n' = n" "nLastApplied n < nCommitIndex n" "applyFrom n \<le> nCommitIndex n + 1"
      "act = ApplierSend (map applyMsgOf (take (nat (nCommitIndex n - applyFrom n + 1)) (drop (nat (applyFrom n) - 1) ?x)))"
    have pos: "1 \<le> applyFrom n" using f(4) N(4) by (auto simp: applyFrom_def upto_ok_def)
    have ok: "msg_agreed members H m \<and> 0 \<le> amIndex m \<and> amIndex m \<le> nCommitIndex n"
      if m: "m \<in> set (map applyMsgOf (take (nat (nCommitIndex n - applyFrom n + 1)) (drop (nat (applyFrom n) - 1) ?x)))" for m
    proof -
      obtain j where j: "j < nat (nCommitIndex n - applyFrom n + 1)" "nat (applyFrom n) - 1 + j < length ?x"
        "m = applyMsgOf (?x ! (nat (applyFrom n) - 1 + j))"
        using m by (auto simp: in_set_conv_nth)
      have "int (nat (applyFrom n) - 1 + j) < nCommitIndex n" using j(1) pos by linarith
      from applier_msg_agreed [OF N(3) f(3) j(2) this] j(3) this show ?thesis by simp
    qed
    show ?thesis using ns p(1,4) ok by (intro go) (auto simp: outbox_def)
  qed
qed


lemma hand_over_step:
  assumes safe: "safe C members H s" and el: "election_inv C members cfg s" and dist: "distinct members"
    and i: "i \<in> set members" "clPeer s i = Up n" and m: "clOutbox s i = m # ms"
  shows "safe C members H (handOver i m ms n s)"
proof -
  define n' where "n' = (case m of ApplyCommand c k t \<Rightarrow> applierSent k n | ApplySnapshot d k t \<Rightarrow> n)"
  let ?s = "handOver i m ms n s"
  note ns = node_safeD [OF safe i]
  note N = node_safe_parts [OF ns]
  have sel: "clPeer ?s = (clPeer s)(i := Up n')" "clVoteReqs ?s = clVoteReqs s" "clVoteReps ?s = clVoteReps s"
      "clAppends ?s = clAppends s" "clAppendReps ?s = clAppendReps s" "clInstalls ?s = clInstalls s" "clInstallReps ?s = clInstallReps s"
      "clOutbox ?s = (clOutbox s)(i := ms)" "clApplied ?s = (clApplied s)(i := clApplied s i @ [m])"
    by (simp_all add: handOver_def n'_def)
  have D: "msg_agreed members H m'" "0 \<le> amIndex m'" "amIndex m' \<le> nCommitIndex n" if "m' = m \<or> m' \<in> set ms" for m'
  proof -
    have "m' \<in> set (clOutbox s i)" using that m by auto
    then show "msg_agreed members H m'" "0 \<le> amIndex m'" "amIndex m' \<le> nCommitIndex n"
      using safeD(6) [OF safe] i(2) unfolding deliver_safe_def by blast+
  qed
  have "n' = n \<or> n' = n\<lparr>nLastApplied := amIndex m\<rparr>" by (auto simp: n'_def applierSent_def split: ApplyMsg.splits)
  then have n': "node_safe members H i n' \<and> nState n' = nState n \<and> nTerm n' = nTerm n \<and> nCommitIndex n' = nCommitIndex n"
  proof
    assume e: "n' = n\<lparr>nLastApplied := amIndex m\<rparr>"
    have "upto_ok members H i (amIndex m)" using upto_ok_le [OF N(3)] D(2,3) [of m] by simp
    moreover have "firstIndex n' = firstIndex n" by (simp add: e firstIndex_def)
    ultimately have "node_safe members H i n'"
      by (intro node_safeI) (use N D(3) [of m] leader_log [OF safe i] in \<open>auto simp: e persistentOf_def\<close>)
    then show ?thesis by (simp add: e)
  qed (use ns in simp)
  have "deliver_safe members H ?s"
    by (rule deliver_safe_step [OF safeD(6) [OF safe] extends_refl _ sel(1)])
      (use m D n' in \<open>auto simp: sel(8,9) split: if_splits\<close>)
  then show ?thesis using n' by (intro safe_local [OF safe el dist i _ _ _ sel(1-7)]) simp_all
qed

lemma stop_step:
  assumes safe: "safe C members H s" and el: "election_inv C members cfg s" and dist: "distinct members"
    and i: "i \<in> set members" "clPeer s i = Up n"
  shows "grows C members H (setPeer i (Up (Node_Stop n)) s)"
proof -
  have "same_body n (Node_Stop n)" "calmer n (Node_Stop n)" by (simp_all add: Node_Stop_def same_body_def calmer_def)
  then show ?thesis by (rule safe_reply [OF safe el dist i]) simp_all
qed

lemma safe_restart:
  assumes safe: "safe C members H s" and el: "election_inv C members cfg s" and cc: "cluster_cfg members cfg"
    and i: "i \<in> set members" "clPeer s i = Down d" and new: "NewNode C R E (cfg i) d = Some (Ok n)"
  shows "safe C members H (setPeer i (Up n) s)"
proof -
  let ?s = "setPeer i (Up n) s"
  have dist: "distinct members" and dir: "cDataDir (cfg i) \<noteq> []" using cc i(1) by (simp_all add: cluster_cfg_def)
  note K = NewNode_Ok [OF new dir] and F = NewNode_effect [OF new] and S = safeD [OF safe]
  have p: "pers_ok members H i (persistentOf n)" using S(2) i K(1) by (auto simp: peer_safe_def dest: bspec)
  then obtain f where f: "f \<le> length (hFull H i)" "nLog n = view f (hFull H i)" "agreed members H (nTerm n) (take f (hFull H i))" "hTerm H i = nTerm n"
    by (auto simp: pers_ok_def persistentOf_def)
  have "contiguous 0 (hFull H i)" using hist_invD(3) [OF S(1), of i] by (simp add: log_in_def)
  then have fi: "firstIndex n = int f" using view_log_ok(2) [OF f(2) _ f(1)] by simp
  have u: "upto_ok members H i (int f)" using f by (simp add: upto_ok_def)
  have "node_safe members H i n"
    by (rule node_safeI [OF p]) (use K F u fi in auto)
  then have P: "peer_safe C members H i (Up n)" by (simp add: peer_safe_def)
  have cand: "\<exists>m0. clPeer s j = Up m0 \<and> nState m0 = Candidate \<and> nTerm m0 = nTerm m \<and> hFull H j = hFull H j"
    if "clPeer ?s j = Up m" "nState m = Candidate" for j m
    using that K(4) by (cases "j = i") auto
  have "\<forall>i \<in> set members. peer_safe C members H i (clPeer ?s i)"
    using S(2) P by simp
  moreover have "votes_safe members H ?s" by (rule votes_safe_quiet [OF S(3)]) (use cand in auto)
  moreover have "owners_safe members H ?s"
  proof (rule owners_safe_quiet [OF S(4)])
    show "(\<exists>m0. clPeer s j = Up m0 \<and> nState m0 = Candidate \<and> nTerm m0 = nTerm m) \<or> hTerm H j < nTerm m"
      if "clPeer ?s j = Up m" "nState m = Candidate" for j m using cand [OF that] by blast
  qed simp_all
  moreover have "msgs_safe members H ?s" by (rule msgs_safe_step [OF S(5)]) simp_all
  moreover have "deliver_safe members H ?s"
    by (rule deliver_safe_step [OF S(6) extends_refl, where i = i and P = "Up n"])
      (use S(6) i(2) in \<open>simp_all add: deliver_safe_def\<close>)
  ultimately show ?thesis using S(1) by (simp add: safe_def)
qed


section \<open>Elections\<close>

lemma node_raise:
  assumes n: "node_safe members H i n" and b: "same_body n n'" "nTerm n \<le> nTerm n'" "nState n' \<noteq> Leader"
    and ext: "extends H H'" and f: "hFull H' i = hFull H i" "hTerm H' i = nTerm n'"
  shows "node_safe members H' i n'"
proof -
  note N = node_safe_parts [OF n]
  have t: "hTerm H i = nTerm n" using N(1) by (simp add: pers_ok_def persistentOf_def)
  have up: "upto_ok members H' i k" if "upto_ok members H i k" for k using upto_ok_mono [OF that ext] f t b(2) by simp
  obtain g where g: "g \<le> length (hFull H i)" "nLog n = view g (hFull H i)" "agreed members H (nTerm n) (take g (hFull H i))"
    using N(1) unfolding pers_ok_def persistentOf_def by auto
  have ag: "agreed members H' (nTerm n') (take g (hFull H i))" using extends_agreed [OF ext g(3)] b(2) by (rule agreed_mono)
  have s: "nLog n' = nLog n" "nCommitIndex n' = nCommitIndex n" "nLastApplied n' = nLastApplied n" "nPending n' = nPending n"
    "nMatchIndex n' = nMatchIndex n" "firstIndex n' = firstIndex n" using b(1) by (simp_all add: same_body_def firstIndex_def)
  show ?thesis
  proof (rule node_safeI)
    show "pers_ok members H' i (persistentOf n')" using g ag f s(1) by (auto simp: pers_ok_def persistentOf_def)
    show "\<exists>d k t. m = ApplySnapshot d k t \<and> k \<le> nCommitIndex n' \<and> upto_ok members H' i k" if "nPending n' = Some m" for m
      using N(5) [of m] that up s(2,4) by metis
  qed (use N up s b(3) in simp_all)
qed

definition h_voter :: "string \<Rightarrow> history \<Rightarrow> history" where
  "h_voter i H =
     (if hLog H (hTerm H i) = None \<and> hVote H (hTerm H i) i = None
      then H\<lparr>hVote := (hVote H)(hTerm H i := (hVote H (hTerm H i))(i \<mapsto> hFull H i))\<rparr> else H)"

lemma voter_step:
  assumes "hist_inv members H"
  shows "extends H (h_voter i H)" "hist_inv members (h_voter i H)"
  using vote_step [OF assms] assms by (simp_all add: h_voter_def)

lemma voter_sel [simp]:
  "hFull (h_voter i H) = hFull H" "hTerm (h_voter i H) = hTerm H" "hLog (h_voter i H) = hLog H"
  by (simp_all add: h_voter_def)

lemma voter_vote:
  "hVote (h_voter i H) T p = Some v \<Longrightarrow> hVote H T p = Some v \<or> p = i \<and> T = hTerm H i \<and> v = hFull H i \<and> hVote H T i = None"
  "hLog H (hTerm H i) = None \<Longrightarrow> hVote (h_voter i H) (hTerm H i) i = Some v \<Longrightarrow> hVote H (hTerm H i) i = Some v \<or> v = hFull H i"
  "hLog H (hTerm H i) = None \<Longrightarrow> \<exists>v. hVote (h_voter i H) (hTerm H i) i = Some v"
  by (auto simp: h_voter_def split: if_splits)

lemma extends_vote: "extends H H' \<Longrightarrow> hVote H T p = Some v \<Longrightarrow> hVote H' T p = Some v"
  by (simp add: extends_def)

lemma candidate_step:
  assumes safe: "safe C members H s" and el: "election_inv C members cfg s" and cc: "cluster_cfg members cfg"
    and i: "i \<in> set members" "clPeer s i = Up n" and r: "startElectionLocked C E n = Ok (args, n')"
  shows "grows C members H (elect i (Some args, n') s)"
proof -
  have dist: "distinct members" using cc by (simp add: cluster_cfg_def)
  note S = safeD [OF safe] and K = startElection_Ok [OF r] and M = members_cfg [OF el cc i]
  note VS = votes_safeD [OF S(3)]
  let ?T = "nTerm n + 1" and ?s = "elect i (Some args, n') s" and ?x = "hFull H i"
  obtain f where f: "f \<le> length ?x" "nLog n = view f ?x" "hTerm H i = nTerm n" "contiguous 0 ?x"
    using node_view [OF safe i] by blast
  define H1 where "H1 = H\<lparr>hTerm := (hTerm H)(i := ?T)\<rparr>"
  define H' where "H' = (if cPeers (cfg i) = [] then H1 else h_voter i H1)"
  have le: "hTerm H i \<le> ?T" using f(3) by simp
  have e1: "extends H H1" "hist_inv members H1" using advance_step [OF S(1) le] by (simp_all add: H1_def)
  have ext: "extends H H'" "hist_inv members H'"
    using e1 voter_step [OF e1(2)] extends_trans [OF e1(1)] by (auto simp: H'_def)
  have sel: "hFull H' = hFull H" "hTerm H' = (hTerm H)(i := ?T)" "hLog H' = hLog H" by (simp_all add: H'_def H1_def)
  have key: "key_eq ?x args"
    using view_log_ok(3) [OF f(2,4,1)] view_lastTerm [OF f(2,4,1)] K(8,9) by (simp add: key_eq_def)
  have cand: "rvCandidateID args = i" "rvTerm args = ?T" using K(3,6,7) M(1) by simp_all
  have s: "clPeer ?s = (clPeer s)(i := Up n')" "clVoteReps ?s = clVoteReps s"
    "clVoteReqs ?s = clVoteReqs s \<union> (\<lambda>p. (p, args)) ` set (cPeers (cfg i))"
    "clAppends ?s = clAppends s" "clAppendReps ?s = clAppendReps s" "clInstalls ?s = clInstalls s" "clInstallReps ?s = clInstallReps s"
    "clOutbox ?s = clOutbox s" "clApplied ?s = clApplied s"
    using M(2) K(1) by (simp_all add: elect_def)
  have rq: "requested ?s a \<longleftrightarrow> requested s a \<or> a = args \<and> cPeers (cfg i) \<noteq> []" for a
    unfolding requested_def s(3) by (auto intro: list.set_sel)
  have fresh: False if a: "requested s a" "rvCandidateID a = i" "rvTerm a = ?T" for a
  proof -
    have "voted s i ?T i" using a unfolding requested_def voted_def by blast
    moreover have "pstate C s i = Some (persistentOf n)" using i(2) by (simp add: pstate_def)
    ultimately show False using election_invD(1) [OF el i(1)] unfolding votes_ok_def persistentOf_def by fastforce
  qed
  have nv: "hVote H ?T i = None"
  proof (cases "hVote H ?T i")
    case (Some v)
    then show ?thesis using hist_invD(5) [OF S(1) Some] f(3) by simp
  qed simp
  have vmono: "voted ?s p T c" if "voted s p T c" for p T c by (rule voted_mono [OF _ _ that]) (auto simp: s)
  have P: "peer_safe C members H' i (Up n')"
    using node_raise [OF node_safeD [OF safe i] startElection_body [OF r] _ _ ext(1)] K(2,3) sel by (simp add: peer_safe_def)
  have "\<forall>j \<in> set members. peer_safe C members H' j (clPeer ?s j)"
    by (rule peers_safe_step [OF S(2) el dist i(1) _ s(1) P ext(1), where n = n]) (use i(2) in \<open>auto simp: sel\<close>)
  moreover have "votes_safe members H' ?s"
    unfolding votes_safe_def s(2) sel(1,3)
  proof (intro conjI allI impI ballI)
    fix a assume a: "requested ?s a" "hLog H (rvTerm a) = None"
    show "\<exists>v. hVote H' (rvTerm a) (rvCandidateID a) = Some v \<and> key_le v a"
    proof (cases "requested s a")
      case True
      then show ?thesis using VS(1) [OF _ a(2)] extends_vote [OF ext(1)] by blast
    next
      case False
      then have "a = args" "cPeers (cfg i) \<noteq> []" using a(1) rq by simp_all
      then have "hVote H' ?T i = Some ?x" using a(2) nv cand by (simp add: H'_def h_voter_def H1_def)
      then show ?thesis using \<open>a = args\<close> cand key by (auto simp: key_le_def key_eq_def)
    qed
  next
    fix p a rp assume p: "(p, a, rp) \<in> clVoteReps s"
    show "requested ?s a" using VS(2) [OF p] rq by simp
    show "\<exists>v. hVote H' (rvTerm a) p = Some v \<and> key_le v a" if "rvrVoteGranted rp" "hLog H (rvTerm a) = None"
      using VS(3) [OF p that] extends_vote [OF ext(1)] by blast
  next
    fix j m a assume j: "j \<in> set members" "clPeer ?s j = Up m" "nState m = Candidate" "requested ?s a" "rvCandidateID a = j" "rvTerm a = nTerm m"
    show "key_eq (hFull H j) a"
    proof (cases "j = i")
      case True
      then have "nTerm m = ?T" using j(2) s(1) K(3) by simp
      then have "a = args" using j True rq fresh by auto
      then show ?thesis using key True by simp
    next
      case False
      then have "requested s a" "clPeer s j = Up m" using j rq cand s(1) by auto
      then show ?thesis using VS(4) [of j m a] j by simp
    qed
  next
    fix U p v assume v: "hVote H' U p = Some v"
    show "\<exists>a. requested ?s a \<and> rvTerm a = U \<and> key_le v a \<and> voted ?s p U (rvCandidateID a)"
    proof (cases "hVote H U p = Some v")
      case True
      then show ?thesis using VS(5) vmono rq by blast
    next
      case False
      then have new: "p = i" "U = ?T" "v = ?x" and ne: "cPeers (cfg i) \<noteq> []"
        using v voter_vote(1) [of i H1 U p v] by (auto simp: H'_def H1_def split: if_splits)
      have "requested ?s args" using rq ne by simp
      moreover have "voted ?s i ?T i" using \<open>requested ?s args\<close> cand unfolding requested_def voted_def by blast
      ultimately show ?thesis using new key cand by (auto simp: key_le_def key_eq_def)
    qed
  next
    fix a a' assume a: "requested ?s a" "requested ?s a'" "rvCandidateID a' = rvCandidateID a" "rvTerm a' = rvTerm a"
    show "rvLastLogTerm a' = rvLastLogTerm a" "rvLastLogIndex a' = rvLastLogIndex a"
      using a rq fresh [of a] fresh [of a'] cand VS(6) [of a a'] by auto
  next
    fix a assume "requested ?s a"
    then show "1 \<le> rvTerm a" using rq VS(7) [of a] cand hist_invD(2) [OF S(1), of i] f(3) by auto
  qed
  moreover have "owners_safe members H' ?s"
  proof (rule owners_safe_quiet [OF S(4) ext(1)])
    show "(\<exists>m0. clPeer s j = Up m0 \<and> nState m0 = Candidate \<and> nTerm m0 = nTerm m) \<or> hTerm H j < nTerm m"
      if "clPeer ?s j = Up m" "nState m = Candidate" for j m
      using that s(1) K(3) f(3) by (cases "j = i") auto
  qed (auto simp: sel s)
  moreover have "msgs_safe members H' ?s" by (rule msgs_safe_step [OF S(5) ext(1)]) (simp_all add: s)
  moreover have "deliver_safe members H' ?s"
    by (rule deliver_safe_up [OF S(6) ext(1) i(2) s(1,8,9)]) (simp add: K(10))
  ultimately have "safe C members H' ?s" using ext(2) by (simp add: safe_def)
  then show ?thesis by (rule growsI [OF ext(1)])
qed

lemma one_vote: "votes_ok C members s \<Longrightarrow> voted s i t c \<Longrightarrow> voted s i t c' \<Longrightarrow> c' = c"
  unfolding votes_ok_def by metis

lemma vote_request_safe:
  assumes safe: "safe C members H s" and el: "election_inv C members cfg s" and dist: "distinct members"
    and i: "i \<in> set members" "clPeer s i = Up n" and a: "(i, args) \<in> clVoteReqs s"
    and r: "HandleRequestVote C E args n = Ok (reply, n')"
    and s': "s' = (setPeer i (Up n') s)\<lparr>clVoteReps := insert (i, args, reply) (clVoteReps s)\<rparr>"
    and el': "election_inv C members cfg s'"
  shows "grows C members H s'"
proof -
  note S = safeD [OF safe] and K = HandleRequestVote_Ok [OF r] and B = HandleRequestVote_body [OF r]
  note VS = votes_safeD [OF S(3)]
  let ?x = "hFull H i"
  obtain f where f: "f \<le> length ?x" "nLog n = view f ?x" "hTerm H i = nTerm n" "contiguous 0 ?x"
    using node_view [OF safe i] by blast
  define H1 where "H1 = H\<lparr>hTerm := (hTerm H)(i := nTerm n')\<rparr>"
  define H' where "H' = (if rvrVoteGranted reply then h_voter i H1 else H1)"
  note N1 = node_calmer [OF node_safeD [OF safe i] B S(1), folded H1_def]
  have ext: "extends H H'" "hist_inv members H'" and ext1: "extends H1 H'"
    using N1(2,3) voter_step [OF N1(3)] extends_trans [OF N1(2)] by (auto simp: H'_def)
  have sel: "hFull H' = hFull H" "hTerm H' = (hTerm H)(i := nTerm n')" "hLog H' = hLog H" by (simp_all add: H'_def H1_def)
  have P: "peer_safe C members H' i (Up n')"
    using node_safe_mono [OF N1(1) ext1] sel by (simp add: peer_safe_def H1_def)
  have ss: "clPeer s' = (clPeer s)(i := Up n')" "clVoteReqs s' = clVoteReqs s" "clVoteReps s' = insert (i, args, reply) (clVoteReps s)"
    "clAppends s' = clAppends s" "clAppendReps s' = clAppendReps s" "clInstalls s' = clInstalls s" "clInstallReps s' = clInstallReps s"
    "clOutbox s' = clOutbox s" "clApplied s' = clApplied s" by (simp_all add: s')
  have rq: "requested s' = requested s" by (auto simp: requested_def ss fun_eq_iff)
  have ra: "requested s args" using a unfolding requested_def by blast
  have vmono: "voted s' p T c" if "voted s p T c" for p T c by (rule voted_mono [OF _ _ that]) (auto simp: ss)
  have gr: "nTerm n' = rvTerm args" "key_le ?x args" if "rvrVoteGranted reply"
    using K(4) [OF that] view_log_ok(3) [OF f(2,4,1)] view_lastTerm [OF f(2,4,1)] by (auto simp: key_le_def)
  have gv: "voted s' i (rvTerm args) (rvCandidateID args)" if "rvrVoteGranted reply"
    unfolding voted_def ss using that by blast
  have "\<forall>j \<in> set members. peer_safe C members H' j (clPeer s' j)"
    by (rule peers_safe_step [OF S(2) el dist i(1) _ ss(1) P ext(1), where n = n]) (use i(2) in \<open>auto simp: sel\<close>)
  moreover have "votes_safe members H' s'"
    unfolding votes_safe_def rq sel(1,3)
  proof (intro conjI allI impI ballI)
    fix b assume b: "requested s b" "hLog H (rvTerm b) = None"
    then show "\<exists>v. hVote H' (rvTerm b) (rvCandidateID b) = Some v \<and> key_le v b"
      using VS(1) [OF b] extends_vote [OF ext(1)] by blast
  next
    fix p b rp assume p: "(p, b, rp) \<in> clVoteReps s'"
    then show "requested s b" using VS(2) [of p b rp] ra unfolding ss(3) by blast
    assume g: "rvrVoteGranted rp" "hLog H (rvTerm b) = None"
    show "\<exists>v. hVote H' (rvTerm b) p = Some v \<and> key_le v b"
    proof (cases "(p, b, rp) \<in> clVoteReps s")
      case True
      then show ?thesis using VS(3) [OF True g] extends_vote [OF ext(1)] by blast
    next
      case False
      then have eq: "p = i" "b = args" "rp = reply" using p ss(3) by auto
      have H': "H' = h_voter i H1" and t: "hTerm H1 i = rvTerm args" using g eq gr(1) by (simp_all add: H'_def H1_def)
      have no: "hLog H1 (hTerm H1 i) = None" using g(2) eq t by (simp add: H1_def)
      obtain v where v: "hVote H' (rvTerm args) i = Some v" using voter_vote(3) [OF no] H' t by auto
      have "key_le v args"
      proof (cases "v = ?x")
        case True
        then show ?thesis using gr(2) g eq by simp
      next
        case False
        then have "hVote H (rvTerm args) i = Some v" using voter_vote(2) [OF no] v H' t by (auto simp: H1_def)
        then obtain b' where b': "requested s b'" "rvTerm b' = rvTerm args" "key_le v b'" "voted s i (rvTerm args) (rvCandidateID b')"
          using VS(5) by blast
        have "rvCandidateID b' = rvCandidateID args"
          using one_vote [OF election_invD(1) [OF el' i(1)] gv vmono [OF b'(4)]] g(1) eq(3) by simp
        from VS(6) [OF b'(1) ra this [symmetric] b'(2) [symmetric]] show ?thesis using b'(3) by (simp add: key_le_def)
      qed
      then show ?thesis using v eq by blast
    qed
  next
    fix j m b assume j: "j \<in> set members" "clPeer s' j = Up m" "nState m = Candidate" "requested s b" "rvCandidateID b = j" "rvTerm b = nTerm m"
    show "key_eq (hFull H j) b"
    proof (cases "j = i")
      case True
      then have "m = n'" using j(2) ss(1) by simp
      then have "nState n = Candidate" "nTerm n = nTerm m" using B(2) j(3) by (auto simp: calmer_def)
      then show ?thesis using VS(4) [OF i] j True by simp
    next
      case False
      then show ?thesis using VS(4) [of j m b] j ss(1) by simp
    qed
  next
    fix U p v assume v: "hVote H' U p = Some v"
    show "\<exists>b. requested s b \<and> rvTerm b = U \<and> key_le v b \<and> voted s' p U (rvCandidateID b)"
    proof (cases "hVote H U p = Some v")
      case True
      then show ?thesis using VS(5) vmono by blast
    next
      case False
      have h1: "hVote H1 U p \<noteq> Some v" using False by (simp add: H1_def)
      have g: "rvrVoteGranted reply" by (rule ccontr) (use v h1 in \<open>simp add: H'_def\<close>)
      have new: "p = i" "U = nTerm n'" "v = ?x" using voter_vote(1) [of i H1 U p v] v h1 g by (simp_all add: H'_def H1_def)
      show ?thesis unfolding new using gr(1) [OF g] gr(2) [OF g] gv [OF g] ra by (intro exI [of _ args]) simp
    qed
  next
    fix b b' assume "requested s b" "requested s b'" "rvCandidateID b' = rvCandidateID b" "rvTerm b' = rvTerm b"
    from VS(6) [OF this] show "rvLastLogTerm b' = rvLastLogTerm b" "rvLastLogIndex b' = rvLastLogIndex b" by simp_all
  qed (rule VS(7))
  moreover have "owners_safe members H' s'"
  proof (rule owners_safe_quiet [OF S(4) ext(1)])
    show "(\<exists>m0. clPeer s j = Up m0 \<and> nState m0 = Candidate \<and> nTerm m0 = nTerm m) \<or> hTerm H j < nTerm m"
      if "clPeer s' j = Up m" "nState m = Candidate" for j m
      using that ss(1) B(2) i(2) by (cases "j = i") (auto simp: calmer_def)
  qed (auto simp: sel ss)
  moreover have "msgs_safe members H' s'" by (rule msgs_safe_step [OF S(5) ext(1)]) (simp_all add: ss)
  moreover have "deliver_safe members H' s'"
    by (rule deliver_safe_up [OF S(6) ext(1) i(2) ss(1,8,9)]) (simp add: K(3))
  ultimately have "safe C members H' s'" using ext(2) by (simp add: safe_def)
  then show ?thesis by (rule growsI [OF ext(1)])
qed

text \<open>A candidate's own majority: what the voters had is no newer than its log.\<close>

lemma winner_votes:
  assumes safe: "safe C members H s" and i: "i \<in> set members" "clPeer s i = Up n" "nState n = Candidate"
    and no: "hLog H (nTerm n) = None" and v: "voted s p (nTerm n) i"
  shows "\<exists>v. hVote H (nTerm n) p = Some v \<and> older v (hFull H i)"
proof -
  note VS = votes_safeD [OF safeD(3) [OF safe]]
  obtain a v where a: "requested s a" "rvTerm a = nTerm n" "rvCandidateID a = i" and v: "hVote H (nTerm n) p = Some v" "key_le v a"
  proof (cases "\<exists>a r. (p, a, r) \<in> clVoteReps s \<and> rvrVoteGranted r \<and> rvTerm a = nTerm n \<and> rvCandidateID a = i")
    case True
    then obtain a r where "(p, a, r) \<in> clVoteReps s" "rvrVoteGranted r" "rvTerm a = nTerm n" "rvCandidateID a = i" by blast
    then show ?thesis using VS(2,3) no that by metis
  next
    case False
    then obtain q a where "p = i" "(q, a) \<in> clVoteReqs s" "rvTerm a = nTerm n" "rvCandidateID a = i" using v unfolding voted_def by blast
    moreover then have "requested s a" unfolding requested_def by blast
    ultimately show ?thesis using VS(1) no that by metis
  qed
  have "key_eq (hFull H i) a" using VS(4) [OF i a(1,3,2)] .
  then show ?thesis using v by (auto simp: key_le_def key_eq_def older_def)
qed

lemma map_of_fold_update: "map_of (fold (\<lambda>p. AList.update p k) ps m) q = (if q \<in> set ps then Some k else map_of m q)"
  by (induction ps arbitrary: m) (simp_all add: update_conv')

lemma fold_update_distinct: "distinct (List.map fst m) \<Longrightarrow> distinct (List.map fst (fold (\<lambda>p. AList.update p k) ps m))"
  by (induction ps arbitrary: m) (simp_all add: distinct_update)

lemma fold_update_keys: "fst ` set (fold (\<lambda>p. AList.update p k) ps m) = set ps \<union> fst ` set m"
  by (induction ps arbitrary: m) (auto simp: dom_update)

lemma fresh_match:
  fixes k :: int
  assumes "go_map m" and "fst ` set m \<subseteq> set members" and "i \<in> set members" and "set ps = set members - {i}"
  defines "m' \<equiv> AList.update i k (fold (\<lambda>p. AList.update p 0) ps m)"
  shows "go_map m'" "fst ` set m' \<subseteq> set members" "y \<in> set m' \<Longrightarrow> y = (i, k) \<or> snd y = 0"
proof -
  show d: "go_map m'" unfolding m'_def go_map_def by (intro distinct_update fold_update_distinct) (use assms(1) in \<open>simp add: go_map_def\<close>)
  show ks: "fst ` set m' \<subseteq> set members" unfolding m'_def keys_update fold_update_keys using assms(2,3,4) by auto
  show "y = (i, k) \<or> snd y = 0" if "y \<in> set m'"
  proof -
    have "map_of m' (fst y) = Some (snd y)" using d that unfolding go_map_def by (simp add: map_of_eq_Some_iff)
    moreover have "fst y \<in> set members" using ks that by auto
    ultimately show ?thesis
      unfolding m'_def by (cases y) (auto simp: update_conv' map_of_fold_update assms(4) split: if_splits)
  qed
qed

lemma win_step:
  assumes safe: "safe C members H s" and el: "election_inv C members cfg s" and cc: "cluster_cfg members cfg"
    and i: "i \<in> set members" "clPeer s i = Up n" and c: "nState n = Candidate" "1 \<le> nTerm n"
    and r: "becomeLeaderLocked C w n = Ok n'"
    and s': "s' = (setPeer i (Up n') s)\<lparr>clBallot := bl\<rparr>" and el': "election_inv C members cfg s'"
  shows "grows C members H s'"
proof -
  have dist: "distinct members" using cc by (simp add: cluster_cfg_def)
  note S = safeD [OF safe] and K = becomeLeader_effect [OF r] and M = members_cfg [OF el cc i]
  note N = node_safe_parts [OF node_safeD [OF safe i]]
  let ?x = "hFull H i" and ?T = "nTerm n"
  obtain f where f: "f \<le> length ?x" "nLog n = view f ?x" "hTerm H i = ?T" "contiguous 0 ?x" "agreed members H ?T (take f ?x)" "firstIndex n = int f"
    using node_view [OF safe i] by blast
  have li: "lastIndex n = int (length ?x)" by (rule view_log_ok(3) [OF f(2,4,1)])
  have ss: "clPeer s' = (clPeer s)(i := Up n')" "clVoteReqs s' = clVoteReqs s" "clVoteReps s' = clVoteReps s"
    "clAppends s' = clAppends s" "clAppendReps s' = clAppendReps s" "clInstalls s' = clInstalls s" "clInstallReps s' = clInstallReps s"
    "clOutbox s' = clOutbox s" "clApplied s' = clApplied s" by (simp_all add: s')
  have vt: "voted s' = voted s" by (auto simp: voted_def ss fun_eq_iff)
  have rq: "requested s' = requested s" by (auto simp: requested_def ss fun_eq_iff)
  have els: "elected members s' = elected members s" by (simp add: elected_def vt fun_eq_iff)
  have won: "elected members s' i ?T"
    using election_invD(3) [OF el' i(1)] i(1) ss(1) K(1,2) by (auto simp: leaders_ok_def)
  have no: "hLog H ?T = None"
  proof (rule ccontr)
    assume "hLog H ?T \<noteq> None"
    then obtain j where j: "elected members s j ?T" "\<forall>m. clPeer s j = Up m \<longrightarrow> nTerm m = ?T \<longrightarrow> nState m \<noteq> Candidate"
      using S(4) unfolding owners_safe_def by blast
    then have "j = i" using elected_unique [OF el' dist _ won] els by simp
    then show False using j(2) i(2) c(1) by simp
  qed
  define e where "e = \<lparr>eIndex = lastIndex n + 1, eTerm = ?T, eCommand = None\<rparr>"
  define H' where "H' = h_elect i e H"
  obtain Q where Q: "Q \<subseteq> set members" "2 * card Q > length members" "\<forall>p \<in> Q. voted s p ?T i"
    using won unfolding els elected_def by blast
  have ext: "extends H H'" "hist_inv members H'"
    unfolding H'_def
    by (rule elect_step [OF S(1), where Q = Q and e = e and i = i];
        use f(3) no c(2) Q li winner_votes [OF safe i c(1) no] in \<open>simp add: quorum_def e_def\<close>)+
  have sel: "hFull H' = (hFull H)(i := ?x @ [e])" "hTerm H' = hTerm H" "hLog H' = (hLog H)(?T \<mapsto> ?x @ [e])" "hVote H' = hVote H"
    "hAck H' = insert (i, ?T, length ?x + 1) (hAck H)"
    by (simp_all add: H'_def h_elect_def Let_def f(3))
  have up: "upto_ok members H' i k" if "upto_ok members H i k" for k
    using that extends_agreed [OF ext(1)] unfolding upto_ok_def sel by (auto simp: nat_le_iff)
  have K8: "nMatchIndex n' = AList.update i (int (length ?x) + 1) (fold (\<lambda>p. AList.update p 0) (cPeers (cfg i)) (nMatchIndex n))"
    using K(8) M(1,2) li by simp
  note F = fresh_match [OF N(6,7) i(1) M(3), where k = "int (length ?x) + 1", folded K8]
  have ack: "acked H' i ?T (nat (int (length ?x) + 1))" unfolding acked_def sel by (rule exI [of _ "length ?x + 1"]) (simp add: nat_add_distrib)
  have mo: "match_ok H' ?T (nMatchIndex n')" unfolding match_ok_def using F(3) ack by fastforce
  have lg: "nLog n' = view f (?x @ [e])" using K(7) f(2) view_snoc [OF f(1)] by (simp add: e_def)
  have ag: "agreed members H' ?T (take f (?x @ [e]))" using extends_agreed [OF ext(1) f(5)] f(1) by simp
  have "node_safe members H' i n'"
  proof (rule node_safeI)
    show "pers_ok members H' i (persistentOf n')"
      unfolding pers_ok_def persistentOf_def using lg ag f(1,3) K(2) by (auto simp: sel intro!: exI [of _ f])
    show "firstIndex n' \<le> nCommitIndex n'"
      using N(2) K(4,7) f(2,6) by (simp add: firstIndex_def view_def)
    show "\<exists>d k t. m = ApplySnapshot d k t \<and> k \<le> nCommitIndex n' \<and> upto_ok members H' i k" if "nPending n' = Some m" for m
      using N(5) [of m] that up K(4,6) by metis
    show "upto_ok members H' i (nCommitIndex n')" "upto_ok members H' i (nLastApplied n')" using N(3,4) up K(4,5) by simp_all
    show "nLastApplied n' \<le> nCommitIndex n'" using N(8) K(4,5) by simp
    show "match_ok H' (nTerm n') (nMatchIndex n')" using mo K(2) by simp
  qed (use F(1,2) K(2) in \<open>simp_all add: sel\<close>)
  then have P: "peer_safe C members H' i (Up n')" by (simp add: peer_safe_def)
  have "\<forall>j \<in> set members. peer_safe C members H' j (clPeer s' j)"
    by (rule peers_safe_step [OF S(2) el dist i(1) _ ss(1) P ext(1), where n = n]) (use i(2) no in \<open>auto simp: sel\<close>)
  moreover have "votes_safe members H' s'"
    unfolding votes_safe_def rq vt ss(3) sel(4)
  proof (intro conjI allI impI ballI)
    note VS = votes_safeD [OF S(3)]
    show "\<exists>v. hVote H (rvTerm b) (rvCandidateID b) = Some v \<and> key_le v b" if "requested s b" "hLog H' (rvTerm b) = None" for b
      using VS(1) [OF that(1)] that(2) by (simp add: sel split: if_splits)
    show "requested s b" if "(p, b, rp) \<in> clVoteReps s" for p b rp by (rule VS(2) [OF that])
    show "\<exists>v. hVote H (rvTerm b) p = Some v \<and> key_le v b"
      if "(p, b, rp) \<in> clVoteReps s" "rvrVoteGranted rp" "hLog H' (rvTerm b) = None" for p b rp
      using VS(3) [OF that(1,2)] that(3) by (simp add: sel split: if_splits)
    show "key_eq (hFull H' j) b" if "j \<in> set members" "clPeer s' j = Up m" "nState m = Candidate" "requested s b" "rvCandidateID b = j" "rvTerm b = nTerm m" for j m b
    proof (cases "j = i")
      case True
      then show ?thesis using that(2,3) ss(1) K(1) by simp
    next
      case False
      then show ?thesis using VS(4) [of j m b] that ss(1) by (simp add: sel)
    qed
    show "\<exists>b. requested s b \<and> rvTerm b = U \<and> key_le v b \<and> voted s p U (rvCandidateID b)" if "hVote H U p = Some v" for U p v
      by (rule VS(5) [OF that])
    show "rvLastLogTerm b' = rvLastLogTerm b" "rvLastLogIndex b' = rvLastLogIndex b"
      if "requested s b" "requested s b'" "rvCandidateID b' = rvCandidateID b" "rvTerm b' = rvTerm b" for b b'
      using VS(6) [OF that] by simp_all
  qed (rule votes_safeD(7) [OF S(3)])
  moreover have "owners_safe members H' s'"
    unfolding owners_safe_def
  proof (intro allI impI)
    fix U l assume l: "hLog H' U = Some l"
    show "\<exists>j \<in> set members. elected members s' j U \<and> U \<le> hTerm H' j \<and>
        (\<forall>m. clPeer s' j = Up m \<longrightarrow> nTerm m = U \<longrightarrow> nState m \<noteq> Candidate)"
    proof (cases "U = ?T")
      case True
      then show ?thesis using i(1) won f(3) ss(1) K(1) by (intro bexI [of _ i]) (simp_all add: sel)
    next
      case False
      then have "hLog H U = Some l" using l by (simp add: sel)
      then obtain j where "j \<in> set members" "elected members s j U" "U \<le> hTerm H j"
          "\<forall>m. clPeer s j = Up m \<longrightarrow> nTerm m = U \<longrightarrow> nState m \<noteq> Candidate"
        using S(4) unfolding owners_safe_def by blast
      then show ?thesis using ss(1) K(1) els by (intro bexI [of _ j]) (simp_all add: sel)
    qed
  qed
  moreover have "msgs_safe members H' s'" by (rule msgs_safe_step [OF S(5) ext(1)]) (simp_all add: ss)
  moreover have "deliver_safe members H' s'"
    by (rule deliver_safe_up [OF S(6) ext(1) i(2) ss(1,8,9)]) (simp add: K(4))
  ultimately have "safe C members H' s'" using ext(2) by (simp add: safe_def)
  then show ?thesis by (rule growsI [OF ext(1)])
qed

lemma vote_reply_safe:
  assumes safe: "safe C members H s" and el: "election_inv C members cfg s" and cc: "cluster_cfg members cfg"
    and i: "i \<in> set members" "clPeer s i = Up n" and a: "(p, args, reply) \<in> clVoteReps s"
    and r: "handleVoteReply C E (rvTerm args) votes reply n = Ok (votes', n')"
    and s': "s' = (setPeer i (Up n') s)\<lparr>clBallot := bl\<rparr>" and el': "election_inv C members cfg s'"
  shows "grows C members H s'"
  using handleVoteReply_effect [OF r]
proof (elim disjE conjE)
  assume b: "same_body n n'" "calmer n n'"
  have "distinct members" using cc by (simp add: cluster_cfg_def)
  then show ?thesis by (rule safe_reply [OF safe el _ i b]) (simp_all add: s')
next
  assume w: "nState n = Candidate" "nTerm n = rvTerm args" "becomeLeaderLocked C (reWrite1 E) n = Ok n'"
  note VS = votes_safeD [OF safeD(3) [OF safe]]
  have "1 \<le> nTerm n" using VS(7) [OF VS(2) [OF a]] w(2) by simp
  then show ?thesis by (rule win_step [OF safe el cc i w(1) _ w(3) s' el'])
qed

section \<open>Every run\<close>

lemma settle_calm:
  assumes "safe C members H s" and "election_inv C members cfg s" and "distinct members"
    and "i \<in> set members" "clPeer s i = Up n" and "calmR C g n r" and "old_log C n r"
    and "\<And>x. r = Ok x \<Longrightarrow> grows C members H (k x)"
  shows "grows C members H (settle i s k r)"
  by (rule safe_settle [OF assms(1-5,7)]) (use assms(6,8) in auto)

lemma electionLoop_calm: "durable C n \<Longrightarrow> calmR C snd n (electionLoop C E n)"
proof -
  assume d: "durable C n"
  have "calmR C snd n (bindR (startElectionLocked C E n) (\<lambda>(args, n1). Ok (Some args, n1)))"
    by (rule calmR_bind [OF startElection_calm [OF d]]) (auto intro: calm_self)
  then show ?thesis using d by (simp add: electionLoop_def durable_refl)
qed

lemma sendAppendEntries_calm: "durable C n \<Longrightarrow> calmR C (\<lambda>_. n) n (sendAppendEntries p n)"
  by (cases "sendAppendEntries p n")
    (auto simp: durable_refl sendAppendEntries_def Let_def bindR_Panic_iff durable_def saved_def split: if_splits dest: accessor_Panic)

lemma tick_safe:
  assumes safe: "safe C members H s" and el: "election_inv C members cfg s" and cc: "cluster_cfg members cfg"
    and i: "i \<in> set members" "clPeer s i = Up n" and r: "electionLoop C E n = Ok x"
  shows "grows C members H (elect i x s)"
proof (cases "fst x")
  case None
  have "distinct members" using cc by (simp add: cluster_cfg_def)
  moreover have "x = (None, n)" using r None by (cases x) (auto simp: electionLoop_def bindR_Ok_iff split: if_splits)
  ultimately show ?thesis by (intro safe_reply [OF safe el _ i, of n]) (simp_all add: elect_def)
next
  case (Some args)
  then obtain n' where x: "x = (Some args, n')" by (cases x) auto
  then have "startElectionLocked C E n = Ok (args, n')" using r by (auto simp: electionLoop_def bindR_Ok_iff split: if_splits)
  then show ?thesis unfolding x by (rule candidate_step [OF safe el cc i])
qed

lemma node_step_safe:
  assumes step: "node_step C members cfg s s'" and safe: "safe C members H s" and el: "election_inv C members cfg s"
    and cc: "cluster_cfg members cfg" and rt: "ps_roundtrip C"
  shows "grows C members H s'"
proof -
  have dist: "distinct members" using cc by (simp add: cluster_cfg_def)
  note el' = node_step_election [OF step el cc rt]
  note D = election_invD(4) [OF el] and S = settle_calm [OF safe el dist]
  from step show ?thesis
  proof cases
    case (Tick i n E)
    show ?thesis unfolding Tick(1)
      by (rule S [OF Tick(2,3) electionLoop_calm electionLoop_old]) (use D [OF Tick(2,3)] tick_safe [OF safe el cc Tick(2,3)] in auto)
  next
    case (VoteRequest i n args E)
    note d = D [OF VoteRequest(2,3)]
    show ?thesis unfolding VoteRequest(1)
    proof (rule S [OF VoteRequest(2,3) HandleRequestVote_calm [OF d] HandleRequestVote_old [OF d]])
      fix x assume x: "HandleRequestVote C E args n = Ok x"
      obtain reply n' where rn: "x = (reply, n')" by (cases x)
      show "grows C members H ((\<lambda>(reply, n1). (setPeer i (Up n1) s)\<lparr>clVoteReps := insert (i, args, reply) (clVoteReps s)\<rparr>) x)"
        using vote_request_safe [OF safe el dist VoteRequest(2,3,4) x [unfolded rn] refl] el' VoteRequest(1) x rn by (simp add: settle_def)
    qed
  next
    case (VoteReply i n p args reply votes waiting E)
    note d = D [OF VoteReply(2,3)]
    show ?thesis unfolding VoteReply(1)
    proof (rule safe_settle [OF safe el dist VoteReply(2,3) handleVoteReply_old [OF d] handleVoteReply_Panic [OF d]])
      fix x assume x: "handleVoteReply C E (rvTerm args) votes reply n = Ok x"
      obtain v n' where rn: "x = (v, n')" by (cases x)
      show "grows C members H ((\<lambda>(votes1, n1). (setPeer i (Up n1) s)\<lparr>clBallot := (clBallot s)(i := (clBallot s i)(rvTerm args \<mapsto> (votes1, waiting - {p})))\<rparr>) x)"
        using vote_reply_safe [OF safe el cc VoteReply(2,3,4) x [unfolded rn] refl] el' VoteReply(1) x rn by (simp add: settle_def)
    qed assumption
  next
    case (Proposal i n E command)
    note d = D [OF Proposal(2,3)]
    show ?thesis unfolding Proposal(1)
      by (rule S [OF Proposal(2,3) Propose_calm [OF d] Propose_old [OF d]])
        (use propose_step [OF safe el dist Proposal(2,3) members_cfg(1) [OF el cc Proposal(2,3)]] in \<open>auto split: prod.splits\<close>)
  next
    case (Send i n p)
    note d = D [OF Send(2,3)]
    show ?thesis unfolding Send(1)
      by (rule S [OF Send(2,3) sendAppendEntries_calm [OF d] sendAppendEntries_old [OF d]])
        (rule grows_same [OF send_step [OF safe el dist Send(2,3)]])
  next
    case (SendInstall i n p args)
    show ?thesis unfolding SendInstall(1) by (rule grows_same [OF send_install_step [OF safe el dist SendInstall(2,3,5)]])
  next
    case (AppendRequest i n args E)
    note d = D [OF AppendRequest(2,3)]
    show ?thesis unfolding AppendRequest(1)
      by (rule S [OF AppendRequest(2,3) HandleAppendEntries_calm [OF d] HandleAppendEntries_old [OF d]])
        (use append_step [OF safe el dist AppendRequest(2,3,4) _ refl] in \<open>auto split: prod.splits\<close>)
  next
    case (AppendReply i n p args reply E)
    note d = D [OF AppendReply(2,3)]
    show ?thesis unfolding AppendReply(1)
      by (rule S [OF AppendReply(2,3) handleAppendReply_calm [OF d] handleAppendReply_old [OF d]])
        (use append_reply_step [OF safe el cc AppendReply(2,3,4)] in \<open>auto split: prod.splits\<close>)
  next
    case (InstallRequest i n args E)
    note d = D [OF InstallRequest(2,3)]
    show ?thesis unfolding InstallRequest(1)
      by (rule S [OF InstallRequest(2,3) HandleInstallSnapshot_calm [OF d] HandleInstallSnapshot_old [OF d]])
        (use install_step [OF safe el dist InstallRequest(2,3,4) _ refl] in \<open>auto split: prod.splits\<close>)
  next
    case (InstallReply i n p args reply E)
    note d = D [OF InstallReply(2,3)]
    show ?thesis unfolding InstallReply(1)
      by (rule S [OF InstallReply(2,3) handleSnapshotReply_calm [OF d] handleSnapshotReply_old [OF d]])
        (use install_reply_step [OF safe el dist InstallReply(2,3,4)] in \<open>auto split: prod.splits\<close>)
  next
    case (Applier i n)
    note d = D [OF Applier(2,3)]
    show ?thesis unfolding Applier(1)
      by (rule S [OF Applier(2,3) applier_calm [OF d] applier_old [OF d]])
        (metis grows_same applier_step [OF safe el dist Applier(2,3)] surj_pair)
  next
    case (HandOver i n m ms)
    show ?thesis unfolding HandOver(1) by (rule grows_same [OF hand_over_step [OF safe el dist HandOver(2,3,4)]])
  next
    case (Stop i n)
    show ?thesis unfolding Stop(1) by (rule stop_step [OF safe el dist Stop(2,3)])
  next
    case (Crash i n)
    have "loaded C (nDisk n) = Some (persistentOf n)" using D [OF Crash(2,3)] by (simp add: durable_def saved_def)
    then show ?thesis unfolding Crash(1) by (rule safe_crash [OF safe el dist Crash(2,3)]) (simp_all add: persistentOf_def)
  next
    case (Restart i d R E n)
    show ?thesis unfolding Restart(1) by (rule grows_same [OF safe_restart [OF safe el cc Restart(2,3,4)]])
  qed
qed

lemma raft_step_safe:
  assumes step: "raft_step C members cfg s s'" and safe: "safe C members H s" and el: "election_inv C members cfg s"
    and cc: "cluster_cfg members cfg" and rt: "ps_roundtrip C"
  shows "grows C members H s'"
  using step
proof cases
  case Node_Step
  then show ?thesis by (rule node_step_safe [OF _ safe el cc rt])
next
  case (Compact i n E index snap)
  have dist: "distinct members" using cc by (simp add: cluster_cfg_def)
  note d = election_invD(4) [OF el Compact(2,3)]
  show ?thesis unfolding Compact(1)
    by (rule settle_calm [OF safe el dist Compact(2,3) Node_Snapshot_calm [OF d] Node_Snapshot_old [OF d]])
      (rule compact_step [OF safe el dist Compact(2,3)])
qed

theorem raft_reach_safe:
  assumes "raft_reach C members cfg s" and cc: "cluster_cfg members cfg" and rt: "ps_roundtrip C"
  shows "\<exists>H. safe C members H s"
  using assms(1)
proof induction
  case Raft_Init
  have "pers_ok members hist_init i freshState" for i
    by (auto simp: pers_ok_def hist_init_def freshState_def view_def agreed_def tm_def intro!: exI [of _ 0])
  then have "safe C members hist_init raft_init"
    by (simp add: safe_def hist_init_inv peer_safe_def raft_init_def votes_safe_def owners_safe_def msgs_safe_def deliver_safe_def
        requested_def loaded_def emptyDisk_def) (simp add: hist_init_def)
  then show ?case by blast
next
  case (Raft_Step s s')
  then obtain H where "safe C members H s" by blast
  with Raft_Step(2) have "grows C members H s'" by (rule raft_step_safe [OF _ _ raft_reach_election [OF Raft_Step(1) cc rt] cc rt])
  then show ?case unfolding grows_def by blast
qed

end
