(* ===== verification/Raft_Delivery.thy ===== *)
theory Raft_Delivery
  imports Raft_Safety
begin

text \<open>
  The order in which one process hands messages to its state machine: commands come with
  consecutive indexes, and a snapshot only ever moves forward. The invariant ties the messages
  handed over, the applier's batch, \<^verbatim>\<open>lastApplied\<close>, the pending snapshot and the start of the log.
\<close>

section \<open>The invariant\<close>

definition follows :: "ApplyMsg \<Rightarrow> ApplyMsg \<Rightarrow> bool" where
  "follows m m' =
     (case m' of
        ApplyCommand c k t \<Rightarrow> k = amIndex m + 1
      | ApplySnapshot d k t \<Rightarrow> k > amIndex m)"

fun commands_from :: "int \<Rightarrow> ApplyMsg list \<Rightarrow> bool" where
  "commands_from k [] = True"
| "commands_from k (ApplyCommand c i t # ms) = (i = k \<and> commands_from (k + 1) ms)"
| "commands_from k (ApplySnapshot d i t # ms) = False"

text \<open>The applier's batch: nothing, the one snapshot, or the commands after \<^verbatim>\<open>lastApplied\<close>.\<close>

definition batch_ok :: "int \<Rightarrow> ApplyMsg list \<Rightarrow> ApplyMsg list \<Rightarrow> bool" where
  "batch_ok la out app \<longleftrightarrow>
     (\<exists>d t. out = [ApplySnapshot d la t]) \<and> (app \<noteq> [] \<longrightarrow> amIndex (last app) < la) \<or>
     commands_from (la + 1) out \<and> (app \<noteq> [] \<longrightarrow> amIndex (last app) = la)"

definition pending_ok :: "Node \<Rightarrow> ApplyMsg list \<Rightarrow> ApplyMsg list \<Rightarrow> bool" where
  "pending_ok n out app \<longleftrightarrow>
     (case nPending n of
        None \<Rightarrow> firstIndex n \<le> nLastApplied n
      | Some p \<Rightarrow> (\<exists>d k t. p = ApplySnapshot d k t) \<and> firstIndex n \<le> amIndex p \<and> (\<forall>m \<in> set out. amIndex m < amIndex p) \<and>
          (nLastApplied n < amIndex p \<or> nLastApplied n = amIndex p \<and> out = [] \<and> app = []))"

definition in_order :: "Node \<Rightarrow> ApplyMsg list \<Rightarrow> ApplyMsg list \<Rightarrow> bool" where
  "in_order n out app \<longleftrightarrow> successively follows app \<and> batch_ok (nLastApplied n) out app \<and> pending_ok n out app"

definition delivery_inv :: "string list \<Rightarrow> cluster \<Rightarrow> bool" where
  "delivery_inv members s \<longleftrightarrow>
     (\<forall>i \<in> set members. \<forall>n. clPeer s i = Up n \<longrightarrow> in_order n (clOutbox s i) (clApplied s i)) \<and>
     (\<forall>i \<in> set members. \<forall>d. clPeer s i = Down d \<longrightarrow> clOutbox s i = [] \<and> clApplied s i = [])"

lemma delivery_invD:
  assumes "delivery_inv members s" and "i \<in> set members"
  shows "clPeer s i = Up n \<Longrightarrow> in_order n (clOutbox s i) (clApplied s i)"
    "clPeer s i = Down d \<Longrightarrow> clOutbox s i = []" "clPeer s i = Down d \<Longrightarrow> clApplied s i = []"
  using assms unfolding delivery_inv_def by blast+

section \<open>Steps\<close>

text \<open>Only one process changes in a step.\<close>

lemma delivery_one:
  assumes inv: "delivery_inv members s" and P: "clPeer s' = (clPeer s)(i := P)"
    and other: "\<And>j. j \<noteq> i \<Longrightarrow> clOutbox s' j = clOutbox s j \<and> clApplied s' j = clApplied s j"
    and up: "\<And>n. P = Up n \<Longrightarrow> in_order n (clOutbox s' i) (clApplied s' i)"
    and down: "\<And>d. P = Down d \<Longrightarrow> clOutbox s' i = [] \<and> clApplied s' i = []"
  shows "delivery_inv members s'"
  unfolding delivery_inv_def
proof (intro conjI ballI allI impI)
  fix j n assume j: "j \<in> set members" "clPeer s' j = Up n"
  show "in_order n (clOutbox s' j) (clApplied s' j)"
    using j P other [of j] up delivery_invD(1) [OF inv j(1), of n] by (cases "j = i") auto
next
  fix j d assume j: "j \<in> set members" "clPeer s' j = Down d"
  show "clOutbox s' j = []" "clApplied s' j = []"
    using j P other [of j] down delivery_invD(2,3) [OF inv j(1), of d] by (cases "j = i"; auto)+
qed

text \<open>Most steps change nothing that counts here.\<close>

definition still :: "Node \<Rightarrow> Node \<Rightarrow> bool" where
  "still n n' \<longleftrightarrow> nLastApplied n' = nLastApplied n \<and> nPending n' = nPending n \<and> firstIndex n' = firstIndex n"

lemma still_body: "same_body n n' \<Longrightarrow> still n n'"
  by (simp add: still_def same_body_def firstIndex_def)

lemma still_rest: "same_rest n n' \<Longrightarrow> nLog n' = nLog n \<Longrightarrow> still n n'"
  by (simp add: still_def same_rest_def firstIndex_def)

lemma still_in_order: "still n n' \<Longrightarrow> in_order n out app \<Longrightarrow> in_order n' out app"
  by (auto simp: still_def in_order_def pending_ok_def split: option.splits)

lemma delivery_still:
  assumes inv: "delivery_inv members s" and i: "i \<in> set members" "clPeer s i = Up n" and st: "still n n'"
    and s': "clPeer s' = (clPeer s)(i := Up n')" "clOutbox s' = clOutbox s" "clApplied s' = clApplied s"
  shows "delivery_inv members s'"
  by (rule delivery_one [OF inv s'(1)])
    (use still_in_order [OF st delivery_invD(1) [OF inv i]] s'(2,3) in auto)

lemma delivery_down: "delivery_inv members s \<Longrightarrow> delivery_inv members (crashed i d s)"
  by (rule delivery_one [where i = i and P = "Down d"]) simp_all

lemma delivery_settle:
  assumes "delivery_inv members s" and "\<And>x. r = Ok x \<Longrightarrow> delivery_inv members (k x)"
  shows "delivery_inv members (settle i s k r)"
  using assms delivery_down by (cases r) (simp_all add: settle_def)

lemma electionLoop_still:
  assumes "electionLoop C E n = Ok (a, n')"
  shows "still n n'"
proof -
  have "n' = n \<or> (\<exists>args. startElectionLocked C E n = Ok (args, n'))"
    using assms by (auto simp: electionLoop_def bindR_Ok_iff split: if_splits)
  then show ?thesis using startElection_body still_body by (auto simp: still_def)
qed

lemma becomeLeader_still:
  assumes "log_ok n" and "becomeLeaderLocked C r n = Ok n'"
  shows "still n n'"
  using becomeLeader_effect [OF assms(2)] assms(1) by (simp add: still_def firstIndex_def log_ok_def)

lemma append_still:
  assumes safe: "safe C members H s" and i: "i \<in> set members" "clPeer s i = Up n" and a: "(j, args) \<in> clAppends s"
    and r: "HandleAppendEntries C E args n = Ok (reply, n')"
  shows "still n n'"
proof (cases "nTerm n \<le> aeTerm args")
  case False
  then show ?thesis using HandleAppendEntries_stale [OF _ r] by (simp add: still_def)
next
  case True
  note Eff = HandleAppendEntries_effect [OF r True]
  have "append_ok members H args" using safeD(5) [OF safe] a by (simp add: msgs_safe_def)
  then obtain l k where l: "hLog H (aeTerm args) = Some l" and k: "aePrevLogIndex args = int k" "k + length (aeEntries args) \<le> length l"
      "aeEntries args = take (length (aeEntries args)) (drop k l)"
    unfolding append_ok_def by blast
  obtain f where f: "f \<le> length (hFull H i)" "nLog n = view f (hFull H i)" "contiguous 0 (hFull H i)"
    using node_view [OF safe i] by blast
  have "contiguous 0 l" using term_logD(2) [OF safeD(1) [OF safe] l] by (simp add: log_in_def)
  then have "contiguous (int k) (drop k l)" using contiguous_drop [of 0 l k] k(2) by simp
  then have es: "contiguous (aePrevLogIndex args) (aeEntries args)" by (subst k(3)) (simp add: k(1) contiguous_take)
  note R = HandleAppendEntries_Ok [OF view_log_ok(1) [OF f(2,3,1)] es r]
  have "firstIndex n' = firstIndex n"
    using R(2,3) appendLog_ok(2) [OF view_log_ok(1) [OF f(2,3,1)] es, of n'] by (cases "aerSuccess reply") (auto simp: firstIndex_def)
  then show ?thesis using Eff(4,5) by (simp add: still_def)
qed

lemma install_order:
  assumes safe: "safe C members H s" and i: "i \<in> set members" "clPeer s i = Up n" and a: "(j, args) \<in> clInstalls s"
    and r: "HandleInstallSnapshot C E args n = Ok (reply, n')" and inv: "in_order n (clOutbox s i) (clApplied s i)"
  shows "in_order n' (clOutbox s i) (clApplied s i)"
proof (cases "nTerm n \<le> isTerm args")
  case False
  then show ?thesis using HandleInstallSnapshot_stale [OF _ r] inv by simp
next
  case True
  have "install_ok members H args" using safeD(5) [OF safe] a by (simp add: msgs_safe_def)
  then obtain l k where l: "hLog H (isTerm args) = Some l" and k: "isLastIncludedIndex args = int k" "isLastIncludedTerm args = tm l k" "k \<le> length l"
    unfolding install_ok_def by blast
  obtain f where f: "f \<le> length (hFull H i)" "nLog n = view f (hFull H i)" "contiguous 0 (hFull H i)" "traced H (hFull H i)" "int f \<le> nCommitIndex n"
    using node_view [OF safe i] by blast
  note Eff = HandleInstallSnapshot_effect [OF r f(2,3,1,4) term_logD(3) [OF safeD(1) [OF safe] l] k f(5) True]
  show ?thesis
  proof (cases "int k \<le> nCommitIndex n")
    case True
    then have "still n n'" using Eff by (simp add: still_def firstIndex_def)
    then show ?thesis by (rule still_in_order [OF _ inv])
  next
    case False
    have out: "amIndex m \<le> nCommitIndex n" if "m \<in> set (clOutbox s i)" for m
      using safeD(6) [OF safe] i(2) that unfolding deliver_safe_def by blast
    have la: "nLastApplied n \<le> nCommitIndex n" by (rule node_safe_parts(8) [OF node_safeD [OF safe i]])
    have "firstIndex n' = int k" using Eff False by (simp add: firstIndex_def view_def)
    then show ?thesis
      using Eff False out la inv by (fastforce simp: in_order_def pending_ok_def)
  qed
qed

lemma compact_order:
  assumes safe: "safe C members H s" and i: "i \<in> set members" "clPeer s i = Up n"
    and r: "Node_Snapshot C E index snap n = Ok n'" and inv: "in_order n out app"
  shows "in_order n' out app"
proof -
  obtain f where f: "f \<le> length (hFull H i)" "nLog n = view f (hFull H i)" "contiguous 0 (hFull H i)"
    using node_view [OF safe i] by blast
  have la: "nLastApplied n \<le> int (length (hFull H i))"
    using node_safe_parts(4) [OF node_safeD [OF safe i]] by (simp add: upto_ok_def)
  from Node_Snapshot_effect [OF r f(2,3,1) la] show ?thesis
  proof (elim disjE conjE)
    assume "same_rest n n'" "int f < index" "index \<le> nLastApplied n" "nLog n' = view (nat index) (hFull H i)"
    moreover from this have "firstIndex n' = index" by (simp add: firstIndex_def view_def)
    ultimately show ?thesis
      using inv unfolding in_order_def same_rest_def pending_ok_def by (auto split: option.splits)
  qed (use inv in simp)
qed

lemma commands_from_map:
  "contiguous k es \<Longrightarrow> commands_from (k + 1) (List.map applyMsgOf es)"
proof (induction es arbitrary: k)
  case (Cons e es)
  then have "eIndex e = k + 1" "contiguous (k + 1) es" by (auto simp: contiguous_def nth_Cons split: nat.splits)
  with Cons.IH [of "k + 1"] show ?case by (simp add: applyMsgOf_def)
qed simp

lemma applier_order:
  assumes safe: "safe C members H s" and i: "i \<in> set members" "clPeer s i = Up n" and o: "clOutbox s i = []"
    and r: "applier n = Ok (act, n')" and inv: "in_order n [] app"
  shows "case act of ApplierSend ms \<Rightarrow> in_order n' ms app | _ \<Rightarrow> in_order n' [] app"
proof -
  let ?x = "hFull H i"
  obtain f where f: "f \<le> length ?x" "nLog n = view f ?x" "contiguous 0 ?x" "firstIndex n = int f"
    using node_view [OF safe i] by blast
  note N = node_safe_parts [OF node_safeD [OF safe i]]
  have c: "nCommitIndex n \<le> int (length ?x)" using N(3) by (simp add: upto_ok_def)
  from applier_effect [OF r f(2,3,1) c] show ?thesis
  proof (elim disjE exE conjE)
    assume "n' = n" "\<forall>ms. act \<noteq> ApplierSend ms"
    with inv show ?thesis by (auto split: applierAction.splits)
  next
    fix snap assume p: "nPending n = Some snap" "act = ApplierSend [snap]"
      and n': "n' = n\<lparr>nPending := None, nLastApplied := max (nLastApplied n) (amIndex snap)\<rparr>"
    obtain d k t where s: "snap = ApplySnapshot d k t" and fi: "firstIndex n \<le> k" and la: "nLastApplied n < k \<or> nLastApplied n = k \<and> app = []"
      using inv p(1) unfolding in_order_def pending_ok_def by auto
    have b: "app \<noteq> [] \<longrightarrow> amIndex (last app) = nLastApplied n" using inv by (simp add: in_order_def batch_ok_def)
    have "firstIndex n' = firstIndex n" "nLastApplied n' = k" "nPending n' = None" using n' la s by (auto simp: firstIndex_def)
    then show ?thesis using p(2) inv fi la b s by (auto simp: in_order_def batch_ok_def pending_ok_def)
  next
    assume p: "nPending n = None" "nLastApplied n < nCommitIndex n" "n' = n"
      and act: "act = ApplierSend (List.map applyMsgOf (take (nat (nCommitIndex n - applyFrom n + 1)) (drop (nat (applyFrom n) - 1) ?x)))"
    have fl: "firstIndex n \<le> nLastApplied n" using inv p(1) by (simp add: in_order_def pending_ok_def)
    then have from': "applyFrom n = nLastApplied n + 1" by (simp add: applyFrom_def)
    have la: "0 \<le> nLastApplied n" "nat (nLastApplied n) \<le> length ?x" using fl f(4) p(2) c by simp_all
    have "contiguous (nLastApplied n) (drop (nat (nLastApplied n)) ?x)" using contiguous_drop [OF f(3) la(2)] la(1) by simp
    then have "commands_from (nLastApplied n + 1) (List.map applyMsgOf (take (nat (nCommitIndex n - nLastApplied n)) (drop (nat (nLastApplied n)) ?x)))"
      by (intro commands_from_map contiguous_take)
    moreover have eq: "nat (applyFrom n) - 1 = nat (nLastApplied n)" "nCommitIndex n - applyFrom n + 1 = nCommitIndex n - nLastApplied n"
      using from' la(1) by simp_all
    ultimately show ?thesis using act [unfolded eq] inv p unfolding in_order_def batch_ok_def pending_ok_def by simp
  qed
qed

lemma hand_over_order:
  assumes "in_order n (m # ms) app"
  shows "in_order (case m of ApplyCommand c k t \<Rightarrow> applierSent k n | ApplySnapshot d k t \<Rightarrow> n) ms (app @ [m])"
proof (cases m)
  case (ApplyCommand c k t)
  have k: "k = nLastApplied n + 1" "commands_from (k + 1) ms" "app \<noteq> [] \<longrightarrow> amIndex (last app) = nLastApplied n" "successively follows app"
    using assms ApplyCommand by (auto simp: in_order_def batch_ok_def)
  have "successively follows (app @ [m])" using k ApplyCommand by (auto simp: successively_append_iff follows_def)
  moreover have "pending_ok (applierSent k n) ms (app @ [m])"
    using assms ApplyCommand k(1) unfolding in_order_def pending_ok_def
    by (auto simp: applierSent_def firstIndex_def split: option.splits)
  ultimately show ?thesis using k ApplyCommand by (simp add: in_order_def batch_ok_def applierSent_def)
next
  case (ApplySnapshot d k t)
  then have k: "ms = []" "k = nLastApplied n" "app \<noteq> [] \<longrightarrow> amIndex (last app) < k" "successively follows app"
    using assms by (auto simp: in_order_def batch_ok_def)
  have "successively follows (app @ [m])" using k ApplySnapshot by (auto simp: successively_append_iff follows_def)
  moreover have "pending_ok n ms (app @ [m])"
    using assms ApplySnapshot k(1,2) unfolding in_order_def pending_ok_def by (auto split: option.splits)
  ultimately show ?thesis using k ApplySnapshot by (simp add: in_order_def batch_ok_def)
qed

lemma new_node_order:
  assumes "NewNode C R E cfg d = Some (Ok n)"
  shows "in_order n [] []"
proof -
  have "nLastApplied n = firstIndex n"
    using assms by (auto simp: NewNode_def Let_def bindR_Ok_iff firstIndex_def split: option.splits if_splits)
  then show ?thesis using NewNode_effect(2) [OF assms] by (auto simp: in_order_def batch_ok_def pending_ok_def)
qed

section \<open>Every run\<close>

lemma node_step_delivery:
  assumes step: "node_step C members cfg s s'" and safe: "safe C members H s" and inv: "delivery_inv members s"
  shows "delivery_inv members s'"
proof -
  note V = delivery_still [OF inv] and O = delivery_invD(1) [OF inv]
  have ok: "log_ok n" if i: "i \<in> set members" "clPeer s i = Up n" for i n
    using node_view [OF safe i] view_log_ok(1) by metis
  from step show ?thesis
  proof cases
    case (Tick i n E)
    show ?thesis unfolding Tick(1)
    proof (rule delivery_settle [OF inv])
      fix x assume x: "electionLoop C E n = Ok x"
      obtain a n' where an: "x = (a, n')" by (cases x)
      show "delivery_inv members (elect i x s)"
        by (rule V [OF Tick(2,3) electionLoop_still [OF x [unfolded an]]]) (simp_all add: an elect_def split: option.splits)
    qed
  next
    case (VoteRequest i n args E)
    show ?thesis unfolding VoteRequest(1)
      by (rule delivery_settle [OF inv]) (auto dest!: HandleRequestVote_body(1) still_body intro!: V [OF VoteRequest(2,3)])
  next
    case (VoteReply i n p args reply votes waiting E)
    have "still n n'" if "handleVoteReply C E (rvTerm args) votes reply n = Ok (v, n')" for v n'
      using handleVoteReply_effect [OF that] still_body becomeLeader_still [OF ok [OF VoteReply(2,3)]] by blast
    then show ?thesis unfolding VoteReply(1)
      by (intro delivery_settle [OF inv]) (auto intro!: V [OF VoteReply(2,3)])
  next
    case (Proposal i n E command)
    have "still n n'" if r: "Propose C E command n = Ok (x, n')" for x n'
    proof -
      obtain index t b where "x = (index, t, b)" by (cases x) auto
      then show ?thesis using Propose_effect [of C E command n index t b n'] r ok [OF Proposal(2,3)]
        by (auto simp: still_def same_rest_def firstIndex_def log_ok_def)
    qed
    then show ?thesis unfolding Proposal(1)
      by (intro delivery_settle [OF inv]) (auto intro!: V [OF Proposal(2,3)])
  next
    case (Send i n p)
    have "delivery_inv members (sendAppend p a s)" for a
      by (rule V [OF Send(2,3), of n]) (use Send(3) in \<open>auto simp: sendAppend_def still_def split: sendAction.splits\<close>)
    then show ?thesis unfolding Send(1) by (intro delivery_settle [OF inv])
  next
    case (SendInstall i n p args)
    show ?thesis unfolding SendInstall(1)
      by (rule V [OF SendInstall(2,3), of n]) (use SendInstall(3) in \<open>auto simp: still_def\<close>)
  next
    case (AppendRequest i n args E)
    show ?thesis unfolding AppendRequest(1)
      by (rule delivery_settle [OF inv]) (auto intro!: V [OF AppendRequest(2,3) append_still [OF safe AppendRequest(2,3,4)]])
  next
    case (AppendReply i n p args reply E)
    have "still n n'" if "handleAppendReply C E p args reply n = Ok (b, n')" for b n'
      using handleAppendReply_effect [OF that ok [OF AppendReply(2,3)]] still_body still_rest by blast
    then show ?thesis unfolding AppendReply(1)
      by (intro delivery_settle [OF inv]) (auto intro!: V [OF AppendReply(2,3)])
  next
    case (InstallRequest i n args E)
    show ?thesis unfolding InstallRequest(1)
      by (rule delivery_settle [OF inv])
        (auto intro!: delivery_one [OF inv] install_order [OF safe InstallRequest(2,3,4) _ O [OF InstallRequest(2,3)]])
  next
    case (InstallReply i n p args reply E)
    have "still n n'" if "handleSnapshotReply C E p args reply n = Ok (b, n')" for b n'
      using handleSnapshotReply_effect [OF that] still_body still_rest by blast
    then show ?thesis unfolding InstallReply(1)
      by (intro delivery_settle [OF inv]) (auto intro!: V [OF InstallReply(2,3)])
  next
    case (Applier i n)
    show ?thesis unfolding Applier(1)
    proof (rule delivery_settle [OF inv])
      fix x assume x: "applier n = Ok x"
      obtain act n' where an: "x = (act, n')" by (cases x)
      have "in_order n [] (clApplied s i)" using O [OF Applier(2,3)] Applier(4) by simp
      note A = applier_order [OF safe Applier(2,3,4) x [unfolded an] this]
      show "delivery_inv members (outbox i x s)"
        by (rule delivery_one [OF inv, where i = i and P = "Up n'"])
          (use A Applier(4) in \<open>auto simp: an outbox_def split: applierAction.splits\<close>)
    qed
  next
    case (HandOver i n m ms)
    have "in_order n (m # ms) (clApplied s i)" using O [OF HandOver(2,3)] HandOver(4) by simp
    note A = hand_over_order [OF this]
    show ?thesis unfolding HandOver(1)
      by (rule delivery_one [OF inv, where i = i and P = "Up (case m of ApplyCommand c k t \<Rightarrow> applierSent k n | ApplySnapshot d k t \<Rightarrow> n)"])
        (use A in \<open>auto simp: handOver_def\<close>)
  next
    case (Stop i n)
    show ?thesis unfolding Stop(1) by (rule V [OF Stop(2,3), of "Node_Stop n"]) (simp_all add: still_def Node_Stop_def firstIndex_def)
  next
    case (Crash i n)
    show ?thesis unfolding Crash(1) by (rule delivery_down [OF inv])
  next
    case (Restart i d R E n)
    show ?thesis unfolding Restart(1)
      by (rule delivery_one [OF inv, where i = i and P = "Up n"])
        (use new_node_order [OF Restart(4)] delivery_invD(2,3) [OF inv Restart(2,3)] in auto)
  qed
qed

lemma raft_step_delivery:
  assumes step: "raft_step C members cfg s s'" and safe: "safe C members H s" and inv: "delivery_inv members s"
  shows "delivery_inv members s'"
  using step
proof cases
  case Node_Step
  then show ?thesis by (rule node_step_delivery [OF _ safe inv])
next
  case (Compact i n E index snap)
  show ?thesis unfolding Compact(1)
    by (rule delivery_settle [OF inv])
      (auto intro!: delivery_one [OF inv] compact_order [OF safe Compact(2,3) _ delivery_invD(1) [OF inv Compact(2,3)]])
qed

lemma raft_reach_delivery:
  assumes "raft_reach C members cfg s" and cc: "cluster_cfg members cfg" and rt: "ps_roundtrip C"
  shows "delivery_inv members s"
  using assms(1)
proof induction
  case Raft_Init
  show ?case by (simp add: delivery_inv_def raft_init_def)
next
  case (Raft_Step s s')
  then show ?case using raft_step_delivery raft_reach_safe [OF Raft_Step(1) cc rt] by blast
qed

end
