(* ===== verification/Raft_Properties.thy ===== *)
theory Raft_Properties
  imports Raft_Cluster Raft_Log Sample_Codec
begin

text \<open>
  What the Raft implementation promises: at most one leader per term under crashes, restarts and
  any behaviour of the network, votes that are on disk before they are sent, logs that take over
  the leader's entries, commits that need a majority, and compaction that keeps the log.
\<close>

section \<open>A concrete codec for the persistent state\<close>

definition enc_entry :: "raftEntry \<Rightarrow> byte list" where
  "enc_entry e = enc_int (eIndex e) @ enc_int (eTerm e) @
     (case eCommand e of None \<Rightarrow> enc_nat 0 | Some c \<Rightarrow> enc_nat 1 @ enc_bytes c)"

fun enc_log :: "raftEntry list \<Rightarrow> byte list" where
  "enc_log [] = []"
| "enc_log (e # es) = enc_entry e @ enc_log es"

definition dec_entry :: "byte list \<Rightarrow> (raftEntry \<times> byte list) option" where
  "dec_entry bs =
     Option.bind (dec_int bs) (\<lambda>(i, bs).
     Option.bind (dec_int bs) (\<lambda>(t, bs).
     Option.bind (dec_nat bs) (\<lambda>(f, bs).
       if f = 0 then Some (\<lparr>eIndex = i, eTerm = t, eCommand = None\<rparr>, bs)
       else Option.bind (dec_bytes bs) (\<lambda>(c, bs). Some (\<lparr>eIndex = i, eTerm = t, eCommand = Some c\<rparr>, bs)))))"

fun dec_log :: "nat \<Rightarrow> byte list \<Rightarrow> (raftEntry list \<times> byte list) option" where
  "dec_log 0 bs = Some ([], bs)"
| "dec_log (Suc k) bs =
     Option.bind (dec_entry bs) (\<lambda>(e, bs). Option.bind (dec_log k bs) (\<lambda>(es, bs). Some (e # es, bs)))"

definition sample_ps :: psCodec where
  "sample_ps =
     \<lparr>ps_encode = (\<lambda>ps. Some (enc_int (psTerm ps) @ enc_bytes (str_bytes (psVotedFor ps)) @
        enc_nat (length (psLog ps)) @ enc_log (psLog ps))),
      ps_decode = (\<lambda>bs.
        Option.bind (dec_int bs) (\<lambda>(t, bs).
        Option.bind (dec_bytes bs) (\<lambda>(v, bs).
        Option.bind (dec_nat bs) (\<lambda>(k, bs).
        Option.bind (dec_log k bs) (\<lambda>(l, bs). Some \<lparr>psTerm = t, psVotedFor = bytes_str v, psLog = l\<rparr>)))))\<rparr>"

lemma dec_enc_entry [simp]: "dec_entry (enc_entry e @ bs) = Some (e, bs)"
  by (cases e; cases "eCommand e") (simp_all add: dec_entry_def enc_entry_def)

lemma dec_enc_log [simp]: "dec_log (length l) (enc_log l @ bs) = Some (l, bs)"
  by (induction l) simp_all

lemma ps_roundtrip_sample: "ps_roundtrip sample_ps"
  using dec_enc_log [of _ "[]"] by (auto simp: ps_roundtrip_def sample_ps_def)

section \<open>A concrete cluster\<close>

fun okR :: "'a res \<Rightarrow> 'a option" where
  "okR (Ok x) = Some x"
| "okR (Panic d) = None"

definition ex_renv :: "time \<Rightarrow> renv" where
  "ex_renv now = \<lparr>reNow = now, reRand = 0, reWrite1 = WDone, reWrite2 = WDone, reWrite3 = WDone\<rparr>"

definition ex_renv_read :: readEnv where
  "ex_renv_read = \<lparr>rdMkdir = True, rdState = True, rdSnap = True\<rparr>"

definition ex_rcfg :: "string \<Rightarrow> raftConfig" where
  "ex_rcfg i = \<lparr>cID = i, cPeers = (if i = ''a'' then [''b''] else [''a'']), cDataDir = ''d'',
     cElectionTimeoutMin = 1, cElectionTimeoutMax = 2, cHeartbeatInterval = 1\<rparr>"

definition ex_node :: "string \<Rightarrow> Node" where
  "ex_node i = the (okR (the (NewNode sample_ps ex_renv_read (ex_renv 0) (ex_rcfg i) emptyDisk)))"

definition ex_election :: "RequestVoteArgs option \<times> Node" where
  "ex_election = the (okR (electionLoop sample_ps (ex_renv 5) (ex_node ''a'')))"

definition ex_request :: RequestVoteArgs where
  "ex_request = the (fst ex_election)"

definition ex_vote :: "RequestVoteReply \<times> Node" where
  "ex_vote = the (okR (HandleRequestVote sample_ps (ex_renv 6) ex_request (ex_node ''b'')))"

definition ex_win :: "int \<times> Node" where
  "ex_win = the (okR (handleVoteReply sample_ps (ex_renv 7) (rvTerm ex_request) 1 (fst ex_vote) (snd ex_election)))"

lemma ex_runs:
  "NewNode sample_ps ex_renv_read (ex_renv 0) (ex_rcfg ''a'') emptyDisk = Some (Ok (ex_node ''a''))"
  "NewNode sample_ps ex_renv_read (ex_renv 0) (ex_rcfg ''b'') emptyDisk = Some (Ok (ex_node ''b''))"
  "electionLoop sample_ps (ex_renv 5) (ex_node ''a'') = Ok (Some ex_request, snd ex_election)"
  "HandleRequestVote sample_ps (ex_renv 6) ex_request (ex_node ''b'') = Ok ex_vote"
  "handleVoteReply sample_ps (ex_renv 7) (rvTerm ex_request) 1 (fst ex_vote) (snd ex_election) = Ok ex_win"
  by code_simp+


definition ex_members :: "string list" where
  "ex_members = [''a'', ''b'']"

definition ex_started :: cluster where
  "ex_started = setPeer ''b'' (Up (ex_node ''b'')) (setPeer ''a'' (Up (ex_node ''a'')) raft_init)"

definition ex_running :: cluster where
  "ex_running = elect ''a'' (Some ex_request, snd ex_election) ex_started"

definition ex_voted :: cluster where
  "ex_voted = (setPeer ''b'' (Up (snd ex_vote)) ex_running)\<lparr>clVoteReps := {(''b'', ex_request, fst ex_vote)}\<rparr>"

definition ex_led :: cluster where
  "ex_led = (setPeer ''a'' (Up (snd ex_win)) ex_voted)
     \<lparr>clBallot := (clBallot ex_voted)(''a'' := (clBallot ex_voted ''a'')(rvTerm ex_request \<mapsto> (fst ex_win, {''b''} - {''b''})))\<rparr>"

lemma ex_cluster_cfg: "cluster_cfg ex_members ex_rcfg"
  by (auto simp: cluster_cfg_def ex_members_def ex_rcfg_def)

lemma ex_facts:
  "cPeers (nCfg (snd ex_election)) = [''b'']" "rvCandidateID ex_request = ''a''"
  "nState (snd ex_win) = Leader" "nTerm (snd ex_win) = 1"
  by code_simp+

lemma ex_start_steps:
  "node_step sample_ps ex_members ex_rcfg raft_init (setPeer ''a'' (Up (ex_node ''a'')) raft_init)"
  "node_step sample_ps ex_members ex_rcfg (setPeer ''a'' (Up (ex_node ''a'')) raft_init) ex_started"
  "node_step sample_ps ex_members ex_rcfg ex_started ex_running"
  "node_step sample_ps ex_members ex_rcfg ex_running ex_voted"
  "node_step sample_ps ex_members ex_rcfg ex_voted ex_led"
proof -
  have a: "''a'' \<in> set ex_members" "''b'' \<in> set ex_members" by (simp_all add: ex_members_def)
  show "node_step sample_ps ex_members ex_rcfg raft_init (setPeer ''a'' (Up (ex_node ''a'')) raft_init)"
    by (rule Restart [where d = emptyDisk and cfg = ex_rcfg and i = "''a''", OF _ _ ex_runs(1)]) (simp_all add: a raft_init_def)
  show "node_step sample_ps ex_members ex_rcfg (setPeer ''a'' (Up (ex_node ''a'')) raft_init) ex_started"
    unfolding ex_started_def by (rule Restart [where d = emptyDisk and cfg = ex_rcfg and i = "''b''", OF _ _ ex_runs(2)]) (simp_all add: a raft_init_def)
  have p0: "clPeer ex_started ''a'' = Up (ex_node ''a'')" by (simp add: ex_started_def)
  show "node_step sample_ps ex_members ex_rcfg ex_started ex_running"
    using Tick [OF a(1) p0, of sample_ps ex_rcfg "ex_renv 5"] ex_runs(3) by (simp add: settle_def ex_running_def)
  have p1: "clPeer ex_running ''b'' = Up (ex_node ''b'')" "clPeer ex_running ''a'' = Up (snd ex_election)"
    "(''b'', ex_request) \<in> clVoteReqs ex_running" "clVoteReps ex_running = {}"
    "clBallot ex_running ''a'' (rvTerm ex_request) = Some (1, {''b''})"
    by (simp_all add: ex_running_def elect_def ex_started_def ex_facts raft_init_def)
  show "node_step sample_ps ex_members ex_rcfg ex_running ex_voted"
    using VoteRequest [OF a(2) p1(1,3), of sample_ps ex_rcfg "ex_renv 6"] ex_runs(4) p1(4)
    by (simp add: settle_def ex_voted_def split_beta)
  have p2: "clPeer ex_voted ''a'' = Up (snd ex_election)" "(''b'', ex_request, fst ex_vote) \<in> clVoteReps ex_voted"
    "clBallot ex_voted ''a'' (rvTerm ex_request) = Some (1, {''b''})"
    using p1 by (simp_all add: ex_voted_def)
  show "node_step sample_ps ex_members ex_rcfg ex_voted ex_led"
    using VoteReply [OF a(1) p2(1,2) ex_facts(2) p2(3), of sample_ps ex_rcfg "ex_renv 7"] ex_runs(5)
    by (simp add: settle_def ex_led_def split_beta)
qed

lemma ex_reach: "raft_reach sample_ps ex_members ex_rcfg ex_led"
  by (rule Raft_Init [THEN raft_reach_node, OF ex_start_steps(1), THEN raft_reach_node, OF ex_start_steps(2),
    THEN raft_reach_node, OF ex_start_steps(3), THEN raft_reach_node, OF ex_start_steps(4),
    THEN raft_reach_node, OF ex_start_steps(5)])

section \<open>Elections\<close>

text \<open>
  C5: Election safety. In every reachable state of a cluster, with messages lost, delayed, repeated
  and reordered, with nodes that crash at any point (between two writes of a handler included)
  and restart from their disks, two leaders of the same term are the same node, and a leader
  has the votes of a majority of the members in its term.
\<close>

theorem election_safety:
  assumes "ps_roundtrip C" and "cluster_cfg members cfg" and "raft_reach C members cfg s"
    and "i \<in> set members" and "clPeer s i = Up n" and "nState n = Leader"
    and "j \<in> set members" and "clPeer s j = Up m" and "nState m = Leader" and "nTerm n = nTerm m"
  shows "i = j \<and> elected members s i (nTerm n)"
proof -
  have inv: "election_inv C members cfg s" by (rule raft_reach_election [OF assms(3,2,1)])
  then have "elected members s i (nTerm n)" "elected members s j (nTerm n)"
    using assms(4-10) by (auto simp: election_inv_def leaders_ok_def)
  moreover from this have "i = j" using elected_unique [OF inv] assms(2) by (simp add: cluster_cfg_def)
  ultimately show ?thesis by simp
qed

theorem election_safety_witness: "elected ex_members ex_led ''a'' 1"
proof -
  have a: "''a'' \<in> set ex_members" "clPeer ex_led ''a'' = Up (snd ex_win)" by (simp_all add: ex_members_def ex_led_def)
  show ?thesis
    using election_safety [OF ps_roundtrip_sample ex_cluster_cfg ex_reach a ex_facts(3) a ex_facts(3) refl] ex_facts(4) by simp
qed

text \<open>
  C17: A vote is on disk before it is sent. When a node grants its vote, the disk already holds that
  term and that candidate, the candidate's log is at least as up to date as the node's, and a
  restart from that disk comes back with the vote, so the node cannot vote twice in a term.
\<close>

theorem vote_durable_before_reply:
  assumes "durable C n" and "HandleRequestVote C E args n = Ok (reply, n')" and "rvrVoteGranted reply"
  shows "(\<exists>p. loaded C (nDisk n') = Some p \<and> psTerm p = rvTerm args \<and> psVotedFor p = rvCandidateID args) \<and>
    (rvLastLogTerm args > lastTerm n \<or> rvLastLogTerm args = lastTerm n \<and> rvLastLogIndex args \<ge> lastIndex n) \<and>
    (\<forall>R E' cfg n''. cDataDir cfg \<noteq> [] \<longrightarrow> NewNode C R E' cfg (nDisk n') = Some (Ok n'') \<longrightarrow>
       nTerm n'' = rvTerm args \<and> nVotedFor n'' = rvCandidateID args)"
proof -
  have "saved C n'" using HandleRequestVote_calm [OF assms(1), of E args] assms(2) by (simp add: calm_def)
  then have l: "loaded C (nDisk n') = Some (persistentOf n')" by (simp add: saved_def)
  note G = HandleRequestVote_Ok(4) [OF assms(2,3)]
  have "nTerm n'' = rvTerm args \<and> nVotedFor n'' = rvCandidateID args"
    if "cDataDir cfg \<noteq> []" "NewNode C R E' cfg (nDisk n') = Some (Ok n'')" for R E' cfg n''
    using NewNode_Ok(1) [OF that(2,1)] l G by (simp add: persistentOf_def)
  with G l show ?thesis by (simp add: persistentOf_def)
qed

lemma ex_durable: "durable sample_ps (ex_node ''b'')"
  using NewNode_Ok(2,3) [OF ex_runs(2)] ps_roundtrip_sample by (simp add: durable_def ex_rcfg_def)

theorem vote_durable_before_reply_witness:
  "\<exists>p. loaded sample_ps (nDisk (snd ex_vote)) = Some p \<and> psTerm p = 1 \<and> psVotedFor p = ''a''"
proof -
  have v: "HandleRequestVote sample_ps (ex_renv 6) ex_request (ex_node ''b'') = Ok (fst ex_vote, snd ex_vote)"
    using ex_runs(4) by simp
  have g: "rvrVoteGranted (fst ex_vote)" "rvTerm ex_request = 1" by code_simp+
  show ?thesis using vote_durable_before_reply [OF ex_durable v g(1)] g(2) ex_facts(2) by simp
qed


section \<open>Logs\<close>


definition ex_entry :: "int \<Rightarrow> int \<Rightarrow> raftEntry" where
  "ex_entry i t = \<lparr>eIndex = i, eTerm = t, eCommand = Some [1]\<rparr>"

definition ex_log_node :: Node where
  "ex_log_node = (ex_node ''b'')\<lparr>nTerm := 2, nLog := [sentinel 0 0, ex_entry 1 1, ex_entry 2 1], nLastApplied := 1, nCommitIndex := 1\<rparr>"


lemma ex_log_ok: "log_ok ex_log_node"
  unfolding log_ok_Cons ex_log_node_def by (simp add: contiguous_Cons sentinel_def ex_entry_def)



text \<open>
  The leader's commit rule. The commit index moves to the highest index above it that is in the
  log above the snapshot boundary, has only entries of the leader's own term from there on, and
  is matched by a majority; if there is none it stays, and nothing else of the node changes.
\<close>

theorem commit_needs_majority:
  assumes "log_ok n"
  shows "\<exists>c. advanceCommitLocked n = Ok (n\<lparr>nCommitIndex := c\<rparr>) \<and> (commitable n (lastIndex n) c \<or> c = nCommitIndex n) \<and>
    (\<forall>i. commitable n (lastIndex n) i \<longrightarrow> i \<le> c)"
  using advanceCommit_best [OF assms] by (simp add: best_commit_def)

definition ex_leader_node :: Node where
  "ex_leader_node = ex_log_node\<lparr>nTerm := 1, nState := Leader, nMatchIndex := [(''a'', 2), (''b'', 2)]\<rparr>"

theorem commit_needs_majority_witness:
  "\<exists>c. advanceCommitLocked ex_leader_node = Ok (ex_leader_node\<lparr>nCommitIndex := c\<rparr>) \<and> 2 \<le> c"
proof -
  have ok: "log_ok ex_leader_node" using ex_log_ok log_ok_cong [of ex_leader_node ex_log_node] by (simp add: ex_leader_node_def)
  have v: "lastIndex ex_leader_node = 2" "termAt ex_leader_node 2 = Ok 1" "nTerm ex_leader_node = 1"
    "nCommitIndex ex_leader_node < 2 \<and> firstIndex ex_leader_node < 2 \<and> majority ex_leader_node \<le> matchCount 2 ex_leader_node"
    by code_simp+
  then have "commitable ex_leader_node (lastIndex ex_leader_node) 2"
    by (auto simp: commitable_def)
  with commit_needs_majority [OF ok] show ?thesis by blast
qed

text \<open>
  C20: Compaction keeps the log. After a snapshot at an applied index the log starts there, ends where
  it did, has the same terms from the boundary on and the same entries above it; memory, the
  state file and the snapshot file agree, so a restart brings back this log and delivers
  this snapshot first.
\<close>

theorem compaction_keeps_log:
  assumes "durable C n" and "log_ok n" and "firstIndex n < i" and "i \<le> nLastApplied n" and "i \<le> lastIndex n"
    and "Node_Snapshot C E i snap n = Ok n'" and "snap \<noteq> []" and "nCfg n = applyDefaults cfg"
  shows "log_ok n' \<and> firstIndex n' = i \<and> lastIndex n' = lastIndex n \<and> lastTerm n' = lastTerm n \<and>
    (\<forall>j. i \<le> j \<and> j \<le> lastIndex n \<longrightarrow> termAt n' j = termAt n j) \<and>
    (\<forall>j. i < j \<and> j \<le> lastIndex n \<longrightarrow> entryAt n' j = entryAt n j) \<and>
    (\<forall>R E' n''. NewNode C R E' cfg (nDisk n') = Some (Ok n'') \<longrightarrow>
       nLog n'' = nLog n' \<and> nTerm n'' = nTerm n' \<and> nPending n'' = Some (ApplySnapshot snap i (eTerm (hd (nLog n')))))"
proof -
  note run = Node_Snapshot_run [OF assms(2-5), of C E snap]
  note P = persistWithSnapshot_Ok [OF assms(6) [unfolded run]]
  have log: "nLog n' = sentinel i (eTerm (nLog n ! nat (i - firstIndex n))) # drop (Suc (nat (i - firstIndex n))) (nLog n)"
    by (subst P(1)) simp
  note K = compact_log [OF assms(2,3,5) log]
  have dir: "cDataDir cfg \<noteq> []" using assms(1,8) by (simp add: durable_def)
  have sn: "dSnap (nDisk n') = Some snap" using P(2) assms(1) by (simp add: durable_def)
  have l: "loaded C (nDisk n') = Some (persistentOf n')"
    using Node_Snapshot_calm [OF assms(1), of E i snap] assms(6) by (simp add: calm_def saved_def)
  have "nLog n'' = nLog n' \<and> nTerm n'' = nTerm n' \<and> nPending n'' = Some (ApplySnapshot snap i (eTerm (hd (nLog n'))))"
    if N: "NewNode C R E' cfg (nDisk n') = Some (Ok n'')" for R E' n''
  proof -
    have same: "nLog n'' = nLog n'" "nTerm n'' = nTerm n'"
      using NewNode_Ok(1) [OF N dir] l by (simp_all add: persistentOf_def)
    obtain bs where "dState (nDisk n') = Some bs"
      using persistWithSnapshot_file [OF assms(6) [unfolded run]] assms(1) by (auto simp: durable_def)
    then have "nPending n'' = Some (ApplySnapshot snap (eIndex (hd (nLog n''))) (eTerm (hd (nLog n''))))"
      using N dir sn assms(7)
      by (auto simp: NewNode_def readPersist_def Let_def bindR_Ok_iff firstIndex_def split: option.splits if_splits)
    with same K(2) show ?thesis by (simp add: firstIndex_def)
  qed
  with K show ?thesis by blast
qed


definition ex_saved :: Node where
  "ex_saved = the (okR (persistLocked sample_ps WDone ex_log_node))"

lemma ex_saved_ok: "durable sample_ps ex_saved" "log_ok ex_saved" "nCfg ex_saved = applyDefaults (ex_rcfg ''b'')"
  "firstIndex ex_saved = 0" "nLastApplied ex_saved = 1" "lastIndex ex_saved = 2"
proof -
  have p: "persistLocked sample_ps WDone ex_log_node = Ok ex_saved" by code_simp
  have "loaded sample_ps (nDisk ex_saved) = Some (persistentOf ex_saved)" "cDataDir (nCfg ex_saved) \<noteq> []" by code_simp+
  then show "durable sample_ps ex_saved" using ps_roundtrip_sample by (simp add: durable_def saved_def)
  have "nLog ex_saved = nLog ex_log_node" using persistLocked_sel [OF p] by simp
  from log_ok_cong [OF this] show "log_ok ex_saved" using ex_log_ok by simp
  show "nCfg ex_saved = applyDefaults (ex_rcfg ''b'')" "firstIndex ex_saved = 0" "nLastApplied ex_saved = 1" "lastIndex ex_saved = 2"
    by code_simp+
qed

theorem compaction_keeps_log_witness:
  "\<exists>n'. Node_Snapshot sample_ps (ex_renv 9) 1 [7] ex_saved = Ok n' \<and> firstIndex n' = 1 \<and> lastIndex n' = 2"
proof -
  have "okR (Node_Snapshot sample_ps (ex_renv 9) 1 [7] ex_saved) \<noteq> None" by code_simp
  then obtain n' where n': "Node_Snapshot sample_ps (ex_renv 9) 1 [7] ex_saved = Ok n'"
    by (cases "Node_Snapshot sample_ps (ex_renv 9) 1 [7] ex_saved") auto
  have "firstIndex n' = 1 \<and> lastIndex n' = 2"
    using compaction_keeps_log [OF ex_saved_ok(1,2) _ _ _ n' _ ex_saved_ok(3)] ex_saved_ok(4-6) by simp
  with n' show ?thesis by blast
qed

text \<open>
  C37: A crash between the two writes of a compaction leaves the new snapshot beside the old state
  file. The restarted node hands the new snapshot to the state machine as the snapshot of the
  old boundary and then delivers the entries behind that boundary, which the snapshot already
  contains, a second time.
\<close>

theorem snapshot_crash_mislabels:
  assumes "durable C n" and "log_ok n" and "firstIndex n < i" and "i \<le> nLastApplied n" and "i \<le> lastIndex n"
    and "nCfg n = applyDefaults cfg" and "snap \<noteq> []" and "dState (nDisk n) = Some bs"
    and "reWrite1 E = WDone" and "reWrite2 E = WSync"
  shows "\<exists>d n'. Node_Snapshot C E i snap n = Panic d \<and>
    NewNode C \<lparr>rdMkdir = True, rdState = True, rdSnap = True\<rparr> E' cfg d = Some (Ok n') \<and>
    nPending n' = Some (ApplySnapshot snap (firstIndex n) (eTerm (hd (nLog n)))) \<and>
    nLastApplied n' = firstIndex n \<and> nLog n' = nLog n"
proof -
  have dir: "cDataDir (nCfg n) \<noteq> []" "ps_decode C bs = Some (persistentOf n)"
    using assms(1,8) by (simp_all add: durable_def saved_def loaded_def)
  have cdir: "cDataDir cfg \<noteq> []" using dir(1) assms(6) by simp
  have ne: "nLog n \<noteq> []" using assms(2) by (simp add: log_ok_def)
  let ?l = "sentinel i (eTerm (nLog n ! nat (i - firstIndex n))) # drop (Suc (nat (i - firstIndex n))) (nLog n)"
  let ?d = "(nDisk n)\<lparr>dSnap := Some snap\<rparr>"
  have "persistLocked C WSync (n\<lparr>nLog := ?l, nSnapshot := Some snap, nDisk := ?d\<rparr>) = Panic ?d"
    using dir(1) by (simp add: persistLocked_def atomicWrite_def split: option.splits)
  then have P: "Node_Snapshot C E i snap n = Panic ?d"
    using Node_Snapshot_run [OF assms(2-5), of C E snap] assms(9,10) dir(1)
    by (simp add: persistWithSnapshotLocked_def atomicWrite_def)
  obtain n' where "NewNode C \<lparr>rdMkdir = True, rdState = True, rdSnap = True\<rparr> E' cfg ?d = Some (Ok n')"
    "nPending n' = Some (ApplySnapshot snap (firstIndex n) (eTerm (hd (nLog n))))"
    "nLastApplied n' = firstIndex n" "nLog n' = nLog n"
    using dir(2) cdir ne assms(7,8)
    by (simp add: NewNode_def readPersist_def Let_def persistentOf_def firstIndex_def resetElectionTimerLocked_def)
  with P show ?thesis by blast
qed

theorem snapshot_crash_mislabels_witness:
  "\<exists>d n'. Node_Snapshot sample_ps ((ex_renv 9)\<lparr>reWrite2 := WSync\<rparr>) 1 [7] ex_saved = Panic d \<and>
    NewNode sample_ps \<lparr>rdMkdir = True, rdState = True, rdSnap = True\<rparr> (ex_renv 10) (ex_rcfg ''b'') d = Some (Ok n') \<and>
    nPending n' = Some (ApplySnapshot [7] 0 0) \<and> nLastApplied n' = 0 \<and> nLog n' = nLog ex_saved"
proof -
  let ?E = "(ex_renv 9)\<lparr>reWrite2 := WSync\<rparr>"
  have f: "dState (nDisk ex_saved) \<noteq> None" "eTerm (hd (nLog ex_saved)) = 0" by code_simp+
  then obtain bs where bs: "dState (nDisk ex_saved) = Some bs" by blast
  have E: "reWrite1 ?E = WDone" "reWrite2 ?E = WSync" by (simp_all add: ex_renv_def)
  have i: "firstIndex ex_saved < 1" "1 \<le> nLastApplied ex_saved" "1 \<le> lastIndex ex_saved" using ex_saved_ok by simp_all
  have "[7] \<noteq> ([] :: byte list)" by simp
  from snapshot_crash_mislabels [OF ex_saved_ok(1,2) i ex_saved_ok(3) this bs E, of "ex_renv 10"]
  show ?thesis unfolding ex_saved_ok(4) f(2) .
qed





end
