(* ===== verification/Replica_View.thy ===== *)
theory Replica_View
  imports State_Machine
begin

text \<open>
  What the replicas agree on. The view of a state machine forgets pointers, the heap and the
  leader-local overlay (status and deadline). Applying an operation to the state machine is
  applying a pure function to its view, local operations leave the view alone, and a snapshot
  carries it over, so replicas that applied the same log have the same view.
\<close>

section \<open>Invariant\<close>

text \<open>
  Live and dead pointers are allocated; a live pointer has the ID under which it is filed; no
  dead pointer is live; the heap holds at most one pointer per ID, and \<^verbatim>\<open>inHeap\<close> says which.
\<close>

definition heap_ids :: "StateMachine \<Rightarrow> string list" where
  "heap_ids sm = map (\<lambda>a. ID (deref sm a)) (smPq sm)"

definition live_ok :: "StateMachine \<Rightarrow> bool" where
  "live_ok sm \<longleftrightarrow>
     go_map (smTasks sm) \<and>
     (\<forall>e \<in> set (smTasks sm). snd e < length (smMem sm) \<and> ID (deref sm (snd e)) = fst e \<and>
        Status (deref sm (snd e)) \<in> {Pending, InFlight})"

definition dlq_ok :: "StateMachine \<Rightarrow> bool" where
  "dlq_ok sm \<longleftrightarrow> (\<forall>a \<in> set (smDlq sm). a < length (smMem sm) \<and> a \<notin> snd ` set (smTasks sm))"

definition heap_ok :: "StateMachine \<Rightarrow> bool" where
  "heap_ok sm \<longleftrightarrow>
     (\<forall>a \<in> set (smPq sm). a < length (smMem sm)) \<and> distinct (heap_ids sm) \<and>
     is_heap (ptr_lt (smMem sm)) (smPq sm) (length (smPq sm)) \<and>
     (\<forall>tid. (map_of (smInHeap sm) tid = Some True) = (tid \<in> set (heap_ids sm)))"

definition sm_invar :: "StateMachine \<Rightarrow> bool" where
  "sm_invar sm \<longleftrightarrow> live_ok sm \<and> dlq_ok sm \<and> heap_ok sm"

lemmas sm_defs = sm_invar_def live_ok_def dlq_ok_def

section \<open>View\<close>

record smView =
  vTasks :: "string \<rightharpoonup> Task"
  vDlq :: "Task list"
  vAcked :: int
  vNacked :: int

definition sm_view :: "StateMachine \<Rightarrow> smView" where
  "sm_view sm =
     \<lparr>vTasks = (\<lambda>tid. map_option (\<lambda>a. task_core (deref sm a)) (map_of (smTasks sm) tid)),
      vDlq = map (\<lambda>a. task_core (deref sm a)) (smDlq sm), vAcked = smAcked sm, vNacked = smNacked sm\<rparr>"

text \<open>The specification: an operation on the replicated state.\<close>

definition applyView :: "int \<Rightarrow> QueueOp \<Rightarrow> smView \<Rightarrow> smView" where
  "applyView maxRetries op v =
     (if qType op = OpEnqueue then
        (case qTask op of
           None \<Rightarrow> v
         | Some t \<Rightarrow>
             if ID t = '''' \<or> vTasks v (ID t) \<noteq> None then v
             else v\<lparr>vTasks := (vTasks v)(ID t \<mapsto> task_core t)\<rparr>)
      else if qType op = OpAck then
        (case vTasks v (qTaskID op) of
           None \<Rightarrow> v
         | Some t \<Rightarrow> v\<lparr>vTasks := (vTasks v)(qTaskID op := None), vAcked := vAcked v + 1\<rparr>)
      else if qType op = OpNack then
        (case vTasks v (qTaskID op) of
           None \<Rightarrow> v
         | Some t \<Rightarrow>
             let t' = t\<lparr>RetryCount := RetryCount t + 1\<rparr> in
             if RetryCount t' \<ge> maxRetries
             then v\<lparr>vTasks := (vTasks v)(qTaskID op := None), vDlq := vDlq v @ [t'], vNacked := vNacked v + 1\<rparr>
             else v\<lparr>vTasks := (vTasks v)(qTaskID op \<mapsto> t'), vNacked := vNacked v + 1\<rparr>)
      else v)"

section \<open>Pointers\<close>

lemma deref_alloc [simp]:
  "alloc t sm = (a, sm') \<Longrightarrow> deref sm' b = (if b = a then t else if b < a then deref sm b else deref sm' b)"
  by (auto simp: alloc_def deref_def nth_append)

lemma deref_assign:
  "a < length (smMem sm) \<Longrightarrow> deref (assign a f sm) b = (if b = a then f (deref sm a) else deref sm b)"
  by (simp add: assign_def deref_def nth_list_update)

lemma assign_sel [simp]:
  "smTasks (assign a f sm) = smTasks sm" "smPq (assign a f sm) = smPq sm"
  "smInHeap (assign a f sm) = smInHeap sm" "smDlq (assign a f sm) = smDlq sm"
  "smAcked (assign a f sm) = smAcked sm" "smNacked (assign a f sm) = smNacked sm"
  "smMaxRetries (assign a f sm) = smMaxRetries sm" "length (smMem (assign a f sm)) = length (smMem sm)"
  by (simp_all add: assign_def)

lemma pushLocked_sel [simp]:
  "smTasks (pushLocked a sm) = smTasks sm" "smDlq (pushLocked a sm) = smDlq sm"
  "smAcked (pushLocked a sm) = smAcked sm" "smNacked (pushLocked a sm) = smNacked sm"
  "smMaxRetries (pushLocked a sm) = smMaxRetries sm" "smMem (pushLocked a sm) = smMem sm"
  "deref (pushLocked a sm) = deref sm"
  by (simp_all add: pushLocked_def Let_def deref_def fun_eq_iff)

lemma deref_upd [simp]:
  "deref (sm\<lparr>smTasks := x\<rparr>) = deref sm" "deref (sm\<lparr>smPq := h\<rparr>) = deref sm"
  "deref (sm\<lparr>smInHeap := y\<rparr>) = deref sm" "deref (sm\<lparr>smDlq := d\<rparr>) = deref sm"
  "deref (sm\<lparr>smAcked := n\<rparr>) = deref sm" "deref (sm\<lparr>smNacked := n\<rparr>) = deref sm"
  by (simp_all add: deref_def fun_eq_iff)

text \<open>The view depends on the live and dead pointers only.\<close>

lemma sm_view_cong:
  assumes "smTasks sm' = smTasks sm" "smDlq sm' = smDlq sm" "smAcked sm' = smAcked sm" "smNacked sm' = smNacked sm"
    and "\<And>a. a \<in> snd ` set (smTasks sm) \<union> set (smDlq sm) \<Longrightarrow> task_core (deref sm' a) = task_core (deref sm a)"
  shows "sm_view sm' = sm_view sm"
proof -
  have "map_option (\<lambda>a. task_core (deref sm' a)) (map_of (smTasks sm) tid) =
      map_option (\<lambda>a. task_core (deref sm a)) (map_of (smTasks sm) tid)" for tid
  proof (cases "map_of (smTasks sm) tid")
    case (Some a)
    then have "a \<in> snd ` set (smTasks sm)" by (force dest: map_of_SomeD)
    with Some assms(5) show ?thesis by simp
  qed simp
  moreover have "map (\<lambda>a. task_core (deref sm' a)) (smDlq sm) = map (\<lambda>a. task_core (deref sm a)) (smDlq sm)"
    using assms(5) by simp
  ultimately show ?thesis using assms(1-4) by (simp add: sm_view_def)
qed

lemma pushLocked_view [simp]: "sm_view (pushLocked a sm) = sm_view sm"
  by (simp add: sm_view_def)

lemma live_lookup:
  assumes "live_ok sm" and "map_of (smTasks sm) tid = Some a"
  shows "a < length (smMem sm)" "ID (deref sm a) = tid" "Status (deref sm a) \<in> {Pending, InFlight}"
    "a \<in> snd ` set (smTasks sm)"
  using assms map_of_SomeD [OF assms(2)] by (auto simp: live_ok_def intro: rev_image_eqI)

lemma live_inj:
  assumes "live_ok sm" and "map_of (smTasks sm) t1 = Some a" and "map_of (smTasks sm) t2 = Some a"
  shows "t1 = t2"
  using live_lookup(2) [OF assms(1,2)] live_lookup(2) [OF assms(1,3)] by simp

text \<open>A write through a live pointer changes one entry of the view's task map.\<close>

lemma view_assign:
  assumes "live_ok sm" "dlq_ok sm" and "map_of (smTasks sm) tid = Some a"
  shows "sm_view (assign a f sm) =
    (sm_view sm)\<lparr>vTasks := (vTasks (sm_view sm))(tid \<mapsto> task_core (f (deref sm a)))\<rparr>"
proof -
  note L = live_lookup [OF assms(1,3)]
  have "a \<notin> set (smDlq sm)" using assms(2) L(4) by (auto simp: dlq_ok_def)
  then have "map (\<lambda>b. task_core (deref (assign a f sm) b)) (smDlq sm) = map (\<lambda>b. task_core (deref sm b)) (smDlq sm)"
    using L(1) by (auto simp: deref_assign)
  moreover have "map_option (\<lambda>b. task_core (deref (assign a f sm) b)) (map_of (smTasks sm) t') =
      ((\<lambda>t'. map_option (\<lambda>b. task_core (deref sm b)) (map_of (smTasks sm) t'))(tid \<mapsto> task_core (f (deref sm a)))) t'" for t'
    using L(1) assms(3) live_inj [OF assms(1,3), of t']
    by (cases "map_of (smTasks sm) t'") (auto simp: deref_assign)
  ultimately show ?thesis by (simp add: sm_view_def fun_eq_iff)
qed

lemma view_delete:
  "sm_view (sm\<lparr>smTasks := AList.delete tid (smTasks sm)\<rparr>) =
     (sm_view sm)\<lparr>vTasks := (vTasks (sm_view sm))(tid := None)\<rparr>"
  by (simp add: sm_view_def fun_eq_iff)

section \<open>Apply refines its specification\<close>

text \<open>What \<^const>\<open>Apply\<close> does, by cases.\<close>

definition enqueued :: "Task \<Rightarrow> StateMachine \<Rightarrow> StateMachine" where
  "enqueued t sm = sm\<lparr>smMem := smMem sm @ [t\<lparr>Status := Pending\<rparr>],
     smTasks := AList.update (ID t) (length (smMem sm)) (smTasks sm)\<rparr>"

definition retried :: "nat \<Rightarrow> StateMachine \<Rightarrow> StateMachine" where
  "retried a sm = assign a (\<lambda>t. t\<lparr>RetryCount := RetryCount t + 1\<rparr>) (sm\<lparr>smNacked := smNacked sm + 1\<rparr>)"

definition filed :: "TaskStatus \<Rightarrow> string \<Rightarrow> nat \<Rightarrow> StateMachine \<Rightarrow> StateMachine" where
  "filed st tid a sm = (assign a (\<lambda>t. t\<lparr>Status := st\<rparr>) sm)\<lparr>smTasks := AList.delete tid (smTasks sm)\<rparr>"

definition reset :: "nat \<Rightarrow> StateMachine \<Rightarrow> StateMachine" where
  "reset a sm = assign a (\<lambda>t. t\<lparr>Status := Pending, Deadline := 0\<rparr>) sm"

lemma Apply_cases:
  obtains (enq) t where "qType op = OpEnqueue" "qTask op = Some t" "ID t \<noteq> []" "map_of (smTasks sm) (ID t) = None"
      "Apply op sm = pushLocked (length (smMem sm)) (enqueued t sm)"
  | (ack) a where "qType op = OpAck" "map_of (smTasks sm) (qTaskID op) = Some a"
      "Apply op sm = (filed Done (qTaskID op) a sm)\<lparr>smAcked := smAcked sm + 1\<rparr>"
  | (dead) a where "qType op = OpNack" "map_of (smTasks sm) (qTaskID op) = Some a"
      "RetryCount (deref (retried a sm) a) \<ge> smMaxRetries sm"
      "Apply op sm = (filed Dead (qTaskID op) a (retried a sm))\<lparr>smDlq := smDlq sm @ [a]\<rparr>"
  | (retry) a where "qType op = OpNack" "map_of (smTasks sm) (qTaskID op) = Some a"
      "RetryCount (deref (retried a sm) a) < smMaxRetries sm"
      "Apply op sm = pushLocked a (reset a (retried a sm))"
  | (skip) "Apply op sm = sm"
      "\<And>n v. \<forall>tid. (vTasks v tid = None) = (map_of (smTasks sm) tid = None) \<Longrightarrow> applyView n op v = v"
proof -
  note D = Apply_def enqueued_def filed_def retried_def reset_def alloc_def
  consider (e) "qType op = OpEnqueue" | (a) "qType op = OpAck" | (n) "qType op = OpNack"
    | (o) "qType op \<noteq> OpEnqueue" "qType op \<noteq> OpAck" "qType op \<noteq> OpNack" by blast
  then show thesis
  proof cases
    case e
    show thesis
    proof (cases "\<exists>t. qTask op = Some t \<and> ID t \<noteq> [] \<and> map_of (smTasks sm) (ID t) = None")
      case True
      then obtain t where "qTask op = Some t" "ID t \<noteq> []" "map_of (smTasks sm) (ID t) = None" by blast
      with e enq [of t] show thesis by (simp add: D)
    next
      case False
      with e skip show thesis by (cases "qTask op") (auto simp: Apply_def applyView_def)
    qed
  next
    case a
    show thesis
    proof (cases "map_of (smTasks sm) (qTaskID op)")
      case None
      show thesis
      proof (rule skip)
        show "Apply op sm = sm" using a None by (simp add: Apply_def)
        fix m and v :: smView
        assume "\<forall>tid. (vTasks v tid = None) = (map_of (smTasks sm) tid = None)"
        then have "vTasks v (qTaskID op) = None" using None by simp
        with a show "applyView m op v = v" by (simp add: applyView_def)
      qed
    next
      case (Some b)
      with a ack [of b] show thesis by (simp add: D Let_def)
    qed
  next
    case n
    show thesis
    proof (cases "map_of (smTasks sm) (qTaskID op)")
      case None
      show thesis
      proof (rule skip)
        show "Apply op sm = sm" using n None by (simp add: Apply_def)
        fix m and v :: smView
        assume "\<forall>tid. (vTasks v tid = None) = (map_of (smTasks sm) tid = None)"
        then have "vTasks v (qTaskID op) = None" using None by simp
        with n show "applyView m op v = v" by (simp add: applyView_def)
      qed
    next
      case (Some b)
      show thesis
      proof (cases "RetryCount (deref (retried b sm) b) \<ge> smMaxRetries sm")
        case True
        with n Some dead [of b] show thesis by (simp add: D Let_def)
      next
        case False
        with n Some retry [of b] show thesis by (simp add: D Let_def)
      qed
    qed
  next
    case o
    show thesis by (rule skip) (simp_all add: o Apply_def applyView_def)
  qed
qed

lemma view_filed:
  assumes "live_ok sm" "dlq_ok sm" and "map_of (smTasks sm) tid = Some a"
  shows "sm_view (filed st tid a sm) = (sm_view sm)\<lparr>vTasks := (vTasks (sm_view sm))(tid := None)\<rparr>"
  using view_delete [of tid "assign a (\<lambda>t. t\<lparr>Status := st\<rparr>) sm"] view_assign [OF assms]
  by (simp add: filed_def)

lemma retried_ok:
  assumes "live_ok sm" "dlq_ok sm" and "map_of (smTasks sm) tid = Some a"
  shows "live_ok (retried a sm)" "dlq_ok (retried a sm)" "map_of (smTasks (retried a sm)) tid = Some a"
    "deref (retried a sm) a = (deref sm a)\<lparr>RetryCount := RetryCount (deref sm a) + 1\<rparr>"
    "sm_view (retried a sm) = (sm_view sm)\<lparr>vNacked := smNacked sm + 1,
       vTasks := (vTasks (sm_view sm))(tid \<mapsto> (task_core (deref sm a))\<lparr>RetryCount := RetryCount (deref sm a) + 1\<rparr>)\<rparr>"
proof -
  let ?sm = "sm\<lparr>smNacked := smNacked sm + 1\<rparr>"
  note L = live_lookup [OF assms(1,3)]
  have ok: "live_ok ?sm" "dlq_ok ?sm" using assms(1,2) by (simp_all add: live_ok_def dlq_ok_def)
  show "live_ok (retried a sm)" "dlq_ok (retried a sm)"
    using assms(1,2) L(1) by (auto simp: live_ok_def dlq_ok_def retried_def deref_assign)
  show "map_of (smTasks (retried a sm)) tid = Some a" using assms(3) by (simp add: retried_def)
  show "deref (retried a sm) a = (deref sm a)\<lparr>RetryCount := RetryCount (deref sm a) + 1\<rparr>"
    using L(1) by (simp add: retried_def deref_assign)
  have "sm_view ?sm = (sm_view sm)\<lparr>vNacked := smNacked sm + 1\<rparr>" by (simp add: sm_view_def)
  with view_assign [OF ok, of tid a] assms(3)
  show "sm_view (retried a sm) = (sm_view sm)\<lparr>vNacked := smNacked sm + 1,
       vTasks := (vTasks (sm_view sm))(tid \<mapsto> (task_core (deref sm a))\<lparr>RetryCount := RetryCount (deref sm a) + 1\<rparr>)\<rparr>"
    by (simp add: retried_def task_core_RetryCount)
qed

lemma enqueued_view:
  assumes "live_ok sm" "dlq_ok sm"
  shows "sm_view (enqueued t sm) = (sm_view sm)\<lparr>vTasks := (vTasks (sm_view sm))(ID t \<mapsto> task_core t)\<rparr>"
proof -
  let ?a = "length (smMem sm)" and ?sm = "enqueued t sm"
  have old: "deref ?sm b = deref sm b" if "b < ?a" for b using that by (simp add: enqueued_def deref_def nth_append)
  have new: "deref ?sm ?a = t\<lparr>Status := Pending\<rparr>" by (simp add: enqueued_def deref_def)
  have "map (\<lambda>b. task_core (deref ?sm b)) (smDlq sm) = map (\<lambda>b. task_core (deref sm b)) (smDlq sm)"
    using assms(2) old by (auto simp: dlq_ok_def)
  moreover have "map_option (\<lambda>b. task_core (deref ?sm b)) (map_of (smTasks sm) tid) =
      map_option (\<lambda>b. task_core (deref sm b)) (map_of (smTasks sm) tid)" for tid
    using live_lookup(1) [OF assms(1), of tid] old by (cases "map_of (smTasks sm) tid") auto
  moreover have "smTasks ?sm = AList.update (ID t) ?a (smTasks sm)" "smDlq ?sm = smDlq sm"
      "smAcked ?sm = smAcked sm" "smNacked ?sm = smNacked sm"
    by (simp_all add: enqueued_def)
  ultimately show ?thesis using new by (simp add: sm_view_def fun_eq_iff)
qed

lemma Apply_view:
  assumes inv: "live_ok sm" "dlq_ok sm"
  shows "sm_view (Apply op sm) = applyView (smMaxRetries sm) op (sm_view sm)"
proof -
  have look: "vTasks (sm_view sm) tid = map_option (\<lambda>a. task_core (deref sm a)) (map_of (smTasks sm) tid)" for tid
    by (simp add: sm_view_def)
  show ?thesis
  proof (cases rule: Apply_cases [of op sm])
    case (enq t)
    then show ?thesis using enqueued_view [OF inv, of t] look by (simp add: applyView_def)
  next
    case (ack a)
    have "sm_view (Apply op sm) = (sm_view (filed Done (qTaskID op) a sm))\<lparr>vAcked := smAcked sm + 1\<rparr>"
      unfolding ack(3) by (simp add: sm_view_def)
    with ack(1,2) look view_filed [OF inv ack(2)] show ?thesis
      by (simp add: applyView_def) (simp add: sm_view_def)
  next
    case (dead a)
    note R = retried_ok [OF inv dead(2)]
    let ?sm = "retried a sm"
    have "sm_view (Apply op sm) = (sm_view (filed Dead (qTaskID op) a ?sm))\<lparr>vDlq := vDlq (sm_view (filed Dead (qTaskID op) a ?sm)) @
        [task_core (deref (filed Dead (qTaskID op) a ?sm) a)]\<rparr>"
      unfolding dead(4) by (simp add: sm_view_def filed_def retried_def)
    moreover have "task_core (deref (filed Dead (qTaskID op) a ?sm) a) = task_core (deref ?sm a)"
      using live_lookup(1) [OF R(1,3)] by (simp add: filed_def deref_assign)
    ultimately show ?thesis
      using dead(1-3) look view_filed [OF R(1-3)] R(4,5)
      by (simp add: applyView_def task_core_RetryCount) (simp add: sm_view_def)
  next
    case (retry a)
    note R = retried_ok [OF inv retry(2)]
    have "sm_view (reset a (retried a sm)) = sm_view (retried a sm)"
      using view_assign [OF R(1-3), of "\<lambda>t. t\<lparr>Status := Pending, Deadline := 0\<rparr>"] R(4,5)
      by (simp add: reset_def task_core_RetryCount)
    then show ?thesis
      using retry R(4,5) look by (simp add: applyView_def) (simp add: sm_view_def)
  next
    case skip
    show ?thesis unfolding skip(1) by (rule skip(2) [symmetric]) (simp add: sm_view_def)
  qed
qed

end
