(* ===== verification/Replica_Invariants.thy ===== *)
theory Replica_Invariants
  imports Replica_View Broker_Invariants
begin

text \<open>
  The state machine's invariant is kept by replicated and by local operations, local operations
  do not change what the replicas agree on, and delivery finds every pending task as long as no
  ID is enqueued again while an old pointer with that ID sits in the heap (\<open>stale_free\<close>).
\<close>

section \<open>The heap\<close>

lemma heap_ok_cong:
  assumes "heap_ok sm" and "smPq sm' = smPq sm" and "smInHeap sm' = smInHeap sm"
    and "length (smMem sm) \<le> length (smMem sm')"
    and "\<And>a. a < length (smMem sm) \<Longrightarrow> ID (deref sm' a) = ID (deref sm a) \<and> task_key (deref sm' a) = task_key (deref sm a)"
  shows "heap_ok sm'"
proof -
  have ptr: "a < length (smMem sm)" if "a \<in> set (smPq sm)" for a using assms(1) that by (simp add: heap_ok_def)
  have "heap_ids sm' = heap_ids sm" using assms(2,5) ptr by (simp add: heap_ids_def)
  moreover have "is_heap (ptr_lt (smMem sm')) (smPq sm) (length (smPq sm)) =
      is_heap (ptr_lt (smMem sm)) (smPq sm) (length (smPq sm))"
    using assms(5) ptr by (intro is_heap_cong) (auto simp: ptr_lt_def task_lt_key deref_def)
  ultimately show ?thesis using assms(1-4) ptr unfolding heap_ok_def by (auto intro: less_le_trans)
qed

lemma pushLocked_heap_ok:
  assumes "heap_ok sm" and "a < length (smMem sm)"
  shows "heap_ok (pushLocked a sm)" and "ID (deref sm a) \<in> set (heap_ids (pushLocked a sm))"
    and "set (smPq (pushLocked a sm)) \<subseteq> insert a (set (smPq sm))" and "set (smPq sm) \<subseteq> set (smPq (pushLocked a sm))"
    and "ID (deref sm a) \<notin> set (heap_ids sm) \<Longrightarrow> a \<in> set (smPq (pushLocked a sm))"
proof -
  let ?id = "ID (deref sm a)" and ?h = "ptr_Push (smMem sm) (smPq sm) a"
  have hp: "is_heap (ptr_lt (smMem sm)) (smPq sm) (length (smPq sm))" using assms(1) by (simp add: heap_ok_def)
  have m: "mset ?h = add_mset a (mset (smPq sm))" by (simp add: ptr_Push_def)
  have s: "set ?h = insert a (set (smPq sm))" using m by (metis set_mset_add_mset_insert set_mset_mset)
  have "heap_ok (pushLocked a sm) \<and> ?id \<in> set (heap_ids (pushLocked a sm)) \<and>
      set (smPq (pushLocked a sm)) \<subseteq> insert a (set (smPq sm)) \<and> set (smPq sm) \<subseteq> set (smPq (pushLocked a sm)) \<and>
      (?id \<notin> set (heap_ids sm) \<longrightarrow> a \<in> set (smPq (pushLocked a sm)))"
  proof (cases "map_of (smInHeap sm) ?id = Some True")
    case True
    with assms show ?thesis by (auto simp: pushLocked_def heap_ok_def)
  next
    case False
    have ids: "mset (map (\<lambda>a. ID (deref sm a)) ?h) = add_mset ?id (mset (heap_ids sm))"
      using m by (simp add: heap_ids_def)
    have fresh: "?id \<notin> set (heap_ids sm)" using False assms(1) by (simp add: heap_ok_def)
    have "distinct (map (\<lambda>a. ID (deref sm a)) ?h)"
      using ids fresh assms(1) mset_eq_imp_distinct_iff [of _ "?id # heap_ids sm"] by (simp add: heap_ok_def)
    moreover have "set (map (\<lambda>a. ID (deref sm a)) ?h) = insert ?id (set (heap_ids sm))"
      using ids by (metis set_mset_add_mset_insert set_mset_mset)
    moreover have "is_heap (ptr_lt (smMem sm)) ?h (length ?h)"
      using ptr_order.heapq.invar_push [OF hp] by (simp add: ptr_Push_def)
    ultimately show ?thesis
      using False assms s by (auto simp: pushLocked_def heap_ok_def heap_ids_def Let_def)
  qed
  then show "heap_ok (pushLocked a sm)" "?id \<in> set (heap_ids (pushLocked a sm))"
    "set (smPq (pushLocked a sm)) \<subseteq> insert a (set (smPq sm))" "set (smPq sm) \<subseteq> set (smPq (pushLocked a sm))"
    "?id \<notin> set (heap_ids sm) \<Longrightarrow> a \<in> set (smPq (pushLocked a sm))" by auto
qed

text \<open>The state machine without the popped pointer.\<close>

definition popped :: "nat \<Rightarrow> nat list \<Rightarrow> StateMachine \<Rightarrow> StateMachine" where
  "popped a h sm = sm\<lparr>smPq := h, smInHeap := AList.delete (ID (deref sm a)) (smInHeap sm)\<rparr>"

lemma popped_sel [simp]:
  "smTasks (popped a h sm) = smTasks sm" "smDlq (popped a h sm) = smDlq sm" "smMem (popped a h sm) = smMem sm"
  "smAcked (popped a h sm) = smAcked sm" "smNacked (popped a h sm) = smNacked sm" "smPq (popped a h sm) = h"
  "smMaxRetries (popped a h sm) = smMaxRetries sm" "deref (popped a h sm) = deref sm"
  by (simp_all add: popped_def)

lemma pop_heap_ok:
  assumes "heap_ok sm" and p: "ptr_Pop (smMem sm) (smPq sm) = (Some a, h)"
  shows "heap_ok (popped a h sm)" "a < length (smMem sm)" "mset (smPq sm) = add_mset a (mset h)"
    "\<forall>b \<in> set (smPq sm). \<not> ptr_lt (smMem sm) b a"
proof -
  have hp: "is_heap (ptr_lt (smMem sm)) (smPq sm) (length (smPq sm))" using assms(1) by (simp add: heap_ok_def)
  note P = ptr_order.heapq.pop_SomeD [OF hp p [unfolded ptr_Pop_def]]
  show m: "mset (smPq sm) = add_mset a (mset h)" by (rule P(2))
  show "\<forall>b \<in> set (smPq sm). \<not> ptr_lt (smMem sm) b a" using P(3) by simp
  have s: "set (smPq sm) = insert a (set h)" using m by (metis set_mset_add_mset_insert set_mset_mset)
  then show "a < length (smMem sm)" using assms(1) by (simp add: heap_ok_def)
  have ids: "mset (heap_ids sm) = add_mset (ID (deref sm a)) (mset (map (\<lambda>a. ID (deref sm a)) h))"
    using m by (simp add: heap_ids_def)
  have d: "distinct (ID (deref sm a) # map (\<lambda>a. ID (deref sm a)) h)"
    using ids assms(1) mset_eq_imp_distinct_iff [of "heap_ids sm" "ID (deref sm a) # map (\<lambda>a. ID (deref sm a)) h"]
    by (simp add: heap_ok_def)
  have "set (heap_ids sm) = insert (ID (deref sm a)) (set (map (\<lambda>a. ID (deref sm a)) h))"
    using ids by (metis set_mset_add_mset_insert set_mset_mset)
  with assms(1) d P(1) s show "heap_ok (popped a h sm)"
    by (auto simp: heap_ok_def heap_ids_def popped_def)
qed

section \<open>Writes through live pointers\<close>

definition keeps_key :: "(Task \<Rightarrow> Task) \<Rightarrow> bool" where
  "keeps_key f \<longleftrightarrow> (\<forall>t. ID (f t) = ID t \<and> task_key (f t) = task_key t)"

lemma keeps_key_simps [simp]:
  "keeps_key (\<lambda>t. t\<lparr>Status := s\<rparr>)" "keeps_key (\<lambda>t. t\<lparr>RetryCount := RetryCount t + n\<rparr>)"
  "keeps_key (\<lambda>t. t\<lparr>Status := s, Deadline := d\<rparr>)"
  by (simp_all add: keeps_key_def task_key_def)

lemma assign_heap_ok:
  assumes "heap_ok sm" and "a < length (smMem sm)" and "keeps_key f"
  shows "heap_ok (assign a f sm)"
  using assms by (intro heap_ok_cong [OF assms(1)]) (auto simp: deref_assign keeps_key_def)

lemma assign_invar:
  assumes "sm_invar sm" and "map_of (smTasks sm) tid = Some a" and "keeps_key f"
    and "Status (f (deref sm a)) \<in> {Pending, InFlight}"
  shows "sm_invar (assign a f sm)"
proof -
  have ok: "live_ok sm" "dlq_ok sm" "heap_ok sm" using assms(1) by (simp_all add: sm_invar_def)
  have a: "a < length (smMem sm)" using live_lookup(1) [OF ok(1) assms(2)] .
  have "live_ok (assign a f sm)" using ok(1) a assms(3,4) by (auto simp: live_ok_def deref_assign keeps_key_def)
  moreover have "dlq_ok (assign a f sm)" using ok(2) by (simp add: dlq_ok_def)
  ultimately show ?thesis using assign_heap_ok [OF ok(3) a assms(3)] by (simp add: sm_invar_def)
qed

lemma nacked_invar: "sm_invar (sm\<lparr>smNacked := n\<rparr>) = sm_invar sm" "sm_invar (sm\<lparr>smAcked := n\<rparr>) = sm_invar sm"
  by (simp_all add: sm_invar_def live_ok_def dlq_ok_def heap_ok_def heap_ids_def)

lemma retried_invar:
  assumes "sm_invar sm" and "map_of (smTasks sm) tid = Some a"
  shows "sm_invar (retried a sm)"
  using assms live_lookup(3) [of sm tid a]
  by (auto simp: retried_def nacked_invar sm_invar_def [of sm] intro!: assign_invar [of _ tid])


section \<open>Replicated operations keep the invariant\<close>

lemma enqueued_sel [simp]:
  "smTasks (enqueued t sm) = AList.update (ID t) (length (smMem sm)) (smTasks sm)"
  "length (smMem (enqueued t sm)) = Suc (length (smMem sm))" "smDlq (enqueued t sm) = smDlq sm"
  "smPq (enqueued t sm) = smPq sm" "smInHeap (enqueued t sm) = smInHeap sm"
  "smAcked (enqueued t sm) = smAcked sm" "smNacked (enqueued t sm) = smNacked sm"
  "smMaxRetries (enqueued t sm) = smMaxRetries sm"
  "deref (enqueued t sm) (length (smMem sm)) = t\<lparr>Status := Pending\<rparr>"
  by (simp_all add: enqueued_def deref_def)

lemma deref_enqueued [simp]: "a < length (smMem sm) \<Longrightarrow> deref (enqueued t sm) a = deref sm a"
  by (simp add: enqueued_def deref_def nth_append)

lemma enqueued_invar:
  assumes "sm_invar sm" and "map_of (smTasks sm) (ID t) = None"
  shows "sm_invar (enqueued t sm)"
proof -
  have ok: "live_ok sm" "dlq_ok sm" "heap_ok sm" using assms(1) by (simp_all add: sm_invar_def)
  have tasks: "set (AList.update (ID t) n (smTasks sm)) = insert (ID t, n) (set (smTasks sm))" for n
    using assms(2) by (simp add: update_fresh)
  have "live_ok (enqueued t sm)" using ok(1) by (auto simp: live_ok_def tasks)
  moreover have "dlq_ok (enqueued t sm)" using ok(2) by (fastforce simp: dlq_ok_def tasks)
  moreover have "heap_ok (enqueued t sm)" by (rule heap_ok_cong [OF ok(3)]) simp_all
  ultimately show ?thesis by (simp add: sm_invar_def)
qed

lemma pushLocked_invar: "sm_invar sm \<Longrightarrow> a < length (smMem sm) \<Longrightarrow> sm_invar (pushLocked a sm)"
  using pushLocked_heap_ok(1) [of sm a] by (simp add: sm_invar_def live_ok_def dlq_ok_def)

lemma filed_sel [simp]:
  "smTasks (filed st tid a sm) = AList.delete tid (smTasks sm)" "smDlq (filed st tid a sm) = smDlq sm"
  "length (smMem (filed st tid a sm)) = length (smMem sm)" "smPq (filed st tid a sm) = smPq sm"
  "smInHeap (filed st tid a sm) = smInHeap sm" "smMaxRetries (filed st tid a sm) = smMaxRetries sm"
  by (simp_all add: filed_def)

lemma deref_filed [simp]:
  "a < length (smMem sm) \<Longrightarrow> deref (filed st tid a sm) b = (if b = a then (deref sm a)\<lparr>Status := st\<rparr> else deref sm b)"
  by (simp add: filed_def deref_assign)

lemma filed_gone:
  assumes "live_ok sm" and "map_of (smTasks sm) tid = Some a"
  shows "a \<notin> snd ` set (AList.delete tid (smTasks sm))"
  using assms live_lookup(2) [OF assms] by (auto simp: live_ok_def AList.delete_eq)

lemma filed_invar:
  assumes "sm_invar sm" and "map_of (smTasks sm) tid = Some a"
  shows "sm_invar (filed st tid a sm)"
proof -
  have ok: "live_ok sm" "dlq_ok sm" "heap_ok sm" using assms(1) by (simp_all add: sm_invar_def)
  have a: "a < length (smMem sm)" using live_lookup(1) [OF ok(1) assms(2)] .
  have sub: "set (AList.delete tid (smTasks sm)) \<subseteq> set (smTasks sm)" by (auto simp: AList.delete_eq)
  have "live_ok (filed st tid a sm)"
    using ok(1) a sub filed_gone [OF ok(1) assms(2)] by (fastforce simp: live_ok_def)
  moreover have "dlq_ok (filed st tid a sm)" using ok(2) sub by (fastforce simp: dlq_ok_def)
  moreover have "heap_ok (filed st tid a sm)" by (rule heap_ok_cong [OF ok(3)]) (simp_all add: a task_key_def)
  ultimately show ?thesis by (simp add: sm_invar_def)
qed

lemma Apply_invar:
  assumes "sm_invar sm"
  shows "sm_invar (Apply op sm)"
proof -
  have ok: "live_ok sm" "dlq_ok sm" using assms by (simp_all add: sm_invar_def)
  show ?thesis
  proof (cases rule: Apply_cases [of op sm])
    case (enq t)
    with enqueued_invar [OF assms enq(4)] show ?thesis by (simp add: pushLocked_invar)
  next
    case (ack a)
    with filed_invar [OF assms ack(2)] show ?thesis by (simp add: nacked_invar)
  next
    case (dead a)
    note R = retried_ok [OF ok dead(2)]
    have inv: "sm_invar (filed Dead (qTaskID op) a (retried a sm))"
      by (rule filed_invar [OF retried_invar [OF assms dead(2)] R(3)])
    have "a < length (smMem sm)" by (rule live_lookup(1) [OF ok(1) dead(2)])
    with inv filed_gone [OF R(1,3)] show ?thesis
      unfolding dead(4) by (simp add: sm_invar_def live_ok_def dlq_ok_def heap_ok_def heap_ids_def retried_def)
  next
    case (retry a)
    note R = retried_ok [OF ok retry(2)]
    have "sm_invar (reset a (retried a sm))"
      unfolding reset_def by (rule assign_invar [OF retried_invar [OF assms retry(2)] R(3)]) simp_all
    with live_lookup(1) [OF R(1,3)] show ?thesis unfolding retry(4) by (simp add: pushLocked_invar reset_def)
  next
    case skip
    with assms show ?thesis by simp
  qed
qed

section \<open>Local operations\<close>

lemma popped_invar:
  assumes "sm_invar sm" and "ptr_Pop (smMem sm) (smPq sm) = (Some a, h)"
  shows "sm_invar (popped a h sm)" "sm_view (popped a h sm) = sm_view sm"
  using assms pop_heap_ok(1) [of sm a h]
  by (simp_all add: sm_invar_def live_ok_def dlq_ok_def sm_view_def)

text \<open>One turn of the delivery loop: the heap is empty, or a stale pointer is dropped, or a task is handed out.\<close>

definition stale :: "nat \<Rightarrow> StateMachine \<Rightarrow> bool" where
  "stale a sm \<longleftrightarrow> map_of (smTasks sm) (ID (deref sm a)) \<noteq> Some a \<or> Status (deref sm a) \<noteq> Pending"

definition delivered :: "time \<Rightarrow> duration \<Rightarrow> nat \<Rightarrow> StateMachine \<Rightarrow> StateMachine" where
  "delivered now timeout a sm = assign a (\<lambda>t. t\<lparr>Status := InFlight, Deadline := now + timeout\<rparr>) sm"

lemma SM_Dequeue_None:
  "ptr_Pop (smMem sm) (smPq sm) = (None, h) \<Longrightarrow> SM_Dequeue now timeout sm = (None, sm\<lparr>smPq := h\<rparr>)"
  by (simp add: SM_Dequeue.simps)

lemma SM_Dequeue_Some:
  "ptr_Pop (smMem sm) (smPq sm) = (Some a, h) \<Longrightarrow>
   SM_Dequeue now timeout sm =
     (if stale a sm then SM_Dequeue now timeout (popped a h sm)
      else (Some (Clone (deref (delivered now timeout a (popped a h sm)) a)), delivered now timeout a (popped a h sm)))"
  by (subst SM_Dequeue.simps) (simp add: stale_def delivered_def popped_def Let_def)

lemma SM_Dequeue_rule [consumes 1, case_names none drop give]:
  assumes "sm_invar sm"
    and "\<And>sm. sm_invar sm \<Longrightarrow> smPq sm = [] \<Longrightarrow> P sm (None, sm)"
    and "\<And>sm a h. sm_invar sm \<Longrightarrow> ptr_Pop (smMem sm) (smPq sm) = (Some a, h) \<Longrightarrow> stale a sm \<Longrightarrow>
      sm_invar (popped a h sm) \<Longrightarrow> P (popped a h sm) (SM_Dequeue now timeout (popped a h sm)) \<Longrightarrow>
      P sm (SM_Dequeue now timeout (popped a h sm))"
    and "\<And>sm a h. sm_invar sm \<Longrightarrow> ptr_Pop (smMem sm) (smPq sm) = (Some a, h) \<Longrightarrow> \<not> stale a sm \<Longrightarrow>
      sm_invar (popped a h sm) \<Longrightarrow>
      P sm (Some (Clone (deref (delivered now timeout a (popped a h sm)) a)), delivered now timeout a (popped a h sm))"
  shows "P sm (SM_Dequeue now timeout sm)"
  using assms(1)
proof (induction "length (smPq sm)" arbitrary: sm rule: less_induct)
  case less
  have hp: "is_heap (ptr_lt (smMem sm)) (smPq sm) (length (smPq sm))" using less.prems by (simp add: sm_invar_def heap_ok_def)
  obtain o' h where p: "ptr_Pop (smMem sm) (smPq sm) = (o', h)" by (cases "ptr_Pop (smMem sm) (smPq sm)")
  show ?case
  proof (cases o')
    case None
    with p have N: "ptr_Pop (smMem sm) (smPq sm) = (None, h)" by simp
    have "smPq sm = [] \<and> h = []" using ptr_order.heapq.pop_NoneD [OF hp N [unfolded ptr_Pop_def]] by simp
    then have "SM_Dequeue now timeout sm = (None, sm)" "smPq sm = []" using SM_Dequeue_None [OF N] by simp_all
    then show ?thesis using assms(2) [OF less.prems] by simp
  next
    case (Some a)
    with p have S: "ptr_Pop (smMem sm) (smPq sm) = (Some a, h)" by simp
    have inv: "sm_invar (popped a h sm)" by (rule popped_invar(1) [OF less.prems S])
    show ?thesis
    proof (cases "stale a sm")
      case True
      have "P (popped a h sm) (SM_Dequeue now timeout (popped a h sm))"
        by (rule less.hyps [OF _ inv]) (simp add: ptr_Pop_shorter [OF S])
      then show ?thesis using assms(3) [OF less.prems S True inv] True SM_Dequeue_Some [OF S] by simp
    next
      case False
      then show ?thesis using assms(4) [OF less.prems S False inv] SM_Dequeue_Some [OF S] by simp
    qed
  qed
qed

lemma delivered_ok:
  assumes "sm_invar sm" and "\<not> stale a sm"
  shows "sm_invar (delivered now timeout a sm)" "sm_view (delivered now timeout a sm) = sm_view sm"
    "deref (delivered now timeout a sm) a = (deref sm a)\<lparr>Status := InFlight, Deadline := now + timeout\<rparr>"
proof -
  have look: "map_of (smTasks sm) (ID (deref sm a)) = Some a" using assms(2) by (simp add: stale_def)
  have ok: "live_ok sm" "dlq_ok sm" using assms(1) by (simp_all add: sm_invar_def)
  show "sm_invar (delivered now timeout a sm)"
    unfolding delivered_def by (rule assign_invar [OF assms(1) look]) simp_all
  show "sm_view (delivered now timeout a sm) = sm_view sm"
    using view_assign [OF ok look] look unfolding delivered_def by (simp add: sm_view_def fun_eq_iff)
  show "deref (delivered now timeout a sm) a = (deref sm a)\<lparr>Status := InFlight, Deadline := now + timeout\<rparr>"
    using live_lookup(1) [OF ok(1) look] by (simp add: delivered_def deref_assign)
qed

lemma stale_popped [simp]: "stale b (popped a h sm) = stale b sm"
  by (simp add: stale_def)

lemma SM_Dequeue_local:
  assumes "sm_invar sm"
  shows "sm_invar (snd (SM_Dequeue now timeout sm)) \<and> sm_view (snd (SM_Dequeue now timeout sm)) = sm_view sm \<and>
    smMaxRetries (snd (SM_Dequeue now timeout sm)) = smMaxRetries sm"
  using assms
proof (induction rule: SM_Dequeue_rule [where P = "\<lambda>sm r. sm_invar (snd r) \<and> sm_view (snd r) = sm_view sm \<and>
    smMaxRetries (snd r) = smMaxRetries sm"])
  case (drop sm a h)
  then show ?case using popped_invar [OF drop(1,2)] by simp
next
  case (give sm a h)
  have "\<not> stale a (popped a h sm)" using give(3) by simp
  note D = delivered_ok [OF give(4) this]
  show ?case using D(1,2) popped_invar(2) [OF give(1,2)] by (simp add: delivered_def)
qed simp


lemma requeueOne_local:
  assumes "sm_invar sm" and "e \<in> set (smTasks sm)"
  shows "sm_invar (requeueOne e sm)" "sm_view (requeueOne e sm) = sm_view sm"
    "smTasks (requeueOne e sm) = smTasks sm" "smMaxRetries (requeueOne e sm) = smMaxRetries sm"
proof -
  have ok: "live_ok sm" "dlq_ok sm" using assms(1) by (simp_all add: sm_invar_def)
  have look: "map_of (smTasks sm) (fst e) = Some (snd e)"
    using assms(2) ok(1) by (simp add: live_ok_def map_of_eq_Some_iff_set)
  let ?sm = "assign (snd e) (\<lambda>t. t\<lparr>Status := Pending, Deadline := 0\<rparr>) sm"
  have "sm_invar ?sm" by (rule assign_invar [OF assms(1) look]) simp_all
  then show "sm_invar (requeueOne e sm)"
    using assms(1) live_lookup(1) [OF ok(1) look] by (simp add: requeueOne_def pushLocked_invar)
  show "sm_view (requeueOne e sm) = sm_view sm"
    using view_assign [OF ok look] look by (simp add: requeueOne_def) (simp add: sm_view_def fun_eq_iff)
qed (simp_all add: requeueOne_def)

lemma requeue_fold_local:
  assumes "sm_invar sm" and "set es \<subseteq> set (smTasks sm)"
  shows "sm_invar (fold requeueOne es sm) \<and> sm_view (fold requeueOne es sm) = sm_view sm \<and>
    smTasks (fold requeueOne es sm) = smTasks sm \<and> smMaxRetries (fold requeueOne es sm) = smMaxRetries sm"
  using assms
proof (induction es arbitrary: sm)
  case (Cons e es)
  then have "e \<in> set (smTasks sm)" by simp
  note R = requeueOne_local [OF Cons.prems(1) this]
  show ?case using Cons.IH [OF R(1)] Cons.prems(2) R(2-4) by simp
qed simp

lemma RequeueInFlight_local:
  assumes "sm_invar sm" and "map_order ord"
  shows "sm_invar (RequeueInFlight ord sm)" "sm_view (RequeueInFlight ord sm) = sm_view sm"
    "smTasks (RequeueInFlight ord sm) = smTasks sm" "smMaxRetries (RequeueInFlight ord sm) = smMaxRetries sm"
  using requeue_fold_local [OF assms(1), of "ord (smTasks sm)"] assms(2)
  by (simp_all add: RequeueInFlight_def map_order_set)

section \<open>Delivery\<close>

text \<open>
  No pending task is out of the heap's reach, and no pointer in the heap shares its ID with
  another live task.
\<close>

definition pendingPtrs :: "StateMachine \<Rightarrow> nat set" where
  "pendingPtrs sm = {a \<in> snd ` set (smTasks sm). Status (deref sm a) = Pending}"

definition stale_free :: "StateMachine \<Rightarrow> bool" where
  "stale_free sm \<longleftrightarrow>
     pendingPtrs sm \<subseteq> set (smPq sm) \<and>
     (\<forall>a \<in> set (smPq sm). map_of (smTasks sm) (ID (deref sm a)) \<in> {None, Some a})"

lemma pendingPtrs_iff:
  assumes "sm_invar sm"
  shows "a \<in> pendingPtrs sm \<longleftrightarrow> \<not> stale a sm"
proof -
  have g: "go_map (smTasks sm)" using assms by (simp add: sm_invar_def live_ok_def)
  have "ID (deref sm (snd e)) = fst e" if "e \<in> set (smTasks sm)" for e
    using assms that by (simp add: sm_invar_def live_ok_def)
  then show ?thesis
    using map_of_eq_Some_iff_set [OF g] by (force simp: pendingPtrs_def stale_def)
qed

lemma stale_free_popped:
  assumes "sm_invar sm" and "stale_free sm" and "ptr_Pop (smMem sm) (smPq sm) = (Some a, h)" and "stale a sm"
  shows "stale_free (popped a h sm)" "pendingPtrs (popped a h sm) = pendingPtrs sm"
proof -
  have "mset (smPq sm) = add_mset a (mset h)" using pop_heap_ok(3) assms(1,3) by (simp add: sm_invar_def)
  then have s: "set (smPq sm) = insert a (set h)" by (metis set_mset_add_mset_insert set_mset_mset)
  show P: "pendingPtrs (popped a h sm) = pendingPtrs sm" by (simp add: pendingPtrs_def)
  have "a \<notin> pendingPtrs sm" using pendingPtrs_iff [OF assms(1)] assms(4) by simp
  then show "stale_free (popped a h sm)" using assms(2) s unfolding stale_free_def P by auto
qed

text \<open>Delivery finds a pending task whenever there is one, and one that nothing pending precedes.\<close>

definition delivers :: "time \<Rightarrow> duration \<Rightarrow> StateMachine \<Rightarrow> Task option \<times> StateMachine \<Rightarrow> bool" where
  "delivers now timeout sm r \<longleftrightarrow> stale_free (snd r) \<and>
     (case fst r of
        None \<Rightarrow> pendingPtrs sm = {} \<and> pendingPtrs (snd r) = {}
      | Some t \<Rightarrow> \<exists>a \<in> pendingPtrs sm. t = (deref sm a)\<lparr>Status := InFlight, Deadline := now + timeout\<rparr> \<and>
          (\<forall>b \<in> pendingPtrs sm. \<not> task_lt (deref sm b) (deref sm a)) \<and>
          pendingPtrs (snd r) = pendingPtrs sm - {a} \<and> deref (snd r) = (deref sm)(a := t))"

lemma delivers_popped: "delivers now timeout (popped a h sm) r = delivers now timeout sm r"
proof -
  have P: "pendingPtrs (popped a h sm) = pendingPtrs sm" by (simp add: pendingPtrs_def)
  show ?thesis unfolding delivers_def popped_sel P ..
qed

lemma SM_Dequeue_delivers:
  assumes "sm_invar sm" and "stale_free sm"
  shows "delivers now timeout sm (SM_Dequeue now timeout sm)"
proof -
  have "stale_free sm \<longrightarrow> delivers now timeout sm (SM_Dequeue now timeout sm)"
    using assms(1)
  proof (induction rule: SM_Dequeue_rule [where P = "\<lambda>sm r. stale_free sm \<longrightarrow> delivers now timeout sm r"])
    case (none sm)
    then show ?case by (auto simp: stale_free_def delivers_def)
  next
    case (drop sm a h)
    then show ?case using stale_free_popped [OF drop(1) _ drop(2,3)] by (auto simp: delivers_popped)
  next
    case (give sm a h)
    let ?p = "popped a h sm" let ?d = "delivered now timeout a ?p"
    have hok: "heap_ok sm" using give(1) by (simp add: sm_invar_def)
    note H = pop_heap_ok [OF hok give(2)]
    have s: "set (smPq sm) = insert a (set h)" using H(3) by (metis set_mset_add_mset_insert set_mset_mset)
    have der: "deref ?d = (deref sm)(a := (deref sm a)\<lparr>Status := InFlight, Deadline := now + timeout\<rparr>)"
      using H(2) by (auto simp: delivered_def deref_assign fun_eq_iff)
    have sel: "smTasks ?d = smTasks sm" "smPq ?d = h" by (simp_all add: delivered_def)
    have pend: "pendingPtrs ?d = pendingPtrs sm - {a}" by (auto simp: pendingPtrs_def der sel)
    show ?case
    proof
      assume sf: "stale_free sm"
      have "a \<in> pendingPtrs sm" using pendingPtrs_iff [OF give(1)] give(3) by simp
      moreover have "\<forall>b \<in> pendingPtrs sm. \<not> task_lt (deref sm b) (deref sm a)"
        using H(4) sf by (auto simp: stale_free_def ptr_lt_def deref_def)
      moreover have "stale_free ?d" using sf s unfolding stale_free_def pend by (auto simp: der sel)
      ultimately show "delivers now timeout sm (Some (Clone (deref ?d a)), ?d)"
        using der pend by (auto simp: delivers_def)
    qed
  qed
  with assms(2) show ?thesis by simp
qed


section \<open>Which operations keep delivery working\<close>

text \<open>An enqueue is clean if the heap has no pointer left over from an earlier task of that ID.\<close>

definition clean_op :: "QueueOp \<Rightarrow> StateMachine \<Rightarrow> bool" where
  "clean_op op sm \<longleftrightarrow>
     (case qTask op of
        None \<Rightarrow> True
      | Some t \<Rightarrow> qType op = OpEnqueue \<longrightarrow> Has (ID t) sm \<or> map_of (smInHeap sm) (ID t) \<noteq> Some True)"

lemma stale_free_push:
  assumes "heap_ok sm" and "live_ok sm" and "map_of (smTasks sm) (ID (deref sm a)) = Some a"
    and "pendingPtrs sm - {a} \<subseteq> set (smPq sm)"
    and "\<forall>b \<in> set (smPq sm). map_of (smTasks sm) (ID (deref sm b)) \<in> {None, Some b}"
  shows "stale_free (pushLocked a sm)"
proof -
  have a: "a < length (smMem sm)" by (rule live_lookup(1) [OF assms(2,3)])
  note P = pushLocked_heap_ok [OF assms(1) a]
  have "a \<in> set (smPq (pushLocked a sm))"
  proof (cases "ID (deref sm a) \<in> set (heap_ids sm)")
    case True
    then obtain b where "b \<in> set (smPq sm)" "ID (deref sm b) = ID (deref sm a)" by (auto simp: heap_ids_def)
    moreover from this have "b = a" using assms(3) bspec [OF assms(5), of b] by simp
    ultimately show ?thesis using P(4) by blast
  qed (rule P(5))
  moreover have "pendingPtrs (pushLocked a sm) = pendingPtrs sm" by (simp add: pendingPtrs_def)
  ultimately have "pendingPtrs (pushLocked a sm) \<subseteq> set (smPq (pushLocked a sm))" using assms(4) P(4) by blast
  moreover have "\<forall>b \<in> set (smPq (pushLocked a sm)). map_of (smTasks sm) (ID (deref sm b)) \<in> {None, Some b}"
  proof
    fix b assume "b \<in> set (smPq (pushLocked a sm))"
    then have "b = a \<or> b \<in> set (smPq sm)" using P(3) by blast
    then show "map_of (smTasks sm) (ID (deref sm b)) \<in> {None, Some b}"
      using assms(3) bspec [OF assms(5), of b] by (elim disjE) simp_all
  qed
  ultimately show ?thesis by (simp add: stale_free_def)
qed

lemma stale_free_reset:
  assumes "sm_invar sm" and "stale_free sm" and "map_of (smTasks sm) tid = Some a"
  shows "stale_free (pushLocked a (reset a sm))"
proof (rule stale_free_push)
  have ok: "live_ok sm" "heap_ok sm" using assms(1) by (simp_all add: sm_invar_def)
  note L = live_lookup [OF ok(1) assms(3)]
  have "sm_invar (reset a sm)" unfolding reset_def by (rule assign_invar [OF assms(1,3)]) simp_all
  then show "heap_ok (reset a sm)" "live_ok (reset a sm)" by (simp_all add: sm_invar_def)
  have ids: "ID (deref (reset a sm) b) = ID (deref sm b)" for b using L(1) by (simp add: reset_def deref_assign)
  show "map_of (smTasks (reset a sm)) (ID (deref (reset a sm) a)) = Some a"
    using assms(3) L(2) by (simp add: ids) (simp add: reset_def)
  have "pendingPtrs (reset a sm) - {a} \<subseteq> pendingPtrs sm"
    using L(1) by (auto simp: pendingPtrs_def reset_def deref_assign)
  with assms(2) show "pendingPtrs (reset a sm) - {a} \<subseteq> set (smPq (reset a sm))"
    by (auto simp: stale_free_def reset_def)
  show "\<forall>b \<in> set (smPq (reset a sm)). map_of (smTasks (reset a sm)) (ID (deref (reset a sm) b)) \<in> {None, Some b}"
    using assms(2) by (simp add: ids) (simp add: stale_free_def reset_def)
qed

lemma stale_free_filed:
  assumes "live_ok sm" and "stale_free sm" and "map_of (smTasks sm) tid = Some a" and "st \<noteq> Pending"
  shows "stale_free (filed st tid a sm)"
proof -
  have a: "a < length (smMem sm)" by (rule live_lookup(1) [OF assms(1,3)])
  have sub: "set (AList.delete tid (smTasks sm)) \<subseteq> set (smTasks sm)" by (auto simp: AList.delete_eq)
  have "pendingPtrs (filed st tid a sm) \<subseteq> pendingPtrs sm"
    using a sub assms(4) by (auto simp: pendingPtrs_def split: if_splits)
  with assms(2) a show ?thesis by (auto simp: stale_free_def)
qed

lemma stale_free_retried:
  assumes "live_ok sm" and "stale_free sm" and "map_of (smTasks sm) tid = Some a"
  shows "stale_free (retried a sm)"
proof -
  have a: "a < length (smMem sm)" by (rule live_lookup(1) [OF assms(1,3)])
  have same: "Status (deref (retried a sm) b) = Status (deref sm b)" "ID (deref (retried a sm) b) = ID (deref sm b)"
    "smTasks (retried a sm) = smTasks sm" "smPq (retried a sm) = smPq sm" for b
    using a by (simp_all add: retried_def deref_assign)
  show ?thesis using assms(2) unfolding stale_free_def pendingPtrs_def same .
qed

lemma stale_free_enqueued:
  assumes "sm_invar sm" and "stale_free sm" and "map_of (smTasks sm) (ID t) = None"
    and "map_of (smInHeap sm) (ID t) \<noteq> Some True"
  shows "stale_free (pushLocked (length (smMem sm)) (enqueued t sm))"
proof (rule stale_free_push)
  let ?n = "length (smMem sm)"
  have ok: "live_ok sm" "heap_ok sm" using assms(1) by (simp_all add: sm_invar_def)
  have "sm_invar (enqueued t sm)" by (rule enqueued_invar [OF assms(1,3)])
  then show "heap_ok (enqueued t sm)" "live_ok (enqueued t sm)" by (simp_all add: sm_invar_def)
  show "map_of (smTasks (enqueued t sm)) (ID (deref (enqueued t sm) ?n)) = Some ?n" by simp
  have "pendingPtrs (enqueued t sm) - {?n} \<subseteq> pendingPtrs sm"
  proof
    fix b assume "b \<in> pendingPtrs (enqueued t sm) - {?n}"
    then have b: "b \<in> snd ` set (smTasks sm)" "Status (deref (enqueued t sm) b) = Pending"
      using assms(3) by (auto simp: pendingPtrs_def update_fresh)
    then have "b < ?n" using ok(1) by (auto simp: live_ok_def)
    with b show "b \<in> pendingPtrs sm" by (simp add: pendingPtrs_def)
  qed
  with assms(2) show "pendingPtrs (enqueued t sm) - {?n} \<subseteq> set (smPq (enqueued t sm))"
    by (auto simp: stale_free_def)
  have "b < ?n \<and> ID (deref sm b) \<noteq> ID t" if "b \<in> set (smPq sm)" for b
  proof -
    have "ID (deref sm b) \<in> set (heap_ids sm)" using that by (simp add: heap_ids_def)
    with that ok(2) assms(4) show ?thesis by (auto simp: heap_ok_def)
  qed
  with assms(2) show "\<forall>b \<in> set (smPq (enqueued t sm)).
      map_of (smTasks (enqueued t sm)) (ID (deref (enqueued t sm) b)) \<in> {None, Some b}"
    by (simp add: stale_free_def)
qed

lemma stale_free_counters [simp]:
  "stale_free (sm\<lparr>smAcked := n\<rparr>) = stale_free sm" "stale_free (sm\<lparr>smNacked := n\<rparr>) = stale_free sm"
  "stale_free (sm\<lparr>smDlq := d\<rparr>) = stale_free sm"
  by (simp_all add: stale_free_def pendingPtrs_def)

lemma Apply_stale_free:
  assumes "sm_invar sm" and "stale_free sm" and "clean_op op sm"
  shows "stale_free (Apply op sm)"
proof -
  have ok: "live_ok sm" "dlq_ok sm" using assms by (simp_all add: sm_invar_def)
  show ?thesis
  proof (cases rule: Apply_cases [of op sm])
    case (enq t)
    then have "map_of (smInHeap sm) (ID t) \<noteq> Some True" using assms(3) by (simp add: clean_op_def Has_def)
    with stale_free_enqueued [OF assms(1,2) enq(4)] enq(5) show ?thesis by simp
  next
    case (ack a)
    with stale_free_filed [OF ok(1) assms(2) ack(2), of Done] show ?thesis by simp
  next
    case (dead a)
    note R = retried_ok [OF ok dead(2)]
    have "stale_free (filed Dead (qTaskID op) a (retried a sm))"
      by (rule stale_free_filed [OF R(1) stale_free_retried [OF ok(1) assms(2) dead(2)] R(3)]) simp
    with dead(4) show ?thesis by simp
  next
    case (retry a)
    note R = retried_ok [OF ok retry(2)]
    show ?thesis unfolding retry(4)
      by (rule stale_free_reset [OF retried_invar [OF assms(1) retry(2)] stale_free_retried [OF ok(1) assms(2) retry(2)] R(3)])
  next
    case skip
    with assms show ?thesis by simp
  qed
qed

lemma RequeueInFlight_stale_free:
  assumes "sm_invar sm" and "stale_free sm" and "map_order ord"
  shows "stale_free (RequeueInFlight ord sm)"
proof -
  have "stale_free (fold requeueOne es sm)"
    if "sm_invar sm" "stale_free sm" "set es \<subseteq> set (smTasks sm)" for es and sm :: StateMachine
    using that
  proof (induction es arbitrary: sm)
    case (Cons e es)
    have e: "e \<in> set (smTasks sm)" using Cons.prems(3) by simp
    note R = requeueOne_local [OF Cons.prems(1) e]
    have look: "map_of (smTasks sm) (fst e) = Some (snd e)"
      using e Cons.prems(1) by (simp add: sm_invar_def live_ok_def map_of_eq_Some_iff_set)
    have "stale_free (requeueOne e sm)"
      using stale_free_reset [OF Cons.prems(1,2) look] Cons.prems(2) by (simp add: requeueOne_def reset_def)
    with Cons.IH [OF R(1)] Cons.prems(3) R(3) show ?case by simp
  qed simp
  with assms show ?thesis by (simp add: RequeueInFlight_def map_order_set)
qed

text \<open>After a leader takes over, every live task is pending.\<close>

lemma requeue_fold_pending:
  assumes "sm_invar sm" and "set es \<subseteq> set (smTasks sm)" and "e \<in> set (smTasks sm)"
    and "e \<in> set es \<or> Status (deref sm (snd e)) = Pending"
  shows "Status (deref (fold requeueOne es sm) (snd e)) = Pending"
  using assms
proof (induction es arbitrary: sm)
  case (Cons x es)
  have x: "x \<in> set (smTasks sm)" using Cons.prems(2) by simp
  note R = requeueOne_local [OF Cons.prems(1) x]
  have "snd x < length (smMem sm)" "Status (deref sm (snd x)) \<in> {Pending, InFlight}"
    using x Cons.prems(1) by (auto simp: sm_invar_def live_ok_def)
  then have "Status (deref (requeueOne x sm) b) = (if b = snd x then Pending else Status (deref sm b))" for b
    by (auto simp: requeueOne_def deref_assign)
  with Cons.IH [OF R(1)] Cons.prems(2-4) R(3) show ?case by auto
qed simp

lemma RequeueInFlight_pending:
  assumes "sm_invar sm" and "map_order ord"
  shows "pendingPtrs (RequeueInFlight ord sm) = snd ` set (smTasks sm)"
  using requeue_fold_pending [OF assms(1), of "ord (smTasks sm)"] RequeueInFlight_local(3) [OF assms] assms(2)
  by (auto simp: pendingPtrs_def RequeueInFlight_def map_order_set)


section \<open>Snapshots carry the view\<close>

lemma restoreTask_enqueued:
  assumes "Status t = Pending"
  shows "restoreTask t sm = pushLocked (length (smMem sm)) (enqueued t sm)"
proof -
  have "t\<lparr>Status := Pending\<rparr> = t" using assms by (cases t) simp
  then show ?thesis by (simp add: restoreTask_def enqueued_def alloc_def)
qed

lemma restore_fold:
  assumes "sm_invar sm" and "stale_free sm" and "set (smPq sm) \<subseteq> snd ` set (smTasks sm)"
    and "\<forall>t \<in> set ts. Status t = Pending \<and> map_of (smTasks sm) (ID t) = None" and "distinct (map ID ts)"
  shows "sm_invar (fold restoreTask ts sm) \<and> stale_free (fold restoreTask ts sm) \<and>
    smMaxRetries (fold restoreTask ts sm) = smMaxRetries sm \<and>
    sm_view (fold restoreTask ts sm) = (sm_view sm)\<lparr>vTasks := vTasks (sm_view sm) ++ id_map ts\<rparr>"
  using assms
proof (induction ts arbitrary: sm)
  case Nil
  then show ?case by simp
next
  case (Cons t ts)
  let ?n = "length (smMem sm)" let ?sm = "pushLocked ?n (enqueued t sm)"
  have ok: "live_ok sm" "dlq_ok sm" "heap_ok sm" using Cons.prems(1) by (simp_all add: sm_invar_def)
  have t: "Status t = Pending" "map_of (smTasks sm) (ID t) = None" using Cons.prems(4) by simp_all
  have "ID t \<notin> set (heap_ids sm)"
  proof
    assume "ID t \<in> set (heap_ids sm)"
    then obtain b where "b \<in> set (smPq sm)" "ID (deref sm b) = ID t" by (auto simp: heap_ids_def)
    then obtain e where "e \<in> set (smTasks sm)" "ID (deref sm (snd e)) = ID t" using Cons.prems(3) by auto
    with ok(1) have "ID t \<in> fst ` set (smTasks sm)" by (auto simp: live_ok_def intro: rev_image_eqI)
    with t(2) show False by (simp add: map_of_eq_None_iff)
  qed
  then have fresh: "map_of (smInHeap sm) (ID t) \<noteq> Some True" using ok(3) by (simp add: heap_ok_def)
  have inv0: "sm_invar (enqueued t sm)" by (rule enqueued_invar [OF Cons.prems(1) t(2)])
  then have inv: "sm_invar ?sm" by (rule pushLocked_invar) simp
  have sf: "stale_free ?sm" by (rule stale_free_enqueued [OF Cons.prems(1,2) t(2) fresh])
  have "set (smPq ?sm) \<subseteq> insert ?n (set (smPq sm))"
    using pushLocked_heap_ok(3) [of "enqueued t sm" ?n] inv0 by (simp add: sm_invar_def)
  then have heap: "set (smPq ?sm) \<subseteq> snd ` set (smTasks ?sm)"
    using Cons.prems(3) t(2) by (auto simp: update_fresh)
  have new: "\<forall>u \<in> set ts. Status u = Pending \<and> map_of (smTasks ?sm) (ID u) = None"
    using Cons.prems(4,5) by (auto intro: rev_image_eqI)
  have "id_map ts (ID t) = None" using Cons.prems(5) by (simp add: id_map_None)
  then have "(vTasks (sm_view sm))(ID t \<mapsto> task_core t) ++ id_map ts = vTasks (sm_view sm) ++ (id_map ts)(ID t \<mapsto> task_core t)"
    by (auto simp: map_add_def fun_eq_iff split: option.splits)
  with Cons.IH [OF inv sf heap new] Cons.prems(5) enqueued_view [OF ok(1,2), of t]
  show ?case by (simp add: restoreTask_enqueued [OF t(1)] del: fun_upd_apply)
qed

text \<open>A snapshot whose live tasks are pending and have different IDs.\<close>

definition snap_ok :: "snapshotState \<Rightarrow> bool" where
  "snap_ok st \<longleftrightarrow> distinct (map ID (ssTasks st)) \<and> (\<forall>t \<in> set (ssTasks st). Status t = Pending)"

lemma restoreState_ok:
  assumes "sm_invar sm" and "snap_ok st"
  shows "sm_invar (restoreState st sm)" "stale_free (restoreState st sm)"
    "smMaxRetries (restoreState st sm) = smMaxRetries sm"
    "sm_view (restoreState st sm) =
       \<lparr>vTasks = id_map (ssTasks st), vDlq = map task_core (ssDLQ st), vAcked = ssAcked st, vNacked = smNacked sm\<rparr>"
proof -
  let ?sm0 = "sm\<lparr>smTasks := [], smPq := [], smInHeap := []\<rparr>"
  have inv0: "sm_invar ?sm0"
    using assms(1) ptr_order.heapq.invar_new
    by (simp add: sm_invar_def live_ok_def dlq_ok_def heap_ok_def heap_ids_def)
  have sf0: "stale_free ?sm0" by (simp add: stale_free_def pendingPtrs_def)
  define sm1 where "sm1 = fold restoreTask (ssTasks st) ?sm0"
  have F: "sm_invar sm1" "stale_free sm1" "smMaxRetries sm1 = smMaxRetries sm"
    "sm_view sm1 = (sm_view ?sm0)\<lparr>vTasks := id_map (ssTasks st)\<rparr>"
    using restore_fold [OF inv0 sf0, of "ssTasks st"] assms(2) by (simp_all add: snap_ok_def sm1_def) (simp_all add: sm_view_def)
  define n where "n = length (smMem sm1)"
  let ?sm2 = "sm1\<lparr>smMem := smMem sm1 @ ssDLQ st, smDlq := [n ..< n + length (ssDLQ st)], smAcked := ssAcked st\<rparr>"
  have R: "restoreState st sm = ?sm2" by (simp add: restoreState_def sm1_def n_def Let_def)
  have old: "deref (sm1\<lparr>smMem := smMem sm1 @ ssDLQ st\<rparr>) a = deref sm1 a" if "a < n" for a using that by (simp add: deref_def nth_append n_def)
  have ok: "live_ok sm1" "dlq_ok sm1" "heap_ok sm1" using F(1) by (simp_all add: sm_invar_def)
  have ptr: "a < n" if "a \<in> snd ` set (smTasks sm1) \<or> a \<in> set (smPq sm1)" for a
    using that ok(1,3) by (auto simp: live_ok_def heap_ok_def n_def)
  have "heap_ok ?sm2" by (rule heap_ok_cong [OF ok(3)]) (simp_all add: old n_def [symmetric])
  moreover have "live_ok ?sm2" using ok(1) ptr old by (fastforce simp: live_ok_def)
  moreover have "dlq_ok ?sm2" using ptr by (fastforce simp: dlq_ok_def n_def)
  ultimately show "sm_invar (restoreState st sm)" unfolding R sm_invar_def by blast
  have "pendingPtrs ?sm2 = pendingPtrs sm1"
    unfolding pendingPtrs_def using ptr old by (intro Collect_cong conj_cong) simp_all
  then show "stale_free (restoreState st sm)" using F(2) ptr old unfolding R stale_free_def by simp
  show "smMaxRetries (restoreState st sm) = smMaxRetries sm" unfolding R using F(3) by simp
  have "map_option (\<lambda>a. task_core (deref ?sm2 a)) (map_of (smTasks sm1) tid) = vTasks (sm_view sm1) tid" for tid
    using live_lookup(1) [OF ok(1), of tid] old by (cases "map_of (smTasks sm1) tid") (auto simp: sm_view_def n_def)
  then have "vTasks (sm_view ?sm2) = vTasks (sm_view sm1)" by (simp add: sm_view_def fun_eq_iff)
  moreover have "map (\<lambda>a. task_core (deref ?sm2 a)) [n ..< n + length (ssDLQ st)] = map task_core (ssDLQ st)"
    by (intro nth_equalityI) (simp_all add: deref_def nth_append n_def)
  ultimately show "sm_view (restoreState st sm) =
      \<lparr>vTasks = id_map (ssTasks st), vDlq = map task_core (ssDLQ st), vAcked = ssAcked st, vNacked = smNacked sm\<rparr>"
    unfolding R using F(4) by (simp add: sm_view_def)
qed

lemma snapshotOf_ok:
  assumes "sm_invar sm" and "map_order ord"
  shows "snap_ok (snapshotOf ord sm)" "id_map (ssTasks (snapshotOf ord sm)) = vTasks (sm_view sm)"
proof -
  have live: "live_ok sm" using assms(1) by (simp add: sm_invar_def)
  let ?es = "ord (smTasks sm)"
  have g: "go_map ?es" using live assms(2) by (simp add: live_ok_def map_order_go_map)
  have id: "ID (deref sm (snd e)) = fst e" if "e \<in> set ?es" for e
    using that live assms(2) by (simp add: live_ok_def map_order_set)
  have "map ID (ssTasks (snapshotOf ord sm)) = map fst ?es" using id by (simp add: snapshotOf_def)
  then have "distinct (map ID (ssTasks (snapshotOf ord sm)))" using g by (simp add: go_map_def)
  moreover have "\<forall>t \<in> set (ssTasks (snapshotOf ord sm)). Status t = Pending" by (simp add: snapshotOf_def)
  ultimately show "snap_ok (snapshotOf ord sm)" unfolding snap_ok_def by blast
  have "map (\<lambda>t. (ID t, task_core t)) (ssTasks (snapshotOf ord sm)) = map (\<lambda>(k, a). (k, task_core (deref sm a))) ?es"
    using id by (auto simp: snapshotOf_def)
  then have "id_map (ssTasks (snapshotOf ord sm)) tid = map_option (\<lambda>a. task_core (deref sm a)) (map_of ?es tid)" for tid
    by (simp only: id_map_def map_of_map) simp
  moreover have "map_of ?es = map_of (smTasks sm)"
    using g live assms(2) by (intro map_of_inject_set [THEN iffD2]) (simp_all add: go_map_def live_ok_def map_order_set)
  ultimately show "id_map (ssTasks (snapshotOf ord sm)) = vTasks (sm_view sm)" by (simp add: sm_view_def fun_eq_iff)
qed

lemma snapshot_restore:
  assumes "sm_invar src" and "map_order ord" and "sm_invar sm"
  shows "sm_view (restoreState (snapshotOf ord src) sm) = (sm_view src)\<lparr>vNacked := smNacked sm\<rparr>"
  using restoreState_ok(4) [OF assms(3) snapshotOf_ok(1) [OF assms(1,2)]] snapshotOf_ok(2) [OF assms(1,2)]
  by (simp add: snapshotOf_def sm_view_def)

section \<open>Replicas\<close>

text \<open>
  A replica's state machine after the operations \<open>ops\<close>, with any local operations in between,
  and with installs of snapshots taken by other replicas of the same cluster.
\<close>

inductive replica :: "snapCodec \<Rightarrow> int \<Rightarrow> QueueOp list \<Rightarrow> StateMachine \<Rightarrow> bool"
  for C :: snapCodec and n :: int where
  Replica_New: "replica C n [] (NewStateMachine n)"
| Replica_Apply: "replica C n ops sm \<Longrightarrow> replica C n (ops @ [op]) (Apply op sm)"
| Replica_Dequeue: "replica C n ops sm \<Longrightarrow> replica C n ops (snd (SM_Dequeue now timeout sm))"
| Replica_Requeue: "replica C n ops sm \<Longrightarrow> map_order ord \<Longrightarrow> replica C n ops (RequeueInFlight ord sm)"
| Replica_Restore: "replica C n ops src \<Longrightarrow> map_order ord \<Longrightarrow> Snapshot C ord src = Some bs \<Longrightarrow>
    replica C n old sm \<Longrightarrow> Restore C bs sm = (False, sm') \<Longrightarrow> replica C n ops sm'"

text \<open>The view without the counter that snapshots leave out.\<close>

definition shared_view :: "smView \<Rightarrow> smView" where
  "shared_view v = v\<lparr>vNacked := 0\<rparr>"

lemma shared_applyView: "shared_view (applyView n op v) = shared_view (applyView n op (shared_view v))"
  by (auto simp: applyView_def shared_view_def Let_def split: option.splits)

lemma NewStateMachine_invar: "sm_invar (NewStateMachine n)"
  using ptr_order.heapq.invar_new
  by (simp add: NewStateMachine_def sm_invar_def live_ok_def dlq_ok_def heap_ok_def heap_ids_def)

lemma NewStateMachine_stale_free: "stale_free (NewStateMachine n)"
  by (simp add: NewStateMachine_def stale_free_def pendingPtrs_def)

lemma Restore_snapshot:
  assumes "snap_roundtrip C" and "Snapshot C ord src = Some bs" and "Restore C bs sm = (err, sm')"
  shows "\<not> err \<and> sm' = restoreState (snapshotOf ord src) sm"
proof -
  have "snap_decode C bs = Some (snapshotOf ord src)"
    using assms(1,2) unfolding snap_roundtrip_def Snapshot_def by (metis option.inject)
  with assms(3) show ?thesis by (simp add: Restore_def)
qed

lemma Apply_maxRetries [simp]: "smMaxRetries (Apply op sm) = smMaxRetries sm"
  by (cases rule: Apply_cases [of op sm]) (simp_all add: filed_def retried_def reset_def)

lemma replica_ok:
  assumes "replica C n ops sm" and "snap_roundtrip C"
  shows "sm_invar sm \<and> smMaxRetries sm = n \<and>
    shared_view (sm_view sm) = shared_view (fold (applyView n) ops (sm_view (NewStateMachine n)))"
  using assms(1)
proof induction
  case Replica_New
  show ?case using NewStateMachine_invar by (simp add: NewStateMachine_def)
next
  case (Replica_Apply ops sm op)
  then have "live_ok sm" "dlq_ok sm" by (simp_all add: sm_invar_def)
  with Replica_Apply.IH Apply_view [of sm op] Apply_invar [of sm op] show ?case
    using shared_applyView [of n op "sm_view sm"] shared_applyView [of n op "fold (applyView n) ops (sm_view (NewStateMachine n))"]
    by simp
next
  case (Replica_Dequeue ops sm now timeout)
  then show ?case using SM_Dequeue_local [of sm now timeout] by simp
next
  case (Replica_Requeue ops sm ord)
  then show ?case using RequeueInFlight_local [of sm ord] by simp
next
  case (Replica_Restore ops src ord bs old sm sm')
  have sm': "sm' = restoreState (snapshotOf ord src) sm"
    using Restore_snapshot [OF assms(2) Replica_Restore(3,5)] by simp
  have ok: "snap_ok (snapshotOf ord src)" using snapshotOf_ok(1) Replica_Restore by blast
  show ?case using restoreState_ok(1,3) [OF _ ok] snapshot_restore [of src ord sm] Replica_Restore
    unfolding sm' by (simp add: shared_view_def)
qed

end
