(* ===== verification/Replica_Properties.thy ===== *)
theory Replica_Properties
  imports Replica_Invariants Sample_Codec
begin

text \<open>
  What the replicated queue promises: replicas that applied the same operations agree, a snapshot
  carries the queue over, a new leader can hand out every live task again, and delivery finds
  every pending task unless an ID was enqueued again too early.
\<close>

section \<open>A concrete snapshot codec\<close>

fun enc_tasks :: "Task list \<Rightarrow> byte list" where
  "enc_tasks [] = []"
| "enc_tasks (t # ts) = enc_bytes (sample_encode t) @ enc_tasks ts"

fun dec_tasks :: "nat \<Rightarrow> byte list \<Rightarrow> (Task list \<times> byte list) option" where
  "dec_tasks 0 bs = Some ([], bs)"
| "dec_tasks (Suc n) bs =
     Option.bind (dec_bytes bs) (\<lambda>(x, bs).
     Option.bind (sample_decode x) (\<lambda>t.
     Option.bind (dec_tasks n bs) (\<lambda>(ts, bs). Some (t # ts, bs))))"

definition sample_snap :: snapCodec where
  "sample_snap =
     \<lparr>snap_encode = (\<lambda>st. Some (enc_nat (length (ssTasks st)) @ enc_tasks (ssTasks st) @
        enc_nat (length (ssDLQ st)) @ enc_tasks (ssDLQ st) @ enc_int (ssAcked st))),
      snap_decode = (\<lambda>bs.
        Option.bind (dec_nat bs) (\<lambda>(n, bs).
        Option.bind (dec_tasks n bs) (\<lambda>(ts, bs).
        Option.bind (dec_nat bs) (\<lambda>(m, bs).
        Option.bind (dec_tasks m bs) (\<lambda>(ds, bs).
        Option.bind (dec_int bs) (\<lambda>(k, bs).
          Some \<lparr>ssTasks = ts, ssDLQ = ds, ssAcked = k\<rparr>))))))\<rparr>"

lemma dec_enc_tasks [simp]: "dec_tasks (length ts) (enc_tasks ts @ bs) = Some (ts, bs)"
  by (induction ts) (simp_all add: sample_roundtrip)

lemma snap_roundtrip_sample: "snap_roundtrip sample_snap"
  unfolding snap_roundtrip_def
proof
  fix st :: snapshotState
  show "\<exists>bs. snap_encode sample_snap st = Some bs \<and> snap_decode sample_snap bs = Some st"
    using dec_enc_int [of "ssAcked st" "[]"] by (simp add: sample_snap_def)
qed

section \<open>Agreement\<close>

definition op_enqueue :: "Task \<Rightarrow> QueueOp" where
  "op_enqueue t = \<lparr>qType = OpEnqueue, qTask = Some t, qTaskID = []\<rparr>"


definition op_nack :: "string \<Rightarrow> QueueOp" where
  "op_nack tid = \<lparr>qType = OpNack, qTask = None, qTaskID = tid\<rparr>"

definition ex_rtask :: "string \<Rightarrow> int \<Rightarrow> Task" where
  "ex_rtask tid p = \<lparr>ID = tid, Payload = [], Priority = p, Status = Pending, RetryCount = 0, CreatedAt = 0, Deadline = 0\<rparr>"

text \<open>
  Two replicas that applied the same sequence of operations hold the same live tasks, the
  same dead-letter queue and the same acked count, whatever they delivered, requeued or restored
  from snapshots of each other on the way, and applying one more operation keeps it so.
\<close>

theorem replicas_agree:
  assumes "snap_roundtrip C" and "replica C n ops sm1" and "replica C n ops sm2"
  shows "vTasks (sm_view sm1) = vTasks (sm_view sm2) \<and> vDlq (sm_view sm1) = vDlq (sm_view sm2) \<and>
    smAcked sm1 = smAcked sm2 \<and> shared_view (sm_view (Apply op sm1)) = shared_view (sm_view (Apply op sm2))"
proof -
  have "shared_view (sm_view sm1) = shared_view (sm_view sm2)"
    using replica_ok [OF assms(2,1)] replica_ok [OF assms(3,1)] by simp
  then have "vTasks (sm_view sm1) = vTasks (sm_view sm2) \<and> vDlq (sm_view sm1) = vDlq (sm_view sm2) \<and>
      smAcked sm1 = smAcked sm2"
    by (simp add: shared_view_def sm_view_def)
  moreover have "shared_view (sm_view (Apply op sm1)) = shared_view (sm_view (Apply op sm2))"
    using replica_ok [OF Replica_Apply [OF assms(2)] assms(1)] replica_ok [OF Replica_Apply [OF assms(3)] assms(1)] by simp
  ultimately show ?thesis by blast
qed

text \<open>A leader that enqueued and delivered a task, and a follower that only applied the enqueue.\<close>

definition ex_leader :: StateMachine where
  "ex_leader = snd (SM_Dequeue 5 30 (Apply (op_enqueue (ex_rtask ''a'' 1)) (NewStateMachine 3)))"

definition ex_follower :: StateMachine where
  "ex_follower = Apply (op_enqueue (ex_rtask ''a'' 1)) (NewStateMachine 3)"

lemma ex_replicas:
  "replica sample_snap 3 [op_enqueue (ex_rtask ''a'' 1)] ex_leader"
  "replica sample_snap 3 [op_enqueue (ex_rtask ''a'' 1)] ex_follower"
proof -
  have "replica sample_snap 3 ([] @ [op_enqueue (ex_rtask ''a'' 1)]) ex_follower"
    unfolding ex_follower_def by (intro replica.intros)
  then show F: "replica sample_snap 3 [op_enqueue (ex_rtask ''a'' 1)] ex_follower" by simp
  show "replica sample_snap 3 [op_enqueue (ex_rtask ''a'' 1)] ex_leader"
    unfolding ex_leader_def ex_follower_def [symmetric] by (rule Replica_Dequeue [OF F])
qed

theorem replicas_agree_witness:
  "smAcked ex_leader = smAcked ex_follower \<and>
   shared_view (sm_view (Apply (op_nack ''a'') ex_leader)) = shared_view (sm_view (Apply (op_nack ''a'') ex_follower))"
  using replicas_agree [OF snap_roundtrip_sample ex_replicas, of "op_nack ''a''"] by blast

text \<open>
  C13: On a replica, applying an operation to the pointer-based state is the specified operation on
  the replicated view: an enqueue adds a new ID and ignores a known one, an ack removes the task
  and counts, a nack counts a retry and moves the task to the dead-letter queue once the retries
  reach the limit; delivery and requeueing do not change the view.
\<close>

theorem apply_refines_view:
  assumes "snap_roundtrip C" and "replica C n ops sm" and "map_order ord"
  shows "sm_view (Apply op sm) = applyView n op (sm_view sm) \<and>
    sm_view (snd (SM_Dequeue now timeout sm)) = sm_view sm \<and>
    sm_view (RequeueInFlight ord sm) = sm_view sm"
proof -
  have inv: "sm_invar sm" "smMaxRetries sm = n" using replica_ok [OF assms(2,1)] by simp_all
  then have "live_ok sm" "dlq_ok sm" by (simp_all add: sm_invar_def)
  with inv Apply_view [of sm op] SM_Dequeue_local [OF inv(1), of now timeout] RequeueInFlight_local(2) [OF inv(1) assms(3)]
  show ?thesis by simp
qed

theorem apply_refines_view_witness:
  "sm_view (Apply (op_nack ''a'') ex_leader) = applyView 3 (op_nack ''a'') (sm_view ex_leader)"
  using apply_refines_view [OF snap_roundtrip_sample ex_replicas(1) map_order_id] by blast

section \<open>Snapshots\<close>

text \<open>
  C21: A snapshot taken on one replica and restored on another carries over the live tasks, the
  dead-letter queue and the acked count, and makes every live task deliverable; the nacked count
  stays the receiver's own, because the snapshot does not contain it.
\<close>

theorem snapshot_carries_queue:
  assumes "snap_roundtrip C" and "replica C n ops src" and "replica C n old sm" and "map_order ord"
  shows "\<exists>bs sm'. Snapshot C ord src = Some bs \<and> Restore C bs sm = (False, sm') \<and>
    sm_view sm' = (sm_view src)\<lparr>vNacked := smNacked sm\<rparr> \<and> sm_invar sm' \<and> stale_free sm'"
proof -
  have inv: "sm_invar src" "sm_invar sm" using replica_ok assms by blast+
  obtain bs where bs: "Snapshot C ord src = Some bs"
    using assms(1) unfolding Snapshot_def snap_roundtrip_def by blast
  obtain err sm' where R: "Restore C bs sm = (err, sm')" by fastforce
  have eq: "\<not> err" "sm' = restoreState (snapshotOf ord src) sm" using Restore_snapshot [OF assms(1) bs R] by simp_all
  have ok: "snap_ok (snapshotOf ord src)" by (rule snapshotOf_ok(1) [OF inv(1) assms(4)])
  have "sm_view sm' = (sm_view src)\<lparr>vNacked := smNacked sm\<rparr>" "sm_invar sm'" "stale_free sm'"
    unfolding eq(2) using snapshot_restore [OF inv(1) assms(4) inv(2)] restoreState_ok(1,2) [OF inv(2) ok] by simp_all
  with bs R eq(1) show ?thesis by (intro exI [of _ bs] exI [of _ sm']) simp
qed

theorem snapshot_carries_queue_witness:
  "\<exists>bs sm'. Snapshot sample_snap (\<lambda>m. m) ex_leader = Some bs \<and> Restore sample_snap bs (NewStateMachine 3) = (False, sm') \<and>
    sm_view sm' = (sm_view ex_leader)\<lparr>vNacked := smNacked (NewStateMachine 3)\<rparr> \<and> sm_invar sm' \<and> stale_free sm'"
  by (rule snapshot_carries_queue [OF snap_roundtrip_sample ex_replicas(1) Replica_New map_order_id])

section \<open>Delivery\<close>


lemma ex_follower_ok: "sm_invar ex_follower" "stale_free ex_follower"
proof -
  have "clean_op (op_enqueue (ex_rtask ''a'' 1)) (NewStateMachine 3)"
    by (simp add: clean_op_def op_enqueue_def NewStateMachine_def)
  then show "stale_free ex_follower"
    unfolding ex_follower_def by (rule Apply_stale_free [OF NewStateMachine_invar NewStateMachine_stale_free])
  show "sm_invar ex_follower" unfolding ex_follower_def by (rule Apply_invar [OF NewStateMachine_invar])
qed


text \<open>
  Delivery keeps working under acks, nacks, requeueing and enqueues of IDs
  that are live already or have no pointer left in the heap, and the invariant holds throughout.
\<close>

theorem clean_ops_keep_delivery:
  assumes "sm_invar sm" and "stale_free sm" and "clean_op op sm" and "map_order ord"
  shows "sm_invar (Apply op sm) \<and> stale_free (Apply op sm) \<and>
    sm_invar (RequeueInFlight ord sm) \<and> stale_free (RequeueInFlight ord sm)"
  using Apply_invar [OF assms(1)] Apply_stale_free [OF assms(1-3)]
    RequeueInFlight_local(1) [OF assms(1,4)] RequeueInFlight_stale_free [OF assms(1,2,4)] by blast

theorem clean_ops_keep_delivery_witness:
  "stale_free (Apply (op_enqueue (ex_rtask ''b'' 2)) ex_follower) \<and> stale_free (RequeueInFlight rev ex_follower)"
proof -
  have "ID (deref ex_follower 0) = ''a''" "smPq ex_follower = [0]"
    by code_simp+
  then have "''b'' \<notin> set (heap_ids ex_follower)" by (simp add: heap_ids_def)
  then have "map_of (smInHeap ex_follower) ''b'' \<noteq> Some True" using ex_follower_ok(1) by (simp add: sm_invar_def heap_ok_def)
  then have "clean_op (op_enqueue (ex_rtask ''b'' 2)) ex_follower"
    by (simp add: clean_op_def op_enqueue_def ex_rtask_def)
  with clean_ops_keep_delivery [OF ex_follower_ok _ map_order_rev] show ?thesis by blast
qed

text \<open>
  A node that becomes leader puts every live task back: after requeueing, the pending tasks are
  exactly the live ones, each of them is in the heap, and the replicated view is unchanged.
\<close>

theorem new_leader_requeues_all:
  assumes "sm_invar sm" and "stale_free sm" and "map_order ord"
  shows "pendingPtrs (RequeueInFlight ord sm) = snd ` set (smTasks sm) \<and>
    snd ` set (smTasks sm) \<subseteq> set (smPq (RequeueInFlight ord sm)) \<and>
    sm_view (RequeueInFlight ord sm) = sm_view sm"
  using RequeueInFlight_pending [OF assms(1,3)] RequeueInFlight_stale_free [OF assms]
    RequeueInFlight_local(2) [OF assms(1,3)] by (simp add: stale_free_def)

theorem new_leader_requeues_all_witness:
  "pendingPtrs (RequeueInFlight rev ex_follower) = snd ` set (smTasks ex_follower) \<and>
   snd ` set (smTasks ex_follower) \<subseteq> set (smPq (RequeueInFlight rev ex_follower)) \<and>
   sm_view (RequeueInFlight rev ex_follower) = sm_view ex_follower"
  by (rule new_leader_requeues_all [OF ex_follower_ok map_order_rev])


end
