(* ===== verification/Sample_Run.thy ===== *)
theory Sample_Run
  imports Raft_Delivery Raft_Properties Replica_Properties
begin

text \<open>
  A whole run of a cluster of two, for the examples of the development: a leader takes an operation,
  replicates and commits it, and both nodes hand it to their state machines.
\<close>

section \<open>A codec for operations\<close>

definition sample_op :: opCodec where
  "sample_op =
     \<lparr>op_encode = (\<lambda>op. Some (qType op # (case qTask op of None \<Rightarrow> [0] | Some t \<Rightarrow> 1 # enc_bytes (sample_encode t)) @ str_bytes (qTaskID op))),
      op_decode = (\<lambda>bs. case bs of
         ty # b # r \<Rightarrow>
           (if b = 0 then Some \<lparr>qType = ty, qTask = None, qTaskID = bytes_str r\<rparr>
            else Option.bind (dec_bytes r) (\<lambda>(x, r). Option.bind (sample_decode x) (\<lambda>t.
              Some \<lparr>qType = ty, qTask = Some t, qTaskID = bytes_str r\<rparr>)))
       | _ \<Rightarrow> None)\<rparr>"

lemma op_roundtrip_sample: "op_roundtrip sample_op"
  unfolding op_roundtrip_def EncodeOp_def DecodeOp_def sample_op_def
  by (auto simp: sample_roundtrip split: option.splits)

section \<open>The handlers' results\<close>

definition ex_op :: QueueOp where
  "ex_op = op_enqueue (ex_rtask ''x'' 1)"

definition ex_cmd :: "byte list" where
  "ex_cmd = the (EncodeOp sample_op ex_op)"

definition ex_proposed :: "(int \<times> int \<times> bool) \<times> Node" where
  "ex_proposed = the (okR (Propose sample_ps (ex_renv 8) ex_cmd (snd ex_win)))"

definition appendArgs :: "sendAction \<Rightarrow> AppendEntriesArgs option" where
  "appendArgs a = (case a of SendAppend args \<Rightarrow> Some args | _ \<Rightarrow> None)"

definition ex_args1 :: AppendEntriesArgs where
  "ex_args1 = the (appendArgs (the (okR (sendAppendEntries ''b'' (snd ex_proposed)))))"

definition ex_stored :: "AppendEntriesReply \<times> Node" where
  "ex_stored = the (okR (HandleAppendEntries sample_ps (ex_renv 9) ex_args1 (snd ex_vote)))"

definition ex_committed :: "bool \<times> Node" where
  "ex_committed = the (okR (handleAppendReply sample_ps (ex_renv 10) ''b'' ex_args1 (fst ex_stored) (snd ex_proposed)))"

definition ex_msgs :: "ApplyMsg list" where
  "ex_msgs = [ApplyCommand None 1 1, ApplyCommand (Some ex_cmd) 2 1]"

definition ex_leader_node :: Node where
  "ex_leader_node = applierSent 2 (applierSent 1 (snd ex_committed))"

definition ex_args2 :: AppendEntriesArgs where
  "ex_args2 = the (appendArgs (the (okR (sendAppendEntries ''b'' ex_leader_node))))"

definition ex_stored2 :: "AppendEntriesReply \<times> Node" where
  "ex_stored2 = the (okR (HandleAppendEntries sample_ps (ex_renv 11) ex_args2 (snd ex_stored)))"

definition ex_follower_node :: Node where
  "ex_follower_node = applierSent 2 (applierSent 1 (snd ex_stored2))"

lemma ex_runs2:
  "Propose sample_ps (ex_renv 8) ex_cmd (snd ex_win) = Ok ((2, 1, True), snd ex_proposed)"
  "sendAppendEntries ''b'' (snd ex_proposed) = Ok (SendAppend ex_args1)"
  "HandleAppendEntries sample_ps (ex_renv 9) ex_args1 (snd ex_vote) = Ok ex_stored"
  "handleAppendReply sample_ps (ex_renv 10) ''b'' ex_args1 (fst ex_stored) (snd ex_proposed) = Ok ex_committed"
  "applier (snd ex_committed) = Ok (ApplierSend ex_msgs, snd ex_committed)"
  "sendAppendEntries ''b'' ex_leader_node = Ok (SendAppend ex_args2)"
  "HandleAppendEntries sample_ps (ex_renv 11) ex_args2 (snd ex_stored) = Ok ex_stored2"
  "applier (snd ex_stored2) = Ok (ApplierSend ex_msgs, snd ex_stored2)"
  "cPeers (nCfg (snd ex_proposed)) = [''b'']" "cPeers (nCfg ex_leader_node) = [''b'']"
  "aeLeaderID ex_args1 = ''a''"
  by code_simp+

section \<open>The states of the cluster\<close>

definition ex_c1 :: cluster where "ex_c1 = setPeer ''a'' (Up (snd ex_proposed)) ex_led"
definition ex_c2 :: cluster where "ex_c2 = sendAppend ''b'' (SendAppend ex_args1) ex_c1"
definition ex_c3 :: cluster where
  "ex_c3 = (setPeer ''b'' (Up (snd ex_stored)) ex_c2)\<lparr>clAppendReps := insert (''b'', ex_args1, fst ex_stored) (clAppendReps ex_c2)\<rparr>"
definition ex_c4 :: cluster where "ex_c4 = setPeer ''a'' (Up (snd ex_committed)) ex_c3"
definition ex_c5 :: cluster where "ex_c5 = outbox ''a'' (ApplierSend ex_msgs, snd ex_committed) ex_c4"
definition ex_c6 :: cluster where "ex_c6 = handOver ''a'' (ApplyCommand None 1 1) (tl ex_msgs) (snd ex_committed) ex_c5"
definition ex_c7 :: cluster where
  "ex_c7 = handOver ''a'' (ApplyCommand (Some ex_cmd) 2 1) [] (applierSent 1 (snd ex_committed)) ex_c6"
definition ex_c8 :: cluster where "ex_c8 = sendAppend ''b'' (SendAppend ex_args2) ex_c7"
definition ex_c9 :: cluster where
  "ex_c9 = (setPeer ''b'' (Up (snd ex_stored2)) ex_c8)\<lparr>clAppendReps := insert (''b'', ex_args2, fst ex_stored2) (clAppendReps ex_c8)\<rparr>"
definition ex_c10 :: cluster where "ex_c10 = outbox ''b'' (ApplierSend ex_msgs, snd ex_stored2) ex_c9"
definition ex_c11 :: cluster where "ex_c11 = handOver ''b'' (ApplyCommand None 1 1) (tl ex_msgs) (snd ex_stored2) ex_c10"
definition ex_c12 :: cluster where
  "ex_c12 = handOver ''b'' (ApplyCommand (Some ex_cmd) 2 1) [] (applierSent 1 (snd ex_stored2)) ex_c11"

lemmas ex_c_defs = ex_c1_def ex_c2_def ex_c3_def ex_c4_def ex_c5_def ex_c6_def ex_c7_def ex_c8_def ex_c9_def ex_c10_def ex_c11_def ex_c12_def

lemma ex_members_in: "''a'' \<in> set ex_members" "''b'' \<in> set ex_members"
  by (simp_all add: ex_members_def)

lemma ex_led_sel:
  "clPeer ex_led ''a'' = Up (snd ex_win)" "clPeer ex_led ''b'' = Up (snd ex_vote)" "clAppends ex_led = {}" "clAppendReps ex_led = {}"
  "clInstalls ex_led = {}" "clOutbox ex_led i = []" "clApplied ex_led i = []"
  by (simp_all add: ex_led_def ex_voted_def ex_running_def elect_def ex_started_def raft_init_def setPeer_def)

lemma ex_committed_sel: "clPeer ex_c1 ''a'' = Up (snd ex_proposed)" "clPeer ex_c2 ''b'' = Up (snd ex_vote)" "clPeer ex_c3 ''a'' = Up (snd ex_proposed)"
  "clPeer ex_c4 ''a'' = Up (snd ex_committed)" "clPeer ex_c5 ''a'' = Up (snd ex_committed)" "clPeer ex_c6 ''a'' = Up (applierSent 1 (snd ex_committed))"
  "(''b'', ex_args1) \<in> clAppends ex_c2" "(''b'', ex_args1, fst ex_stored) \<in> clAppendReps ex_c3"
  "clOutbox ex_c4 ''a'' = []" "clOutbox ex_c5 ''a'' = ex_msgs" "clOutbox ex_c6 ''a'' = tl ex_msgs"
  by (simp_all add: ex_c_defs ex_led_sel sendAppend_def outbox_def handOver_def setPeer_def)

lemma ex_applied_sel: "clPeer ex_c7 ''a'' = Up ex_leader_node" "clPeer ex_c8 ''b'' = Up (snd ex_stored)" "clPeer ex_c9 ''b'' = Up (snd ex_stored2)"
  "clPeer ex_c10 ''b'' = Up (snd ex_stored2)" "clPeer ex_c11 ''b'' = Up (applierSent 1 (snd ex_stored2))"
  "(''b'', ex_args2) \<in> clAppends ex_c8" "clOutbox ex_c9 ''b'' = []" "clOutbox ex_c10 ''b'' = ex_msgs" "clOutbox ex_c11 ''b'' = tl ex_msgs"
  by (simp_all add: ex_c_defs ex_led_sel sendAppend_def outbox_def handOver_def setPeer_def ex_leader_node_def)

lemma ex_c12_sel: "clPeer ex_c12 ''a'' = Up ex_leader_node" "clPeer ex_c12 ''b'' = Up ex_follower_node"
  "clApplied ex_c12 ''a'' = ex_msgs" "clApplied ex_c12 ''b'' = ex_msgs" "clApplied ex_c7 ''a'' = ex_msgs"
  by (simp_all add: ex_c_defs ex_led_sel sendAppend_def outbox_def handOver_def setPeer_def ex_leader_node_def ex_follower_node_def ex_msgs_def)

abbreviation ex_step :: "cluster \<Rightarrow> cluster \<Rightarrow> bool" where
  "ex_step \<equiv> node_step sample_ps ex_members ex_rcfg"

lemma ex_steps:
  "ex_step ex_led ex_c1" "ex_step ex_c1 ex_c2" "ex_step ex_c2 ex_c3" "ex_step ex_c3 ex_c4"
  "ex_step ex_c4 ex_c5" "ex_step ex_c5 ex_c6" "ex_step ex_c6 ex_c7" "ex_step ex_c7 ex_c8"
  "ex_step ex_c8 ex_c9" "ex_step ex_c9 ex_c10" "ex_step ex_c10 ex_c11" "ex_step ex_c11 ex_c12"
proof -
  note m = ex_members_in and L = ex_committed_sel and F = ex_applied_sel and R = ex_runs2
  show "ex_step ex_led ex_c1"
    using Proposal [OF m(1) ex_led_sel(1), of sample_ps ex_rcfg "ex_renv 8" ex_cmd] R(1) by (simp add: settle_def ex_c1_def)
  show "ex_step ex_c1 ex_c2"
    using Send [OF m(1) L(1), of "''b''" sample_ps ex_rcfg] R(2,9) by (simp add: settle_def ex_c2_def)
  show "ex_step ex_c2 ex_c3"
    using AppendRequest [OF m(2) L(2,7), of sample_ps ex_rcfg "ex_renv 9"] R(3) by (simp add: settle_def ex_c3_def split_beta)
  show "ex_step ex_c3 ex_c4"
    using AppendReply [OF m(1) L(3,8) R(11), of sample_ps ex_rcfg "ex_renv 10"] R(4) by (simp add: settle_def ex_c4_def split_beta)
  show "ex_step ex_c4 ex_c5"
    using Applier [OF m(1) L(4,9), of sample_ps ex_rcfg] R(5) by (simp add: settle_def ex_c5_def)
  show "ex_step ex_c5 ex_c6"
    using HandOver [OF m(1) L(5), of "ApplyCommand None 1 1" "tl ex_msgs" sample_ps ex_rcfg] L(10) by (simp add: ex_c6_def ex_msgs_def)
  show "ex_step ex_c6 ex_c7"
    using HandOver [OF m(1) L(6), of "ApplyCommand (Some ex_cmd) 2 1" "[]" sample_ps ex_rcfg] L(11) by (simp add: ex_c7_def ex_msgs_def)
  show "ex_step ex_c7 ex_c8"
    using Send [OF m(1) F(1), of "''b''" sample_ps ex_rcfg] R(6,10) by (simp add: settle_def ex_c8_def)
  show "ex_step ex_c8 ex_c9"
    using AppendRequest [OF m(2) F(2,6), of sample_ps ex_rcfg "ex_renv 11"] R(7) by (simp add: settle_def ex_c9_def split_beta)
  show "ex_step ex_c9 ex_c10"
    using Applier [OF m(2) F(3,7), of sample_ps ex_rcfg] R(8) by (simp add: settle_def ex_c10_def)
  show "ex_step ex_c10 ex_c11"
    using HandOver [OF m(2) F(4), of "ApplyCommand None 1 1" "tl ex_msgs" sample_ps ex_rcfg] F(8) by (simp add: ex_c11_def ex_msgs_def)
  show "ex_step ex_c11 ex_c12"
    using HandOver [OF m(2) F(5), of "ApplyCommand (Some ex_cmd) 2 1" "[]" sample_ps ex_rcfg] F(9) by (simp add: ex_c12_def ex_msgs_def)
qed

lemmas ex_raft_steps = ex_steps [THEN Node_Step]

lemma ex_run_c12:
  "(raft_step sample_ps ex_members ex_rcfg)\<^sup>*\<^sup>* ex_c1 ex_c7" "(raft_step sample_ps ex_members ex_rcfg)\<^sup>*\<^sup>* ex_c7 ex_c12"
proof -
  note S = ex_raft_steps
  show "(raft_step sample_ps ex_members ex_rcfg)\<^sup>*\<^sup>* ex_c1 ex_c7"
    using S(2-7) by (meson converse_rtranclp_into_rtranclp rtranclp.rtrancl_refl)
  show "(raft_step sample_ps ex_members ex_rcfg)\<^sup>*\<^sup>* ex_c7 ex_c12"
    using S(8-12) by (meson converse_rtranclp_into_rtranclp rtranclp.rtrancl_refl)
qed

end
