(* ===== verification/Client_Properties.thy ===== *)
theory Client_Properties
  imports Failover_Client Worker_Loop Raft_Rpc Broker_Command Broker_Properties Sample_Run
begin

text \<open>
  What the outer parts promise: tasks and Raft messages on the wire, the failover client, the
  worker and the broker command's configuration.
\<close>

section \<open>Tasks on the wire\<close>

text \<open>
  C26: A task that goes out over gRPC and comes back keeps its ID, payload and creation time, and is
  the task it was (pending, without a deadline) exactly if its priority and its retry count are
  32-bit numbers; otherwise they come back wrapped. What comes in is always in that range, so a
  task is changed only if its retries or priority grew beyond it inside the broker.
\<close>

theorem task_wire_bounds:
  assumes "ts_roundtrip L" and "ts_fits (CreatedAt t)"
  shows "fromProto L (toProto L t) = (task_core t)\<lparr>Priority := wrap32 (Priority t), RetryCount := wrap32 (RetryCount t)\<rparr> \<and>
    (fromProto L (toProto L t) = task_core t \<longleftrightarrow>
       - (2 ^ 31) \<le> Priority t \<and> Priority t < 2 ^ 31 \<and> - (2 ^ 31) \<le> RetryCount t \<and> RetryCount t < 2 ^ 31) \<and>
    - (2 ^ 31) \<le> Priority (fromProto L p) \<and> Priority (fromProto L p) < 2 ^ 31 \<and>
    - (2 ^ 31) \<le> RetryCount (fromProto L p) \<and> RetryCount (fromProto L p) < 2 ^ 31"
proof -
  note R = fromProto_toProto [OF assms]
  have "fromProto L (toProto L t) = task_core t \<longleftrightarrow> wrap32 (Priority t) = Priority t \<and> wrap32 (RetryCount t) = RetryCount t"
    unfolding R by (cases t) (auto simp: task_core_def)
  then show ?thesis using R fromProto_bounds [of L p] by (simp add: wrap32_id_iff)
qed

text \<open>A sample of the timestamp library: seconds and nanoseconds.\<close>

definition sample_ts :: tsLib where
  "sample_ts =
     \<lparr>ts_New = (\<lambda>t. \<lparr>tsSeconds = word_of_int (t div 10 ^ 9), tsNanos = word_of_int (t mod 10 ^ 9)\<rparr>),
      ts_AsTime = (\<lambda>ts. sint (tsSeconds ts) * 10 ^ 9 + sint (tsNanos ts))\<rparr>"

lemma ts_roundtrip_sample: "ts_roundtrip sample_ts"
proof -
  have "wrap32 (t mod 1000000000) = t mod 1000000000" for t :: int
    using pos_mod_bound [of 1000000000 t] pos_mod_sign [of 1000000000 t] by (simp add: wrap32_id_iff del: pos_mod_bound pos_mod_sign)
  then show ?thesis
    by (auto simp: ts_roundtrip_def ts_fits_def sample_ts_def sint_word64 sint_word32 div_mult_mod_eq)
qed

definition ex_wire_task :: Task where
  "ex_wire_task = \<lparr>ID = ''t'', Payload = [1], Priority = 2 ^ 31, Status = InFlight, RetryCount = 3, CreatedAt = 7, Deadline = 9\<rparr>"

theorem task_wire_bounds_witness:
  "fromProto sample_ts (toProto sample_ts ex_wire_task) \<noteq> task_core ex_wire_task \<and>
   Priority (fromProto sample_ts (toProto sample_ts ex_wire_task)) = - (2 ^ 31)"
  using task_wire_bounds [OF ts_roundtrip_sample, of ex_wire_task "toProto sample_ts ex_wire_task"]
  by (simp add: ex_wire_task_def ts_fits_def fits64_def wrap32_def task_core_def)

section \<open>Raft messages on the wire\<close>













section \<open>Failover\<close>

lemma trim_stable:
  assumes "addr \<noteq> []" and "\<not> isSpace (hd addr)" and "\<not> isSpace (last addr)"
  shows "trimSpace addr = addr"
proof -
  have "dropWhile isSpace addr = addr" using assms(1,2) by (cases addr) simp_all
  moreover have "dropWhile isSpace (rev addr) = rev addr" using assms(1,3) by (cases "rev addr") (simp_all add: hd_rev [symmetric])
  ultimately show ?thesis by (simp add: trimSpace_def)
qed

text \<open>
  What a node that is not leader tells a client is what the failover client reads from it: the
  client address of the leader that the node believes in, if the node knows both, and no hint
  otherwise. An address is read back whole if it is not empty and has no space at its ends,
  whatever else it contains.
\<close>

theorem redirect_read_back:
  assumes "\<And>addr. map_of (ccClientAddrs (csCfg s)) (LeaderHint (csNode s)) = Some addr \<Longrightarrow>
      addr \<noteq> [] \<and> \<not> isSpace (hd addr) \<and> \<not> isSpace (last addr)"
  shows "rsCode (redirect s) = FailedPrecondition \<and>
    leaderHint (redirect s) =
      (if LeaderHint (csNode s) = [] then []
       else case map_of (ccClientAddrs (csCfg s)) (LeaderHint (csNode s)) of None \<Rightarrow> [] | Some addr \<Rightarrow> addr)"
proof -
  have known: "leaderHint (statusError FailedPrecondition (''not leader; leader='' @ addr)) = trimSpace addr" for addr
    by (simp add: leaderHint_def statusError_def)
  have unknown: "leaderHint (statusError FailedPrecondition ''not leader; leader unknown'') = []"
    by (simp add: leaderHint_def statusError_def)
  show ?thesis
    using assms known unknown trim_stable
    by (cases "map_of (ccClientAddrs (csCfg s)) (LeaderHint (csNode s))")
      (auto simp: redirect_def Let_def statusError_def)
qed

definition ex_cluster_server :: ClusterServer where
  "ex_cluster_server = NewClusterServer (ex_follower_node) (NewStateMachine 3)
     \<lparr>ccTaskTimeout = 30, ccMaxRetries = 3, ccSnapshotThreshold = 0,
      ccClientAddrs = [(''a'', ''10.0.0.1:5000''), (''b'', ''10.0.0.2:5000'')], ccScanInterval = 1\<rparr>"

lemma ex_redirect:
  "LeaderHint (csNode ex_cluster_server) = ''a''" "map_of (ccClientAddrs (csCfg ex_cluster_server)) ''a'' = Some ''10.0.0.1:5000''"
  by code_simp+

theorem redirect_read_back_witness: "leaderHint (redirect ex_cluster_server) = ''10.0.0.1:5000''"
  using redirect_read_back [of ex_cluster_server] by (simp add: ex_redirect isSpace_def)

text \<open>The state of the client stays usable: it always points at one of its addresses.\<close>

definition failover_ok :: "Failover \<Rightarrow> bool" where
  "failover_ok f \<longleftrightarrow> fCur f < length (fAddrs f)"

lemma indexOf_Some: "indexOf a xs = Some i \<Longrightarrow> i < length xs \<and> xs ! i = a"
  by (induction xs arbitrary: i) (auto split: if_splits)

lemma indexOf_None: "indexOf a xs = None \<longleftrightarrow> a \<notin> set xs"
  by (induction xs) auto

lemma advance_ok:
  assumes "failover_ok f"
  shows "\<exists>f'. advance h f = Some f' \<and> failover_ok f' \<and> set (fAddrs f) \<subseteq> set (fAddrs f') \<and>
    (h \<noteq> [] \<longrightarrow> fAddrs f' ! fCur f' = h) \<and> (h = [] \<longrightarrow> fAddrs f' = fAddrs f \<and> fCur f' = (fCur f + 1) mod length (fAddrs f)) \<and>
    (h \<in> set (fAddrs f) \<longrightarrow> fAddrs f' = fAddrs f)"
  using assms indexOf_Some [of h "fAddrs f"] indexOf_None [of h "fAddrs f"]
  by (auto simp: advance_def failover_ok_def Let_def split: option.splits)

lemma current_ok:
  assumes "failover_ok f"
  shows "\<exists>r f'. current dial f = Some (r, f') \<and> failover_ok f' \<and> fAddrs f' = fAddrs f \<and> fCur f' = fCur f \<and>
    (\<forall>a. r = Inr a \<longrightarrow> a = fAddrs f ! fCur f) \<and> (dial (fAddrs f ! fCur f) = None \<longrightarrow> r = Inr (fAddrs f ! fCur f))"
  using assms by (auto simp: current_def failover_ok_def Let_def split: option.splits)

lemma doLoop_total:
  "failover_ok f \<Longrightarrow> \<exists>r f'. doLoop W k attempt e f = Some (r, f') \<and> failover_ok f' \<and> set (fAddrs f) \<subseteq> set (fAddrs f') \<and>
     (\<forall>v. r = Inr v \<longrightarrow> (\<exists>j < k. \<exists>addr \<in> set (fAddrs f'). netRpc W (attempt + j) addr = Inr v)) \<and>
     (r = Inl None \<longrightarrow> k = 0 \<and> e = None)"
proof (induction k arbitrary: attempt e f)
  case (Suc k)
  obtain r1 f1 where c: "current (netDial W attempt) f = Some (r1, f1)" "failover_ok f1" "fAddrs f1 = fAddrs f" "fCur f1 = fCur f"
    "\<forall>a. r1 = Inr a \<longrightarrow> a = fAddrs f ! fCur f"
    using current_ok [OF Suc.prems] by metis
  have cur: "fAddrs f ! fCur f \<in> set (fAddrs f)" using Suc.prems by (simp add: failover_ok_def)
  have go: "\<exists>r f'. (case advance h f1 of None \<Rightarrow> None | Some f2 \<Rightarrow> if b f2 then Some (Inl (Some CtxError), f2) else doLoop W k (Suc attempt) (Some e') f2) = Some (r, f') \<and>
      failover_ok f' \<and> set (fAddrs f) \<subseteq> set (fAddrs f') \<and>
      (\<forall>v. r = Inr v \<longrightarrow> (\<exists>j < Suc k. \<exists>addr \<in> set (fAddrs f'). netRpc W (attempt + j) addr = Inr v)) \<and> r \<noteq> Inl None" for h e' b
  proof -
    obtain f2 where f2: "advance h f1 = Some f2" "failover_ok f2" "set (fAddrs f1) \<subseteq> set (fAddrs f2)" using advance_ok [OF c(2)] by blast
    obtain r f' where d: "doLoop W k (Suc attempt) (Some e') f2 = Some (r, f')" "failover_ok f'" "set (fAddrs f2) \<subseteq> set (fAddrs f')"
        "\<forall>v. r = Inr v \<longrightarrow> (\<exists>j < k. \<exists>addr \<in> set (fAddrs f'). netRpc W (Suc attempt + j) addr = Inr v)" "r \<noteq> Inl None"
      using Suc.IH [OF f2(2), of "Suc attempt" "Some e'"] by (metis option.distinct(1))
    have "\<exists>j < Suc k. \<exists>addr \<in> set (fAddrs f'). netRpc W (attempt + j) addr = Inr v" if v: "r = Inr v" for v
    proof -
      obtain j addr where j: "j < k" "addr \<in> set (fAddrs f')" "netRpc W (Suc attempt + j) addr = Inr v" using d(4) v by blast
      show ?thesis using j by (intro exI [of _ "Suc j"]) auto
    qed
    then show ?thesis using f2 d c(3) by (cases "b f2") auto
  qed
  show ?case
  proof (cases "netDone W attempt")
    case True
    then show ?thesis using Suc.prems by auto
  next
    case False
    show ?thesis
    proof (cases r1)
      case (Inl x)
      then show ?thesis using False c(1) go [where h = "[]" and b = "\<lambda>_. False" and e' = "DialFailed x", unfolded if_False] by simp
    next
      case (Inr addr)
      then have a: "addr = fAddrs f ! fCur f" using c(5) by simp
      show ?thesis
      proof (cases "netRpc W attempt addr")
        case (Inr v)
        have "\<exists>j < Suc k. \<exists>b \<in> set (fAddrs f1). netRpc W (attempt + j) b = Inr v"
          by (rule exI [of _ 0]) (use Inr a cur c(3) in auto)
        then show ?thesis using False c(1,2,3) \<open>r1 = Inr addr\<close> Inr by simp
      next
        case (Inl err)
        note L = False c(1) \<open>r1 = Inr addr\<close> Inl
        consider "rsCode err = FailedPrecondition" | "rsCode err \<noteq> FailedPrecondition" "rsCode err = Unavailable \<or> rsCode err = DeadlineExceeded"
          | "rsCode err \<noteq> FailedPrecondition" "\<not> (rsCode err = Unavailable \<or> rsCode err = DeadlineExceeded)" by blast
        then show ?thesis
        proof cases
          case 1
          then show ?thesis using L go [where h = "leaderHint err" and b = "\<lambda>_. False" and e' = "RpcError err", unfolded if_False] by simp
        next
          case 2
          then show ?thesis using L go [where h = "[]" and b = "\<lambda>_. netPause W attempt" and e' = "RpcError err"] by simp
        next
          case 3
          then show ?thesis using L c(2,3) by simp
        qed
      qed
    qed
  qed
qed auto

text \<open>
  C33: A call of the failover client always returns and never panics as long as it was given an
  address: after at most six attempts it has a response that one of its nodes gave to one of
  these attempts, or an error, and it is never a missing response without an error. Its state
  stays usable and no address is forgotten.
\<close>

theorem failover_returns:
  assumes "fCur f < length (fAddrs f)"
  shows "\<exists>r f'. failoverDo W f = Some (r, f') \<and> fCur f' < length (fAddrs f') \<and> set (fAddrs f) \<subseteq> set (fAddrs f') \<and>
    r \<noteq> Inl None \<and> (\<forall>v. r = Inr v \<longrightarrow> (\<exists>attempt < 6. \<exists>addr \<in> set (fAddrs f'). netRpc W attempt addr = Inr v))"
proof -
  obtain r f' where d: "doLoop W maxAttempts 0 None f = Some (r, f')" "failover_ok f'" "set (fAddrs f) \<subseteq> set (fAddrs f')"
      "\<forall>v. r = Inr v \<longrightarrow> (\<exists>j < maxAttempts. \<exists>addr \<in> set (fAddrs f'). netRpc W (0 + j) addr = Inr v)"
      "r = Inl None \<longrightarrow> maxAttempts = 0 \<and> None = (None :: failoverError option)"
    using doLoop_total [of f W maxAttempts 0 None] assms unfolding failover_ok_def by blast
  have "r \<noteq> Inl None" using d(5) by (simp add: maxAttempts_def)
  moreover have "\<forall>v. r = Inr v \<longrightarrow> (\<exists>attempt < 6. \<exists>addr \<in> set (fAddrs f'). netRpc W attempt addr = Inr v)"
    using d(4) unfolding maxAttempts_def add_0 .
  ultimately show ?thesis using d(1,2,3) unfolding failoverDo_def failover_ok_def by blast
qed

text \<open>A cluster for the examples: \<open>a\<close> is down, \<open>b\<close> redirects to \<open>c\<close>, which leads.\<close>

definition ex_network :: "string network" where
  "ex_network =
     \<lparr>netDial = (\<lambda>k addr. None),
      netRpc = (\<lambda>k addr. if addr = ''c'' then Inr ''t1''
         else if addr = ''b'' then Inl (statusError FailedPrecondition (''not leader; leader='' @ ''c''))
         else Inl (statusError Unavailable ''connection refused'')),
      netDone = (\<lambda>k. False), netPause = (\<lambda>k. False)\<rparr>"

theorem failover_returns_witness:
  "\<exists>r f'. failoverDo ex_network (Failover_New [''a'', ''b'', ''c'']) = Some (r, f') \<and> r \<noteq> Inl None"
proof -
  have "fCur (Failover_New [''a'', ''b'', ''c'']) < length (fAddrs (Failover_New [''a'', ''b'', ''c'']))" by (simp add: Failover_New_def)
  from failover_returns [OF this, of ex_network] show ?thesis by blast
qed









end
