(* ===== verification/Client_Command.thy ===== *)
theory Client_Command
  imports Failover_Client Worker_Loop Broker_Command
begin

text \<open>
  The two client commands, \<^verbatim>\<open>src/cmd/produce/main.go\<close> and \<^verbatim>\<open>src/cmd/worker/main.go\<close>: the clients they
  make of their address flag, the producer's loop and the worker's demo handler. What they print is
  not part of the model.
\<close>

definition commandClient :: "string \<Rightarrow> Failover" where
  "commandClient brokerAddr = Failover_New (splitOn (CHR '','') brokerAddr)"

section \<open>Producer\<close>

text \<open>A number as \<^verbatim>\<open>%d\<close> prints it.\<close>

fun showNat :: "nat \<Rightarrow> string" where
  "showNat n = (if n < 10 then [char_of (48 + n)] else showNat (n div 10) @ [char_of (48 + n mod 10)])"

definition jobPayload :: "nat \<Rightarrow> byte list" where
  "jobPayload i = map (\<lambda>c. word_of_nat (of_char c)) (''job-'' @ showNat i)"

text \<open>\<^verbatim>\<open>rand.Intn\<close> panics unless its bound is positive; the random source is the argument.\<close>

definition produceTask :: "int \<Rightarrow> int \<Rightarrow> nat \<Rightarrow> protoTask option" where
  "produceTask priorities r i =
     map_option (\<lambda>k. \<lparr>pId = '''', pPayload = jobPayload i, pPriority = word_of_int k, pRetryCount = 0, pCreatedAt = None\<rparr>)
       (Int63n r priorities)"

text \<open>
  The loop with \<open>k\<close> tasks left, \<open>i\<close> the number of the next: all sent, or the number and the error of the
  call that ended the process. \<open>net i\<close> is what the client's calls meet for task \<open>i\<close>.
\<close>

datatype produceEnd = Enqueued | EnqueueFatal nat "failoverError option" | ProducePanic

fun produceLoop :: "(nat \<Rightarrow> stubs) \<Rightarrow> (nat \<Rightarrow> int) \<Rightarrow> int \<Rightarrow> nat \<Rightarrow> nat \<Rightarrow> Failover \<Rightarrow> produceEnd \<times> Failover" where
  "produceLoop net rand priorities 0 i f = (Enqueued, f)"
| "produceLoop net rand priorities (Suc k) i f =
     (case produceTask priorities (rand i) i of
        None \<Rightarrow> (ProducePanic, f)
      | Some p \<Rightarrow>
          (case Failover_Enqueue (net i) (Some p) f of
             None \<Rightarrow> (ProducePanic, f)
           | Some (Inl e, f1) \<Rightarrow> (EnqueueFatal i e, f1)
           | Some (Inr _, f1) \<Rightarrow> produceLoop net rand priorities k (Suc i) f1))"

section \<open>Worker\<close>

text \<open>The demo handler fails for random numbers below the rate.\<close>

definition demoHandler :: "rat \<Rightarrow> rat \<Rightarrow> protoTask \<Rightarrow> handled" where
  "demoHandler failRate r task = (if r < failRate then HandledErr else HandledOk)"

definition commandWorker :: "int \<Rightarrow> workerConfig" where
  "commandWorker concurrency = Worker_New \<lparr>wConcurrency = concurrency, wMinBackoff = 0, wMaxBackoff = 0\<rparr>"

end
