(* ===== verification/Worker_Properties.thy ===== *)
theory Worker_Properties
  imports Client_Properties Client_Command
begin

text \<open>
  What the worker promises: the bounds of its backoff, and what it does to the queue it consumes.
  The contract it needs of a queue service is the locale \<open>task_service\<close>, interpreted on the gRPC
  server in front of the single-node broker.
\<close>

section \<open>Backoff\<close>












definition ex_pass :: pass where
  "ex_pass = \<lparr>paDone = False, paDoneErr = False, paSleepCut = False, paRand = 5\<rparr>"


text \<open>A minimum backoff of one nanosecond ends the process at the first pass that finds nothing.\<close>

lemma short_backoff_panics:
  assumes "wMinBackoff cfg = 1" and "svDequeue S q = (Inl err, q1)" and "\<not> paDone P" and "\<not> paDoneErr P"
  shows "Worker_run S handler (Worker_New cfg) (P # Ps) q = (LoopPanic, q1)"
proof -
  have "wMinBackoff (Worker_New cfg) = 1" using assms(1) by (simp add: Worker_New_def Let_def)
  then show ?thesis using assms(2-4) by (simp add: Worker_run_def loopPass_def jitter_def Int63n_def half_def)
qed

section \<open>The queue as the worker sees it\<close>

text \<open>
  The contract between a queue service and its consumers: a dequeue hands out a task the service
  is responsible for and keeps its ID; a nack keeps every ID; an ack gives up at most the ID it
  names.
\<close>

locale task_service =
  fixes S :: "'q service"
    and inv :: "'q \<Rightarrow> bool"
    and ids :: "'q \<Rightarrow> string multiset"
  assumes dequeue_keeps: "inv q \<Longrightarrow> svDequeue S q = (r, q') \<Longrightarrow> inv q' \<and> ids q' = ids q"
    and nack_keeps: "inv q \<Longrightarrow> svNack S i q = (r', q') \<Longrightarrow> inv q' \<and> ids q' = ids q"
    and ack_gives_up: "inv q \<Longrightarrow> svAck S i q = (r', q') \<Longrightarrow> inv q' \<and> (ids q' = ids q \<or> ids q = add_mset i (ids q'))"
begin

lemma pass_accounts:
  assumes "inv q" and "loopPass S h cfg P b q = (r, q')"
  shows "inv q' \<and> (\<exists>out. ids q = out + ids q' \<and> (\<forall>i \<in># out. \<exists>p. pId p = i \<and> h p = HandledOk))"
proof -
  obtain d q1 where d: "svDequeue S q = (d, q1)" by (cases "svDequeue S q")
  note Q = dequeue_keeps [OF assms(1) d]
  show ?thesis
  proof (cases "paDone P \<or> (\<exists>e. d = Inl e)")
    case True
    then have "q' \<in> {q, q1}" using assms(2) d by (auto simp: loopPass_def split: if_splits option.splits)
    then show ?thesis using Q assms(1) by (auto intro: exI [of _ "{#}"])
  next
    case False
    then obtain p where p: "d = Inr p" by (cases d) auto
    obtain a q2 where a: "svAck S (pId p) q1 = (a, q2)" by (cases "svAck S (pId p) q1")
    obtain n q3 where n: "svNack S (pId p) q1 = (n, q3)" by (cases "svNack S (pId p) q1")
    have q': "q' = (if h p = HandledOk then q2 else q3)"
      using assms(2) False d p a n by (auto simp: loopPass_def Let_def safeHandle_def split: handled.splits)
    show ?thesis
    proof (cases "h p = HandledOk")
      case True
      with ack_gives_up [OF conjunct1 [OF Q] a] Q q' consider
        "inv q'" "ids q = {#} + ids q'" | "inv q'" "ids q = {#pId p#} + ids q'" by auto
      then show ?thesis using True by cases (metis empty_iff set_mset_empty, metis set_mset_single singletonD)
    next
      case False
      with nack_keeps [OF conjunct1 [OF Q] n] Q q' show ?thesis by (auto intro: exI [of _ "{#}"])
    qed
  qed
qed

lemma loop_accounts:
  assumes "inv q" and "workerLoop S h cfg Ps b q = (r, q')"
  shows "inv q' \<and> (\<exists>out. ids q = out + ids q' \<and> (\<forall>i \<in># out. \<exists>p. pId p = i \<and> h p = HandledOk))"
  using assms
proof (induction Ps arbitrary: b q)
  case Nil
  then show ?case by (auto intro: exI [of _ "{#}"])
next
  case (Cons P Ps)
  obtain e q1 where e: "loopPass S h cfg P b q = (e, q1)" by (cases "loopPass S h cfg P b q")
  from pass_accounts [OF Cons.prems(1) e] obtain out1 where
    o1: "inv q1" "ids q = out1 + ids q1" "\<forall>i \<in># out1. \<exists>p. pId p = i \<and> h p = HandledOk" by blast
  show ?case
  proof (cases "\<exists>b1. e = LoopNext b1")
    case True
    then obtain b1 where "workerLoop S h cfg Ps b1 q1 = (r, q')" using Cons.prems(2) e by auto
    from Cons.IH [OF o1(1) this] obtain out2 where
      o2: "inv q'" "ids q1 = out2 + ids q'" "\<forall>i \<in># out2. \<exists>p. pId p = i \<and> h p = HandledOk" by blast
    have "ids q = (out1 + out2) + ids q'" using o1(2) o2(2) by (simp add: add.assoc)
    moreover have "\<forall>i \<in># out1 + out2. \<exists>p. pId p = i \<and> h p = HandledOk" using o1(3) o2(3) by auto
    ultimately show ?thesis using o2(1) by blast
  next
    case False
    then have "q' = q1" using Cons.prems(2) e by (cases e) auto
    then show ?thesis using o1 by blast
  qed
qed

end

section \<open>The single-node broker as the worker's queue\<close>

text \<open>
  The gRPC server in front of a broker, call \<open>k\<close> in the environment \<open>Es k\<close>. A call that does not
  return has no counterpart here: \<open>sync_returns\<close> below rules it out.
\<close>

definition brokerService ::
  "tsLib \<Rightarrow> (brokerError \<Rightarrow> string) \<Rightarrow> gob \<Rightarrow> (nat \<Rightarrow> env) \<Rightarrow> (nat \<times> Broker) service" where
  "brokerService L errText G Es =
     \<lparr>svDequeue = (\<lambda>(k, b). case Server_Dequeue L errText (Es k) b of (r, b') \<Rightarrow> (r, Suc k, b')),
      svAck = (\<lambda>i (k, b). case Server_Ack errText G (Es k) i b of
                 None \<Rightarrow> (Inl (statusError DeadlineExceeded ''''), Suc k, b)
               | Some (r, b') \<Rightarrow> (r, Suc k, b')),
      svNack = (\<lambda>i (k, b). case Server_Nack errText G (Es k) i b of
                 None \<Rightarrow> (Inl (statusError DeadlineExceeded ''''), Suc k, b)
               | Some (r, b') \<Rightarrow> (r, Suc k, b'))\<rparr>"

definition one_each :: "Broker \<Rightarrow> bool" where
  "one_each b \<longleftrightarrow> broker_invar b \<and> (\<forall>i. count (known_ids b) i \<le> 1)"

lemma popped_fresh:
  assumes "one_each b" and "mset (bPq b) = add_mset t (mset pq')"
  shows "known_ids b = add_mset (ID t) (known_ids (b\<lparr>bPq := pq'\<rparr>))" and "map_of (bTracker b) (ID t) = None"
proof -
  show k: "known_ids b = add_mset (ID t) (known_ids (b\<lparr>bPq := pq'\<rparr>))" using assms(2) by (simp add: known_ids_def)
  have "count (known_ids b) (ID t) \<le> 1" using assms(1) by (simp add: one_each_def)
  then have "ID t \<notin># known_ids (b\<lparr>bPq := pq'\<rparr>)" unfolding k by (simp add: not_in_iff)
  then have "ID t \<notin> ID ` set (tracked (bTracker b))" by (simp add: known_ids_def)
  then show "map_of (bTracker b) (ID t) = None"
    using assms(1) lookup_tracked by (auto simp: one_each_def broker_invar_def)
qed

lemma Dequeue_keeps:
  assumes b: "one_each b" and d: "Dequeue E b = (r, b')"
  shows "one_each b' \<and> known_ids b' = known_ids b"
proof -
  have i: "broker_invar b" and h: "pq_invar (bPq b)"
    using b by (auto simp: one_each_def broker_invar_def)
  obtain o' pq' where p: "PQ_Pop (bPq b) = (o', pq')" by (cases "PQ_Pop (bPq b)")
  have "known_ids b' = known_ids b"
  proof (cases "bClosed b \<or> o' = None")
    case True
    then show ?thesis using d p pq.pop_NoneD [OF h] by (auto simp: Dequeue_def known_ids_def split: if_splits)
  next
    case False
    then obtain t where t: "o' = Some t" by auto
    note pop = pq.pop_SomeD [OF h p [unfolded t]]
    note k = popped_fresh [OF b pop(2)]
    let ?t = "t\<lparr>Status := InFlight, Deadline := envNow E + TaskTimeout (bCfg b)\<rparr>"
    have "b' = b\<lparr>bPq := pq', bTracker := Track ?t (bTracker b)\<rparr>"
      using d p t False by (auto simp: Dequeue_def Let_def)
    then show ?thesis using known_ids_track [of "b\<lparr>bPq := pq'\<rparr>" ?t] k by simp
  qed
  then show ?thesis using b broker_invar_Dequeue [OF i d] by (simp add: one_each_def)
qed

lemma known_ids_Remove:
  assumes "broker_invar b" and "Remove i (bTracker b) = (Some t, tr)"
  shows "known_ids b = add_mset i (known_ids (b\<lparr>bTracker := tr\<rparr>))" "ID t = i" "map_of tr i = None"
    "broker_invar (b\<lparr>bTracker := tr\<rparr>)" "Status t = InFlight"
proof -
  have tr: "tracker_invar (bTracker b)" using assms(1) by (simp add: broker_invar_def)
  note R = Remove_Some [OF tr assms(2)]
  show "known_ids b = add_mset i (known_ids (b\<lparr>bTracker := tr\<rparr>))" using R(1,2) by (simp add: known_ids_def)
  show "ID t = i" by (rule R(1))
  show "map_of tr i = None" by (simp add: R(4))
  show "broker_invar (b\<lparr>bTracker := tr\<rparr>)" using broker_invar_untrack [OF assms(1)] R(4) by simp
  show "Status t = InFlight" using Remove_status(1) [OF assms] .
qed

lemma Ack_locked_ids:
  assumes b: "broker_invar b" and a: "Ack_locked G E b i = (r, b')"
  shows "known_ids b' = known_ids b \<or> known_ids b = add_mset i (known_ids b')"
proof (cases "bClosed b \<or> fst (Remove i (bTracker b)) = None")
  case True
  then show ?thesis using a by (cases "Remove i (bTracker b)") (auto simp: Ack_locked_def split: if_splits)
next
  case False
  then obtain t tr where R: "Remove i (bTracker b) = (Some t, tr)" by (cases "Remove i (bTracker b)") auto
  note K = known_ids_Remove [OF b R]
  obtain s w where w: "AppendIDNoSync (envWrite E) (bWal b) OpAck i = (s, w)"
    by (cases "AppendIDNoSync (envWrite E) (bWal b) OpAck i")
  show ?thesis
  proof (cases s)
    case (Inl e)
    then have "b' = b\<lparr>bWal := w, bTracker := Track t tr\<rparr>" using a False R w by (simp add: Ack_locked_def)
    then show ?thesis using known_ids_track [of "b\<lparr>bTracker := tr, bWal := w\<rparr>" t] K by simp
  next
    case (Inr seq)
    obtain c where "maybeCompactLocked G E (b\<lparr>bWal := w, bTracker := tr, bAcked := bAcked b + 1\<rparr>) = (c, b')"
      using a False R w Inr by (auto simp: Ack_locked_def split: prod.splits option.splits)
    from known_ids_compact [OF this] K(1) show ?thesis by (simp add: known_ids_def)
  qed
qed

lemma Nack_locked_ids:
  assumes b: "broker_invar b" and a: "Nack_locked G E b i = (r, b')"
  shows "known_ids b' = known_ids b \<and> broker_invar b'"
proof (cases "bClosed b \<or> fst (Remove i (bTracker b)) = None")
  case True
  then show ?thesis using a b by (cases "Remove i (bTracker b)") (auto simp: Nack_locked_def split: if_splits)
next
  case False
  then obtain t tr where R: "Remove i (bTracker b) = (Some t, tr)" by (cases "Remove i (bTracker b)") auto
  note K = known_ids_Remove [OF b R]
  have q: "requeueLocked G E (b\<lparr>bTracker := tr\<rparr>) t = (r, b')" using a False R by (simp add: Nack_locked_def)
  show ?thesis using requeue_keeps_ids [OF K(4) _ q] broker_invar_requeue [OF K(4,5) q] K(1-3) by simp
qed

lemma awaitSync_ids:
  assumes "awaitSync E (x, b) = Some (r, b')"
  shows "known_ids b' = known_ids b \<and> broker_invar b' = broker_invar b"
  using awaitSync_fields [OF assms] by (metis broker_invar_wal known_ids_wal(1))


subsection \<open>Every call returns\<close>

lemma compact_seq:
  assumes "maybeCompactLocked G E b = (r, b')"
  shows "wWriteSeq (bWal b') = wWriteSeq (bWal b)"
  using assms
  by (auto simp: maybeCompactLocked_def compactLocked_def Rewrite_def
      split: if_splits prod.splits option.splits rewriteOutcome.splits)

lemma append_id_flags:
  assumes "AppendIDNoSync out w op i = (r, w')"
  shows "wSyncing w' = wSyncing w" "wSyncErr w' = wSyncErr w" "r = Inr seq \<Longrightarrow> seq = wWriteSeq w'"
  using assms by (auto simp: AppendIDNoSync_def appendNoSync_def handleWrite_def Let_def
      split: writeOutcome.splits option.splits)

lemma awaitSync_returns:
  assumes "\<not> wSyncing (bWal b)" and "\<And>seq. r = Inr seq \<Longrightarrow> seq = wWriteSeq (bWal b)" and "envSyncs E \<noteq> []"
  shows "awaitSync E (r, b) \<noteq> None"
proof (cases r)
  case (Inr seq)
  obtain ok outs where "envSyncs E = ok # outs" using assms(3) by (cases "envSyncs E") auto
  with WaitSync_returns [of "bWal b" seq ok outs] assms(1,2) Inr show ?thesis by (simp add: awaitSync_def)
qed (simp add: awaitSync_def)

lemma compact_ready:
  assumes "maybeCompactLocked G E b = (c, b')" and "\<not> wSyncing (bWal b)" and "seq = wWriteSeq (bWal b)"
  shows "\<not> wSyncing (bWal b') \<and> seq = wWriteSeq (bWal b')"
  using compact_wal_flags(1) [OF assms(1)] compact_seq [OF assms(1)] assms(2,3) by simp

lemma Ack_locked_ready:
  assumes "\<not> wSyncing (bWal b)" and "Ack_locked G E b i = (r, b')"
  shows "\<not> wSyncing (bWal b') \<and> (\<forall>seq. r = Inr seq \<longrightarrow> seq = wWriteSeq (bWal b'))"
proof -
  obtain s w where w: "AppendIDNoSync (envWrite E) (bWal b) OpAck i = (s, w)"
    by (cases "AppendIDNoSync (envWrite E) (bWal b) OpAck i")
  show ?thesis
    using assms append_id_flags(1,3) [OF w]
    by (auto simp: Ack_locked_def w dest: compact_ready
        split: if_splits prod.splits sum.splits option.splits)
qed

lemma requeueLocked_ready:
  assumes "\<not> wSyncing (bWal b)" and "requeueLocked G E b t = (r, b')"
  shows "\<not> wSyncing (bWal b') \<and> (\<forall>seq. r = Inr seq \<longrightarrow> seq = wWriteSeq (bWal b'))"
proof -
  obtain s w where w: "AppendIDNoSync (envWrite E) (bWal b) OpDead (ID t) = (s, w)"
    by (cases "AppendIDNoSync (envWrite E) (bWal b) OpDead (ID t)")
  obtain s' w' where w': "AppendIDNoSync (envWrite E) (bWal b) OpNack (ID t) = (s', w')"
    by (cases "AppendIDNoSync (envWrite E) (bWal b) OpNack (ID t)")
  show ?thesis
    using assms append_id_flags(1,3) [OF w] append_id_flags(1,3) [OF w']
    by (auto simp: requeueLocked_def Let_def w w' dest: compact_ready
        split: if_splits prod.splits sum.splits option.splits)
qed

lemma Nack_locked_ready:
  assumes "\<not> wSyncing (bWal b)" and "Nack_locked G E b i = (r, b')"
  shows "\<not> wSyncing (bWal b') \<and> (\<forall>seq. r = Inr seq \<longrightarrow> seq = wWriteSeq (bWal b'))"
  using assms by (auto simp: Nack_locked_def dest: requeueLocked_ready [rotated] split: if_splits prod.splits option.splits)

lemma sync_returns:
  assumes "\<not> wSyncing (bWal b)" and "envSyncs E \<noteq> []"
  shows "Server_Ack errText G E i b \<noteq> None" and "Server_Nack errText G E i b \<noteq> None"
proof -
  obtain r b1 where a: "Ack_locked G E b i = (r, b1)" by (cases "Ack_locked G E b i")
  from awaitSync_returns [of b1 r E] Ack_locked_ready [OF assms(1) a] assms(2)
  have "Ack G E b i \<noteq> None" by (simp add: Ack_def a)
  then show "Server_Ack errText G E i b \<noteq> None" by (auto simp: Server_Ack_def split: option.splits)
  obtain r b1 where n: "Nack_locked G E b i = (r, b1)" by (cases "Nack_locked G E b i")
  from awaitSync_returns [of b1 r E] Nack_locked_ready [OF assms(1) n] assms(2)
  have "Nack G E b i \<noteq> None" by (simp add: Nack_def n)
  then show "Server_Nack errText G E i b \<noteq> None" by (auto simp: Server_Nack_def split: option.splits)
qed

subsection \<open>The contract holds\<close>

lemma Server_Dequeue_keeps:
  "one_each b \<Longrightarrow> Server_Dequeue L errText E b = (r, b') \<Longrightarrow> one_each b' \<and> known_ids b' = known_ids b"
  by (auto simp: Server_Dequeue_def split: prod.splits sum.splits dest: Dequeue_keeps)

lemma Server_Nack_keeps:
  assumes "one_each b" and "Server_Nack errText G E i b = Some (r, b')"
  shows "one_each b' \<and> known_ids b' = known_ids b"
proof -
  obtain r1 b1 where n: "Nack_locked G E b i = (r1, b1)" by (cases "Nack_locked G E b i")
  obtain r2 where "awaitSync E (r1, b1) = Some (r2, b')"
    using assms(2) n by (auto simp: Server_Nack_def Nack_def split: option.splits)
  from awaitSync_ids [OF this] Nack_locked_ids [OF _ n] assms(1) show ?thesis by (simp add: one_each_def)
qed

lemma Server_Ack_gives_up:
  assumes "one_each b" and "Server_Ack errText G E i b = Some (r, b')"
  shows "one_each b' \<and> (known_ids b' = known_ids b \<or> known_ids b = add_mset i (known_ids b'))"
proof -
  have b: "broker_invar b" using assms(1) by (simp add: one_each_def)
  obtain r1 b1 where n: "Ack_locked G E b i = (r1, b1)" by (cases "Ack_locked G E b i")
  obtain r2 where "awaitSync E (r1, b1) = Some (r2, b')"
    using assms(2) n by (auto simp: Server_Ack_def Ack_def split: option.splits)
  from awaitSync_ids [OF this] Ack_locked_ids [OF b n] broker_invar_Ack [OF b n]
  have K: "broker_invar b'" "known_ids b' = known_ids b \<or> known_ids b = add_mset i (known_ids b')" by auto
  have "count (known_ids b') j \<le> count (known_ids b) j" for j using K(2) by auto
  then have "count (known_ids b') j \<le> 1" for j using assms(1) le_trans unfolding one_each_def by blast
  with K show ?thesis by (simp add: one_each_def)
qed

interpretation bs: task_service "brokerService L errText G Es" "\<lambda>(k, b). one_each b" "\<lambda>(k, b). known_ids b"
  for L errText G Es
proof unfold_locales
  fix q r q'
  show "(case q' of (k, b) \<Rightarrow> one_each b) \<and> (case q' of (k, b) \<Rightarrow> known_ids b) = (case q of (k, b) \<Rightarrow> known_ids b)"
    if "case q of (k, b) \<Rightarrow> one_each b" "svDequeue (brokerService L errText G Es) q = (r, q')"
    using that by (auto simp: brokerService_def split: prod.splits dest: Server_Dequeue_keeps)
next
  fix q i r' q'
  show "(case q' of (k, b) \<Rightarrow> one_each b) \<and> (case q' of (k, b) \<Rightarrow> known_ids b) = (case q of (k, b) \<Rightarrow> known_ids b)"
    if "case q of (k, b) \<Rightarrow> one_each b" "svNack (brokerService L errText G Es) i q = (r', q')"
    using that by (auto simp: brokerService_def split: prod.splits option.splits dest: Server_Nack_keeps)
next
  fix q i r' q'
  show "(case q' of (k, b) \<Rightarrow> one_each b) \<and> ((case q' of (k, b) \<Rightarrow> known_ids b) = (case q of (k, b) \<Rightarrow> known_ids b) \<or>
      (case q of (k, b) \<Rightarrow> known_ids b) = add_mset i (case q' of (k, b) \<Rightarrow> known_ids b))"
    if "case q of (k, b) \<Rightarrow> one_each b" "svAck (brokerService L errText G Es) i q = (r', q')"
    using that by (auto simp: brokerService_def split: prod.splits option.splits dest: Server_Ack_gives_up)
qed



definition ex_waiting :: Broker where
  "ex_waiting = ex_broker\<lparr>bPq := [log_task ''a'' []]\<rparr>"

lemma ex_waiting_ok: "broker_invar ex_waiting" "known_ids ex_waiting = {#''a''#}"
  "\<forall>i. count (known_ids ex_waiting) i \<le> 1"
  by (simp_all add: ex_waiting_def ex_broker_def emptyBroker_def known_ids_def broker_invar_def pq_invar_def is_heap_def
      tracked_def log_task_def NewInFlightTracker_def tracker_invar_def go_map_def)


section \<open>Progress\<close>

text \<open>A broker and an environment in which no call fails.\<close>

definition smooth :: "env \<Rightarrow> bool" where
  "smooth E \<longleftrightarrow> envWrite E = WriteOk \<and> envRewrite E = RewriteOk \<and> envSyncs E \<noteq> [] \<and> hd (envSyncs E)"

definition serving :: "Broker \<Rightarrow> bool" where
  "serving b \<longleftrightarrow> one_each b \<and> \<not> bClosed b \<and> \<not> wSyncing (bWal b) \<and> \<not> wSyncErr (bWal b)"

text \<open>How often the pending tasks can still be handed out: at least once each, and until their retries are used up.\<close>

definition chances :: "Broker \<Rightarrow> Task \<Rightarrow> nat" where
  "chances b t = nat (max 1 (MaxRetries (bCfg b) - RetryCount t))"

definition attempts :: "Broker \<Rightarrow> nat" where
  "attempts b = (\<Sum>t \<in># mset (bPq b). chances b t)"

lemma chances_pos: "0 < chances b t"
  by (simp add: chances_def)

lemma attempts_zero: "attempts b = 0 \<longleftrightarrow> bPq b = []"
  using chances_pos [of b] by (auto simp: attempts_def) (metis neq0_conv list.set_intros(1) list.exhaust)

lemma settled_sync:
  assumes "smooth E" and "\<not> wSyncing (bWal b)" "\<not> wSyncErr (bWal b)" and "seq = wWriteSeq (bWal b)"
  shows "\<exists>w. awaitSync E (Inr seq, b) = Some (None, b\<lparr>bWal := w\<rparr>) \<and> \<not> wSyncing w \<and> \<not> wSyncErr w"
proof -
  obtain outs where "envSyncs E = True # outs" using assms(1) by (cases "envSyncs E") (auto simp: smooth_def)
  with WaitSync_returns [of "bWal b" seq True outs] assms(2-4) show ?thesis
    by (cases "seq \<le> wSyncedSeq (bWal b)") (auto simp: awaitSync_def intro: exI [of _ "bWal b"])
qed

lemma smooth_compact:
  assumes "gob_roundtrip G" and "smooth E" and "\<not> wSyncing (bWal b)" "\<not> wSyncErr (bWal b)" and "seq = wWriteSeq (bWal b)"
  shows "\<exists>w. maybeCompactLocked G E b = (None, b\<lparr>bWal := w\<rparr>) \<and> \<not> wSyncing w \<and> \<not> wSyncErr w \<and> seq = wWriteSeq w"
proof -
  obtain b' where c: "maybeCompactLocked G E b = (None, b')"
    using maybeCompact_total [OF assms(1)] assms(2) by (auto simp: smooth_def)
  with compact_wal_flags [OF c] compact_seq [OF c] maybeCompactLocked_fields [OF c] assms(3-5) show ?thesis
    by (intro exI [of _ "bWal b'"]) simp
qed

lemma smooth_append:
  assumes "smooth E"
  shows "\<exists>w. AppendIDNoSync (envWrite E) w0 op i = (Inr (wWriteSeq w), w) \<and> wSyncing w = wSyncing w0 \<and> wSyncErr w = wSyncErr w0"
proof -
  obtain seq w where a: "AppendIDNoSync (envWrite E) w0 op i = (Inr seq, w)"
    using append_id_returns [of w0 op i] assms by (auto simp: smooth_def)
  with append_id_flags [OF a] show ?thesis by auto
qed

text \<open>A record appended, the compaction if due, and the fsync: the end of every call that changes the queue.\<close>

lemma smooth_end:
  assumes "gob_roundtrip G" and "smooth E" and "\<not> wSyncing (bWal b)" "\<not> wSyncErr (bWal b)"
    and f: "\<And>w. bWal (f w) = w"
  shows "\<exists>seq w1 b2 w. AppendIDNoSync (envWrite E) (bWal b) op i = (Inr seq, w1) \<and>
    maybeCompactLocked G E (f w1) = (None, b2) \<and>
    awaitSync E (Inr seq, b2) = Some (None, (f w1)\<lparr>bWal := w\<rparr>) \<and> \<not> wSyncing w \<and> \<not> wSyncErr w"
proof -
  obtain w1 where w1: "AppendIDNoSync (envWrite E) (bWal b) op i = (Inr (wWriteSeq w1), w1)"
    "\<not> wSyncing w1" "\<not> wSyncErr w1" using smooth_append [OF assms(2), of "bWal b" op i] assms(3,4) by auto
  obtain w2 where w2: "maybeCompactLocked G E (f w1) = (None, (f w1)\<lparr>bWal := w2\<rparr>)" "\<not> wSyncing w2" "\<not> wSyncErr w2"
    "wWriteSeq w1 = wWriteSeq w2" using smooth_compact [OF assms(1,2), of "f w1" "wWriteSeq w1"] w1 f by auto
  from settled_sync [OF assms(2), of "(f w1)\<lparr>bWal := w2\<rparr>" "wWriteSeq w1"] w2
  obtain w where "awaitSync E (Inr (wWriteSeq w1), (f w1)\<lparr>bWal := w2\<rparr>) = Some (None, (f w1)\<lparr>bWal := w\<rparr>)"
    "\<not> wSyncing w" "\<not> wSyncErr w" by auto
  with w1(1) w2(1) show ?thesis by blast
qed


lemma smooth_Ack:
  assumes G: "gob_roundtrip G" "smooth E" and b: "\<not> bClosed b" "\<not> wSyncing (bWal b)" "\<not> wSyncErr (bWal b)"
    and R: "Remove i (bTracker b) = (Some t, tr)"
  shows "\<exists>w. Ack G E b i = Some (None, b\<lparr>bTracker := tr, bAcked := bAcked b + 1, bWal := w\<rparr>) \<and> \<not> wSyncing w \<and> \<not> wSyncErr w"
proof -
  let ?f = "\<lambda>w. b\<lparr>bWal := w, bTracker := tr, bAcked := bAcked b + 1\<rparr>"
  obtain seq w1 b2 w where "AppendIDNoSync (envWrite E) (bWal b) OpAck i = (Inr seq, w1)"
    "maybeCompactLocked G E (?f w1) = (None, b2)"
    "awaitSync E (Inr seq, b2) = Some (None, (?f w1)\<lparr>bWal := w\<rparr>)" "\<not> wSyncing w" "\<not> wSyncErr w"
    using smooth_end [OF G b(2,3), of ?f OpAck i] by auto
  then show ?thesis using b(1) R by (intro exI [of _ w]) (simp add: Ack_def Ack_locked_def)
qed

lemma smooth_Nack:
  assumes G: "gob_roundtrip G" "smooth E" and b: "\<not> bClosed b" "\<not> wSyncing (bWal b)" "\<not> wSyncErr (bWal b)"
    and R: "Remove i (bTracker b) = (Some t, tr)"
  shows "\<exists>w. Nack G E b i = Some (None,
      if RetryCount t + 1 \<ge> MaxRetries (bCfg b)
      then b\<lparr>bTracker := tr, bNacked := bNacked b + 1, bDlq := bDlq b @ [t\<lparr>RetryCount := RetryCount t + 1, Status := Dead\<rparr>], bWal := w\<rparr>
      else b\<lparr>bTracker := tr, bNacked := bNacked b + 1,
             bPq := PQ_Push (bPq b) (t\<lparr>RetryCount := RetryCount t + 1, Status := Pending, Deadline := 0\<rparr>), bWal := w\<rparr>) \<and>
    \<not> wSyncing w \<and> \<not> wSyncErr w"
proof (cases "RetryCount t + 1 \<ge> MaxRetries (bCfg b)")
  case True
  let ?f = "\<lambda>w. b\<lparr>bTracker := tr, bNacked := bNacked b + 1, bWal := w,
      bDlq := bDlq b @ [t\<lparr>RetryCount := RetryCount t + 1, Status := Dead\<rparr>]\<rparr>"
  obtain seq w1 b2 w where "AppendIDNoSync (envWrite E) (bWal b) OpDead (ID t) = (Inr seq, w1)"
    "maybeCompactLocked G E (?f w1) = (None, b2)"
    "awaitSync E (Inr seq, b2) = Some (None, (?f w1)\<lparr>bWal := w\<rparr>)" "\<not> wSyncing w" "\<not> wSyncErr w"
    using smooth_end [OF G b(2,3), of ?f OpDead "ID t"] by auto
  then show ?thesis using b(1) R True by (intro exI [of _ w]) (simp add: Nack_def Nack_locked_def requeueLocked_def Let_def)
next
  case False
  let ?f = "\<lambda>w. b\<lparr>bTracker := tr, bNacked := bNacked b + 1, bWal := w,
      bPq := PQ_Push (bPq b) (t\<lparr>RetryCount := RetryCount t + 1, Status := Pending, Deadline := 0\<rparr>)\<rparr>"
  obtain seq w1 b2 w where "AppendIDNoSync (envWrite E) (bWal b) OpNack (ID t) = (Inr seq, w1)"
    "maybeCompactLocked G E (?f w1) = (None, b2)"
    "awaitSync E (Inr seq, b2) = Some (None, (?f w1)\<lparr>bWal := w\<rparr>)" "\<not> wSyncing w" "\<not> wSyncErr w"
    using smooth_end [OF G b(2,3), of ?f OpNack "ID t"] by auto
  then show ?thesis using b(1) R False by (intro exI [of _ w]) (simp add: Nack_def Nack_locked_def requeueLocked_def Let_def)
qed

lemma chances_cong: "bCfg b' = bCfg b \<Longrightarrow> chances b' t = chances b t"
  by (simp add: chances_def)

lemma chances_retry:
  "RetryCount t + 1 < MaxRetries (bCfg b) \<Longrightarrow> RetryCount u = RetryCount t + 1 \<Longrightarrow> chances b u < chances b t"
  by (auto simp: chances_def max_def)

lemma attempts_pop: "mset (bPq b) = add_mset t (mset pq') \<Longrightarrow> attempts b = chances b t + (\<Sum>u \<in># mset pq'. chances b u)"
  by (simp add: attempts_def)

lemma Remove_Track: "map_of tr (ID u) = None \<Longrightarrow> Remove (ID u) (Track u tr) = (Some u, tr)"
proof -
  assume f: "map_of tr (ID u) = None"
  then have "AList.delete (ID u) tr = tr" by (simp add: AList.delete_id map_of_eq_None_iff)
  with f show ?thesis by (simp add: Remove_def Track_def update_fresh AList.delete_eq map_add_def)
qed

text \<open>A dequeue from a broker that serves and has a pending task.\<close>

lemma Dequeue_pending:
  assumes b: "serving b" and ne: "bPq b \<noteq> []"
  obtains t pq' u where "u = t\<lparr>Status := InFlight, Deadline := envNow E + TaskTimeout (bCfg b)\<rparr>"
    "Dequeue E b = (Inr u, b\<lparr>bPq := pq', bTracker := Track u (bTracker b)\<rparr>)"
    "mset (bPq b) = add_mset t (mset pq')" "pq_invar pq'"
    "Remove (ID t) (Track u (bTracker b)) = (Some u, bTracker b)"
proof -
  have h: "pq_invar (bPq b)" and c: "\<not> bClosed b"
    using b by (auto simp: serving_def one_each_def broker_invar_def)
  obtain o' pq' where p: "PQ_Pop (bPq b) = (o', pq')" by (cases "PQ_Pop (bPq b)")
  then obtain t where t: "o' = Some t" using ne pq.pop_NoneD(1) [OF h] by (cases o') auto
  note pop = pq.pop_SomeD [OF h p [unfolded t]]
  let ?u = "t\<lparr>Status := InFlight, Deadline := envNow E + TaskTimeout (bCfg b)\<rparr>"
  have f: "map_of (bTracker b) (ID t) = None" using popped_fresh(2) [OF _ pop(2)] b by (simp add: serving_def)
  then have "Remove (ID t) (Track ?u (bTracker b)) = (Some ?u, bTracker b)"
    using Remove_Track [of "bTracker b" ?u] by simp
  moreover have "Dequeue E b = (Inr ?u, b\<lparr>bPq := pq', bTracker := Track ?u (bTracker b)\<rparr>)"
    using c p t by (simp add: Dequeue_def Let_def)
  ultimately show thesis using that pop(1,2) by blast
qed


lemma attempts_less:
  assumes "mset (bPq b) = add_mset t (mset pq')" and "bCfg b' = bCfg b"
    and "bPq b' = pq' \<or> (\<exists>u. mset (bPq b') = add_mset u (mset pq') \<and> chances b u < chances b t)"
  shows "attempts b' < attempts b"
proof -
  have "(\<Sum>u \<in># M. chances b' u) = (\<Sum>u \<in># M. chances b u)" for M using chances_cong [OF assms(2)] by simp
  then show ?thesis using attempts_pop [OF assms(1)] assms(3) chances_pos [of b t] by (auto simp: attempts_def)
qed

text \<open>A pass over a broker with pending tasks settles one of them or uses up one of its chances.\<close>

lemma busy_pass:
  assumes G: "gob_roundtrip G" "\<forall>k. smooth (Es k)" and b: "serving b" "bPq b \<noteq> []" and P: "\<not> paDone P"
  shows "\<exists>b'. loopPass (brokerService L errText G Es) handler cfg P backoff (k, b) = (LoopNext (wMinBackoff cfg), Suc (Suc k), b') \<and>
    serving b' \<and> attempts b' < attempts b \<and> bTracker b' = bTracker b \<and> bCfg b' = bCfg b"
proof -
  let ?S = "brokerService L errText G Es"
  obtain t pq' u where u: "u = t\<lparr>Status := InFlight, Deadline := envNow (Es k) + TaskTimeout (bCfg b)\<rparr>"
    and d: "Dequeue (Es k) b = (Inr u, b\<lparr>bPq := pq', bTracker := Track u (bTracker b)\<rparr>)"
    and pq': "mset (bPq b) = add_mset t (mset pq')" "pq_invar pq'"
    and R: "Remove (ID t) (Track u (bTracker b)) = (Some u, bTracker b)"
    using Dequeue_pending [OF b, where E = "Es k"] by metis
  let ?b1 = "b\<lparr>bPq := pq', bTracker := Track u (bTracker b)\<rparr>"
  have o: "one_each b" and s: "\<not> bClosed ?b1" "\<not> wSyncing (bWal ?b1)" "\<not> wSyncErr (bWal ?b1)"
    using b(1) by (simp_all add: serving_def)
  have R': "Remove (ID t) (bTracker ?b1) = (Some u, bTracker b)" using R by simp
  have r: "RetryCount u = RetryCount t" by (simp add: u)
  have sd: "svDequeue ?S (k, b) = (Inr (toProto L u), Suc k, ?b1)"
    by (simp add: brokerService_def Server_Dequeue_def d)
  have id: "pId (toProto L u) = ID t" by (simp add: toProto_def u)
  show ?thesis
  proof (cases "safeHandle handler (toProto L u)")
    case False
    obtain w where a: "Ack G (Es (Suc k)) ?b1 (ID t) = Some (None, ?b1\<lparr>bTracker := bTracker b, bAcked := bAcked b + 1, bWal := w\<rparr>)"
      and w: "\<not> wSyncing w" "\<not> wSyncErr w"
      using smooth_Ack [OF G(1) spec [OF G(2), of "Suc k"] s R'] by auto
    let ?b2 = "?b1\<lparr>bTracker := bTracker b, bAcked := bAcked b + 1, bWal := w\<rparr>"
    have sa: "svAck ?S (ID t) (Suc k, ?b1) = (Inr (), Suc (Suc k), ?b2)"
      by (simp add: brokerService_def Server_Ack_def a)
    have p: "loopPass ?S handler cfg P backoff (k, b) = (LoopNext (wMinBackoff cfg), Suc (Suc k), ?b2)"
      using P False by (simp add: loopPass_def sd id sa Let_def)
    from conjunct1 [OF bs.pass_accounts [OF _ p]] o have "one_each ?b2" by simp
    then have "serving ?b2" using b(1) w by (simp add: serving_def)
    moreover have "attempts ?b2 < attempts b" using attempts_less [OF pq'(1), of ?b2] by simp
    ultimately show ?thesis using p by (intro exI [of _ ?b2]) simp
  next
    case True
    let ?t = "u\<lparr>RetryCount := RetryCount u + 1, Status := Pending, Deadline := 0\<rparr>"
    define f where "f w = (if RetryCount u + 1 \<ge> MaxRetries (bCfg b)
      then ?b1\<lparr>bTracker := bTracker b, bNacked := bNacked b + 1,
             bDlq := bDlq b @ [u\<lparr>RetryCount := RetryCount u + 1, Status := Dead\<rparr>], bWal := w\<rparr>
      else ?b1\<lparr>bTracker := bTracker b, bNacked := bNacked b + 1, bPq := PQ_Push pq' ?t, bWal := w\<rparr>)" for w
    have "\<exists>w. Nack G (Es (Suc k)) ?b1 (ID t) = Some (None, f w) \<and> \<not> wSyncing w \<and> \<not> wSyncErr w"
      using smooth_Nack [OF G(1) spec [OF G(2), of "Suc k"] s R'] unfolding f_def
      by (cases "RetryCount u + 1 \<ge> MaxRetries (bCfg b)") simp_all
    then obtain w where a: "Nack G (Es (Suc k)) ?b1 (ID t) = Some (None, f w)" and w: "\<not> wSyncing w" "\<not> wSyncErr w"
      by blast
    have sa: "svNack ?S (ID t) (Suc k, ?b1) = (Inr (), Suc (Suc k), f w)"
      by (simp add: brokerService_def Server_Nack_def a)
    have p: "loopPass ?S handler cfg P backoff (k, b) = (LoopNext (wMinBackoff cfg), Suc (Suc k), f w)"
      using P True by (simp add: loopPass_def sd id sa Let_def)
    have f: "bTracker (f w) = bTracker b" "bCfg (f w) = bCfg b" "bClosed (f w) = bClosed b" "bWal (f w) = w"
      by (simp_all add: f_def)
    from conjunct1 [OF bs.pass_accounts [OF _ p]] o have "one_each (f w)" by simp
    then have "serving (f w)" using b(1) w by (simp add: serving_def f)
    moreover have "bPq (f w) = pq' \<or> (\<exists>u. mset (bPq (f w)) = add_mset u (mset pq') \<and> chances b u < chances b t)"
      using pq.bag_push [OF pq'(2), of ?t] chances_retry [of t b ?t] r by (auto simp: f_def)
    then have "attempts (f w) < attempts b" using attempts_less [OF pq'(1) f(2)] by simp
    ultimately show ?thesis using p f by (intro exI [of _ "f w"]) simp
  qed
qed

lemma idle_pass:
  assumes "serving b" and "bPq b = []" and "loopPass (brokerService L errText G Es) handler cfg P backoff (k, b) = (r, k', b')"
  shows "b' = b"
proof -
  have "pq_invar (bPq b)" "\<not> bClosed b" using assms(1) by (auto simp: serving_def one_each_def broker_invar_def)
  with pq.pop_empty [of "bPq b"] assms(2) have "Dequeue (Es k) b = (Inl ErrEmpty, b\<lparr>bPq := []\<rparr>)" by (simp add: Dequeue_def)
  then have "Dequeue (Es k) b = (Inl ErrEmpty, b)" using assms(2) by simp
  then show ?thesis using assms(3)
    by (auto simp: loopPass_def brokerService_def Server_Dequeue_def split: if_splits option.splits)
qed

lemma loop_finishes:
  assumes G: "gob_roundtrip G" "\<forall>k. smooth (Es k)"
    and "serving b" and "\<forall>P \<in> set Ps. \<not> paDone P" and "attempts b \<le> length Ps"
    and "workerLoop (brokerService L errText G Es) handler cfg Ps backoff (k, b) = (r, k', b')"
  shows "bPq b' = [] \<and> bTracker b' = bTracker b"
  using assms(3-)
proof (induction Ps arbitrary: backoff k b)
  case Nil
  then show ?case by (simp add: attempts_zero)
next
  case (Cons P Ps)
  let ?S = "brokerService L errText G Es"
  show ?case
  proof (cases "bPq b = []")
    case True
    obtain e k1 b1 where e: "loopPass ?S handler cfg P backoff (k, b) = (e, k1, b1)" by (metis prod.collapse)
    have b1: "b1 = b" by (rule idle_pass [OF Cons.prems(1) True e])
    have "attempts b = 0" using True by (simp add: attempts_zero)
    with Cons b1 e True show ?thesis by (cases e) auto
  next
    case False
    from busy_pass [OF G Cons.prems(1) False] Cons.prems(2) obtain b1 where
      p: "loopPass ?S handler cfg P backoff (k, b) = (LoopNext (wMinBackoff cfg), Suc (Suc k), b1)"
      and b1: "serving b1" "attempts b1 < attempts b" "bTracker b1 = bTracker b" by (metis list.set_intros(1))
    then show ?thesis using Cons.IH [of b1] Cons.prems by auto
  qed
qed


text \<open>
  C27: A worker finishes the queue. On a broker that works, with any handler, a worker that makes as
  many passes as the pending tasks have chances left (for each task its remaining retries, at
  least one) leaves no task pending and nothing more in flight than before: every ID that was
  pending is in the dead-letter list, or was handled without an error. A task whose handler
  always fails or panics is therefore dead after finitely many passes.
\<close>

theorem worker_finishes:
  assumes "gob_roundtrip G" and "\<forall>k. smooth (Es k)" and "serving b"
    and "\<forall>P \<in> set Ps. \<not> paDone P" and "(\<Sum>t \<in># mset (bPq b). nat (max 1 (MaxRetries (bCfg b) - RetryCount t))) \<le> length Ps"
    and "Worker_run (brokerService L errText G Es) handler cfg Ps (k, b) = (r, k', b')"
  shows "bPq b' = [] \<and> bTracker b' = bTracker b \<and>
    (\<exists>out. mset (map ID (bPq b)) + mset (map ID (bDlq b)) = out + mset (map ID (bDlq b')) \<and>
      (\<forall>i \<in># out. \<exists>p. pId p = i \<and> handler p = HandledOk))"
proof -
  note run = assms(6) [unfolded Worker_run_def]
  have a: "attempts b \<le> length Ps" using assms(5) by (simp add: attempts_def chances_def)
  note F = loop_finishes [OF assms(1-4) a run]
  have "case (k, b) of (k, b) \<Rightarrow> one_each b" using assms(3) by (simp add: serving_def)
  from bs.loop_accounts [OF this run] obtain out where
    o: "known_ids b = out + known_ids b'" "\<forall>i \<in># out. \<exists>p. pId p = i \<and> handler p = HandledOk" by auto
  have "mset (map ID (bPq b)) + mset (map ID (bDlq b)) = out + mset (map ID (bDlq b'))"
    using o(1) F by (simp add: known_ids_def)
  with F o(2) show ?thesis by blast
qed

theorem worker_finishes_witness:
  "\<exists>r k b. Worker_run (brokerService sample_ts (\<lambda>e. '''') sample_gob (\<lambda>k. ex_env)) (\<lambda>p. HandledErr) (commandWorker 1)
      [ex_pass, ex_pass, ex_pass] (0, ex_waiting) = (r, k, b) \<and> bPq b = [] \<and> mset (map ID (bDlq b)) = {#''a''#}"
proof -
  obtain r k b where r: "Worker_run (brokerService sample_ts (\<lambda>e. '''') sample_gob (\<lambda>k. ex_env)) (\<lambda>p. HandledErr)
      (commandWorker 1) [ex_pass, ex_pass, ex_pass] (0, ex_waiting) = (r, k, b)" by (metis prod.collapse)
  have s: "\<forall>k :: nat. smooth ((\<lambda>k. ex_env) k)" by (simp add: smooth_def ex_env_def)
  have v: "serving ex_waiting" using ex_waiting_ok
    by (simp add: serving_def one_each_def) (simp add: ex_waiting_def ex_broker_def emptyBroker_def fresh_wal_def)
  have p: "\<forall>P \<in> set [ex_pass, ex_pass, ex_pass]. \<not> paDone P" by (simp add: ex_pass_def)
  have n: "(\<Sum>t \<in># mset (bPq ex_waiting). nat (max 1 (MaxRetries (bCfg ex_waiting) - RetryCount t)))
      \<le> length [ex_pass, ex_pass, ex_pass]"
    by (simp add: ex_waiting_def ex_broker_def emptyBroker_def ex_cfg_def log_task_def)
  from worker_finishes [OF gob_roundtrip_sample s v p n r] obtain out where
    "bPq b = []" "mset (map ID (bPq ex_waiting)) + mset (map ID (bDlq ex_waiting)) = out + mset (map ID (bDlq b))"
    "\<forall>i \<in># out. False" by auto
  moreover from this(3) have "out = {#}" by auto
  ultimately have "bPq b = [] \<and> mset (map ID (bDlq b)) = {#''a''#}"
    by (simp add: ex_waiting_def ex_broker_def emptyBroker_def log_task_def)
  with r show ?thesis by (intro exI [of _ r] exI [of _ k] exI [of _ b] conjI) simp_all
qed

end
