(* ===== verification/Metrics_Export.thy ===== *)
theory Metrics_Export
  imports Complex_Main State_Machine Raft_Node
begin

text \<open>
  The gauges that \<^verbatim>\<open>src/server/metrics.go\<close> registers: their names and, as functions of what they read, their
  values. A \<^verbatim>\<open>float64\<close> is a rational here; the conversion from an integer rounds, and is a parameter.
  Registering a name twice panics, which is \<^const>\<open>None\<close>. The HTTP server is not part of the model.
\<close>

type_synonym gauge = "string \<times> rat"

definition mustRegister :: "gauge \<Rightarrow> gauge list \<Rightarrow> gauge list option" where
  "mustRegister g reg = (if fst g \<in> fst ` set reg then None else Some (reg @ [g]))"

definition queueGauges :: "(int \<Rightarrow> rat) \<Rightarrow> Stats \<Rightarrow> gauge list" where
  "queueGauges flt st =
     [(''queue_pending'', flt (stPending st)),
      (''queue_in_flight'', flt (stInFlight st)),
      (''queue_dlq_depth'', flt (stDLQ st)),
      (''queue_acked_total'', flt (stAcked st)),
      (''queue_nacked_total'', flt (stNacked st))]"

definition raftGauges :: "(int \<Rightarrow> rat) \<Rightarrow> raftMetrics \<Rightarrow> gauge list" where
  "raftGauges flt m =
     [(''raft_term'', flt (mTerm m)),
      (''raft_is_leader'', if mState m = Leader then 1 else 0),
      (''raft_log_entries'', flt (mLogLength m)),
      (''raft_commit_index'', flt (mCommitIndex m)),
      (''raft_last_applied'', flt (mLastApplied m)),
      (''raft_snapshot_index'', flt (mSnapshotIndex m)),
      (''raft_elections_started_total'', flt (mElectionsStarted m))]"

definition ServeMetrics :: "(int \<Rightarrow> rat) \<Rightarrow> Stats \<Rightarrow> Node option \<Rightarrow> gauge list option" where
  "ServeMetrics flt st node =
     fold (\<lambda>g reg. Option.bind reg (mustRegister g))
       (queueGauges flt st @ (case node of None \<Rightarrow> [] | Some n \<Rightarrow> raftGauges flt (Node_Metrics n))) (Some [])"

end
