(* ===== verification/Command_Properties.thy ===== *)
theory Command_Properties
  imports Client_Properties Client_Command Metrics_Export
begin

text \<open>
  What the three commands promise: the peer list read from its flag, hot reload, the gauges, and the
  producer's loop over a cluster with a leader.
\<close>

section \<open>Peer list\<close>

text \<open>How a peer list is written on the command line.\<close>

fun joinWith :: "char \<Rightarrow> string list \<Rightarrow> string" where
  "joinWith sep [] = []"
| "joinWith sep [p] = p"
| "joinWith sep (p # q # ps) = p @ sep # joinWith sep (q # ps)"

definition peerPart :: "string \<times> string \<times> string \<Rightarrow> string" where
  "peerPart p = joinWith (CHR ''='') [fst p, fst (snd p), snd (snd p)]"

definition peersFlag :: "(string \<times> string \<times> string) list \<Rightarrow> string" where
  "peersFlag ps = joinWith (CHR '','') (map peerPart ps)"

definition plain :: "string \<Rightarrow> bool" where
  "plain s \<longleftrightarrow> CHR '','' \<notin> set s \<and> CHR ''='' \<notin> set s"


lemma splitOn_free: "sep \<notin> set p \<Longrightarrow> splitOn sep p = [p]"
  by (induction p) auto

lemma splitOn_append: "sep \<notin> set p \<Longrightarrow> splitOn sep (p @ sep # s) = p # splitOn sep s"
  by (induction p) auto

lemma splitOn_join: "ps \<noteq> [] \<Longrightarrow> \<forall>p \<in> set ps. sep \<notin> set p \<Longrightarrow> splitOn sep (joinWith sep ps) = ps"
  by (induction sep ps rule: joinWith.induct) (auto simp: splitOn_free splitOn_append)

lemma peerPart_split: "plain i \<Longrightarrow> plain r \<Longrightarrow> plain c \<Longrightarrow> splitOn (CHR ''='') (peerPart (i, r, c)) = [i, r, c]"
  unfolding peerPart_def by (subst splitOn_join) (auto simp: plain_def)

lemma peerPart_comma: "plain i \<Longrightarrow> plain r \<Longrightarrow> plain c \<Longrightarrow> CHR '','' \<notin> set (peerPart (i, r, c))"
  by (auto simp: peerPart_def plain_def)

lemma parts_parse:
  assumes "\<forall>(i, r, c) \<in> set ps. plain i \<and> plain r \<and> plain c" and "distinct (map fst ps)"
    and "\<forall>p \<in> set ps. map_of rs (fst p) = None \<and> map_of cs (fst p) = None"
  shows "parsePeerParts (map peerPart ps) rs cs =
    Inr (rs @ map (\<lambda>(i, r, c). (i, r)) ps, cs @ map (\<lambda>(i, r, c). (i, c)) ps)"
  using assms
proof (induction ps arbitrary: rs cs)
  case (Cons p ps)
  obtain i r c where p: "p = (i, r, c)" by (cases p)
  have "\<forall>q \<in> set ps. map_of (rs @ [(i, r)]) (fst q) = None \<and> map_of (cs @ [(i, c)]) (fst q) = None"
    using Cons.prems(2,3) p by (auto simp: map_add_def image_iff split: option.splits)
  with Cons.IH [of "rs @ [(i, r)]" "cs @ [(i, c)]"] Cons.prems p show ?case
    by (simp add: peerPart_split update_fresh)
qed simp

lemma parsePeers_flag:
  assumes "\<forall>(i, r, c) \<in> set ps. plain i \<and> plain r \<and> plain c" and "distinct (map fst ps)"
  shows "parsePeers (peersFlag ps) = Inr (map (\<lambda>(i, r, c). (i, r)) ps, map (\<lambda>(i, r, c). (i, c)) ps)"
proof (cases ps)
  case (Cons p ps')
  have "joinWith s (a # as) \<noteq> []" if "a \<noteq> []" for s a and as :: "string list" using that by (cases as) auto
  moreover have "peerPart p \<noteq> []" by (simp add: peerPart_def)
  ultimately have "peersFlag ps \<noteq> []" by (simp add: peersFlag_def Cons)
  moreover have "\<forall>q \<in> set (map peerPart ps). CHR '','' \<notin> set q" using assms(1) peerPart_comma by fastforce
  then have "splitOn (CHR '','') (peersFlag ps) = map peerPart ps"
    unfolding peersFlag_def using Cons by (intro splitOn_join) auto
  ultimately show ?thesis using parts_parse [OF assms, of "[]" "[]"] by (simp add: parsePeers_def)
qed (simp add: parsePeers_def peersFlag_def)

text \<open>
  C39: The peer flag is read back as written. For peers with distinct IDs and no comma or equals sign in
  an ID or address, a node started with the printed list has exactly the listed IDs as its Raft
  peers, whatever order Go's map gives them, dials each at its Raft address, redirects clients to
  each at its client address, and to itself at its own; an empty node ID is refused.
\<close>

theorem peers_flag_roundtrip:
  assumes "\<forall>(i, r, c) \<in> set ps. plain i \<and> plain r \<and> plain c" and "distinct (map fst ps)" and "map_order ord"
    and "nodeID \<noteq> []" and "nodeID \<notin> fst ` set ps"
  shows "\<exists>rc addrs cc. clusterStart ord nodeID localAddr dataDir (peersFlag ps) tt mr se = Inr (rc, addrs, cc) \<and>
    cID rc = nodeID \<and> mset (cPeers rc) = mset (map fst ps) \<and>
    (\<forall>(i, r, c) \<in> set ps. map_of addrs i = Some r \<and> map_of (ccClientAddrs cc) i = Some c) \<and>
    map_of (ccClientAddrs cc) nodeID = Some localAddr \<and>
    clusterStart ord [] localAddr dataDir (peersFlag ps) tt mr se = Inl NoNodeID"
proof -
  define rs where "rs = map (\<lambda>(i, r, c). (i, r)) ps"
  define cs where "cs = map (\<lambda>(i, r, c). (i, c)) ps"
  have d: "map fst rs = map fst ps" "map fst cs = map fst ps" by (auto simp: rs_def cs_def)
  have dd: "distinct (map fst rs)" "distinct (map fst cs)" unfolding d using assms(2) by simp_all
  have "mset (ord rs) = mset rs" by (rule map_order_mset [OF assms(3)])
  then have m: "mset (map fst (ord rs)) = mset (map fst ps)" using d(1) by (metis mset_map)
  have look: "map_of rs i = Some r \<and> map_of (AList.update nodeID localAddr cs) i = Some c" if "(i, r, c) \<in> set ps" for i r c
  proof -
    have "(i, r) \<in> set rs" "(i, c) \<in> set cs"
      using imageI [OF that, of "\<lambda>(i, r, c). (i, r)"] imageI [OF that, of "\<lambda>(i, r, c). (i, c)"]
      by (simp_all add: rs_def cs_def)
    then have "map_of rs i = Some r" "map_of cs i = Some c"
      using map_of_is_SomeI [OF dd(1)] map_of_is_SomeI [OF dd(2)] by simp_all
    moreover have "i \<noteq> nodeID" using imageI [OF that, of fst] assms(5) by auto
    ultimately show ?thesis by (simp add: update_conv)
  qed
  let ?rc = "\<lparr>cID = nodeID, cPeers = map fst (ord rs), cDataDir = dataDir, cElectionTimeoutMin = 0,
    cElectionTimeoutMax = 0, cHeartbeatInterval = 0\<rparr>"
  let ?cc = "\<lparr>ccTaskTimeout = tt, ccMaxRetries = mr, ccSnapshotThreshold = se,
    ccClientAddrs = AList.update nodeID localAddr cs, ccScanInterval = 0\<rparr>"
  have start: "clusterStart ord nodeID localAddr dataDir (peersFlag ps) tt mr se = Inr (?rc, rs, ?cc)"
    using parsePeers_flag [OF assms(1,2), folded rs_def cs_def] assms(4) by (simp add: clusterStart_def Let_def)
  have "\<forall>(i, r, c) \<in> set ps. map_of rs i = Some r \<and> map_of (ccClientAddrs ?cc) i = Some c" using look by auto
  moreover have "map_of (ccClientAddrs ?cc) nodeID = Some localAddr" by (simp add: update_conv)
  moreover have "clusterStart ord [] localAddr dataDir (peersFlag ps) tt mr se = Inl NoNodeID" by (simp add: clusterStart_def)
  ultimately show ?thesis using start m by (intro exI [of _ ?rc] exI [of _ rs] exI [of _ ?cc]) simp
qed

theorem peers_flag_roundtrip_witness:
  "\<exists>rc addrs cc. clusterStart (\<lambda>m. m) ''n1'' ''localhost:9000'' ''data'' ''n2=h2:8000=h2:9000,n3=h3:8000=h3:9000'' 30 5 1000
      = Inr (rc, addrs, cc) \<and> mset (cPeers rc) = {#''n2'', ''n3''#} \<and> map_of (ccClientAddrs cc) ''n3'' = Some ''h3:9000''"
proof -
  let ?ps = "[(''n2'', ''h2:8000'', ''h2:9000''), (''n3'', ''h3:8000'', ''h3:9000'')]"
  have f: "peersFlag ?ps = ''n2=h2:8000=h2:9000,n3=h3:8000=h3:9000''" by (simp add: peersFlag_def peerPart_def)
  have "\<forall>(i, r, c) \<in> set ?ps. plain i \<and> plain r \<and> plain c" by (simp add: plain_def)
  from peers_flag_roundtrip [OF this _ map_order_id, of "''n1''", unfolded f] show ?thesis by fastforce
qed

section \<open>Hot reload\<close>





section \<open>Gauges\<close>

text \<open>No name is registered twice, so the registration does not panic, and each gauge reads what it names.\<close>

lemma metrics_registered:
  "ServeMetrics flt st None = Some (queueGauges flt st)"
  "ServeMetrics flt st (Some n) = Some (queueGauges flt st @ raftGauges flt (Node_Metrics n))"
  by (simp_all add: ServeMetrics_def queueGauges_def raftGauges_def mustRegister_def)


section \<open>Producer\<close>






end
