(* ===== verification/Cluster_Service.thy ===== *)
theory Cluster_Service
  imports Cluster_Server Raft_Cluster
begin

text \<open>
  The whole clustered service as a step relation: the Raft cluster, and on every running process the
  server of \<^verbatim>\<open>src/server/cluster.go\<close> with its goroutines. A step is one of Raft's or one piece of a
  server goroutine between two points where another goroutine can run. The node the server holds
  is the process's Raft node, so its copy in the server is refreshed before each step.
\<close>

section \<open>State\<close>

text \<open>Where the apply loop is: between messages, before its lock, or before its snapshot.\<close>

datatype loopAt = LoopIdle | Notifying int int | Snapping int

text \<open>A call of \<^verbatim>\<open>propose\<close>: refused, in the log, waiting on its channel, or finished.\<close>

datatype call =
  Refused QueueOp proposeError
| Proposed QueueOp int int
| Awaiting QueueOp int int nat
| Answered QueueOp int int "proposeError option"

record serverRun =
  srServer :: ClusterServer
  srLoop :: loopAt
  srIn :: "ApplyMsg list"
  srCalls :: "call list"

record clusterService =
  svRaft :: cluster
  svRun :: "string \<rightharpoonup> serverRun"

text \<open>A process that starts has a fresh state machine and server.\<close>

definition newRun :: "ClusterConfig \<Rightarrow> Node \<Rightarrow> serverRun" where
  "newRun cc n =
     \<lparr>srServer = NewClusterServer n (NewStateMachine (ccMaxRetries cc)) cc, srLoop = LoopIdle, srIn = [], srCalls = []\<rparr>"

definition serverAt :: "serverRun \<Rightarrow> Node \<Rightarrow> ClusterServer" where
  "serverAt r n = (srServer r)\<lparr>csNode := n\<rparr>"

text \<open>What a step of Raft does to the servers: one ends with its process, one starts with it.\<close>

definition raftMoved :: "(string \<Rightarrow> ClusterConfig) \<Rightarrow> cluster \<Rightarrow> clusterService \<Rightarrow> clusterService" where
  "raftMoved cc s' st =
     \<lparr>svRaft = s',
      svRun = (\<lambda>i. case clPeer s' i of
                 Down d \<Rightarrow> None
               | Up n \<Rightarrow> (case svRun st i of None \<Rightarrow> Some (newRun (cc i) n) | Some r \<Rightarrow> Some r))\<rparr>"

definition dies :: "string \<Rightarrow> raftDisk \<Rightarrow> clusterService \<Rightarrow> clusterService" where
  "dies i d st = \<lparr>svRaft = crashed i d (svRaft st), svRun = (svRun st)(i := None)\<rparr>"

text \<open>A server goroutine that has changed the server, and with it the node.\<close>

definition goesOn :: "string \<Rightarrow> serverRun \<Rightarrow> clusterService \<Rightarrow> clusterService" where
  "goesOn i r st = \<lparr>svRaft = setPeer i (Up (csNode (srServer r))) (svRaft st), svRun = (svRun st)(i \<mapsto> r)\<rparr>"

definition running :: "clusterService \<Rightarrow> string list \<Rightarrow> string \<Rightarrow> Node \<Rightarrow> serverRun \<Rightarrow> bool" where
  "running st members i n r \<longleftrightarrow> i \<in> set members \<and> clPeer (svRaft st) i = Up n \<and> svRun st i = Some r"

section \<open>Steps\<close>

definition received :: "ApplyMsg \<Rightarrow> ClusterServer \<Rightarrow> serverRun \<Rightarrow> serverRun" where
  "received m s r =
     r\<lparr>srServer := s, srIn := srIn r @ [m],
       srLoop := (case m of ApplySnapshot d k t \<Rightarrow> LoopIdle | ApplyCommand c k t \<Rightarrow> Notifying k t)\<rparr>"

definition proposed :: "QueueOp \<Rightarrow> proposeError + int \<times> int \<Rightarrow> ClusterServer \<Rightarrow> serverRun \<Rightarrow> serverRun" where
  "proposed op res s r =
     r\<lparr>srServer := s,
       srCalls := srCalls r @ [case res of Inl e \<Rightarrow> Refused op e | Inr (k, t) \<Rightarrow> Proposed op k t]\<rparr>"

text \<open>
  The parts of the server that touch neither the waiters nor the log: a delivery, an answer's
  bookkeeping and the two scans. They can run whenever the goroutine's earlier parts let them, so
  no order and no result of an earlier check is required here.
\<close>

inductive local_step :: "clusterLib \<Rightarrow> ClusterServer \<Rightarrow> ClusterServer \<Rightarrow> bool" for L :: clusterLib where
  Local_Take: "local_step L s (snd (dequeueTake now s))"
| Local_Track: "local_step L s (dequeueTrack t s)"
| Local_Finish: "local_step L s (snd (finishAnswer encText taskID r s))"
| Local_Scan: "local_step L s (snd (timeoutScan ord now s))"
| Local_Watch: "local_step L s (snd (watchFlag isLeader s))"
| Local_Requeue: "map_order ord \<Longrightarrow> local_step L s (watchRequeue ord s)"
| Local_Stop: "local_step L s (Cluster_Stop s)"

inductive service_step ::
  "clusterLib \<Rightarrow> string list \<Rightarrow> (string \<Rightarrow> raftConfig) \<Rightarrow> (string \<Rightarrow> ClusterConfig) \<Rightarrow> clusterService \<Rightarrow> clusterService \<Rightarrow> bool"
  for L :: clusterLib and members :: "string list" and cfg :: "string \<Rightarrow> raftConfig" and cc :: "string \<Rightarrow> ClusterConfig" where
  Raft: "node_step (libPs L) members cfg (svRaft st) s' \<Longrightarrow> service_step L members cfg cc st (raftMoved cc s' st)"
| Receive: "running st members i n r \<Longrightarrow> srLoop r = LoopIdle \<Longrightarrow> length (srIn r) < length (clApplied (svRaft st) i) \<Longrightarrow>
    m = clApplied (svRaft st) i ! length (srIn r) \<Longrightarrow> applyCommand L m (serverAt r n) = Ok s \<Longrightarrow>
    service_step L members cfg cc st (goesOn i (received m s r) st)"
| Receive_Panic: "running st members i n r \<Longrightarrow> srLoop r = LoopIdle \<Longrightarrow> length (srIn r) < length (clApplied (svRaft st) i) \<Longrightarrow>
    m = clApplied (svRaft st) i ! length (srIn r) \<Longrightarrow> applyCommand L m (serverAt r n) = Panic d \<Longrightarrow>
    service_step L members cfg cc st (dies i d st)"
| Notify: "running st members i n r \<Longrightarrow> srLoop r = Notifying k t \<Longrightarrow>
    applyNotify k t (serverAt r n) = Some (needSnap, s) \<Longrightarrow>
    service_step L members cfg cc st (goesOn i (r\<lparr>srServer := s, srLoop := if needSnap then Snapping k else LoopIdle\<rparr>) st)"
| Take_Snapshot: "running st members i n r \<Longrightarrow> srLoop r = Snapping k \<Longrightarrow> map_order ord \<Longrightarrow>
    applySnapshot L ord E k (serverAt r n) = Ok s \<Longrightarrow>
    service_step L members cfg cc st (goesOn i (r\<lparr>srServer := s, srLoop := LoopIdle\<rparr>) st)"
| Take_Snapshot_Panic: "running st members i n r \<Longrightarrow> srLoop r = Snapping k \<Longrightarrow> map_order ord \<Longrightarrow>
    applySnapshot L ord E k (serverAt r n) = Panic d \<Longrightarrow>
    service_step L members cfg cc st (dies i d st)"
| Propose_Op: "running st members i n r \<Longrightarrow> proposeOp L E op (serverAt r n) = Ok (res, s) \<Longrightarrow>
    service_step L members cfg cc st (goesOn i (proposed op res s r) st)"
| Propose_Panic: "running st members i n r \<Longrightarrow> proposeOp L E op (serverAt r n) = Panic d \<Longrightarrow>
    service_step L members cfg cc st (dies i d st)"
| Register: "running st members i n r \<Longrightarrow> c < length (srCalls r) \<Longrightarrow> srCalls r ! c = Proposed op k t \<Longrightarrow>
    registerWaiter k (serverAt r n) = (ch, s) \<Longrightarrow>
    service_step L members cfg cc st (goesOn i (r\<lparr>srServer := s, srCalls := (srCalls r)[c := Awaiting op k t ch]\<rparr>) st)"
| Wake: "running st members i n r \<Longrightarrow> c < length (srCalls r) \<Longrightarrow> srCalls r ! c = Awaiting op k t ch \<Longrightarrow>
    awaitOutcome w k t ch (serverAt r n) = Some (res, s) \<Longrightarrow>
    service_step L members cfg cc st (goesOn i (r\<lparr>srServer := s, srCalls := (srCalls r)[c := Answered op k t res]\<rparr>) st)"
| Local: "running st members i n r \<Longrightarrow> local_step L (serverAt r n) s \<Longrightarrow>
    service_step L members cfg cc st (goesOn i (r\<lparr>srServer := s\<rparr>) st)"

text \<open>At first no process runs.\<close>

definition service_init :: clusterService where
  "service_init = \<lparr>svRaft = raft_init, svRun = Map.empty\<rparr>"

section \<open>Steps of the service are steps of Raft\<close>

lemma setPeer_same: "clPeer s i = Up n \<Longrightarrow> setPeer i (Up n) s = s"
  by (simp add: setPeer_def fun_upd_idem)

lemma serverAt_sel [simp]:
  "csNode (serverAt r n) = n" "csSm (serverAt r n) = csSm (srServer r)" "csCfg (serverAt r n) = csCfg (srServer r)"
  "csWaiters (serverAt r n) = csWaiters (srServer r)" "csChans (serverAt r n) = csChans (srServer r)"
  by (simp_all add: serverAt_def)

lemma goesOn_sel [simp]:
  "svRaft (goesOn i r st) = setPeer i (Up (csNode (srServer r))) (svRaft st)" "svRun (goesOn i r st) = (svRun st)(i \<mapsto> r)"
  by (simp_all add: goesOn_def)

lemma dies_sel [simp]:
  "svRaft (dies i d st) = crashed i d (svRaft st)" "svRun (dies i d st) = (svRun st)(i := None)"
  by (simp_all add: dies_def)

lemma applyCommand_node:
  shows "applyCommand L m s = Ok s' \<Longrightarrow> csNode s' = csNode s" and "applyCommand L m s = Panic d \<Longrightarrow> d = nDisk (csNode s)"
  by (auto simp: applyCommand_def split: ApplyMsg.splits prod.splits option.splits if_splits bool.splits)

lemma applyNotify_node: "applyNotify k t s = Some (b, s') \<Longrightarrow> csNode s' = csNode s \<and> csSm s' = csSm s"
  by (auto simp: applyNotify_def sendOutcome_def Let_def split: option.splits if_splits)

lemma registerWaiter_node: "registerWaiter k s = (ch, s') \<Longrightarrow> csNode s' = csNode s \<and> csSm s' = csSm s"
  by (auto simp: registerWaiter_def Let_def)

lemma awaitOutcome_node: "awaitOutcome w k t ch s = Some (res, s') \<Longrightarrow> csNode s' = csNode s \<and> csSm s' = csSm s"
  by (auto simp: awaitOutcome_def Let_def split: wakeup.splits option.splits if_splits)

lemma timeoutScan_frame:
  "csNode (snd (timeoutScan ord now s)) = csNode s \<and> csSm (snd (timeoutScan ord now s)) = csSm s \<and>
   csWaiters (snd (timeoutScan ord now s)) = csWaiters s \<and> csChans (snd (timeoutScan ord now s)) = csChans s \<and>
   csCfg (snd (timeoutScan ord now s)) = csCfg s"
proof -
  let ?f = "\<lambda>(tid, deadline) (expired, s). if now > deadline
      then (expired @ [tid], s\<lparr>csInflight := AList.delete tid (csInflight s)\<rparr>) else (expired, s)"
  have "csNode (snd (fold ?f es p)) = csNode (snd p) \<and> csSm (snd (fold ?f es p)) = csSm (snd p) \<and>
      csWaiters (snd (fold ?f es p)) = csWaiters (snd p) \<and> csChans (snd (fold ?f es p)) = csChans (snd p) \<and>
      csCfg (snd (fold ?f es p)) = csCfg (snd p)" for es p
    by (induction es arbitrary: p) (auto split: prod.splits if_splits)
  from this [of "ord (csInflight s)" "([], s)"] show ?thesis by (simp add: timeoutScan_def)
qed

lemma local_frame:
  assumes "local_step L s s'"
  shows "csNode s' = csNode s \<and> csWaiters s' = csWaiters s \<and> csChans s' = csChans s \<and> csCfg s' = csCfg s"
  using assms
  by cases (auto simp: dequeueTake_def dequeueTrack_def finishAnswer_def watchFlag_def watchRequeue_def Cluster_Stop_def Let_def timeoutScan_frame
      split: prod.splits option.splits)

lemma applySnapshot_cases:
  assumes "applySnapshot L ord E k s = r"
  obtains (failed) "Snapshot (libSnap L) ord (csSm s) = None" "r = Panic (nDisk (csNode s))"
  | (taken) bs n where "Snapshot (libSnap L) ord (csSm s) = Some bs" "Node_Snapshot (libPs L) E k bs (csNode s) = Ok n"
      "r = Ok (s\<lparr>csNode := n\<rparr>)"
  | (crash) bs d where "Snapshot (libSnap L) ord (csSm s) = Some bs" "Node_Snapshot (libPs L) E k bs (csNode s) = Panic d" "r = Panic d"
proof (cases "Snapshot (libSnap L) ord (csSm s)")
  case None
  then show thesis using assms failed by (simp add: applySnapshot_def)
next
  case (Some bs)
  then show thesis using assms taken crash
    by (cases "Node_Snapshot (libPs L) E k bs (csNode s)") (simp_all add: applySnapshot_def)
qed

lemma proposeOp_cases:
  assumes "proposeOp L E op s = r"
  obtains (failed) "EncodeOp (libOp L) op = None" "r = Ok (Inl EncodeError, s)"
  | (refused) cmd k t n where "EncodeOp (libOp L) op = Some cmd" "Propose (libPs L) E cmd (csNode s) = Ok ((k, t, False), n)"
      "r = Ok (Inl ErrNotLeader, s\<lparr>csNode := n\<rparr>)"
  | (taken) cmd k t n where "EncodeOp (libOp L) op = Some cmd" "Propose (libPs L) E cmd (csNode s) = Ok ((k, t, True), n)"
      "r = Ok (Inr (k, t), s\<lparr>csNode := n\<rparr>)"
  | (crash) cmd d where "EncodeOp (libOp L) op = Some cmd" "Propose (libPs L) E cmd (csNode s) = Panic d" "r = Panic d"
proof (cases "EncodeOp (libOp L) op")
  case None
  then show thesis using assms failed by (simp add: proposeOp_def)
next
  case (Some cmd)
  show thesis
  proof (cases "Propose (libPs L) E cmd (csNode s)")
    case (Ok p)
    obtain k t b n where p: "p = ((k, t, b), n)" by (cases p) auto
    then show thesis using assms Some Ok taken refused by (cases b) (simp_all add: proposeOp_def Let_def)
  next
    case (Panic d)
    then show thesis using assms Some crash by (simp add: proposeOp_def)
  qed
qed

text \<open>To Raft, a step of the service is none, one of a node's, or a compaction with a snapshot that the apply loop has taken.\<close>

lemma service_step_kinds:
  assumes "service_step L members cfg cc st st'"
  obtains (same) "svRaft st' = svRaft st"
  | (node) "node_step (libPs L) members cfg (svRaft st) (svRaft st')"
  | (compact) i n r k ord E bs where "running st members i n r" "srLoop r = Snapping k" "map_order ord"
      "Snapshot (libSnap L) ord (csSm (srServer r)) = Some bs"
      "svRaft st' = settle i (svRaft st) (\<lambda>n1. setPeer i (Up n1) (svRaft st)) (Node_Snapshot (libPs L) E k bs n)"
  using assms
proof cases
  case (Raft s')
  then show thesis using node by (simp add: raftMoved_def)
next
  case (Receive i n r m s)
  then show thesis using same applyCommand_node(1) [OF Receive(6)] by (simp add: received_def running_def setPeer_same)
next
  case (Receive_Panic i n r m d)
  then have "svRaft st' = crashed i (nDisk n) (svRaft st)" using applyCommand_node(2) [OF Receive_Panic(6)] by simp
  then show thesis using node Crash Receive_Panic(2) by (simp add: running_def)
next
  case (Notify i n r k t needSnap s)
  then show thesis using same applyNotify_node [OF Notify(4)] by (simp add: running_def setPeer_same)
next
  case (Take_Snapshot i n r k ord E s)
  from Take_Snapshot(5) show thesis
  proof (cases rule: applySnapshot_cases)
    case (taken bs n')
    then show thesis using Take_Snapshot by (intro compact [of i n r k ord bs E]) (simp_all add: settle_def)
  qed auto
next
  case (Take_Snapshot_Panic i n r k ord E d)
  from Take_Snapshot_Panic(5) show thesis
  proof (cases rule: applySnapshot_cases)
    case failed
    then show thesis using Take_Snapshot_Panic(1,2) node Crash by (simp add: running_def)
  next
    case (crash bs d')
    then show thesis using Take_Snapshot_Panic by (intro compact [of i n r k ord bs E]) (simp_all add: settle_def)
  qed auto
next
  case (Propose_Op i n r E op res s)
  note P = Proposal [of i members "svRaft st" n "libPs L" cfg E]
  from Propose_Op(3) show thesis
  proof (cases rule: proposeOp_cases)
    case failed
    then show thesis using Propose_Op(1,2) same by (simp add: running_def proposed_def setPeer_same)
  next
    case (refused cmd k t n')
    then show thesis using Propose_Op(1,2) P [of cmd] node by (simp add: running_def settle_def proposed_def)
  next
    case (taken cmd k t n')
    then show thesis using Propose_Op(1,2) P [of cmd] node by (simp add: running_def settle_def proposed_def)
  qed auto
next
  case (Propose_Panic i n r E op d)
  from Propose_Panic(3) show thesis
  proof (cases rule: proposeOp_cases)
    case (crash cmd d')
    then show thesis using Propose_Panic(1,2) node Proposal [of i members "svRaft st" n "libPs L" cfg E cmd]
      by (simp add: running_def settle_def)
  qed auto
next
  case (Register i n r c op k t ch s)
  then show thesis using same registerWaiter_node [OF Register(5)] by (simp add: running_def setPeer_same)
next
  case (Wake i n r c op k t ch w res s)
  then show thesis using same awaitOutcome_node [OF Wake(5)] by (simp add: running_def setPeer_same)
next
  case (Local i n r s)
  then show thesis using same local_frame [OF Local(3)] by (simp add: running_def setPeer_same)
qed

lemma service_step_raft:
  assumes "service_step L members cfg cc st st'"
  shows "(raft_step (libPs L) members cfg)\<^sup>*\<^sup>* (svRaft st) (svRaft st')"
  using assms
proof (cases rule: service_step_kinds)
  case node
  then show ?thesis by (blast intro: raft_step.Node_Step)
next
  case (compact i n r k ord E bs)
  then show ?thesis using Compact [of i members "svRaft st" n "libPs L" cfg E k bs] by (auto simp: running_def)
qed simp

end
