(* ===== verification/Consensus_Properties.thy ===== *)
theory Consensus_Properties
  imports Sample_Run "HOL-Library.Sublist"
begin

text \<open>
  What the Raft layer promises as a whole, over every run of the cluster: logs match, a leader has
  everything that was committed before it, an index is applied with one command forever, and each
  process hands over an unbroken sequence.
\<close>

section \<open>Runs\<close>

lemma reach_run:
  assumes "raft_reach C members cfg s" and "(raft_step C members cfg)\<^sup>*\<^sup>* s s'"
  shows "raft_reach C members cfg s'"
  using assms(2,1) by induction (auto intro: Raft_Step)

lemma run_safe:
  assumes "(raft_step C members cfg)\<^sup>*\<^sup>* s s'" and "safe C members H s" and el: "election_inv C members cfg s"
    and cc: "cluster_cfg members cfg" and rt: "ps_roundtrip C"
  shows "\<exists>H'. extends H H' \<and> safe C members H' s' \<and> election_inv C members cfg s'"
  using assms(1)
proof induction
  case base
  show ?case using assms(2) el extends_refl by blast
next
  case (step y z)
  then obtain H1 where H1: "extends H H1" "safe C members H1 y" "election_inv C members cfg y" by blast
  have "grows C members H1 z" by (rule raft_step_safe [OF step(2) H1(2,3) cc rt])
  then show ?case
    using raft_step_election [OF step(2) H1(3) cc rt] extends_trans [OF H1(1)] unfolding grows_def by blast
qed

text \<open>Two states of one run are explained by two histories of which one grows into the other.\<close>

lemma run_histories:
  assumes "raft_reach C members cfg s" and "(raft_step C members cfg)\<^sup>*\<^sup>* s s'"
    and cc: "cluster_cfg members cfg" and rt: "ps_roundtrip C"
  obtains H H' where "safe C members H s" and "safe C members H' s'" and "extends H H'" and "hist_inv members H'" and "distinct members"
proof -
  obtain H where H: "safe C members H s" using raft_reach_safe [OF assms(1) cc rt] by blast
  obtain H' where H': "extends H H'" "safe C members H' s'"
    using run_safe [OF assms(2) H raft_reach_election [OF assms(1) cc rt] cc rt] by blast
  show ?thesis by (rule that [OF H H'(2,1) safeD(1) [OF H'(2)]]) (use cc in \<open>simp add: cluster_cfg_def\<close>)
qed

lemma entries_agree:
  assumes inv: "hist_inv members H" "distinct members" and m: "msg_agreed members H m" "msg_agreed members H m'"
    and e: "m = ApplyCommand c k t" "m' = ApplyCommand c' k t'"
  shows "m = m'"
proof -
  obtain T x where x: "agreed members H T x" "int (length x) = k" "last x = \<lparr>eIndex = k, eTerm = t, eCommand = c\<rparr>"
    using m(1) e(1) unfolding msg_agreed_def by auto
  obtain T' x' where x': "agreed members H T' x'" "int (length x') = k" "last x' = \<lparr>eIndex = k, eTerm = t', eCommand = c'\<rparr>"
    using m(2) e(2) unfolding msg_agreed_def by auto
  have "length x' = length x" using x(2) x'(2) by simp
  then have "x = x'" using agreed_comparable [OF inv x(1) x'(1), of "length x"] by simp
  then show ?thesis using x(3) x'(3) e by simp
qed

lemma delivered_agree:
  assumes "raft_reach C members cfg s" and "(raft_step C members cfg)\<^sup>*\<^sup>* s s'"
    and "cluster_cfg members cfg" and "ps_roundtrip C"
    and m: "m \<in> set (clApplied s i)" "m' \<in> set (clApplied s' j)" and e: "m = ApplyCommand c k t" "m' = ApplyCommand c' k t'"
  shows "m = m'"
proof -
  obtain H H' where H: "safe C members H s" "safe C members H' s'" "extends H H'" "hist_inv members H'" "distinct members"
    using run_histories [OF assms(1-4)] by blast
  have "msg_agreed members H m" "msg_agreed members H' m'"
    using safeD(6) [OF H(1)] safeD(6) [OF H(2)] m unfolding deliver_safe_def by blast+
  then show ?thesis using entries_agree [OF H(4,5) msg_agreed_mono [OF _ H(3)] _ e] by blast
qed

lemma reach_log_ok:
  assumes "raft_reach C members cfg s" and "cluster_cfg members cfg" and "ps_roundtrip C" and "i \<in> set members" and "clPeer s i = Up n"
  shows "log_ok n"
proof -
  obtain H where safe: "safe C members H s" using raft_reach_safe [OF assms(1-3)] by blast
  then show ?thesis using node_view [OF safe assms(4,5)] view_log_ok(1) by metis
qed

lemma view_last:
  assumes "ys \<noteq> []" and "view f x = ys @ [e]"
  shows "last x = e"
proof -
  have d: "drop f x = tl ys @ [e]" using assms by (cases ys) (auto simp: view_def)
  then have "f < length x" by (metis append_is_Nil_conv drop_eq_Nil list.distinct(1) not_le)
  then have "last (drop f x) = last x" by (rule last_drop)
  then show ?thesis using d by simp
qed

text \<open>Agreed entries come from the log of the leader of the term of the last of them.\<close>

lemma agreed_traced:
  assumes inv: "hist_inv members H" and x: "agreed members H T x" "x \<noteq> []"
  shows "\<exists>l. hLog H (eTerm (last x)) = Some l \<and> take (length x) l = x"
proof -
  obtain T0 m l where l: "committed members H T0 m" "hLog H T0 = Some l" "length x \<le> m" "x = take (length x) l"
    using x unfolding agreed_def by blast
  have len: "length x \<le> length l" using l(1,2,3) by (auto simp: committed_def)
  define k where "k = length x - 1"
  have k: "Suc k = length x" "k < length l" using x(2) len by (cases x; simp add: k_def)+
  have "last x = l ! k" using l(4) x(2) k by (metis k_def last_conv_nth lessI nth_take)
  moreover obtain l' where "hLog H (eTerm (l ! k)) = Some l'" "take (Suc k) l = take (Suc k) l'"
    using term_logD(3) [OF inv l(2)] k(2) unfolding traced_def by blast
  ultimately show ?thesis using l(4) k(1) by metis
qed

section \<open>Sequences of commands\<close>

lemma commands_from_nth:
  "commands_from k ms \<Longrightarrow> j < length ms \<Longrightarrow> \<exists>c t. ms ! j = ApplyCommand c (k + int j) t"
proof (induction k ms arbitrary: j rule: commands_from.induct)
  case (2 k c i t ms)
  then show ?case using "2.IH" [of "j - 1"] by (cases j) (auto simp: ac_simps)
qed auto

lemma commands_prefix:
  assumes "commands_from 1 xs" and "commands_from 1 ys" and "length xs \<le> length ys"
    and eq: "\<And>m m' c k t c' t'. m \<in> set xs \<Longrightarrow> m' \<in> set ys \<Longrightarrow> m = ApplyCommand c k t \<Longrightarrow> m' = ApplyCommand c' k t' \<Longrightarrow> m = m'"
  shows "prefix xs ys"
proof -
  have "take (length xs) ys = xs"
  proof (rule nth_equalityI)
    fix j assume "j < length (take (length xs) ys)"
    then have j: "j < length xs" "j < length ys" by simp_all
    obtain c t where c: "xs ! j = ApplyCommand c (1 + int j) t" using commands_from_nth [OF assms(1) j(1)] by blast
    obtain c' t' where c': "ys ! j = ApplyCommand c' (1 + int j) t'" using commands_from_nth [OF assms(2) j(2)] by blast
    have "xs ! j = ys ! j" by (rule eq [OF _ _ c c']) (use j in simp_all)
    then show "take (length xs) ys ! j = xs ! j" using j by simp
  qed (use assms(3) in simp)
  then show ?thesis by (metis append_take_drop_id prefixI)
qed

section \<open>The example\<close>

lemma ex_reach_c1: "raft_reach sample_ps ex_members ex_rcfg ex_c1"
  by (rule raft_reach_node [OF ex_reach ex_steps(1)])

lemma ex_reach_c7: "raft_reach sample_ps ex_members ex_rcfg ex_c7"
  by (rule reach_run [OF ex_reach_c1 ex_run_c12(1)])

lemma ex_reach_c12: "raft_reach sample_ps ex_members ex_rcfg ex_c12"
  by (rule reach_run [OF ex_reach_c7 ex_run_c12(2)])

section \<open>Logs\<close>

text \<open>
  C11: Log matching. In every reachable state, if the logs of two running nodes both hold an entry
  with the same index and term, the two entries are the same, and so are the entries of every
  smaller index that both logs still hold; this with messages lost, delayed, repeated and
  reordered, and with nodes that crash, panic, compact their logs and restart.
\<close>

theorem logs_match:
  assumes reach: "raft_reach C members cfg s" and cc: "cluster_cfg members cfg" and rt: "ps_roundtrip C"
    and i: "i \<in> set members" "clPeer s i = Up n" and j: "j \<in> set members" "clPeer s j = Up m"
    and k: "firstIndex n < k" "firstIndex m < k" "entryAt n k = Ok e" "entryAt m k = Ok e'" "eTerm e = eTerm e'"
  shows "e = e' \<and> (\<forall>h. firstIndex n < h \<and> firstIndex m < h \<and> h \<le> k \<longrightarrow> entryAt n h = entryAt m h)"
proof -
  obtain H where safe: "safe C members H s" using raft_reach_safe [OF reach cc rt] by blast
  let ?x = "hFull H i" and ?y = "hFull H j"
  obtain f where f: "f \<le> length ?x" "nLog n = view f ?x" "contiguous 0 ?x" "traced H ?x" "firstIndex n = int f"
    using node_view [OF safe i] by blast
  obtain g where g: "g \<le> length ?y" "nLog m = view g ?y" "contiguous 0 ?y" "traced H ?y" "firstIndex m = int g"
    using node_view [OF safe j] by blast
  have le: "k \<le> int (length ?x)" "k \<le> int (length ?y)"
    using k(3,4) view_log_ok(1,3) [OF f(2,3,1)] view_log_ok(1,3) [OF g(2,3,1)] log_ok_last [of n] log_ok_last [of m]
    by (auto simp: entryAt_def Let_def split: if_splits)
  note E = view_entryAt [OF f(2,3,1)] and E' = view_entryAt [OF g(2,3,1)]
  have e: "e = ?x ! (nat k - 1)" "e' = ?y ! (nat k - 1)" using E [of k] E' [of k] k f(5) g(5) le by simp_all
  have "nat k = Suc (nat k - 1)" using k(1) f(5) by simp
  then have "tm ?x (nat k) = tm ?y (nat k)" using k(5) e by (metis tm_Suc(1))
  then have eq: "take (nat k) ?x = take (nat k) ?y"
    using log_matching [OF f(4) g(4)] le by (simp add: nat_le_iff)
  have nth: "?x ! (nat h - 1) = ?y ! (nat h - 1)" if "0 < h" "h \<le> k" for h
    using nth_take [of "nat h - 1" "nat k" ?x] nth_take [of "nat h - 1" "nat k" ?y] eq that by simp
  have "entryAt n h = entryAt m h" if "firstIndex n < h" "firstIndex m < h" "h \<le> k" for h
    using E [of h] E' [of h] that f(5) g(5) le nth [of h] by simp
  then show ?thesis using e nth [of k] k(1) f(5) by auto
qed

lemma ex_entries:
  "firstIndex ex_leader_node = 0" "firstIndex ex_follower_node = 0"
  "entryAt ex_leader_node 2 = Ok \<lparr>eIndex = 2, eTerm = 1, eCommand = Some ex_cmd\<rparr>"
  "entryAt ex_follower_node 2 = Ok \<lparr>eIndex = 2, eTerm = 1, eCommand = Some ex_cmd\<rparr>"
  "nState ex_leader_node = Leader" "nTerm ex_leader_node = 1" "nTerm ex_follower_node = 1" "nCommitIndex ex_follower_node = 2"
  "lastIndex ex_leader_node = 2"
  by code_simp+

theorem logs_match_witness: "entryAt ex_leader_node 1 = entryAt ex_follower_node 1"
  using logs_match [OF ex_reach_c12 ex_cluster_cfg ps_roundtrip_sample ex_members_in(1) ex_c12_sel(1) ex_members_in(2) ex_c12_sel(2)
      _ _ ex_entries(3,4)] ex_entries(1,2) by simp

text \<open>
  C6: Leader completeness. Whatever a node held as committed at some point of a run, every node
  that is leader then or later, in the same or a later term, has in its log: its log reaches that
  far, and at every index that neither log has compacted away the entries are the same.
\<close>

theorem leader_has_committed:
  assumes reach: "raft_reach C members cfg s" and run: "(raft_step C members cfg)\<^sup>*\<^sup>* s s'"
    and cc: "cluster_cfg members cfg" and rt: "ps_roundtrip C"
    and i: "i \<in> set members" "clPeer s i = Up n" and j: "j \<in> set members" "clPeer s' j = Up m"
    and lead: "nState m = Leader" "nTerm n \<le> nTerm m"
  shows "nCommitIndex n \<le> lastIndex m \<and>
    (\<forall>k. firstIndex n < k \<and> firstIndex m < k \<and> k \<le> nCommitIndex n \<longrightarrow> entryAt m k = entryAt n k)"
proof -
  obtain H H' where H: "safe C members H s" "safe C members H' s'" "extends H H'" "hist_inv members H'" "distinct members"
    using run_histories [OF reach run cc rt] by blast
  let ?x = "hFull H i" and ?y = "hFull H' j" and ?c = "nCommitIndex n"
  obtain f where f: "f \<le> length ?x" "nLog n = view f ?x" "contiguous 0 ?x" "firstIndex n = int f" "hTerm H i = nTerm n"
    using node_view [OF H(1) i] by blast
  obtain g where g: "g \<le> length ?y" "nLog m = view g ?y" "contiguous 0 ?y" "firstIndex m = int g"
    using node_view [OF H(2) j] by blast
  have c: "0 \<le> ?c" "?c \<le> int (length ?x)" "agreed members H (nTerm n) (take (nat ?c) ?x)"
    using node_safe_parts(3) [OF node_safeD [OF H(1) i]] f(5) by (simp_all add: upto_ok_def)
  have l: "length (take (nat ?c) ?x) = nat ?c" using c(2) by (simp add: nat_le_iff)
  note A = agreed_leader [OF H(4,5) extends_agreed [OF H(3) c(3)] lead(2) leader_log(1) [OF H(2) j lead(1)], unfolded l]
  have "entryAt m k = entryAt n k" if k: "firstIndex n < k" "firstIndex m < k" "k \<le> ?c" for k
  proof -
    have le: "k \<le> int (length ?x)" "k \<le> int (length ?y)" using k(3) c A(2) by simp_all
    have "?y ! (nat k - 1) = take (nat ?c) ?y ! (nat k - 1)" "?x ! (nat k - 1) = take (nat ?c) ?x ! (nat k - 1)"
      using k f(4) by simp_all
    then have "?y ! (nat k - 1) = ?x ! (nat k - 1)" using A(1) by simp
    then show ?thesis using view_entryAt [OF f(2,3,1)] view_entryAt [OF g(2,3,1)] k f(4) g(4) le by simp
  qed
  moreover have "?c \<le> lastIndex m" using view_log_ok(3) [OF g(2,3,1)] A(2) c(1) by simp
  ultimately show ?thesis by blast
qed

theorem leader_has_committed_witness:
  "entryAt ex_leader_node 2 = entryAt ex_follower_node 2"
proof -
  note L = leader_has_committed [OF ex_reach_c12 rtranclp.rtrancl_refl ex_cluster_cfg ps_roundtrip_sample ex_members_in(2) ex_c12_sel(2)
      ex_members_in(1) ex_c12_sel(1) ex_entries(5)]
  show ?thesis using L by (simp add: ex_entries)
qed

section \<open>The state machines\<close>

text \<open>
  C4: State machine safety over time. If some process was handed a command for an index at some
  point of a run, then whatever process is handed a command for that index then or later (a
  process that crashed and applies its log again included) gets the same command of the same
  term.
\<close>

theorem state_machine_safety:
  assumes "raft_reach C members cfg s" and "(raft_step C members cfg)\<^sup>*\<^sup>* s s'"
    and "cluster_cfg members cfg" and "ps_roundtrip C"
    and "ApplyCommand c k t \<in> set (clApplied s i)" and "ApplyCommand c' k t' \<in> set (clApplied s' j)"
  shows "c' = c \<and> t' = t"
  using delivered_agree [OF assms refl refl] by simp

theorem state_machine_safety_witness:
  "amCommand (last (clApplied ex_c12 ''b'')) = amCommand (last (clApplied ex_c7 ''a'')) \<and>
   amTerm (last (clApplied ex_c12 ''b'')) = amTerm (last (clApplied ex_c7 ''a''))"
proof -
  note S = state_machine_safety [OF ex_reach_c7 ex_run_c12(2) ex_cluster_cfg ps_roundtrip_sample,
      where i = "''a''" and j = "''b''" and c = "Some ex_cmd" and c' = "Some ex_cmd" and k = 2 and t = 1 and t' = 1]
  show ?thesis using S by (simp add: ex_c12_sel ex_msgs_def)
qed

lemma proposal_stays:
  assumes reach: "raft_reach C members cfg s" and cc: "cluster_cfg members cfg" and rt: "ps_roundtrip C"
    and i: "i \<in> set members" "clPeer s i = Up n" and p: "Propose C E command n = Ok ((index, t, True), n')"
    and run: "(raft_step C members cfg)\<^sup>*\<^sup>* (setPeer i (Up n') s) s'"
    and a: "ApplyCommand c index t \<in> set (clApplied s' j)"
  shows "c = Some command"
proof -
  let ?s = "setPeer i (Up n') s"
  have "node_step C members cfg s ?s" using Proposal [OF i, of C cfg E command] p by (simp add: settle_def)
  then have reach': "raft_reach C members cfg ?s" by (rule raft_reach_node [OF reach])
  obtain H H' where H: "safe C members H ?s" "safe C members H' s'" "extends H H'" "hist_inv members H'" "distinct members"
    using run_histories [OF reach' run cc rt] by blast
  have up: "clPeer ?s i = Up n'" by simp
  have P: "nState n = Leader" "index = lastIndex n + 1" "t = nTerm n" "same_rest n n'"
    "nLog n' = nLog n @ [\<lparr>eIndex = index, eTerm = t, eCommand = Some command\<rparr>]"
    using Propose_effect [OF p] by auto
  obtain f where f: "f \<le> length (hFull H i)" "nLog n' = view f (hFull H i)" "contiguous 0 (hFull H i)" "hTerm H i = nTerm n'"
    using node_view [OF H(1) i(1) up] by blast
  note V = view_log_ok [OF f(2,3,1)]
  have st: "nState n' = Leader" "nTerm n' = t" using P(1,3,4) by (simp_all add: same_rest_def)
  have le: "lastIndex n' = index" using P(5) by (simp add: lastIndex_def)
  have "msg_agreed members H' (ApplyCommand c index t)" using safeD(6) [OF H(2)] a unfolding deliver_safe_def by blast
  then obtain T x where x: "agreed members H' T x" "int (length x) = index" "x \<noteq> []" "last x = \<lparr>eIndex = index, eTerm = t, eCommand = c\<rparr>"
    unfolding msg_agreed_def by auto
  have len: "length (hFull H i) = length x" using V(3) le x(2) by simp
  obtain r where r: "hLog H' t = Some (hFull H i @ r)"
    using extends_log [OF H(3) leader_log(1) [OF H(1) i(1) up st(1)]] st(2) by metis
  have "x = hFull H i" using agreed_traced [OF H(4) x(1,3)] x(4) r len by simp
  moreover have "last (hFull H i) = \<lparr>eIndex = index, eTerm = t, eCommand = Some command\<rparr>"
    using view_last [of "nLog n" f "hFull H i"] P(5) f(2) reach_log_ok [OF reach cc rt i] by (simp add: log_ok_def)
  ultimately show ?thesis using x(4) by simp
qed

text \<open>
  C14: A proposal is never replaced under its index and term. If a leader's proposal returned an
  index and a term, then whichever process is handed a command with that index and that term, at
  any later point of the run, is handed the proposed command.
\<close>

theorem proposal_kept:
  assumes reach: "raft_reach C members cfg s" and cc: "cluster_cfg members cfg" and rt: "ps_roundtrip C"
    and i: "i \<in> set members" "clPeer s i = Up n" and p: "Propose C E command n = Ok ((index, t, True), n')"
    and run: "(raft_step C members cfg)\<^sup>*\<^sup>* (setPeer i (Up n') s) s'"
    and a: "ApplyCommand c index t \<in> set (clApplied s' j)"
  shows "c = Some command"
  by (rule proposal_stays [OF assms])

theorem proposal_kept_witness:
  "amCommand (last (clApplied ex_c12 ''b'')) = Some ex_cmd"
proof -
  have run: "(raft_step sample_ps ex_members ex_rcfg)\<^sup>*\<^sup>* (setPeer ''a'' (Up (snd ex_proposed)) ex_led) ex_c12"
    using ex_run_c12 unfolding ex_c1_def [symmetric] by (rule rtranclp_trans)
  show ?thesis
    using proposal_kept [OF ex_reach ex_cluster_cfg ps_roundtrip_sample ex_members_in(1) ex_led_sel(1) ex_runs2(1) run,
        where j = "''b''" and c = "amCommand (last (clApplied ex_c12 ''b''))"] by (simp add: ex_c12_sel ex_msgs_def)
qed

text \<open>
  C15: What one process hands to its state machine is an unbroken sequence: after a message for an
  index comes the command of the next index, or a snapshot that moves forward. And two processes
  that were handed commands only, from index 1 on, were handed the same sequence up to its
  length, also when one of the two is looked at later in the run.
\<close>

theorem delivery_unbroken:
  assumes reach: "raft_reach C members cfg s" and run: "(raft_step C members cfg)\<^sup>*\<^sup>* s s'"
    and cc: "cluster_cfg members cfg" and rt: "ps_roundtrip C"
    and i: "i \<in> set members" and j: "j \<in> set members"
  shows "successively follows (clApplied s i) \<and>
    (commands_from 1 (clApplied s i) \<and> commands_from 1 (clApplied s' j) \<longrightarrow>
       prefix (clApplied s i) (clApplied s' j) \<or> prefix (clApplied s' j) (clApplied s i))"
proof -
  note D = raft_reach_delivery [OF reach cc rt]
  have "successively follows (clApplied s i)"
    using delivery_invD(1) [OF D i] delivery_invD(3) [OF D i] by (cases "clPeer s i") (auto simp: in_order_def)
  moreover have "prefix (clApplied s i) (clApplied s' j) \<or> prefix (clApplied s' j) (clApplied s i)"
    if c: "commands_from 1 (clApplied s i)" "commands_from 1 (clApplied s' j)"
  proof (cases "length (clApplied s i) \<le> length (clApplied s' j)")
    case True
    then show ?thesis using commands_prefix [OF c] delivered_agree [OF reach run cc rt] by blast
  next
    case False
    have "prefix (clApplied s' j) (clApplied s i)"
      by (rule commands_prefix [OF c(2,1)]) (use False delivered_agree [OF reach run cc rt] in \<open>simp, metis\<close>)
    then show ?thesis by blast
  qed
  ultimately show ?thesis by blast
qed

theorem delivery_unbroken_witness:
  "prefix (clApplied ex_c7 ''a'') (clApplied ex_c12 ''b'') \<or> prefix (clApplied ex_c12 ''b'') (clApplied ex_c7 ''a'')"
  using delivery_unbroken [OF ex_reach_c7 ex_run_c12(2) ex_cluster_cfg ps_roundtrip_sample ex_members_in]
  by (simp add: ex_c12_sel ex_msgs_def)

end
