(* ===== verification/Service_Calls.thy ===== *)
theory Service_Calls
  imports Cluster_Service Consensus_Properties
begin

text \<open>
  The calls of the clustered service: the channels between the apply loop and the RPCs that wait on
  it. The apply loop never blocks, an RPC that reports success has seen its own index and term go by,
  and with what Raft promises that is its own operation.
\<close>

section \<open>Channels\<close>

definition seen :: "serverRun \<Rightarrow> int \<Rightarrow> int \<Rightarrow> bool" where
  "seen r k t \<longleftrightarrow> (\<exists>cmd. ApplyCommand cmd k t \<in> set (srIn r))"

text \<open>A registered channel is empty, and no channel is registered twice.\<close>

definition waiters_ok :: "ClusterServer \<Rightarrow> bool" where
  "waiters_ok s \<longleftrightarrow> go_map (csWaiters s) \<and> distinct (map snd (csWaiters s)) \<and>
     (\<forall>(k, ch) \<in> set (csWaiters s). ch < length (csChans s) \<and> csChans s ! ch = None)"

definition call_ok :: "serverRun \<Rightarrow> call \<Rightarrow> bool" where
  "call_ok r c =
     (case c of
        Awaiting op k t ch \<Rightarrow>
          ch < length (csChans (srServer r)) \<and> (\<forall>k'. (k', ch) \<in> set (csWaiters (srServer r)) \<longrightarrow> k' = k) \<and>
          (\<forall>out. csChans (srServer r) ! ch = Some out \<longrightarrow> seen r k (aoTerm out))
      | Answered op k t res \<Rightarrow> res = None \<longrightarrow> seen r k t
      | Refused op e \<Rightarrow> True
      | Proposed op k t \<Rightarrow> True)"

definition calls_ok :: "serverRun \<Rightarrow> bool" where
  "calls_ok r \<longleftrightarrow> waiters_ok (srServer r) \<and> (\<forall>c \<in> set (srCalls r). call_ok r c) \<and>
     (\<forall>k t. srLoop r = Notifying k t \<longrightarrow> seen r k t)"

lemma calls_okI:
  assumes "waiters_ok (srServer r)" and "\<And>c. c \<in> set (srCalls r) \<Longrightarrow> call_ok r c"
    and "\<And>k t. srLoop r = Notifying k t \<Longrightarrow> seen r k t"
  shows "calls_ok r"
  using assms by (simp add: calls_ok_def)

lemma calls_okD:
  assumes "calls_ok r"
  shows "waiters_ok (srServer r)" and "c \<in> set (srCalls r) \<Longrightarrow> call_ok r c" and "srLoop r = Notifying k t \<Longrightarrow> seen r k t"
  using assms by (auto simp: calls_ok_def)

lemma seen_mono: "seen r k t \<Longrightarrow> set (srIn r) \<subseteq> set (srIn r') \<Longrightarrow> seen r' k t"
  by (auto simp: seen_def)

text \<open>A step that leaves waiters and channels alone keeps every call.\<close>

lemma call_ok_frame:
  assumes "call_ok r c" and "csWaiters (srServer r') = csWaiters (srServer r)" and "csChans (srServer r') = csChans (srServer r)"
    and "set (srIn r) \<subseteq> set (srIn r')"
  shows "call_ok r' c"
  using assms seen_mono [OF _ assms(4)] by (auto simp: call_ok_def split: call.splits)

lemma waiters_ok_frame:
  "waiters_ok s \<Longrightarrow> csWaiters s' = csWaiters s \<Longrightarrow> csChans s' = csChans s \<Longrightarrow> waiters_ok s'"
  by (simp add: waiters_ok_def)

lemma newRun_ok: "calls_ok (newRun cc n)"
  by (simp add: newRun_def NewClusterServer_def calls_ok_def waiters_ok_def Let_def)

lemma distinct_values_update:
  "distinct (map snd m) \<Longrightarrow> ch \<notin> snd ` set m \<Longrightarrow> distinct (map snd (AList.update k ch m))"
proof (induction m)
  case (Cons p m)
  obtain k' v where p: "p = (k', v)" by (cases p)
  have "snd ` set (AList.update k ch m) \<subseteq> insert ch (snd ` set m)" using set_update_subset [of k ch m] by auto
  with Cons p show ?case by auto
qed simp

lemma distinct_values_delete: "distinct (map snd m) \<Longrightarrow> distinct (map snd (AList.delete k m))"
  by (simp add: AList.delete_eq distinct_map_filter)

lemma delete_waiters_ok: "waiters_ok s \<Longrightarrow> waiters_ok (s\<lparr>csWaiters := AList.delete k (csWaiters s)\<rparr>)"
  using set_delete_subset [of k "csWaiters s"]
  by (auto simp: waiters_ok_def distinct_values_delete)

lemma in_updated: "x \<in> set (xs[c := y]) \<Longrightarrow> x = y \<or> x \<in> set xs"
  using set_update_subset_insert [of xs c y] by blast

section \<open>The apply loop\<close>

lemma notify_sends:
  assumes w: "waiters_ok s"
  obtains s' where "(case map_of (csWaiters s) k of None \<Rightarrow> Some s
      | Some ch \<Rightarrow> sendOutcome ch \<lparr>aoTerm = t\<rparr> (s\<lparr>csWaiters := AList.delete k (csWaiters s)\<rparr>)) = Some s'"
    and "waiters_ok s'" and "set (csWaiters s') \<subseteq> set (csWaiters s)" and "length (csChans s') = length (csChans s)"
    and "\<And>ch out. ch < length (csChans s) \<Longrightarrow> csChans s' ! ch = Some out \<Longrightarrow> csChans s ! ch = Some out \<or> (k, ch) \<in> set (csWaiters s) \<and> aoTerm out = t"
proof (cases "map_of (csWaiters s) k")
  case None
  then show thesis using that [of s] w by simp
next
  case (Some ch)
  then have ch: "(k, ch) \<in> set (csWaiters s)" by (rule map_of_SomeD)
  then have free: "ch < length (csChans s)" "csChans s ! ch = None" using w by (auto simp: waiters_ok_def)
  let ?s = "s\<lparr>csWaiters := AList.delete k (csWaiters s)\<rparr>"
  let ?s' = "?s\<lparr>csChans := (csChans s)[ch := Some \<lparr>aoTerm = t\<rparr>]\<rparr>"
  have one: "k' = k" if "(k', ch) \<in> set (csWaiters s)" for k'
  proof -
    have "inj_on snd (set (csWaiters s))" using w by (simp add: waiters_ok_def distinct_map)
    from inj_onD [OF this _ that ch] show ?thesis by simp
  qed
  have d: "waiters_ok ?s" by (rule delete_waiters_ok [OF w])
  have "ch' < length (csChans ?s') \<and> csChans ?s' ! ch' = None" if "(k', ch') \<in> set (csWaiters ?s)" for k' ch'
  proof -
    have "ch' \<noteq> ch" using that one by (auto simp: AList.delete_eq)
    moreover have "ch' < length (csChans s) \<and> csChans s ! ch' = None" using d that by (auto simp: waiters_ok_def)
    ultimately show ?thesis by simp
  qed
  then have "waiters_ok ?s'" using d unfolding waiters_ok_def by auto
  moreover have "set (csWaiters ?s') \<subseteq> set (csWaiters s)" using set_delete_subset [of k "csWaiters s"] by simp
  ultimately show thesis using Some free ch by (intro that [of ?s']) (auto simp: sendOutcome_def nth_list_update split: if_splits)
qed

lemma applyNotify_ok:
  assumes r: "calls_ok r" and "seen r k t"
  obtains b s where "applyNotify k t (serverAt r n) = Some (b, s)"
    and "\<And>l. (\<forall>k t. l \<noteq> Notifying k t) \<Longrightarrow> calls_ok (r\<lparr>srServer := s, srLoop := l\<rparr>)"
proof -
  let ?s = "serverAt r n"
  have "waiters_ok ?s" by (rule waiters_ok_frame [OF calls_okD(1) [OF r]]) simp_all
  then obtain s' where s': "(case map_of (csWaiters ?s) k of None \<Rightarrow> Some ?s
      | Some ch \<Rightarrow> sendOutcome ch \<lparr>aoTerm = t\<rparr> (?s\<lparr>csWaiters := AList.delete k (csWaiters ?s)\<rparr>)) = Some s'"
    "waiters_ok s'" "set (csWaiters s') \<subseteq> set (csWaiters ?s)" "length (csChans s') = length (csChans ?s)"
    "\<And>ch out. ch < length (csChans ?s) \<Longrightarrow> csChans s' ! ch = Some out \<Longrightarrow> csChans ?s ! ch = Some out \<or> (k, ch) \<in> set (csWaiters ?s) \<and> aoTerm out = t"
    by (rule notify_sends [where k = k and t = t]) blast
  obtain b s where s: "applyNotify k t ?s = Some (b, s)" "csWaiters s = csWaiters s'" "csChans s = csChans s'"
    using s'(1) by (auto simp: applyNotify_def Let_def)
  have "calls_ok (r\<lparr>srServer := s, srLoop := l\<rparr>)" if "\<forall>k t. l \<noteq> Notifying k t" for l
  proof (rule calls_okI)
    show "waiters_ok (srServer (r\<lparr>srServer := s, srLoop := l\<rparr>))" using waiters_ok_frame [OF s'(2) s(2,3)] by simp
    fix c assume "c \<in> set (srCalls (r\<lparr>srServer := s, srLoop := l\<rparr>))"
    then have c: "call_ok r c" using calls_okD(2) [OF r] by simp
    show "call_ok (r\<lparr>srServer := s, srLoop := l\<rparr>) c"
    proof (cases c)
      case (Awaiting op k' t' ch)
      have "seen r k' (aoTerm out)" if "csChans s ! ch = Some out" for out
        using s'(5) [of ch out] that c Awaiting s(3) assms(2) by (auto simp: call_ok_def)
      then show ?thesis using c Awaiting s'(3,4) s(2,3) by (auto simp: call_ok_def seen_def)
    qed (use c in \<open>auto simp: call_ok_def seen_def\<close>)
  qed (use that in simp)
  with s(1) show thesis using that by blast
qed

section \<open>The calls\<close>

lemma registerWaiter_ok:
  assumes r: "calls_ok r" and reg: "registerWaiter k (serverAt r n) = (ch, s)" and c: "c < length (srCalls r)"
  shows "calls_ok (r\<lparr>srServer := s, srCalls := (srCalls r)[c := Awaiting op k t ch]\<rparr>)"
proof -
  let ?s = "srServer r" and ?r = "r\<lparr>srServer := s, srCalls := (srCalls r)[c := Awaiting op k t ch]\<rparr>"
  note W = calls_okD(1) [OF r, unfolded waiters_ok_def]
  have s: "ch = length (csChans ?s)" "csChans s = csChans ?s @ [None]" "csWaiters s = AList.update k ch (csWaiters ?s)"
    using reg by (auto simp: registerWaiter_def Let_def)
  have fresh: "ch \<notin> snd ` set (csWaiters ?s)" using W s(1) by auto
  have sub: "set (csWaiters s) \<subseteq> insert (k, ch) (set (csWaiters ?s))" unfolding s(3) by (rule set_update_subset)
  have "waiters_ok s"
    using W distinct_values_update [OF _ fresh, of k] sub s(1,2) unfolding waiters_ok_def s(3) [symmetric]
    by (auto simp: s(3) nth_append)
  moreover have "call_ok ?r x" if "x \<in> set (srCalls r)" for x
  proof (cases x)
    case (Awaiting op' k' t' ch')
    then have "ch' < length (csChans ?s)" using calls_okD(2) [OF r that] by (simp add: call_ok_def)
    then show ?thesis using Awaiting calls_okD(2) [OF r that] sub s(1,2) by (auto simp: call_ok_def seen_def nth_append)
  qed (use calls_okD(2) [OF r that] in \<open>auto simp: call_ok_def seen_def\<close>)
  moreover have "k' = k" if "(k', ch) \<in> set (csWaiters s)" for k'
    using subsetD [OF sub that] fresh imageI [of "(k', ch)" "set (csWaiters ?s)" snd] by auto
  then have "call_ok ?r (Awaiting op k t ch)" using s(1,2) by (simp add: call_ok_def)
  ultimately show ?thesis
    using calls_okD(3) [OF r] by (intro calls_okI) (auto simp: seen_def dest!: in_updated)
qed

lemma awaitOutcome_ok:
  assumes r: "calls_ok r" and wake: "awaitOutcome w k t ch (serverAt r n) = Some (res, s)" and c: "c < length (srCalls r)"
    and call: "srCalls r ! c = Awaiting op k t ch"
  shows "calls_ok (r\<lparr>srServer := s, srCalls := (srCalls r)[c := Answered op k t res]\<rparr>)"
proof -
  let ?s = "srServer r" and ?r = "r\<lparr>srServer := s, srCalls := (srCalls r)[c := Answered op k t res]\<rparr>"
  have A: "call_ok r (Awaiting op k t ch)" using calls_okD(2) [OF r nth_mem [OF c]] call by simp
  have W: "waiters_ok (serverAt r n)" by (rule waiters_ok_frame [OF calls_okD(1) [OF r]]) simp_all
  have ch: "ch < length (csChans ?s)" using A by (simp add: call_ok_def)
  consider "csWaiters s = csWaiters ?s" "csChans s = (csChans ?s)[ch := None]"
    | "csWaiters s = AList.delete k (csWaiters ?s)" "csChans s = csChans ?s"
    | "csWaiters s = csWaiters ?s" "csChans s = csChans ?s"
    using wake by (auto simp: awaitOutcome_def Let_def split: wakeup.splits option.splits if_splits)
  then have s: "waiters_ok s \<and> set (csWaiters s) \<subseteq> set (csWaiters ?s) \<and> length (csChans s) = length (csChans ?s) \<and>
    (\<forall>c. c < length (csChans ?s) \<longrightarrow> csChans s ! c = csChans ?s ! c \<or> csChans s ! c = None)"
  proof cases
    case 1
    then show ?thesis using W ch by (auto simp: waiters_ok_def nth_list_update)
  next
    case 2
    then show ?thesis using delete_waiters_ok [OF W, of k] set_delete_subset [of k "csWaiters ?s"] by (simp add: waiters_ok_def)
  next
    case 3
    then show ?thesis using W by (simp add: waiters_ok_def)
  qed
  have "res = None \<Longrightarrow> seen r k t"
    using wake A by (auto simp: awaitOutcome_def call_ok_def Let_def split: wakeup.splits option.splits if_splits)
  then have "call_ok ?r (Answered op k t res)" by (simp add: call_ok_def seen_def)
  moreover have "call_ok ?r x" if "x \<in> set (srCalls r)" for x
  proof (cases x)
    case (Awaiting op' k' t' ch')
    then have "ch' < length (csChans ?s)" using calls_okD(2) [OF r that] by (simp add: call_ok_def)
    then have "csChans s ! ch' = csChans ?s ! ch' \<or> csChans s ! ch' = None" using s by simp
    then show ?thesis using Awaiting calls_okD(2) [OF r that] s by (auto simp: call_ok_def seen_def)
  qed (use calls_okD(2) [OF r that] in \<open>auto simp: call_ok_def seen_def\<close>)
  ultimately show ?thesis
    using calls_okD(3) [OF r] s by (intro calls_okI) (auto simp: seen_def dest!: in_updated)
qed

section \<open>The service\<close>

definition runs_ok :: "clusterService \<Rightarrow> bool" where
  "runs_ok st \<longleftrightarrow> (\<forall>i r. svRun st i = Some r \<longrightarrow> calls_ok r)"

lemma runs_okD: "runs_ok st \<Longrightarrow> running st members i n r \<Longrightarrow> calls_ok r"
  by (auto simp: runs_ok_def running_def)

lemma runs_ok_goesOn: "runs_ok st \<Longrightarrow> calls_ok r \<Longrightarrow> runs_ok (goesOn i r st)"
  by (auto simp: runs_ok_def)

lemma runs_ok_dies: "runs_ok st \<Longrightarrow> runs_ok (dies i d st)"
  by (auto simp: runs_ok_def)

text \<open>A piece of the server that leaves waiters, channels and the calls alone, and may have received a message.\<close>

lemma calls_ok_frame:
  assumes r: "calls_ok r" and "csWaiters (srServer r') = csWaiters (srServer r)" "csChans (srServer r') = csChans (srServer r)"
    and "set (srIn r) \<subseteq> set (srIn r')" and "\<And>c. c \<in> set (srCalls r') \<Longrightarrow> c \<in> set (srCalls r) \<or> (\<exists>op e k t. c = Refused op e \<or> c = Proposed op k t)"
    and "\<And>k t. srLoop r' = Notifying k t \<Longrightarrow> srLoop r = Notifying k t \<or> seen r' k t"
  shows "calls_ok r'"
proof (rule calls_okI)
  show "waiters_ok (srServer r')" by (rule waiters_ok_frame [OF calls_okD(1) [OF r] assms(2,3)])
  show "call_ok r' c" if "c \<in> set (srCalls r')" for c
    using assms(5) [OF that] call_ok_frame [OF calls_okD(2) [OF r] assms(2-4)] by (auto simp: call_ok_def)
  show "seen r' k t" if "srLoop r' = Notifying k t" for k t
    using assms(6) [OF that] calls_okD(3) [OF r] seen_mono [OF _ assms(4)] by blast
qed

lemma applyCommand_frame:
  "applyCommand L m s = Ok s' \<Longrightarrow> csWaiters s' = csWaiters s \<and> csChans s' = csChans s \<and> csCfg s' = csCfg s"
  by (auto simp: applyCommand_def split: ApplyMsg.splits prod.splits option.splits if_splits bool.splits)

lemma service_step_calls:
  assumes "service_step L members cfg cc st st'" and ok: "runs_ok st"
  shows "runs_ok st'"
  using assms(1)
proof cases
  case (Raft s')
  then show ?thesis using ok newRun_ok by (auto simp: raftMoved_def runs_ok_def split: peer.splits option.splits)
next
  case (Receive i n r m s)
  have "calls_ok (received m s r)"
    by (rule calls_ok_frame [OF runs_okD [OF ok Receive(2)]])
      (use applyCommand_frame [OF Receive(6)] in \<open>auto simp: received_def seen_def split: ApplyMsg.splits\<close>)
  then show ?thesis unfolding Receive(1) by (rule runs_ok_goesOn [OF ok])
next
  case (Notify i n r k t needSnap s)
  note r = runs_okD [OF ok Notify(2)]
  obtain b s' where "applyNotify k t (serverAt r n) = Some (b, s')"
    "\<And>l. (\<forall>k t. l \<noteq> Notifying k t) \<Longrightarrow> calls_ok (r\<lparr>srServer := s', srLoop := l\<rparr>)"
    using applyNotify_ok [OF r calls_okD(3) [OF r Notify(3)], of n] by blast
  then show ?thesis unfolding Notify(1) using Notify(4) by (intro runs_ok_goesOn [OF ok]) simp
next
  case (Take_Snapshot i n r k ord E s)
  have s: "csWaiters s = csWaiters (srServer r)" "csChans s = csChans (srServer r)"
    using Take_Snapshot(5) by (auto elim!: applySnapshot_cases)
  have "calls_ok (r\<lparr>srServer := s, srLoop := LoopIdle\<rparr>)"
    by (rule calls_ok_frame [OF runs_okD [OF ok Take_Snapshot(2)]]) (use s in auto)
  then show ?thesis unfolding Take_Snapshot(1) by (rule runs_ok_goesOn [OF ok])
next
  case (Propose_Op i n r E op res s)
  have s: "csWaiters s = csWaiters (srServer r)" "csChans s = csChans (srServer r)"
    using Propose_Op(3) by (auto elim!: proposeOp_cases)
  have "calls_ok (proposed op res s r)"
    by (rule calls_ok_frame [OF runs_okD [OF ok Propose_Op(2)]]) (use s in \<open>auto simp: proposed_def split: sum.splits prod.splits\<close>)
  then show ?thesis unfolding Propose_Op(1) by (rule runs_ok_goesOn [OF ok])
next
  case (Register i n r c op k t ch s)
  show ?thesis unfolding Register(1) by (rule runs_ok_goesOn [OF ok registerWaiter_ok [OF runs_okD [OF ok Register(2)] Register(5,3)]])
next
  case (Wake i n r c op k t ch w res s)
  show ?thesis unfolding Wake(1) by (rule runs_ok_goesOn [OF ok awaitOutcome_ok [OF runs_okD [OF ok Wake(2)] Wake(5,3,4)]])
next
  case (Local i n r s)
  have "calls_ok (r\<lparr>srServer := s\<rparr>)"
    by (rule calls_ok_frame [OF runs_okD [OF ok Local(2)]]) (use local_frame [OF Local(3)] in auto)
  then show ?thesis unfolding Local(1) by (rule runs_ok_goesOn [OF ok])
qed (simp_all add: runs_ok_dies ok)

lemma service_run_calls:
  assumes "(service_step L members cfg cc)\<^sup>*\<^sup>* service_init st"
  shows "runs_ok st"
  using assms
proof induction
  case base
  show ?case by (simp add: runs_ok_def service_init_def)
qed (rule service_step_calls)


section \<open>The service and Raft\<close>

lemma node_step_applied:
  assumes "node_step C members cfg s s'" and "clPeer s' i = Up n"
  shows "prefix (clApplied s i) (clApplied s' i)"
proof -
  have S: "prefix (clApplied s i) (clApplied (settle j s k r) i)"
    if "clPeer (settle j s k r) i = Up n" "\<And>x. clApplied (k x) = clApplied s" for j k and r :: "'a res"
    using that by (cases r) (auto simp: settle_def crashed_def setPeer_def split: if_splits)
  show ?thesis
    using assms
    by cases (auto simp: elect_def sendAppend_def outbox_def handOver_def crashed_def setPeer_def
        split: option.splits sendAction.splits applierAction.splits prod.splits if_splits intro!: S)
qed


text \<open>The call's operation went into the log of its process at the index and in the term that it waits for.\<close>

definition callOf :: "call \<Rightarrow> (QueueOp \<times> int \<times> int) option" where
  "callOf c =
     (case c of
        Refused op e \<Rightarrow> None
      | Proposed op k t \<Rightarrow> Some (op, k, t)
      | Awaiting op k t ch \<Rightarrow> Some (op, k, t)
      | Answered op k t res \<Rightarrow> Some (op, k, t))"

definition logged ::
  "clusterLib \<Rightarrow> string list \<Rightarrow> (string \<Rightarrow> raftConfig) \<Rightarrow> cluster \<Rightarrow> string \<Rightarrow> QueueOp \<Rightarrow> int \<Rightarrow> int \<Rightarrow> bool" where
  "logged L members cfg s i op k t \<longleftrightarrow>
     (\<exists>cmd s0 n E n'. raft_reach (libPs L) members cfg s0 \<and> i \<in> set members \<and> clPeer s0 i = Up n \<and>
        EncodeOp (libOp L) op = Some cmd \<and> Propose (libPs L) E cmd n = Ok ((k, t, True), n') \<and>
        (raft_step (libPs L) members cfg)\<^sup>*\<^sup>* (setPeer i (Up n') s0) s)"

lemma loggedI:
  assumes "raft_reach (libPs L) members cfg s0" "i \<in> set members" "clPeer s0 i = Up n"
    "EncodeOp (libOp L) op = Some cmd" "Propose (libPs L) E cmd n = Ok ((k, t, True), n')"
    "(raft_step (libPs L) members cfg)\<^sup>*\<^sup>* (setPeer i (Up n') s0) s"
  shows "logged L members cfg s i op k t"
  unfolding logged_def using assms by (intro exI conjI)

lemma logged_run:
  assumes "logged L members cfg s i op k t" and "(raft_step (libPs L) members cfg)\<^sup>*\<^sup>* s s'"
  shows "logged L members cfg s' i op k t"
proof -
  from assms(1) obtain cmd s0 n E n' where "raft_reach (libPs L) members cfg s0" "i \<in> set members" "clPeer s0 i = Up n"
    "EncodeOp (libOp L) op = Some cmd" "Propose (libPs L) E cmd n = Ok ((k, t, True), n')"
    "(raft_step (libPs L) members cfg)\<^sup>*\<^sup>* (setPeer i (Up n') s0) s" unfolding logged_def by (elim exE conjE)
  then show ?thesis using rtranclp_trans [OF _ assms(2)] by (intro loggedI)
qed

definition service_inv :: "clusterLib \<Rightarrow> string list \<Rightarrow> (string \<Rightarrow> raftConfig) \<Rightarrow> clusterService \<Rightarrow> bool" where
  "service_inv L members cfg st \<longleftrightarrow> raft_reach (libPs L) members cfg (svRaft st) \<and>
     (\<forall>i r. svRun st i = Some r \<longrightarrow> prefix (srIn r) (clApplied (svRaft st) i) \<and>
        (\<forall>c \<in> set (srCalls r). \<forall>op k t. callOf c = Some (op, k, t) \<longrightarrow> logged L members cfg (svRaft st) i op k t))"

lemma service_invD:
  assumes "service_inv L members cfg st"
  shows "raft_reach (libPs L) members cfg (svRaft st)"
    and "svRun st i = Some r \<Longrightarrow> prefix (srIn r) (clApplied (svRaft st) i)"
    and "svRun st i = Some r \<Longrightarrow> c \<in> set (srCalls r) \<Longrightarrow> callOf c = Some (op, k, t) \<Longrightarrow> logged L members cfg (svRaft st) i op k t"
  using assms unfolding service_inv_def by blast+

lemma setPeer_applied [simp]: "clApplied (setPeer i p s) = clApplied s" "clOutbox (setPeer i p s) = clOutbox s"
  by (simp_all add: setPeer_def)

lemma crashed_applied [simp]: "j \<noteq> i \<Longrightarrow> clApplied (crashed i d s) j = clApplied s j"
  by (simp add: crashed_def)

text \<open>The common step: one server goes on with the messages it has, or one more, and keeps its calls.\<close>

lemma service_inv_goesOn:
  assumes inv: "service_inv L members cfg st" and step: "service_step L members cfg cc st (goesOn i r' st)"
    and r: "svRun st i = Some r" and p: "prefix (srIn r') (clApplied (svRaft st) i)"
    and c: "\<And>c op k t. c \<in> set (srCalls r') \<Longrightarrow> callOf c = Some (op, k, t) \<Longrightarrow>
      (\<exists>d \<in> set (srCalls r). callOf d = Some (op, k, t)) \<or> logged L members cfg (svRaft (goesOn i r' st)) i op k t"
  shows "service_inv L members cfg (goesOn i r' st)"
proof -
  note run = service_step_raft [OF step]
  have L: "logged L members cfg (svRaft (goesOn i r' st)) j op k t"
    if "svRun st j = Some q" "d \<in> set (srCalls q)" "callOf d = Some (op, k, t)" for j q d op k t
    by (rule logged_run [OF service_invD(3) [OF inv that] run])
  have "logged L members cfg (svRaft (goesOn i r' st)) i op k t"
    if "d \<in> set (srCalls r')" "callOf d = Some (op, k, t)" for d op k t
    using c [OF that] L [OF r] by blast
  then show ?thesis
    using reach_run [OF service_invD(1) [OF inv] run] L p service_invD(2) [OF inv]
    unfolding service_inv_def by (auto split: if_splits)
qed

lemma service_inv_dies:
  assumes inv: "service_inv L members cfg st" and step: "service_step L members cfg cc st (dies i d st)"
  shows "service_inv L members cfg (dies i d st)"
proof -
  note run = service_step_raft [OF step]
  show ?thesis
    using reach_run [OF service_invD(1) [OF inv] run] logged_run [OF service_invD(3) [OF inv] run] service_invD(2) [OF inv]
    unfolding service_inv_def by (auto split: if_splits)
qed

lemma same_call: "c < length xs \<Longrightarrow> xs ! c = y \<Longrightarrow> callOf y = x \<Longrightarrow> \<exists>d \<in> set xs. callOf d = x"
  using nth_mem by blast

lemma service_step_inv:
  assumes step: "service_step L members cfg cc st st'" and inv: "service_inv L members cfg st"
  shows "service_inv L members cfg st'"
  using step
proof cases
  case (Raft s')
  note run = service_step_raft [OF step]
  have s': "svRaft st' = s'" using Raft(1) by (simp add: raftMoved_def)
  have "prefix (srIn r) (clApplied s' i) \<and>
      (\<forall>c \<in> set (srCalls r). \<forall>op k t. callOf c = Some (op, k, t) \<longrightarrow> logged L members cfg s' i op k t)"
    if r: "svRun st' i = Some r" for i r
  proof -
    obtain n where n: "clPeer s' i = Up n" and r: "svRun st i = Some r \<or> r = newRun (cc i) n"
      using r Raft(1) by (auto simp: raftMoved_def split: peer.splits option.splits)
    from r show ?thesis
    proof
      assume q: "svRun st i = Some r"
      show ?thesis
        using prefix_order.trans [OF service_invD(2) [OF inv q] node_step_applied [OF Raft(2) n]]
          logged_run [OF service_invD(3) [OF inv q]] run s' by blast
    qed (simp add: newRun_def)
  qed
  then show ?thesis using reach_run [OF service_invD(1) [OF inv] run] s' unfolding service_inv_def by blast
next
  case (Receive i n r m s)
  have r: "svRun st i = Some r" using Receive(2) by (simp add: running_def)
  have "prefix (srIn r @ [m]) (clApplied (svRaft st) i)"
    using service_invD(2) [OF inv r] Receive(4,5) by (metis append_one_prefix)
  then show ?thesis unfolding Receive(1)
    by (intro service_inv_goesOn [OF inv step [unfolded Receive(1)] r])
      (auto simp: received_def)
next
  case (Notify i n r k t needSnap s)
  have r: "svRun st i = Some r" using Notify(2) by (simp add: running_def)
  show ?thesis unfolding Notify(1)
    by (rule service_inv_goesOn [OF inv step [unfolded Notify(1)] r])
      (use service_invD(2) [OF inv r] in \<open>auto\<close>)
next
  case (Take_Snapshot i n r k ord E s)
  have r: "svRun st i = Some r" using Take_Snapshot(2) by (simp add: running_def)
  show ?thesis unfolding Take_Snapshot(1)
    by (rule service_inv_goesOn [OF inv step [unfolded Take_Snapshot(1)] r])
      (use service_invD(2) [OF inv r] in \<open>auto\<close>)
next
  case (Propose_Op i n r E op res s)
  have r: "i \<in> set members" "clPeer (svRaft st) i = Up n" "svRun st i = Some r" using Propose_Op(2) by (simp_all add: running_def)
  have new: "logged L members cfg (svRaft (goesOn i (proposed op res s r) st)) i op k t" if "res = Inr (k, t)" for k t
    using Propose_Op(3)
  proof (cases rule: proposeOp_cases)
    case (taken cmd k' t' n')
    then have "EncodeOp (libOp L) op = Some cmd" "Propose (libPs L) E cmd n = Ok ((k, t, True), n')"
      "svRaft (goesOn i (proposed op res s r) st) = setPeer i (Up n') (svRaft st)" using that by (simp_all add: proposed_def)
    then show ?thesis using loggedI [OF service_invD(1) [OF inv] r(1,2)] by simp
  qed (use that in auto)
  show ?thesis unfolding Propose_Op(1)
    by (rule service_inv_goesOn [OF inv step [unfolded Propose_Op(1)] r(3)])
      (use service_invD(2) [OF inv r(3)] new in \<open>auto simp: proposed_def callOf_def split: sum.splits\<close>)
next
  case (Register i n r c op k t ch s)
  have r: "svRun st i = Some r" using Register(2) by (simp add: running_def)
  show ?thesis unfolding Register(1)
    by (rule service_inv_goesOn [OF inv step [unfolded Register(1)] r])
      (use service_invD(2) [OF inv r] same_call [OF Register(3,4)] in
        \<open>auto simp: callOf_def dest!: in_updated\<close>)
next
  case (Wake i n r c op k t ch w res s)
  have r: "svRun st i = Some r" using Wake(2) by (simp add: running_def)
  show ?thesis unfolding Wake(1)
    by (rule service_inv_goesOn [OF inv step [unfolded Wake(1)] r])
      (use service_invD(2) [OF inv r] same_call [OF Wake(3,4)] in
        \<open>auto simp: callOf_def dest!: in_updated\<close>)
next
  case (Local i n r s)
  have r: "svRun st i = Some r" using Local(2) by (simp add: running_def)
  show ?thesis unfolding Local(1)
    by (rule service_inv_goesOn [OF inv step [unfolded Local(1)] r])
      (use service_invD(2) [OF inv r] in \<open>auto\<close>)
qed (use service_inv_dies [OF inv] step in simp_all)

lemma service_run_inv:
  assumes "(service_step L members cfg cc)\<^sup>*\<^sup>* service_init st"
  shows "service_inv L members cfg st"
  using assms
proof induction
  case base
  show ?case by (simp add: service_inv_def service_init_def raft_reach.Raft_Init)
qed (rule service_step_inv)

lemma service_run_raft:
  assumes "(service_step L members cfg cc)\<^sup>*\<^sup>* st st'"
  shows "(raft_step (libPs L) members cfg)\<^sup>*\<^sup>* (svRaft st) (svRaft st')"
  using assms by induction (auto dest: service_step_raft intro: rtranclp_trans)

end
