(* ===== verification/Raft_Snapshots.thy ===== *)
theory Raft_Snapshots
  imports Raft_Delivery
begin

text \<open>
  Where snapshots are in a cluster, each with the index it is labelled with: in nodes, on disks, on
  the wire and on the way to the state machines. As long as no process dies between the write of
  a snapshot and the write of the log that belongs to it, the steps of Raft only copy labelled
  snapshots, and a process whose log does not start at the beginning has one.
\<close>

section \<open>Handlers\<close>

definition same_snap :: "Node \<Rightarrow> Node \<Rightarrow> bool" where
  "same_snap n n' \<longleftrightarrow> nSnapshot n' = nSnapshot n \<and> dSnap (nDisk n') = dSnap (nDisk n)"

lemma same_snap_refl [simp]: "same_snap n n"
  by (simp add: same_snap_def)

lemma persist_snap:
  assumes "persistLocked C r n = Ok n'"
  shows "same_snap m n' = same_snap m n"
proof -
  have "n' = n \<or> (\<exists>f. n' = n\<lparr>nDisk := (nDisk n)\<lparr>dState := f\<rparr>\<rparr>)"
    using assms by (auto simp: persistLocked_def split: if_splits option.splits prod.splits bool.splits)
  then show ?thesis by (auto simp: same_snap_def)
qed

lemma follower_snap [simp]:
  "same_snap m (becomeFollowerLocked t n) = same_snap m n" "same_snap m (resetElectionTimerLocked E n) = same_snap m n"
  "same_snap m (n\<lparr>nVotedFor := v\<rparr>) = same_snap m n" "same_snap m (n\<lparr>nLog := l\<rparr>) = same_snap m n"
  "same_snap m (n\<lparr>nMatchIndex := x\<rparr>) = same_snap m n" "same_snap m (n\<lparr>nNextIndex := x\<rparr>) = same_snap m n"
  "same_snap m (n\<lparr>nLeaderID := s\<rparr>) = same_snap m n" "same_snap m (n\<lparr>nCommitIndex := k\<rparr>) = same_snap m n"
  "same_snap m (n\<lparr>nState := q\<rparr>) = same_snap m n" "same_snap m (n\<lparr>nTerm := t\<rparr>) = same_snap m n"
  "same_snap m (n\<lparr>nElections := e\<rparr>) = same_snap m n"
  by (simp_all add: same_snap_def becomeFollowerLocked_def resetElectionTimerLocked_def Let_def)

lemma initPeers_snap [simp]: "same_snap m (initPeers k ps n) = same_snap m n"
  by (induction k ps n rule: initPeers.induct) simp_all

lemma stepDown_snap: "stepDown C E t l n = Ok n1 \<Longrightarrow> same_snap m n1 = same_snap m n"
  by (auto simp: stepDown_def bindR_Ok_iff split: if_splits dest!: persist_snap [where m = m])

lemma advanceLoop_snap: "advanceLoop k n = Ok n' \<Longrightarrow> same_snap m n' = same_snap m n"
  by (induction k) (auto simp: Let_def bindR_Ok_iff split: if_splits)

lemma appendLoop_snap: "appendLoop es n = Ok (b, n') \<Longrightarrow> same_snap m n' = same_snap m n"
  by (induction es) (auto simp: bindR_Ok_iff truncateFrom_def Let_def split: if_splits)

lemma appendChecked_snap: "appendChecked C E args reply n = Ok (reply', n') \<Longrightarrow> same_snap m n' = same_snap m n"
  by (auto simp: appendChecked_def bindR_Ok_iff followerCommit_def split: if_splits
      dest!: persist_snap [where m = m] appendLoop_snap [where m = m])

lemma handlers_snap:
  "electionLoop C E n = Ok (a, n') \<Longrightarrow> same_snap n n'"
  "HandleRequestVote C E rv n = Ok (b, n') \<Longrightarrow> same_snap n n'"
  "handleVoteReply C E t votes reply n = Ok (v, n') \<Longrightarrow> same_snap n n'"
  "Propose C E command n = Ok (x, n') \<Longrightarrow> same_snap n n'"
  "HandleAppendEntries C E args n = Ok (y, n') \<Longrightarrow> same_snap n n'"
  "handleAppendReply C E p args ar n = Ok (c, n') \<Longrightarrow> same_snap n n'"
  "handleSnapshotReply C E p ia sr n = Ok (c, n') \<Longrightarrow> same_snap n n'"
proof -
  show "electionLoop C E n = Ok (a, n') \<Longrightarrow> same_snap n n'"
    by (auto simp: electionLoop_def startElectionLocked_def Let_def bindR_Ok_iff split: if_splits dest!: persist_snap [where m = n])
  show "HandleRequestVote C E rv n = Ok (b, n') \<Longrightarrow> same_snap n n'"
    by (auto simp: HandleRequestVote_def Let_def bindR_Ok_iff split: if_splits dest!: persist_snap [where m = n])
  show "handleVoteReply C E t votes reply n = Ok (v, n') \<Longrightarrow> same_snap n n'"
    by (auto simp: handleVoteReply_def becomeLeaderLocked_def Let_def bindR_Ok_iff split: if_splits dest!: persist_snap [where m = n])
  show "Propose C E command n = Ok (x, n') \<Longrightarrow> same_snap n n'"
    by (auto simp: Propose_def Let_def bindR_Ok_iff split: if_splits dest!: persist_snap [where m = n])
  show "HandleAppendEntries C E args n = Ok (y, n') \<Longrightarrow> same_snap n n'"
    by (auto simp: HandleAppendEntries_def Let_def bindR_Ok_iff split: if_splits dest!: stepDown_snap [where m = n] appendChecked_snap [where m = n])
  show "handleAppendReply C E p args ar n = Ok (c, n') \<Longrightarrow> same_snap n n'"
    by (auto simp: handleAppendReply_def advanceCommitLocked_def Let_def bindR_Ok_iff split: if_splits
        dest!: persist_snap [where m = n] advanceLoop_snap [where m = n])
  show "handleSnapshotReply C E p ia sr n = Ok (c, n') \<Longrightarrow> same_snap n n'"
    by (auto simp: handleSnapshotReply_def Let_def bindR_Ok_iff split: if_splits dest!: persist_snap [where m = n])
qed

section \<open>Labelled snapshots\<close>

definition msg_snaps :: "ApplyMsg list \<Rightarrow> (byte list \<times> int) set" where
  "msg_snaps ms = {(d, k). \<exists>t. ApplySnapshot d k t \<in> set ms}"

definition node_snaps :: "Node \<Rightarrow> (byte list \<times> int) set" where
  "node_snaps n = {(d, k). (nSnapshot n = Some d \<or> dSnap (nDisk n) = Some d) \<and> k = firstIndex n} \<union>
     (case nPending n of None \<Rightarrow> {} | Some m \<Rightarrow> msg_snaps [m])"

definition disk_snaps :: "psCodec \<Rightarrow> raftDisk \<Rightarrow> (byte list \<times> int) set" where
  "disk_snaps C dk = {(d, k). dSnap dk = Some d \<and> (\<exists>p. loaded C dk = Some p \<and> k = eIndex (hd (psLog p)))}"

definition peer_snaps :: "psCodec \<Rightarrow> peer \<Rightarrow> (byte list \<times> int) set" where
  "peer_snaps C P = (case P of Up n \<Rightarrow> node_snaps n | Down dk \<Rightarrow> disk_snaps C dk)"

definition wire_snaps :: "cluster \<Rightarrow> (byte list \<times> int) set" where
  "wire_snaps s = {(d, k). \<exists>p a. (p, a) \<in> clInstalls s \<and> d = isData a \<and> k = isLastIncludedIndex a}"

definition snaps :: "psCodec \<Rightarrow> cluster \<Rightarrow> (byte list \<times> int) set" where
  "snaps C s = (\<Union>i. peer_snaps C (clPeer s i) \<union> msg_snaps (clOutbox s i) \<union> msg_snaps (clApplied s i)) \<union> wire_snaps s"

text \<open>Dying leaves the snapshot file as it was.\<close>

definition clean :: "cluster \<Rightarrow> cluster \<Rightarrow> bool" where
  "clean s s' \<longleftrightarrow> (\<forall>i n d. clPeer s i = Up n \<longrightarrow> clPeer s' i = Down d \<longrightarrow> dSnap d = dSnap (nDisk n))"

text \<open>A log that starts later has a snapshot beside it.\<close>

definition peer_based :: "psCodec \<Rightarrow> peer \<Rightarrow> bool" where
  "peer_based C P =
     (case P of
        Up n \<Rightarrow> firstIndex n > 0 \<longrightarrow> dSnap (nDisk n) \<noteq> None
      | Down dk \<Rightarrow> \<forall>p. loaded C dk = Some p \<longrightarrow> eIndex (hd (psLog p)) > 0 \<longrightarrow> dSnap dk \<noteq> None)"

text \<open>What a process hands over starts at index 1 or with a snapshot.\<close>

definition begins :: "Node \<Rightarrow> ApplyMsg list \<Rightarrow> bool" where
  "begins n ms =
     (case ms of
        [] \<Rightarrow> nPending n \<noteq> None \<or> nLastApplied n = 0
      | ApplyCommand c k t # ms' \<Rightarrow> k = 1
      | ApplySnapshot d k t # ms' \<Rightarrow> True)"

definition based :: "psCodec \<Rightarrow> string list \<Rightarrow> cluster \<Rightarrow> bool" where
  "based C members s \<longleftrightarrow>
     (\<forall>i \<in> set members. peer_based C (clPeer s i) \<and>
        (\<forall>n. clPeer s i = Up n \<longrightarrow> begins n (clApplied s i @ clOutbox s i)))"

lemma basedD:
  assumes "based C members s" and "i \<in> set members"
  shows "peer_based C (clPeer s i)" "clPeer s i = Up n \<Longrightarrow> begins n (clApplied s i @ clOutbox s i)"
  using assms by (auto simp: based_def)


section \<open>Steps\<close>

definition passes :: "psCodec \<Rightarrow> string list \<Rightarrow> (byte list \<times> int) set \<Rightarrow> cluster \<Rightarrow> cluster \<Rightarrow> bool" where
  "passes C members X s s' \<longleftrightarrow> snaps C s' \<subseteq> snaps C s \<union> X \<and> based C members s'"

lemma snaps_peer: "x \<in> peer_snaps C (clPeer s i) \<Longrightarrow> x \<in> snaps C s"
  by (auto simp: snaps_def)

lemma snaps_msgs: "x \<in> msg_snaps (clOutbox s i) \<Longrightarrow> x \<in> snaps C s" "x \<in> msg_snaps (clApplied s i) \<Longrightarrow> x \<in> snaps C s"
  by (auto simp: snaps_def)

lemma snaps_wire: "(p, a) \<in> clInstalls s \<Longrightarrow> (isData a, isLastIncludedIndex a) \<in> snaps C s"
  by (auto simp: snaps_def wire_snaps_def)

lemma msg_snaps_append [simp]: "msg_snaps (xs @ ys) = msg_snaps xs \<union> msg_snaps ys" "msg_snaps [] = {}"
  by (auto simp: msg_snaps_def)

text \<open>One process changes.\<close>

lemma passes_one:
  assumes b: "based C members s" and P: "clPeer s' = (clPeer s)(i := P)"
    and other: "\<And>j. j \<noteq> i \<Longrightarrow> clOutbox s' j = clOutbox s j \<and> clApplied s' j = clApplied s j"
    and peer: "peer_snaps C P \<subseteq> snaps C s \<union> X" "peer_based C P"
    and msgs: "msg_snaps (clOutbox s' i) \<union> msg_snaps (clApplied s' i) \<subseteq> snaps C s \<union> X"
    and wire: "wire_snaps s' \<subseteq> snaps C s \<union> X"
    and up: "\<And>n. P = Up n \<Longrightarrow> begins n (clApplied s' i @ clOutbox s' i)"
  shows "passes C members X s s'"
proof -
  have "x \<in> snaps C s \<union> X" if x: "x \<in> peer_snaps C (clPeer s' j) \<union> msg_snaps (clOutbox s' j) \<union> msg_snaps (clApplied s' j)" for x j
  proof (cases "j = i")
    case True
    then show ?thesis using x P peer(1) msgs by auto
  next
    case False
    then show ?thesis using x P other [OF False] snaps_peer snaps_msgs by (auto simp: snaps_def)
  qed
  then have "snaps C s' \<subseteq> snaps C s \<union> X" using wire unfolding snaps_def [of C s'] by blast
  moreover have "peer_based C (clPeer s' j) \<and> (\<forall>n. clPeer s' j = Up n \<longrightarrow> begins n (clApplied s' j @ clOutbox s' j))"
    if j: "j \<in> set members" for j
    using basedD [OF b j] P other [of j] peer(2) up by (cases "j = i") auto
  ultimately show ?thesis by (simp add: passes_def based_def)
qed

lemma begins_same: "nPending n' = nPending n \<Longrightarrow> nLastApplied n' = nLastApplied n \<Longrightarrow> begins n' ms = begins n ms"
  by (cases ms) (simp_all add: begins_def)

lemma begins_cong: "still n n' \<Longrightarrow> begins n' ms = begins n ms"
  by (rule begins_same) (simp_all add: still_def)

lemma wire_upd [simp]:
  "wire_snaps (s\<lparr>clPeer := a\<rparr>) = wire_snaps s" "wire_snaps (s\<lparr>clVoteReqs := b\<rparr>) = wire_snaps s"
  "wire_snaps (s\<lparr>clVoteReps := c\<rparr>) = wire_snaps s" "wire_snaps (s\<lparr>clBallot := d\<rparr>) = wire_snaps s"
  "wire_snaps (s\<lparr>clAppends := e\<rparr>) = wire_snaps s" "wire_snaps (s\<lparr>clAppendReps := f\<rparr>) = wire_snaps s"
  "wire_snaps (s\<lparr>clInstallReps := g\<rparr>) = wire_snaps s" "wire_snaps (s\<lparr>clOutbox := h\<rparr>) = wire_snaps s"
  "wire_snaps (s\<lparr>clApplied := l\<rparr>) = wire_snaps s"
  by (simp_all add: wire_snaps_def)

lemma wire_own [simp]: "x \<in> wire_snaps s \<Longrightarrow> x \<in> snaps C s"
  by (simp add: snaps_def)

lemma passes_still:
  assumes b: "based C members s" and i: "i \<in> set members" "clPeer s i = Up n" and n': "still n n'" "same_snap n n'"
    and s': "clPeer s' = (clPeer s)(i := Up n')" "clOutbox s' = clOutbox s" "clApplied s' = clApplied s" "wire_snaps s' \<subseteq> snaps C s \<union> X"
  shows "passes C members X s s'"
proof (rule passes_one [OF b s'(1)])
  have "node_snaps n' = node_snaps n" using n' by (simp add: node_snaps_def still_def same_snap_def)
  then show "peer_snaps C (Up n') \<subseteq> snaps C s \<union> X" using snaps_peer [of _ C s i] i(2) by (auto simp: peer_snaps_def)
  show "peer_based C (Up n')" using basedD(1) [OF b i(1)] i(2) n' by (simp add: peer_based_def still_def same_snap_def)
  show "begins m (clApplied s' i @ clOutbox s' i)" if "Up n' = Up m" for m
    using basedD(2) [OF b i] begins_cong [OF n'(1)] that s'(2,3) by simp
qed (use s' snaps_msgs in auto)

lemma passes_crash:
  assumes b: "based C members s" and i: "i \<in> set members" "clPeer s i = Up n"
    and log: "\<And>p. loaded C d = Some p \<Longrightarrow> psLog p = nLog n" and snap: "dSnap d = dSnap (nDisk n)"
  shows "passes C members X s (crashed i d s)"
proof (rule passes_one [OF b, where i = i and P = "Down d"])
  have "disk_snaps C d \<subseteq> node_snaps n" using log snap by (auto simp: disk_snaps_def node_snaps_def firstIndex_def)
  then show "peer_snaps C (Down d) \<subseteq> snaps C s \<union> X" using snaps_peer [of _ C s i] i(2) by (auto simp: peer_snaps_def)
  show "peer_based C (Down d)" using basedD(1) [OF b i(1)] i(2) log snap by (auto simp: peer_based_def firstIndex_def)
  show "wire_snaps (crashed i d s) \<subseteq> snaps C s \<union> X" by (auto simp: crashed_def setPeer_def wire_snaps_def snaps_def)
qed (simp_all add: crashed_def setPeer_def)

lemma passes_settle:
  assumes b: "based C members s" and i: "i \<in> set members" "clPeer s i = Up n" and old: "old_log C n r"
    and clean: "clean s (settle i s k r)" and ok: "\<And>x. r = Ok x \<Longrightarrow> passes C members X s (k x)"
  shows "passes C members X s (settle i s k r)"
proof (cases r)
  case (Ok x)
  with ok show ?thesis by (simp add: settle_def)
next
  case (Panic d)
  then have "settle i s k r = crashed i d s" by (simp add: settle_def)
  moreover from this have "dSnap d = dSnap (nDisk n)" using clean i(2) by (auto simp: clean_def)
  ultimately show ?thesis using passes_crash [OF b i] old Panic by (simp add: old_log_def)
qed

lemma passes_self: "based C members s \<Longrightarrow> clPeer s' = clPeer s \<Longrightarrow> clOutbox s' = clOutbox s \<Longrightarrow> clApplied s' = clApplied s \<Longrightarrow>
  wire_snaps s' \<subseteq> snaps C s \<union> X \<Longrightarrow> passes C members X s s'"
  unfolding passes_def based_def snaps_def by auto

section \<open>Snapshots that are taken or installed\<close>

lemma persistWithSnapshot_effect:
  assumes "persistWithSnapshotLocked C r1 r2 snap n = Ok n'" and "cDataDir (nCfg n) \<noteq> []"
  shows "dSnap (nDisk n') = Some snap" "nSnapshot n' = nSnapshot n" "nLog n' = nLog n" "nPending n' = nPending n" "nLastApplied n' = nLastApplied n"
proof -
  obtain f where f: "atomicWrite r1 snap (dSnap (nDisk n)) = (False, f)" "persistLocked C r2 (n\<lparr>nDisk := (nDisk n)\<lparr>dSnap := f\<rparr>\<rparr>) = Ok n'"
    using assms by (auto simp: persistWithSnapshotLocked_def split: prod.splits bool.splits)
  have "f = Some snap" using f(1) by (auto simp: atomicWrite_def split: writeResult.splits)
  then show "dSnap (nDisk n') = Some snap" "nSnapshot n' = nSnapshot n" "nLog n' = nLog n" "nPending n' = nPending n" "nLastApplied n' = nLastApplied n"
    using persist_snap [OF f(2), of "n\<lparr>nDisk := (nDisk n)\<lparr>dSnap := f\<rparr>\<rparr>"] persistLocked_sel [OF f(2)] by (simp_all add: same_snap_def)
qed

lemma Node_Snapshot_snap:
  assumes "Node_Snapshot C E index snap n = Ok n'" and "cDataDir (nCfg n) \<noteq> []"
  shows "n' = n \<or> firstIndex n < index \<and> dSnap (nDisk n') = Some snap \<and> nSnapshot n' = Some snap \<and> firstIndex n' = index \<and>
    nPending n' = nPending n \<and> nLastApplied n' = nLastApplied n"
proof (cases "index \<le> firstIndex n \<or> index > nLastApplied n")
  case True
  then show ?thesis using assms(1) by (auto simp: Node_Snapshot_def)
next
  case False
  then obtain t tail where "persistWithSnapshotLocked C (reWrite1 E) (reWrite2 E) snap
      (n\<lparr>nLog := sentinel index t # tail, nSnapshot := Some snap\<rparr>) = Ok n'"
    using assms(1) by (auto simp: Node_Snapshot_def bindR_Ok_iff)
  from persistWithSnapshot_effect [OF this] False assms(2) show ?thesis by (simp add: firstIndex_def)
qed

lemma HandleInstallSnapshot_snap:
  assumes "HandleInstallSnapshot C E args n = Ok (reply, n')" and "cDataDir (nCfg n) \<noteq> []"
  shows "still n n' \<and> same_snap n n' \<or>
    dSnap (nDisk n') = Some (isData args) \<and> nSnapshot n' = Some (isData args) \<and> firstIndex n' = isLastIncludedIndex args \<and>
    nPending n' = Some (ApplySnapshot (isData args) (isLastIncludedIndex args) (isLastIncludedTerm args)) \<and> nLastApplied n' = nLastApplied n"
proof (cases "isTerm args < nTerm n")
  case True
  then show ?thesis using assms(1) by (auto simp: HandleInstallSnapshot_def still_def)
next
  case False
  then obtain n1 where n1: "stepDown C E (isTerm args) (isLeaderID args) n = Ok n1"
    using assms(1) by (auto simp: HandleInstallSnapshot_def bindR_Ok_iff)
  note B = stepDown_body(1) [OF n1] and S = stepDown_snap [OF n1, of n]
  show ?thesis
  proof (cases "isLastIncludedIndex args \<le> nCommitIndex n1")
    case True
    then have "n' = n1" using assms(1) False n1 by (auto simp: HandleInstallSnapshot_def Let_def)
    then show ?thesis using still_body [OF B] S by simp
  next
    case no: False
    then obtain tail n2 where "persistWithSnapshotLocked C (reWrite2 E) (reWrite3 E) (isData args)
        (n1\<lparr>nLog := sentinel (isLastIncludedIndex args) (isLastIncludedTerm args) # tail, nSnapshot := Some (isData args)\<rparr>) = Ok n2"
      "n' = n2\<lparr>nCommitIndex := isLastIncludedIndex args,
         nPending := Some (ApplySnapshot (isData args) (isLastIncludedIndex args) (isLastIncludedTerm args))\<rparr>"
      using assms(1) False n1 by (auto simp: HandleInstallSnapshot_def Let_def bindR_Ok_iff)
    with persistWithSnapshot_effect [OF this(1)] B assms(2) show ?thesis by (simp add: firstIndex_def same_body_def)
  qed
qed


lemma applier_begins:
  assumes o: "in_order n' ms app" and b: "begins n app" and act: "ms \<noteq> [] \<Longrightarrow> nPending n = None \<Longrightarrow> n' = n"
    and p: "nPending n \<noteq> None \<Longrightarrow> \<exists>d k t. ms = [ApplySnapshot d k t]"
  shows "ms \<noteq> [] \<Longrightarrow> begins n' (app @ ms)"
proof -
  assume ne: "ms \<noteq> []"
  show ?thesis
  proof (cases app)
    case Nil
    show ?thesis
    proof (cases "nPending n")
      case None
      then have "n' = n" "nLastApplied n = 0" using act [OF ne] b Nil by (simp_all add: begins_def)
      then have "commands_from 1 ms \<or> (\<exists>d t. ms = [ApplySnapshot d 0 t])" using o by (auto simp: in_order_def batch_ok_def)
      then show ?thesis using Nil ne by (cases ms; cases "hd ms") (auto simp: begins_def)
    qed (use p Nil in \<open>auto simp: begins_def\<close>)
  next
    case (Cons m app')
    then show ?thesis using b by (simp add: begins_def split: ApplyMsg.splits)
  qed
qed

lemma applier_passes:
  assumes b: "based C members s" and safe: "safe C members H s" and inv: "delivery_inv members s"
    and i: "i \<in> set members" "clPeer s i = Up n" "clOutbox s i = []" and r: "applier n = Ok (act, n')"
  shows "passes C members X s (outbox i (act, n') s)"
proof -
  have o: "in_order n [] (clApplied s i)" using delivery_invD(1) [OF inv i(1,2)] i(3) by simp
  note A = applier_order [OF safe i r o]
  have bg: "begins n (clApplied s i)" using basedD(2) [OF b i(1,2)] i(3) by simp
  have pend: "\<exists>d k t. p = ApplySnapshot d k t" if "nPending n = Some p" for p
    using o that by (auto simp: in_order_def pending_ok_def)
  let ?s = "outbox i (act, n') s"
  have sel: "clPeer ?s = (clPeer s)(i := Up n')" "clApplied ?s = clApplied s" "wire_snaps ?s = wire_snaps s"
    "clOutbox ?s = (clOutbox s)(i := (case act of ApplierSend ms \<Rightarrow> ms | _ \<Rightarrow> []))"
    using i(3) by (auto simp: outbox_def wire_snaps_def setPeer_def fun_upd_idem split: applierAction.splits)
  have n': "firstIndex n' = firstIndex n" "same_snap n n'" "nPending n' = nPending n \<or> nPending n' = None"
    "(\<forall>ms. act \<noteq> ApplierSend ms) \<Longrightarrow> n' = n" "nPending n = None \<Longrightarrow> n' = n"
    "nPending n = Some p \<Longrightarrow> act = ApplierSend ms \<Longrightarrow> ms = [p]"
    "nPending n = None \<Longrightarrow> act = ApplierSend ms \<Longrightarrow> \<exists>es. ms = map applyMsgOf es" for p ms
    using r by (auto simp: applier_def firstIndex_def same_snap_def Let_def bindR_Ok_iff split: if_splits option.splits)
  have "node_snaps n' \<subseteq> node_snaps n" using n'(1,2,3) by (auto simp: node_snaps_def same_snap_def)
  then have peer: "peer_snaps C (Up n') \<subseteq> snaps C s \<union> X" using snaps_peer [of _ C s i] i(2) by (auto simp: peer_snaps_def)
  have "msg_snaps ms \<subseteq> node_snaps n" if "act = ApplierSend ms" for ms
    using n'(6) [OF _ that] n'(7) [OF _ that]
    by (cases "nPending n") (auto simp: node_snaps_def msg_snaps_def applyMsgOf_def)
  then have msgs: "msg_snaps (clOutbox ?s i) \<subseteq> snaps C s"
    using snaps_peer [of _ C s i] i(2) sel(4) by (auto simp: peer_snaps_def split: applierAction.splits)
  show ?thesis
  proof (rule passes_one [OF b sel(1)])
    show "peer_snaps C (Up n') \<subseteq> snaps C s \<union> X" by (rule peer)
    show "peer_based C (Up n')" using basedD(1) [OF b i(1)] i(2) n'(1,2) by (simp add: peer_based_def same_snap_def)
    show "begins m (clApplied ?s i @ clOutbox ?s i)" if "Up n' = Up m" for m
    proof (cases "clOutbox ?s i = []")
      case True
      then have "n' = n \<or> (\<exists>p. nPending n = Some p \<and> act = ApplierSend [])"
        using n'(4,5) sel(4) by (cases act; cases "nPending n") auto
      then have "n' = n" using n'(6) by auto
      then show ?thesis using True bg sel(2) that by simp
    next
      case False
      then obtain ms where ms: "act = ApplierSend ms" "clOutbox ?s i = ms" "ms \<noteq> []" using sel(4) by (cases act) auto
      have "\<exists>d k t. ms = [ApplySnapshot d k t]" if "nPending n \<noteq> None"
      proof -
        obtain p where "nPending n = Some p" using \<open>nPending n \<noteq> None\<close> by blast
        then show ?thesis using n'(6) [OF _ ms(1)] pend by blast
      qed
      then have "begins n' (clApplied s i @ ms)"
        by (intro applier_begins [OF _ bg _ _ ms(3)]) (use A ms(1) n'(5) in auto)
      then show ?thesis using ms(2) sel(2) that by simp
    qed
  qed (use sel msgs snaps_msgs in \<open>auto simp: snaps_def\<close>)
qed

lemma hand_over_passes:
  assumes b: "based C members s" and i: "i \<in> set members" "clPeer s i = Up n" "clOutbox s i = m # ms"
  shows "passes C members X s (handOver i m ms n s)"
proof -
  let ?n = "case m of ApplyCommand c k t \<Rightarrow> applierSent k n | ApplySnapshot d k t \<Rightarrow> n" and ?s = "handOver i m ms n s"
  have n': "firstIndex ?n = firstIndex n" "nSnapshot ?n = nSnapshot n" "nDisk ?n = nDisk n" "nPending ?n = nPending n"
    by (auto simp: applierSent_def firstIndex_def split: ApplyMsg.splits)
  have sel: "clPeer ?s = (clPeer s)(i := Up ?n)" "clOutbox ?s = (clOutbox s)(i := ms)" "clApplied ?s = (clApplied s)(i := clApplied s i @ [m])"
    "wire_snaps ?s = wire_snaps s" by (simp_all add: handOver_def setPeer_def wire_snaps_def)
  show ?thesis
  proof (rule passes_one [OF b sel(1)])
    have "node_snaps ?n = node_snaps n" using n' by (simp add: node_snaps_def)
    then show "peer_snaps C (Up ?n) \<subseteq> snaps C s \<union> X" using snaps_peer [of _ C s i] i(2) by (auto simp: peer_snaps_def)
    show "peer_based C (Up ?n)" using basedD(1) [OF b i(1)] i(2) n' by (simp add: peer_based_def)
    have "msg_snaps [m] \<union> msg_snaps ms \<subseteq> msg_snaps (clOutbox s i)" using i(3) by (auto simp: msg_snaps_def)
    then show "msg_snaps (clOutbox ?s i) \<union> msg_snaps (clApplied ?s i) \<subseteq> snaps C s \<union> X"
      using snaps_msgs [of _ s i C] sel(2,3) by auto
    have "begins n (clApplied s i @ m # ms)" using basedD(2) [OF b i(1,2)] i(3) by simp
    moreover have "begins x (clApplied s i @ m # ms) = begins y (clApplied s i @ m # ms)" for x y
      by (cases "clApplied s i") (simp_all add: begins_def)
    ultimately show "begins x (clApplied ?s i @ clOutbox ?s i)" for x using sel(2,3) by (metis append.assoc append_Cons append_Nil fun_upd_same)
  qed (use sel in auto)
qed

lemma restart_passes:
  assumes b: "based C members s" and inv: "delivery_inv members s" and i: "i \<in> set members" "clPeer s i = Down d"
    and r: "NewNode C R E cfg0 d = Some (Ok n)" and dir: "cDataDir (applyDefaults cfg0) \<noteq> []"
    and ne: "\<forall>x \<in> snaps C s. fst x \<noteq> []" and nonneg: "0 \<le> firstIndex n"
  shows "passes C members X s (setPeer i (Up n) s)"
proof -
  note empty = delivery_invD(2,3) [OF inv i]
  obtain p where p: "loaded C d = Some p" "nLog n = psLog p" "nDisk n = d" "nLastApplied n = firstIndex n"
    "nSnapshot n = None \<and> nPending n = None \<and> (dSnap d = None \<or> dSnap d = Some [] \<or> dState d = None) \<or>
     (\<exists>snap t. dSnap d = Some snap \<and> nSnapshot n = Some snap \<and> nPending n = Some (ApplySnapshot snap (firstIndex n) t))"
    using r dir
    by (auto simp: NewNode_def readPersist_def Let_def bindR_Ok_iff loaded_def freshState_def firstIndex_def sentinel_def
        split: option.splits if_splits)
  have sub: "node_snaps n \<subseteq> disk_snaps C d"
    using p by (auto simp: node_snaps_def disk_snaps_def firstIndex_def msg_snaps_def)
  have pb: "firstIndex n > 0 \<longrightarrow> dSnap d \<noteq> None" using basedD(1) [OF b i(1)] i(2) p(1,2) by (simp add: peer_based_def firstIndex_def)
  have disk: "disk_snaps C d \<subseteq> snaps C s" using snaps_peer [of _ C s i] i(2) by (auto simp: peer_snaps_def)
  show ?thesis
  proof (rule passes_one [OF b, where i = i and P = "Up n"])
    show "peer_snaps C (Up n) \<subseteq> snaps C s \<union> X" using sub disk by (auto simp: peer_snaps_def)
    show "peer_based C (Up n)" using pb p(3) by (simp add: peer_based_def)
    have "nPending n \<noteq> None \<or> nLastApplied n = 0"
    proof (rule ccontr)
      assume n: "\<not> (nPending n \<noteq> None \<or> nLastApplied n = 0)"
      then have f: "firstIndex n \<noteq> 0" and d: "dSnap d = None \<or> dSnap d = Some [] \<or> dState d = None" using p(4,5) by auto
      have "dState d \<noteq> None" using f p(1,2) by (auto simp: loaded_def freshState_def firstIndex_def sentinel_def split: option.splits)
      moreover have "dSnap d \<noteq> Some []" using disk ne p(1) by (force simp: disk_snaps_def)
      ultimately show False using d pb f nonneg by auto
    qed
    then show "begins m (clApplied (setPeer i (Up n) s) i @ clOutbox (setPeer i (Up n) s) i)" if "Up n = Up m" for m
      using that empty by (simp add: begins_def)
  qed (use empty in \<open>auto simp: setPeer_def wire_snaps_def snaps_def\<close>)
qed


section \<open>Every step\<close>

lemma node_step_passes:
  assumes step: "node_step C members cfg s s'" and safe: "safe C members H s" and el: "election_inv C members cfg s"
    and inv: "delivery_inv members s" and cc: "cluster_cfg members cfg" and rt: "ps_roundtrip C"
    and b: "based C members s" and clean: "clean s s'" and ne: "\<forall>x \<in> snaps C s. fst x \<noteq> []"
  shows "passes C members {} s s'"
proof -
  have dist: "distinct members" using cc by (simp add: cluster_cfg_def)
  note D = election_invD(4) [OF el] and V = passes_still [OF b]
  have dir: "cDataDir (nCfg n) \<noteq> []" if "i \<in> set members" "clPeer s i = Up n" for i n
    using D [OF that] by (simp add: durable_def)
  have ok: "log_ok n" if i: "i \<in> set members" "clPeer s i = Up n" for i n
    using node_view [OF safe i] view_log_ok(1) by metis
  from step show ?thesis
  proof cases
    case (Tick i n E)
    note d = D [OF Tick(2,3)]
    show ?thesis unfolding Tick(1)
    proof (rule passes_settle [OF b Tick(2,3) electionLoop_old [OF d] clean [unfolded Tick(1)]])
      fix x assume x: "electionLoop C E n = Ok x"
      obtain a n' where an: "x = (a, n')" by (cases x)
      show "passes C members {} s (elect i x s)"
        by (rule V [OF Tick(2,3) electionLoop_still [OF x [unfolded an]] handlers_snap(1) [OF x [unfolded an]]])
          (auto simp: an elect_def setPeer_def split: option.splits)
    qed
  next
    case (VoteRequest i n args E)
    note d = D [OF VoteRequest(2,3)]
    show ?thesis unfolding VoteRequest(1)
      by (rule passes_settle [OF b VoteRequest(2,3) HandleRequestVote_old [OF d] clean [unfolded VoteRequest(1)]])
        (auto simp: setPeer_def dest: handlers_snap(2) HandleRequestVote_body(1) [THEN still_body] intro!: V [OF VoteRequest(2,3)])
  next
    case (VoteReply i n p args reply votes waiting E)
    note d = D [OF VoteReply(2,3)]
    have "still n n'" if "handleVoteReply C E (rvTerm args) votes reply n = Ok (v, n')" for v n'
      using handleVoteReply_effect [OF that] still_body becomeLeader_still [OF ok [OF VoteReply(2,3)]] by blast
    then show ?thesis unfolding VoteReply(1)
      by (intro passes_settle [OF b VoteReply(2,3) handleVoteReply_old [OF d] clean [unfolded VoteReply(1)]])
        (auto simp: setPeer_def dest: handlers_snap(3) intro!: V [OF VoteReply(2,3)])
  next
    case (Proposal i n E command)
    note d = D [OF Proposal(2,3)]
    have "still n n'" if r: "Propose C E command n = Ok (x, n')" for x n'
    proof -
      obtain index t b where "x = (index, t, b)" by (cases x) auto
      then show ?thesis using Propose_effect [of C E command n index t b n'] r ok [OF Proposal(2,3)]
        by (auto simp: still_def same_rest_def firstIndex_def log_ok_def)
    qed
    then show ?thesis unfolding Proposal(1)
      by (intro passes_settle [OF b Proposal(2,3) Propose_old [OF d] clean [unfolded Proposal(1)]])
        (auto simp: setPeer_def dest: handlers_snap(4) intro!: V [OF Proposal(2,3)])
  next
    case (Send i n p)
    note d = D [OF Send(2,3)]
    show ?thesis unfolding Send(1)
      by (rule passes_settle [OF b Send(2,3) sendAppendEntries_old [OF d] clean [unfolded Send(1)]])
        (auto simp: sendAppend_def intro!: passes_self [OF b] split: sendAction.splits)
  next
    case (SendInstall i n p args)
    have "(isData args, isLastIncludedIndex args) \<in> node_snaps n"
      using SendInstall(5) by (auto simp: sendInstallSnapshot_def node_snaps_def split: if_splits option.splits)
    then have "(isData args, isLastIncludedIndex args) \<in> snaps C s"
      using snaps_peer [of _ C s i] SendInstall(3) by (simp add: peer_snaps_def)
    then show ?thesis unfolding SendInstall(1)
      by (intro passes_self [OF b]) (auto simp: wire_snaps_def intro: snaps_wire)
  next
    case (AppendRequest i n args E)
    note d = D [OF AppendRequest(2,3)]
    show ?thesis unfolding AppendRequest(1)
      by (rule passes_settle [OF b AppendRequest(2,3) HandleAppendEntries_old [OF d] clean [unfolded AppendRequest(1)]])
        (auto simp: setPeer_def dest: handlers_snap(5) intro!: V [OF AppendRequest(2,3) append_still [OF safe AppendRequest(2,3,4)]])
  next
    case (AppendReply i n p args reply E)
    note d = D [OF AppendReply(2,3)]
    have "still n n'" if "handleAppendReply C E p args reply n = Ok (b, n')" for b n'
      using handleAppendReply_effect [OF that ok [OF AppendReply(2,3)]] still_body still_rest by blast
    then show ?thesis unfolding AppendReply(1)
      by (intro passes_settle [OF b AppendReply(2,3) handleAppendReply_old [OF d] clean [unfolded AppendReply(1)]])
        (auto simp: setPeer_def dest: handlers_snap(6) intro!: V [OF AppendReply(2,3)])
  next
    case (InstallRequest i n args E)
    note d = D [OF InstallRequest(2,3)]
    show ?thesis unfolding InstallRequest(1)
    proof (rule passes_settle [OF b InstallRequest(2,3) HandleInstallSnapshot_old [OF d] clean [unfolded InstallRequest(1)]])
      fix x assume x: "HandleInstallSnapshot C E args n = Ok x"
      obtain reply n' where rn: "x = (reply, n')" by (cases x)
      let ?s = "(setPeer i (Up n') s)\<lparr>clInstallReps := insert (i, args, reply) (clInstallReps s)\<rparr>"
      have "passes C members {} s ?s"
        using HandleInstallSnapshot_snap [OF x [unfolded rn] dir [OF InstallRequest(2,3)]]
      proof (elim disjE conjE)
        assume "still n n'" "same_snap n n'"
        then show ?thesis by (rule V [OF InstallRequest(2,3)]) (auto simp: setPeer_def)
      next
        assume n': "dSnap (nDisk n') = Some (isData args)" "nSnapshot n' = Some (isData args)" "firstIndex n' = isLastIncludedIndex args"
          "nPending n' = Some (ApplySnapshot (isData args) (isLastIncludedIndex args) (isLastIncludedTerm args))" "nLastApplied n' = nLastApplied n"
        have "node_snaps n' \<subseteq> {(isData args, isLastIncludedIndex args)}" using n' by (auto simp: node_snaps_def msg_snaps_def)
        then have peer: "peer_snaps C (Up n') \<subseteq> snaps C s \<union> {}"
          using snaps_wire [OF InstallRequest(4), of C] by (auto simp: peer_snaps_def)
        have bg: "begins n' (clApplied s i @ clOutbox s i)"
          using basedD(2) [OF b InstallRequest(2,3)] n'(4) by (auto simp: begins_def split: list.splits)
        show ?thesis
          by (rule passes_one [OF b, where i = i and P = "Up n'"])
            (use peer bg n' snaps_msgs in \<open>auto simp: setPeer_def peer_based_def wire_snaps_def snaps_def\<close>)
      qed
      then show "passes C members {} s ((\<lambda>(reply, n1). (setPeer i (Up n1) s)\<lparr>clInstallReps := insert (i, args, reply) (clInstallReps s)\<rparr>) x)"
        by (simp add: rn)
    qed
  next
    case (InstallReply i n p args reply E)
    note d = D [OF InstallReply(2,3)]
    have "still n n'" if "handleSnapshotReply C E p args reply n = Ok (b, n')" for b n'
      using handleSnapshotReply_effect [OF that] still_body still_rest by blast
    then show ?thesis unfolding InstallReply(1)
      by (intro passes_settle [OF b InstallReply(2,3) handleSnapshotReply_old [OF d] clean [unfolded InstallReply(1)]])
        (auto simp: setPeer_def dest: handlers_snap(7) intro!: V [OF InstallReply(2,3)])
  next
    case (Applier i n)
    note d = D [OF Applier(2,3)]
    show ?thesis unfolding Applier(1)
      by (rule passes_settle [OF b Applier(2,3) applier_old [OF d] clean [unfolded Applier(1)]])
        (metis applier_passes [OF b safe inv Applier(2,3,4)] surj_pair)
  next
    case (HandOver i n m ms)
    show ?thesis unfolding HandOver(1) by (rule hand_over_passes [OF b HandOver(2,3,4)])
  next
    case (Stop i n)
    show ?thesis unfolding Stop(1)
      by (rule V [OF Stop(2,3), of "Node_Stop n"]) (auto simp: still_def same_snap_def Node_Stop_def firstIndex_def setPeer_def)
  next
    case (Crash i n)
    have "loaded C (nDisk n) = Some (persistentOf n)" using D [OF Crash(2,3)] by (simp add: durable_def saved_def)
    then show ?thesis unfolding Crash(1) by (intro passes_crash [OF b Crash(2,3)]) (auto simp: persistentOf_def)
  next
    case (Restart i d R E n)
    have safe': "safe C members H (setPeer i (Up n) s)" by (rule safe_restart [OF safe el cc Restart(2,3,4)])
    obtain f where "firstIndex n = int f" using node_view [OF safe' Restart(2), of n] by auto
    moreover have "cDataDir (applyDefaults (cfg i)) \<noteq> []" using cc Restart(2) by (simp add: cluster_cfg_def)
    ultimately show ?thesis unfolding Restart(1) by (intro restart_passes [OF b inv Restart(2,3,4) _ ne]) simp_all
  qed
qed

lemma compact_passes:
  assumes safe: "safe C members H s" and el: "election_inv C members cfg s" and b: "based C members s"
    and i: "i \<in> set members" "clPeer s i = Up n" and clean: "clean s (settle i s (\<lambda>n1. setPeer i (Up n1) s) (Node_Snapshot C E index snap n))"
  shows "passes C members {(snap, index)} s (settle i s (\<lambda>n1. setPeer i (Up n1) s) (Node_Snapshot C E index snap n))"
proof -
  note d = election_invD(4) [OF el i]
  have dir: "cDataDir (nCfg n) \<noteq> []" using d by (simp add: durable_def)
  show ?thesis
  proof (rule passes_settle [OF b i Node_Snapshot_old [OF d] clean])
    fix n' assume r: "Node_Snapshot C E index snap n = Ok n'"
    from Node_Snapshot_snap [OF r dir] show "passes C members {(snap, index)} s (setPeer i (Up n') s)"
    proof (elim disjE conjE)
      assume "n' = n"
      then show ?thesis by (intro passes_still [OF b i, of n]) (auto simp: still_def setPeer_def wire_snaps_def snaps_def)
    next
      assume n': "dSnap (nDisk n') = Some snap" "nSnapshot n' = Some snap" "firstIndex n' = index"
        "nPending n' = nPending n" "nLastApplied n' = nLastApplied n"
      have "node_snaps n' \<subseteq> node_snaps n \<union> {(snap, index)}" using n' by (auto simp: node_snaps_def)
      then have peer: "peer_snaps C (Up n') \<subseteq> snaps C s \<union> {(snap, index)}"
        using snaps_peer [of _ C s i] i(2) by (auto simp: peer_snaps_def)
      have bg: "begins n' (clApplied s i @ clOutbox s i)"
        using basedD(2) [OF b i] begins_same [OF n'(4,5)] by simp
      show ?thesis
        by (rule passes_one [OF b, where i = i and P = "Up n'"])
          (use peer bg n' snaps_msgs in \<open>auto simp: setPeer_def peer_based_def wire_snaps_def snaps_def\<close>)
    qed
  qed
qed

end
