(* ===== verification/Service_Replicas.thy ===== *)
theory Service_Replicas
  imports Service_Calls Raft_Snapshots Replica_Invariants
begin

text \<open>
  The state machines of the clustered service. In a run in which no process dies between the two
  writes of a snapshot, every server's state machine is a replica at the operations of the agreed
  log up to the last message it received, and every snapshot in the cluster is one of such a
  replica at the index it is labelled with.
\<close>

section \<open>Operations of a log\<close>

definition commandOp :: "clusterLib \<Rightarrow> byte list option \<Rightarrow> QueueOp list" where
  "commandOp L cmd =
     (case cmd of
        None \<Rightarrow> []
      | Some bs \<Rightarrow> if length bs > 0 then (case DecodeOp (libOp L) bs of None \<Rightarrow> [] | Some op \<Rightarrow> [op]) else [])"

definition opsOf :: "clusterLib \<Rightarrow> rlog \<Rightarrow> QueueOp list" where
  "opsOf L x = concat (map (\<lambda>e. commandOp L (eCommand e)) x)"

definition position :: "ApplyMsg list \<Rightarrow> int" where
  "position ms = (if ms = [] then 0 else amIndex (last ms))"

section \<open>Invariant\<close>

definition replica_at :: "clusterLib \<Rightarrow> string list \<Rightarrow> int \<Rightarrow> history \<Rightarrow> int \<Rightarrow> StateMachine \<Rightarrow> bool" where
  "replica_at L members mr H k sm \<longleftrightarrow>
     (\<exists>T x. agreed members H T x \<and> int (length x) = k \<and> replica (libSnap L) mr (opsOf L x) sm)"

definition snap_good :: "clusterLib \<Rightarrow> string list \<Rightarrow> int \<Rightarrow> history \<Rightarrow> byte list \<times> int \<Rightarrow> bool" where
  "snap_good L members mr H x \<longleftrightarrow> fst x \<noteq> [] \<and>
     (\<exists>src ord. replica_at L members mr H (snd x) src \<and> map_order ord \<and> Snapshot (libSnap L) ord src = Some (fst x))"

definition loop_ok :: "serverRun \<Rightarrow> bool" where
  "loop_ok r =
     (case srLoop r of
        LoopIdle \<Rightarrow> True
      | Notifying k t \<Rightarrow> k = position (srIn r)
      | Snapping k \<Rightarrow> k = position (srIn r))"

definition run_good :: "clusterLib \<Rightarrow> string list \<Rightarrow> int \<Rightarrow> history \<Rightarrow> serverRun \<Rightarrow> bool" where
  "run_good L members mr H r \<longleftrightarrow> loop_ok r \<and> replica_at L members mr H (position (srIn r)) (csSm (srServer r))"

definition raft_good :: "clusterLib \<Rightarrow> string list \<Rightarrow> int \<Rightarrow> history \<Rightarrow> cluster \<Rightarrow> bool" where
  "raft_good L members mr H s \<longleftrightarrow> safe (libPs L) members H s \<and> based (libPs L) members s \<and>
     (\<forall>x \<in> snaps (libPs L) s. snap_good L members mr H x)"

definition service_good :: "clusterLib \<Rightarrow> string list \<Rightarrow> int \<Rightarrow> history \<Rightarrow> clusterService \<Rightarrow> bool" where
  "service_good L members mr H st \<longleftrightarrow> raft_good L members mr H (svRaft st) \<and>
     (\<forall>i r. svRun st i = Some r \<longrightarrow> run_good L members mr H r)"

lemma replica_at_mono: "extends H H' \<Longrightarrow> replica_at L members mr H k sm \<Longrightarrow> replica_at L members mr H' k sm"
  unfolding replica_at_def using extends_agreed by blast

lemma snap_good_mono: "extends H H' \<Longrightarrow> snap_good L members mr H x \<Longrightarrow> snap_good L members mr H' x"
  unfolding snap_good_def using replica_at_mono by blast

lemma run_good_mono: "extends H H' \<Longrightarrow> run_good L members mr H r \<Longrightarrow> run_good L members mr H' r"
  unfolding run_good_def using replica_at_mono by blast

lemma newRun_good: "run_good L members (ccMaxRetries cc) H (newRun cc n)"
proof -
  have "agreed members H 0 []" by (simp add: agreed_def)
  moreover have "replica (libSnap L) (ccMaxRetries cc) (opsOf L []) (NewStateMachine (ccMaxRetries cc))"
    by (simp add: opsOf_def Replica_New)
  ultimately show ?thesis
    by (auto simp: run_good_def loop_ok_def newRun_def NewClusterServer_def position_def replica_at_def Let_def
        intro!: exI [of _ 0] exI [of _ "[]"])
qed

section \<open>Raft's part of a step\<close>

lemma raft_part:
  assumes good: "raft_good L members mr H (svRaft st)" and reach: "raft_reach (libPs L) members cfg (svRaft st)"
    and cc: "cluster_cfg members cfg" and rt: "ps_roundtrip (libPs L)"
    and step: "service_step L members cfg ccf st st'" and clean: "clean (svRaft st) (svRaft st')"
    and runs: "\<And>i r. svRun st i = Some r \<Longrightarrow> run_good L members mr H r"
    and ne: "\<And>ord sm bs. Snapshot (libSnap L) ord sm = Some bs \<Longrightarrow> bs \<noteq> []"
  shows "\<exists>H'. extends H H' \<and> raft_good L members mr H' (svRaft st')"
proof -
  let ?C = "libPs L" and ?s = "svRaft st" and ?s' = "svRaft st'"
  have safe: "safe ?C members H ?s" and b: "based ?C members ?s" and g: "\<forall>x \<in> snaps ?C ?s. snap_good L members mr H x"
    using good by (simp_all add: raft_good_def)
  note el = raft_reach_election [OF reach cc rt] and dl = raft_reach_delivery [OF reach cc rt]
  have fin: "\<exists>H'. extends H H' \<and> raft_good L members mr H' ?s'"
    if gr: "grows ?C members H ?s'" and pa: "passes ?C members X ?s ?s'" and X: "\<forall>x \<in> X. snap_good L members mr H x" for X
  proof -
    obtain H' where H': "extends H H'" "safe ?C members H' ?s'" using gr unfolding grows_def by blast
    moreover have "snap_good L members mr H' x" if "x \<in> snaps ?C ?s'" for x
      using that pa g X snap_good_mono [OF H'(1)] unfolding passes_def by blast
    ultimately show ?thesis using pa unfolding raft_good_def passes_def by blast
  qed
  from step show ?thesis
  proof (cases rule: service_step_kinds)
    case same
    then show ?thesis using good extends_refl by (intro exI [of _ H]) simp
  next
    case node
    have "\<forall>x \<in> snaps ?C ?s. fst x \<noteq> []" using g by (auto simp: snap_good_def)
    from fin [OF node_step_safe [OF node safe el cc rt] node_step_passes [OF node safe el dl cc rt b clean this]]
    show ?thesis by simp
  next
    case (compact i n r k ord E bs)
    have i: "i \<in> set members" "clPeer ?s i = Up n" "svRun st i = Some r" using compact(1) by (simp_all add: running_def)
    have "raft_step ?C members cfg ?s ?s'" unfolding compact(5) by (rule Compact [OF i(1,2)])
    moreover have "passes ?C members {(bs, k)} ?s ?s'"
      using compact_passes [OF safe el b i(1,2)] clean unfolding compact(5) by blast
    moreover have "snap_good L members mr H (bs, k)"
    proof -
      have "k = position (srIn r)" using runs [OF i(3)] compact(2) by (simp add: run_good_def loop_ok_def)
      then have "replica_at L members mr H k (csSm (srServer r))" using runs [OF i(3)] by (simp add: run_good_def)
      then show ?thesis using compact(3,4) ne unfolding snap_good_def by auto
    qed
    ultimately show ?thesis using fin raft_step_safe [OF _ safe el cc rt] by blast
  qed
qed


section \<open>The servers' part of a step\<close>

lemma opsOf_snoc: "opsOf L (x @ [e]) = opsOf L x @ commandOp L (eCommand e)"
  by (simp add: opsOf_def)

lemma applyCommand_command:
  assumes "applyCommand L (ApplyCommand cmd k t) s = Ok s'"
  shows "replica C mr ops (csSm s) \<Longrightarrow> replica C mr (ops @ commandOp L cmd) (csSm s')"
  using assms by (auto simp: applyCommand_def commandOp_def split: option.splits if_splits intro: Replica_Apply)

text \<open>The next message: the one after the last, or the first of all.\<close>

lemma next_index:
  assumes reach: "raft_reach C members cfg s" and cc: "cluster_cfg members cfg" and rt: "ps_roundtrip C"
    and b: "based C members s" and i: "i \<in> set members" "clPeer s i = Up n"
    and m: "prefix (ms @ [ApplyCommand c k t]) (clApplied s i)"
  shows "k = position ms + 1"
proof -
  obtain zs where zs: "clApplied s i = ms @ ApplyCommand c k t # zs" using m by (auto simp: prefix_def)
  show ?thesis
  proof (cases ms rule: rev_cases)
    case Nil
    then have "begins n (ApplyCommand c k t # zs @ clOutbox s i)" using basedD(2) [OF b i] zs by simp
    then show ?thesis using Nil by (simp add: begins_def position_def)
  next
    case (snoc ms' y)
    have "successively follows (clApplied s i)"
      using delivery_invD(1) [OF raft_reach_delivery [OF reach cc rt] i] by (simp add: in_order_def)
    then have "follows y (ApplyCommand c k t)" using zs snoc by (simp add: successively_append_iff)
    then show ?thesis using snoc by (simp add: follows_def position_def)
  qed
qed

lemma receive_command:
  assumes good: "raft_good L members mr H s" and reach: "raft_reach (libPs L) members cfg s"
    and cc: "cluster_cfg members cfg" and rt: "ps_roundtrip (libPs L)"
    and i: "i \<in> set members" "clPeer s i = Up n" and m: "prefix (ms @ [ApplyCommand c k t]) (clApplied s i)"
    and sm: "replica_at L members mr H (position ms) (csSm v)" and ap: "applyCommand L (ApplyCommand c k t) v = Ok v'"
  shows "replica_at L members mr H k (csSm v')"
proof -
  have safe: "safe (libPs L) members H s" and b: "based (libPs L) members s" using good by (simp_all add: raft_good_def)
  have dist: "distinct members" using cc by (simp add: cluster_cfg_def)
  obtain T x where x: "agreed members H T x" "int (length x) = position ms" "replica (libSnap L) mr (opsOf L x) (csSm v)"
    using sm by (auto simp: replica_at_def)
  have "ApplyCommand c k t \<in> set (clApplied s i)" using m by (auto simp: prefix_def)
  then have "msg_agreed members H (ApplyCommand c k t)" using safeD(6) [OF safe] unfolding deliver_safe_def by blast
  then obtain T' y where y: "agreed members H T' y" "int (length y) = k" "y \<noteq> []" "last y = \<lparr>eIndex = k, eTerm = t, eCommand = c\<rparr>"
    unfolding msg_agreed_def by auto
  have len: "length y = Suc (length x)" using next_index [OF reach cc rt b i m] x(2) y(2) by simp
  have "take (length x) y = x" using agreed_comparable [OF safeD(1) [OF safe] dist y(1) x(1), of "length x"] len by simp
  then have "butlast y = x" using len by (simp add: butlast_conv_take)
  then have "y = x @ [last y]" using y(3) by (metis append_butlast_last_id)
  then have "opsOf L y = opsOf L x @ commandOp L c" using opsOf_snoc [of L x "last y"] y(4) by simp
  then show ?thesis using applyCommand_command [OF ap x(3)] y(1,2) unfolding replica_at_def by metis
qed

lemma receive_snapshot:
  assumes good: "raft_good L members mr H s" and m: "ApplySnapshot d k t \<in> set (clApplied s i)"
    and sm: "replica_at L members mr H j (csSm v)" and ap: "applyCommand L (ApplySnapshot d k t) v = Ok v'"
  shows "replica_at L members mr H k (csSm v')"
proof -
  have "(d, k) \<in> snaps (libPs L) s" using m by (intro snaps_msgs(2) [of _ s i]) (auto simp: msg_snaps_def)
  then obtain src ord where src: "replica_at L members mr H k src" "map_order ord" "Snapshot (libSnap L) ord src = Some d"
    using good by (force simp: raft_good_def snap_good_def)
  have "Restore (libSnap L) d (csSm v) = (False, csSm v')"
    using ap by (auto simp: applyCommand_def split: prod.splits bool.splits)
  then show ?thesis using src sm Replica_Restore unfolding replica_at_def by metis
qed

lemma local_replica:
  assumes "local_step L s s'" and "replica_at L members mr H k (csSm s)"
  shows "replica_at L members mr H k (csSm s')"
proof -
  have R: "replica C n ops (csSm s')" if "replica C n ops (csSm s)" for C n ops
    using assms(1)
  proof cases
    case (Local_Take now)
    have "csSm s' = snd (SM_Dequeue now (ccTaskTimeout (csCfg s)) (csSm s))"
      unfolding Local_Take by (simp add: dequeueTake_def split: prod.splits)
    then show ?thesis using that Replica_Dequeue by metis
  next
    case (Local_Track t)
    then show ?thesis using that by (simp add: dequeueTrack_def)
  next
    case (Local_Finish encText taskID r)
    then show ?thesis using that by (simp add: finishAnswer_def split: option.splits)
  next
    case (Local_Scan ord now)
    then show ?thesis using that timeoutScan_frame by simp
  next
    case (Local_Watch isLeader)
    then show ?thesis using that by (simp add: watchFlag_def Let_def)
  next
    case (Local_Requeue ord)
    then show ?thesis using that by (simp add: watchRequeue_def Replica_Requeue)
  next
    case Local_Stop
    then show ?thesis using that by (simp add: Cluster_Stop_def)
  qed
  then show ?thesis using assms(2) unfolding replica_at_def by blast
qed

lemma server_part:
  assumes good: "service_good L members mr H st" and inv: "service_inv L members cfg st"
    and cc: "cluster_cfg members cfg" and rt: "ps_roundtrip (libPs L)" and mr: "\<forall>i. ccMaxRetries (ccf i) = mr"
    and step: "service_step L members cfg ccf st st'" and r': "svRun st' i = Some r'"
  shows "run_good L members mr H r'"
proof -
  have rg: "raft_good L members mr H (svRaft st)" and old: "svRun st j = Some q \<Longrightarrow> run_good L members mr H q" for j q
    using good by (auto simp: service_good_def)
  have one: "run_good L members mr H r'" if "svRun st' = (svRun st)(j \<mapsto> q)" "run_good L members mr H q" for j q
    using that r' old by (auto split: if_splits)
  have gone: "run_good L members mr H r'" if "svRun st' = (svRun st)(j := None)" for j
    using that r' old by (auto split: if_splits)
  have frame: "run_good L members mr H r'" if j: "running st members j n r" and st': "svRun st' = (svRun st)(j \<mapsto> q)"
    and q: "csSm (srServer q) = csSm (srServer r)" "srIn q = srIn r" "srLoop q = srLoop r \<or> srLoop q = LoopIdle" for j n r q
    using one [OF st'] old [of j r] j q by (auto simp: run_good_def loop_ok_def running_def split: loopAt.splits)
  from step show ?thesis
  proof cases
    case (Raft s')
    then have "svRun st i = Some r' \<or> (\<exists>n. r' = newRun (ccf i) n)"
      using r' by (auto simp: raftMoved_def split: peer.splits option.splits)
    then show ?thesis using old newRun_good [of L members "ccf i"] mr by auto
  next
    case (Receive j n r m s)
    have j: "j \<in> set members" "clPeer (svRaft st) j = Up n" "svRun st j = Some r" using Receive(2) by (simp_all add: running_def)
    have pre: "prefix (srIn r @ [m]) (clApplied (svRaft st) j)"
      using service_invD(2) [OF inv j(3)] Receive(4,5) by (metis append_one_prefix)
    have sm: "replica_at L members mr H (position (srIn r)) (csSm (serverAt r n))" using old [OF j(3)] by (simp add: run_good_def)
    have "replica_at L members mr H (amIndex m) (csSm s)"
    proof (cases m)
      case (ApplyCommand c k t)
      show ?thesis using receive_command [OF rg service_invD(1) [OF inv] cc rt j(1,2) _ sm] pre Receive(6) ApplyCommand by simp
    next
      case (ApplySnapshot d k t)
      have "m \<in> set (clApplied (svRaft st) j)" using pre by (auto simp: prefix_def)
      then show ?thesis using receive_snapshot [OF rg _ sm] Receive(6) ApplySnapshot by simp
    qed
    then have "run_good L members mr H (received m s r)"
      by (auto simp: run_good_def loop_ok_def received_def position_def split: ApplyMsg.splits)
    then show ?thesis using one Receive(1) by simp
  next
    case (Notify j n r k t needSnap s)
    have "loop_ok r" using old [of j r] Notify(2) by (simp add: run_good_def running_def)
    then have "k = position (srIn r)" using Notify(3) by (simp add: loop_ok_def)
    moreover have "replica_at L members mr H (position (srIn r)) (csSm s)"
      using old [of j r] Notify(2) applyNotify_node [OF Notify(4)] by (simp add: run_good_def running_def)
    ultimately have "run_good L members mr H (r\<lparr>srServer := s, srLoop := if needSnap then Snapping k else LoopIdle\<rparr>)"
      by (simp add: run_good_def loop_ok_def)
    then show ?thesis using one Notify(1) by simp
  next
    case (Take_Snapshot j n r k ord E s)
    have "csSm s = csSm (srServer r)" using Take_Snapshot(5) by (auto elim!: applySnapshot_cases)
    then show ?thesis using frame [OF Take_Snapshot(2), of "r\<lparr>srServer := s, srLoop := LoopIdle\<rparr>"] Take_Snapshot(1) by simp
  next
    case (Propose_Op j n r E op res s)
    have "csSm s = csSm (srServer r)" using Propose_Op(3) by (auto elim!: proposeOp_cases)
    then show ?thesis using frame [OF Propose_Op(2), of "proposed op res s r"] Propose_Op(1) by (simp add: proposed_def)
  next
    case (Register j n r c op k t ch s)
    show ?thesis using frame [OF Register(2)] registerWaiter_node [OF Register(5)] Register(1) by simp
  next
    case (Wake j n r c op k t ch w res s)
    show ?thesis using frame [OF Wake(2)] awaitOutcome_node [OF Wake(5)] Wake(1) by simp
  next
    case (Local j n r s)
    have "run_good L members mr H r" using old [of j r] Local(2) by (simp add: running_def)
    then have "run_good L members mr H (r\<lparr>srServer := s\<rparr>)"
      using local_replica [OF Local(3)] by (auto simp: run_good_def loop_ok_def split: loopAt.splits)
    then show ?thesis using one Local(1) by simp
  qed (use gone in simp_all)
qed


section \<open>Every run\<close>

text \<open>A step in which a process that dies leaves its snapshot file as it was.\<close>

definition clean_step ::
  "clusterLib \<Rightarrow> string list \<Rightarrow> (string \<Rightarrow> raftConfig) \<Rightarrow> (string \<Rightarrow> ClusterConfig) \<Rightarrow> clusterService \<Rightarrow> clusterService \<Rightarrow> bool" where
  "clean_step L members cfg cc st st' \<longleftrightarrow> service_step L members cfg cc st st' \<and> clean (svRaft st) (svRaft st')"

text \<open>The encoding of a snapshot is never empty.\<close>

definition snap_nonempty :: "snapCodec \<Rightarrow> bool" where
  "snap_nonempty C \<longleftrightarrow> (\<forall>st bs. snap_encode C st = Some bs \<longrightarrow> bs \<noteq> [])"

lemma clean_service: "(clean_step L members cfg cc)\<^sup>*\<^sup>* st st' \<Longrightarrow> (service_step L members cfg cc)\<^sup>*\<^sup>* st st'"
  by (rule rtranclp_mono [THEN predicate2D]) (auto simp: clean_step_def)

lemma good_step:
  assumes good: "service_good L members mr H st" and inv: "service_inv L members cfg st"
    and cc: "cluster_cfg members cfg" and rt: "ps_roundtrip (libPs L)" and mr: "\<forall>i. ccMaxRetries (ccf i) = mr"
    and ne: "snap_nonempty (libSnap L)" and step: "clean_step L members cfg ccf st st'"
  shows "\<exists>H'. extends H H' \<and> service_good L members mr H' st'"
proof -
  have s: "service_step L members cfg ccf st st'" "clean (svRaft st) (svRaft st')" using step by (simp_all add: clean_step_def)
  have rg: "raft_good L members mr H (svRaft st)" and runs: "svRun st i = Some r \<Longrightarrow> run_good L members mr H r" for i r
    using good by (auto simp: service_good_def)
  have "\<exists>H'. extends H H' \<and> raft_good L members mr H' (svRaft st')"
    by (rule raft_part [OF rg service_invD(1) [OF inv] cc rt s]) (use runs ne in \<open>auto simp: snap_nonempty_def Snapshot_def\<close>)
  then obtain H' where H': "extends H H'" "raft_good L members mr H' (svRaft st')" by blast
  have "run_good L members mr H' r" if "svRun st' i = Some r" for i r
    by (rule run_good_mono [OF H'(1) server_part [OF good inv cc rt mr s(1) that]])
  with H' show ?thesis unfolding service_good_def by blast
qed

lemma good_run:
  assumes run: "(clean_step L members cfg ccf)\<^sup>*\<^sup>* st st'"
    and good: "service_good L members mr H st" and inv: "service_inv L members cfg st"
    and cc: "cluster_cfg members cfg" and rt: "ps_roundtrip (libPs L)" and mr: "\<forall>i. ccMaxRetries (ccf i) = mr"
    and ne: "snap_nonempty (libSnap L)"
  shows "\<exists>H'. extends H H' \<and> service_good L members mr H' st' \<and> service_inv L members cfg st'"
  using run
proof induction
  case base
  show ?case using good inv extends_refl by (intro exI [of _ H]) simp
next
  case (step y z)
  then obtain H1 where H1: "extends H H1" "service_good L members mr H1 y" "service_inv L members cfg y" by blast
  obtain H2 where "extends H1 H2" "service_good L members mr H2 z" using good_step [OF H1(2,3) cc rt mr ne step(2)] by blast
  moreover have "service_inv L members cfg z" using service_step_inv [OF _ H1(3)] step(2) unfolding clean_step_def by blast
  ultimately show ?case using extends_trans [OF H1(1)] by blast
qed

lemma good_init:
  assumes "cluster_cfg members cfg" and "ps_roundtrip (libPs L)"
  shows "\<exists>H. service_good L members mr H service_init"
proof -
  obtain H where H: "safe (libPs L) members H raft_init" using raft_reach_safe [OF Raft_Init assms] by blast
  have "based (libPs L) members raft_init"
    by (simp add: based_def raft_init_def peer_based_def emptyDisk_def loaded_def freshState_def sentinel_def)
  moreover have "snaps (libPs L) raft_init = {}"
    by (auto simp: snaps_def raft_init_def peer_snaps_def disk_snaps_def emptyDisk_def wire_snaps_def)
  ultimately have "service_good L members mr H service_init" using H by (simp add: service_good_def raft_good_def service_init_def)
  then show ?thesis by blast
qed

text \<open>Two servers that received up to the same index have the same replicated state.\<close>

lemma same_position:
  assumes "service_good L members mr H st" and cc: "cluster_cfg members cfg" and sr: "snap_roundtrip (libSnap L)"
    and "svRun st i = Some r" and "svRun st j = Some q" and "position (srIn r) = position (srIn q)"
  shows "shared_view (sm_view (csSm (srServer r))) = shared_view (sm_view (csSm (srServer q)))"
proof -
  have H: "hist_inv members H" using assms(1) safeD(1) by (auto simp: service_good_def raft_good_def)
  have dist: "distinct members" using cc by (simp add: cluster_cfg_def)
  have "run_good L members mr H r" "run_good L members mr H q" using assms(1,4,5) by (auto simp: service_good_def)
  then obtain T x T' y where x: "agreed members H T x" "int (length x) = position (srIn r)" "replica (libSnap L) mr (opsOf L x) (csSm (srServer r))"
    and y: "agreed members H T' y" "int (length y) = position (srIn q)" "replica (libSnap L) mr (opsOf L y) (csSm (srServer q))"
    unfolding run_good_def replica_at_def by blast
  have len: "length y = length x" using x(2) y(2) assms(6) by simp
  then have "x = y" using agreed_comparable [OF H dist x(1) y(1), of "length x"] by simp
  then show ?thesis using replica_ok [OF x(3) sr] replica_ok [OF y(3) sr] by simp
qed

end
