(* ===== verification/Sample_Service.thy ===== *)
theory Sample_Service
  imports Service_Replicas Client_Properties
begin

text \<open>
  A run of the clustered service of two, for the examples of the development: the leader's server
  takes a call, the cluster commits it, the apply loop answers it and the other server follows.
\<close>

section \<open>The parameters\<close>

definition sample_lib :: clusterLib where
  "sample_lib = \<lparr>libOp = sample_op, libSnap = sample_snap, libPs = sample_ps, libTs = sample_ts\<rparr>"

definition ex_ccfg :: "string \<Rightarrow> ClusterConfig" where
  "ex_ccfg i = \<lparr>ccTaskTimeout = 30, ccMaxRetries = 3, ccSnapshotThreshold = 0, ccClientAddrs = [], ccScanInterval = 1\<rparr>"

lemma sample_lib_sel [simp]:
  "libOp sample_lib = sample_op" "libSnap sample_lib = sample_snap" "libPs sample_lib = sample_ps" "libTs sample_lib = sample_ts"
  by (simp_all add: sample_lib_def)

lemma sample_lib_ok:
  "op_roundtrip (libOp sample_lib)" "snap_roundtrip (libSnap sample_lib)" "ps_roundtrip (libPs sample_lib)"
  "snap_nonempty (libSnap sample_lib)" "\<forall>i. ccMaxRetries (ex_ccfg i) = 3"
proof -
  show "snap_nonempty (libSnap sample_lib)" by (simp add: snap_nonempty_def sample_snap_def enc_nat_def)
qed (simp_all add: op_roundtrip_sample snap_roundtrip_sample ps_roundtrip_sample ex_ccfg_def)

abbreviation ex_clean :: "clusterService \<Rightarrow> clusterService \<Rightarrow> bool" where
  "ex_clean \<equiv> clean_step sample_lib ex_members ex_rcfg ex_ccfg"

section \<open>Steps of Raft that keep every process up\<close>

definition lively :: "cluster \<Rightarrow> cluster \<Rightarrow> bool" where
  "lively s s' \<longleftrightarrow> ex_step s s' \<and> (\<forall>i n. clPeer s i = Up n \<longrightarrow> (\<exists>n'. clPeer s' i = Up n'))"

text \<open>The servers that run, and nothing else, are on processes that are up.\<close>

definition manned :: "clusterService \<Rightarrow> bool" where
  "manned st \<longleftrightarrow> (\<forall>i r. svRun st i = Some r \<longrightarrow> (\<exists>n. clPeer (svRaft st) i = Up n))"

lemma lively_step:
  assumes "lively (svRaft st) s'" and "manned st"
  shows "ex_clean st (raftMoved ex_ccfg s' st)" and "manned (raftMoved ex_ccfg s' st)"
    and "svRun st i = Some r \<Longrightarrow> svRun (raftMoved ex_ccfg s' st) i = Some r"
proof -
  have "clean (svRaft st) s'" using assms(1) by (force simp: clean_def lively_def)
  then show "ex_clean st (raftMoved ex_ccfg s' st)"
    using Raft [of sample_lib ex_members ex_rcfg st s' ex_ccfg] assms(1)
    by (simp add: clean_step_def lively_def sample_lib_def raftMoved_def)
  show "manned (raftMoved ex_ccfg s' st)" by (auto simp: manned_def raftMoved_def split: peer.splits)
  show "svRun (raftMoved ex_ccfg s' st) i = Some r" if a: "svRun st i = Some r"
  proof -
    obtain n where "clPeer (svRaft st) i = Up n" using a assms(2) by (auto simp: manned_def)
    then obtain n' where "clPeer s' i = Up n'" using assms(1) by (auto simp: lively_def)
    then show ?thesis using a by (simp add: raftMoved_def)
  qed
qed

lemma lively_run:
  assumes "lively\<^sup>*\<^sup>* s s'" and "svRaft st = s" and "manned st"
  shows "\<exists>st'. ex_clean\<^sup>*\<^sup>* st st' \<and> svRaft st' = s' \<and> manned st' \<and> (\<forall>i r. svRun st i = Some r \<longrightarrow> svRun st' i = Some r)"
  using assms(1)
proof induction
  case base
  show ?case using assms(2,3) by (intro exI [of _ st]) simp
next
  case (step u v)
  from step.IH obtain st' where st': "ex_clean\<^sup>*\<^sup>* st st'" "svRaft st' = u" "manned st'"
    "\<forall>i r. svRun st i = Some r \<longrightarrow> svRun st' i = Some r" by blast
  have l: "lively (svRaft st') v" using step.hyps(2) st'(2) by simp
  have "ex_clean\<^sup>*\<^sup>* st (raftMoved ex_ccfg v st')" by (rule rtranclp.rtrancl_into_rtrancl [OF st'(1) lively_step(1) [OF l st'(3)]])
  then show ?case using lively_step(2,3) [OF l st'(3)] st'(4)
    by (intro exI [of _ "raftMoved ex_ccfg v st'"]) (simp add: raftMoved_def)
qed

text \<open>Exactly the two nodes are up.\<close>

definition both_up :: "cluster \<Rightarrow> bool" where
  "both_up s \<longleftrightarrow> (\<forall>i. (\<exists>n. clPeer s i = Up n) \<longleftrightarrow> i \<in> {''a'', ''b''})"

lemma both_up_moved:
  assumes "both_up s" and "\<And>j. clPeer s' j = (if j = i then Up n else clPeer s j)" and "i \<in> {''a'', ''b''}"
  shows "both_up s'"
  using assms unfolding both_up_def by simp

lemma both_up_frame: "both_up s \<Longrightarrow> clPeer s' = clPeer s \<Longrightarrow> both_up s'"
  by (simp add: both_up_def)

lemma ex_both_up:
  "both_up ex_started" "both_up ex_running" "both_up ex_voted" "both_up ex_led" "both_up ex_c1" "both_up ex_c2" "both_up ex_c3"
  "both_up ex_c4" "both_up ex_c5" "both_up ex_c6" "both_up ex_c7" "both_up ex_c8" "both_up ex_c9" "both_up ex_c10" "both_up ex_c11"
  "both_up ex_c12"
proof -
  note M = both_up_moved and F = both_up_frame
  show s: "both_up ex_started" by (simp add: ex_started_def both_up_def raft_init_def setPeer_def)
  show r: "both_up ex_running" by (rule M [OF s, where i = "''a''" and n = "snd ex_election"]) (simp_all add: ex_running_def elect_def setPeer_def)
  show v: "both_up ex_voted" by (rule M [OF r, where i = "''b''" and n = "snd ex_vote"]) (simp_all add: ex_voted_def setPeer_def)
  show l: "both_up ex_led" by (rule M [OF v, where i = "''a''" and n = "snd ex_win"]) (simp_all add: ex_led_def setPeer_def)
  show c1: "both_up ex_c1" by (rule M [OF l, where i = "''a''" and n = "snd ex_proposed"]) (simp_all add: ex_c1_def setPeer_def)
  show c2: "both_up ex_c2" by (rule F [OF c1]) (simp add: ex_c2_def sendAppend_def)
  show c3: "both_up ex_c3" by (rule M [OF c2, where i = "''b''" and n = "snd ex_stored"]) (simp_all add: ex_c3_def setPeer_def)
  show c4: "both_up ex_c4" by (rule M [OF c3, where i = "''a''" and n = "snd ex_committed"]) (simp_all add: ex_c4_def setPeer_def)
  show c5: "both_up ex_c5" by (rule M [OF c4, where i = "''a''" and n = "snd ex_committed"]) (simp_all add: ex_c5_def outbox_def setPeer_def)
  show c6: "both_up ex_c6" by (rule M [OF c5, where i = "''a''" and n = "applierSent 1 (snd ex_committed)"]) (simp_all add: ex_c6_def handOver_def setPeer_def)
  show c7: "both_up ex_c7" by (rule M [OF c6, where i = "''a''" and n = "applierSent 2 (applierSent 1 (snd ex_committed))"]) (simp_all add: ex_c7_def handOver_def setPeer_def)
  show c8: "both_up ex_c8" by (rule F [OF c7]) (simp add: ex_c8_def sendAppend_def)
  show c9: "both_up ex_c9" by (rule M [OF c8, where i = "''b''" and n = "snd ex_stored2"]) (simp_all add: ex_c9_def setPeer_def)
  show c10: "both_up ex_c10" by (rule M [OF c9, where i = "''b''" and n = "snd ex_stored2"]) (simp_all add: ex_c10_def outbox_def setPeer_def)
  show c11: "both_up ex_c11" by (rule M [OF c10, where i = "''b''" and n = "applierSent 1 (snd ex_stored2)"]) (simp_all add: ex_c11_def handOver_def setPeer_def)
  show c12: "both_up ex_c12" by (rule M [OF c11, where i = "''b''" and n = "applierSent 2 (applierSent 1 (snd ex_stored2))"]) (simp_all add: ex_c12_def handOver_def setPeer_def)
qed

lemma livelyI: "ex_step s s' \<Longrightarrow> both_up s \<Longrightarrow> both_up s' \<Longrightarrow> lively s s'"
  by (simp add: lively_def both_up_def)

lemma ex_lively:
  "lively\<^sup>*\<^sup>* ex_started ex_led" "lively\<^sup>*\<^sup>* ex_c1 ex_c7" "lively\<^sup>*\<^sup>* ex_c7 ex_c12"
proof -
  note F = converse_rtranclp_into_rtranclp [where r = lively] and I = r_into_rtranclp [where r = lively]
  note l = livelyI [OF ex_start_steps(3) ex_both_up(1,2)] livelyI [OF ex_start_steps(4) ex_both_up(2,3)]
    livelyI [OF ex_start_steps(5) ex_both_up(3,4)]
  show "lively\<^sup>*\<^sup>* ex_started ex_led" by (intro F [OF l(1)] F [OF l(2)]
      I [OF l(3)])
  note c = livelyI [OF ex_steps(2) ex_both_up(5,6)] livelyI [OF ex_steps(3) ex_both_up(6,7)] livelyI [OF ex_steps(4) ex_both_up(7,8)]
    livelyI [OF ex_steps(5) ex_both_up(8,9)] livelyI [OF ex_steps(6) ex_both_up(9,10)] livelyI [OF ex_steps(7) ex_both_up(10,11)]
  show "lively\<^sup>*\<^sup>* ex_c1 ex_c7" by (intro F [OF c(1)] F [OF c(2)]
      F [OF c(3)] F [OF c(4)] F [OF c(5)]
      I [OF c(6)])
  note d = livelyI [OF ex_steps(8) ex_both_up(11,12)] livelyI [OF ex_steps(9) ex_both_up(12,13)] livelyI [OF ex_steps(10) ex_both_up(13,14)]
    livelyI [OF ex_steps(11) ex_both_up(14,15)] livelyI [OF ex_steps(12) ex_both_up(15,16)]
  show "lively\<^sup>*\<^sup>* ex_c7 ex_c12" by (intro F [OF d(1)] F [OF d(2)]
      F [OF d(3)] F [OF d(4)] I [OF d(5)])
qed

section \<open>Steps of a server\<close>

lemma server_goes:
  assumes "running st ex_members i n r" and "service_step sample_lib ex_members ex_rcfg ex_ccfg st (goesOn i r' st)"
    and "csNode (srServer r') = n" and "manned st"
  shows "ex_clean st (goesOn i r' st)" and "svRaft (goesOn i r' st) = svRaft st" and "manned (goesOn i r' st)"
    and "running (goesOn i r' st) ex_members i n r'" and "j \<noteq> i \<Longrightarrow> svRun (goesOn i r' st) j = svRun st j"
proof -
  show same: "svRaft (goesOn i r' st) = svRaft st" using assms(1,3) by (simp add: running_def setPeer_same)
  show "ex_clean st (goesOn i r' st)" using assms(2) by (simp add: clean_step_def clean_def same)
  show "manned (goesOn i r' st)" using assms(1,4) same by (auto simp: manned_def running_def simp del: goesOn_sel(1))
  show "running (goesOn i r' st) ex_members i n r'" using assms(1) same by (simp add: running_def del: goesOn_sel(1))
  show "svRun (goesOn i r' st) j = svRun st j" if "j \<noteq> i" using that by simp
qed

section \<open>The servers on the way\<close>

text \<open>The leader's server with a call that waits, about to wake it, and with the call answered; the other server in the end.\<close>

definition ex_server :: "Node \<Rightarrow> StateMachine \<Rightarrow> (int \<times> nat) list \<Rightarrow> int \<Rightarrow> applyOutcome option list \<Rightarrow> ClusterServer" where
  "ex_server n sm ws k chans =
     \<lparr>csNode = n, csSm = sm, csCfg = ex_ccfg [], csWaiters = ws, csInflight = [], csWasLeader = False,
      csAppliedSinceSnap = k, csStopped = False, csChans = chans\<rparr>"

definition ex_sm :: StateMachine where
  "ex_sm = Apply ex_op (NewStateMachine 3)"

definition ex_waits :: serverRun where
  "ex_waits = \<lparr>srServer = ex_server (snd ex_proposed) (NewStateMachine 3) [(2, 0)] 0 [None], srLoop = LoopIdle, srIn = [],
     srCalls = [Awaiting ex_op 2 1 0]\<rparr>"

definition ex_wakes :: serverRun where
  "ex_wakes = \<lparr>srServer = ex_server ex_leader_node ex_sm [(2, 0)] 1 [None], srLoop = Notifying 2 1, srIn = ex_msgs,
     srCalls = [Awaiting ex_op 2 1 0]\<rparr>"

definition ex_answered :: serverRun where
  "ex_answered = \<lparr>srServer = ex_server ex_leader_node ex_sm [] 2 [None], srLoop = LoopIdle, srIn = ex_msgs,
     srCalls = [Answered ex_op 2 1 None]\<rparr>"

definition ex_followed :: serverRun where
  "ex_followed = \<lparr>srServer = ex_server ex_follower_node ex_sm [] 2 [], srLoop = LoopIdle, srIn = ex_msgs, srCalls = []\<rparr>"

lemma ex_decodes: "EncodeOp sample_op ex_op = Some ex_cmd" "DecodeOp sample_op ex_cmd = Some ex_op" "ex_cmd \<noteq> []"
proof -
  obtain bs where "EncodeOp sample_op ex_op = Some bs" "DecodeOp sample_op bs = Some ex_op" "bs \<noteq> []"
    using op_roundtrip_sample unfolding op_roundtrip_def by blast
  then show "EncodeOp sample_op ex_op = Some ex_cmd" "DecodeOp sample_op ex_cmd = Some ex_op" "ex_cmd \<noteq> []"
    by (simp_all add: ex_cmd_def)
qed

lemma ex_new: "newRun (ex_ccfg i) n = \<lparr>srServer = ex_server n (NewStateMachine 3) [] 0 [], srLoop = LoopIdle, srIn = [], srCalls = []\<rparr>"
  by (simp add: newRun_def NewClusterServer_def ex_ccfg_def ex_server_def)

lemma ex_at: "serverAt \<lparr>srServer = ex_server n sm ws k chans, srLoop = l, srIn = ms, srCalls = cs\<rparr> n' = ex_server n' sm ws k chans"
  by (simp add: serverAt_def ex_server_def)

text \<open>A message that the apply loop receives, and the part under its lock when no call waits.\<close>

lemma ex_receives:
  assumes "running st ex_members i n \<lparr>srServer = ex_server n0 sm ws k chans, srLoop = LoopIdle, srIn = ms, srCalls = cs\<rparr>"
    and "clApplied (svRaft st) i = ms @ ApplyCommand c x t # rest" and "manned st"
    and "applyCommand sample_lib (ApplyCommand c x t) (ex_server n sm ws k chans) = Ok (ex_server n sm' ws k chans)"
  obtains st' where "ex_clean st st'" "svRaft st' = svRaft st" "manned st'" "\<And>j. j \<noteq> i \<Longrightarrow> svRun st' j = svRun st j"
    "running st' ex_members i n \<lparr>srServer = ex_server n sm' ws k chans, srLoop = Notifying x t,
       srIn = ms @ [ApplyCommand c x t], srCalls = cs\<rparr>"
proof -
  let ?r = "\<lparr>srServer = ex_server n0 sm ws k chans, srLoop = LoopIdle, srIn = ms, srCalls = cs\<rparr>"
  let ?r' = "\<lparr>srServer = ex_server n sm' ws k chans, srLoop = Notifying x t, srIn = ms @ [ApplyCommand c x t], srCalls = cs\<rparr>"
  have e: "received (ApplyCommand c x t) (ex_server n sm' ws k chans) ?r = ?r'" by (simp add: received_def)
  have "service_step sample_lib ex_members ex_rcfg ex_ccfg st (goesOn i (received (ApplyCommand c x t) (ex_server n sm' ws k chans) ?r) st)"
    by (rule Receive [OF assms(1)]) (simp_all add: assms(2,4) ex_at)
  then have "service_step sample_lib ex_members ex_rcfg ex_ccfg st (goesOn i ?r' st)" unfolding e .
  from server_goes [OF assms(1) this _ assms(3)] that [of "goesOn i ?r' st"] show thesis by (simp add: ex_server_def)
qed

lemma ex_notifies:
  assumes "running st ex_members i n \<lparr>srServer = ex_server n sm ws k chans, srLoop = Notifying x t, srIn = ms, srCalls = cs\<rparr>"
    and "applyNotify x t (ex_server n sm ws k chans) = Some (False, ex_server n sm ws' k' chans')" and "manned st"
  obtains st' where "ex_clean st st'" "svRaft st' = svRaft st" "manned st'" "\<And>j. j \<noteq> i \<Longrightarrow> svRun st' j = svRun st j"
    "running st' ex_members i n \<lparr>srServer = ex_server n sm ws' k' chans', srLoop = LoopIdle, srIn = ms, srCalls = cs\<rparr>"
proof -
  let ?r' = "\<lparr>srServer = ex_server n sm ws' k' chans', srLoop = LoopIdle, srIn = ms, srCalls = cs\<rparr>"
  have "service_step sample_lib ex_members ex_rcfg ex_ccfg st (goesOn i ?r' st)"
    using Notify [OF assms(1), of x t False "ex_server n sm ws' k' chans'" sample_lib ex_rcfg ex_ccfg] assms(2) by (simp add: ex_at)
  from server_goes [OF assms(1) this _ assms(3)] that [of "goesOn i ?r' st"] show thesis by (simp add: ex_server_def)
qed

section \<open>The run\<close>

lemma ex_service_starts:
  obtains st where "ex_clean\<^sup>*\<^sup>* service_init st" "svRaft st = ex_led" "manned st"
    "svRun st ''a'' = Some (newRun (ex_ccfg ''a'') (ex_node ''a''))" "svRun st ''b'' = Some (newRun (ex_ccfg ''b'') (ex_node ''b''))"
proof -
  let ?s = "setPeer ''a'' (Up (ex_node ''a'')) raft_init"
  let ?st1 = "raftMoved ex_ccfg ?s service_init" let ?st2 = "raftMoved ex_ccfg ex_started ?st1"
  have m0: "manned service_init" by (simp add: manned_def service_init_def)
  have l1: "lively (svRaft service_init) ?s" using ex_start_steps(1) by (simp add: lively_def service_init_def raft_init_def)
  have l2: "lively (svRaft ?st1) ex_started" using ex_start_steps(2)
    by (simp add: lively_def raftMoved_def ex_started_def raft_init_def setPeer_def)
  note s1 = lively_step [OF l1 m0] and s2 = lively_step [OF l2 lively_step(2) [OF l1 m0]]
  have r1: "svRun ?st1 ''a'' = Some (newRun (ex_ccfg ''a'') (ex_node ''a''))"
    by (simp add: raftMoved_def service_init_def setPeer_def)
  have r2: "svRun ?st2 ''b'' = Some (newRun (ex_ccfg ''b'') (ex_node ''b''))"
    by (simp add: raftMoved_def service_init_def setPeer_def ex_started_def raft_init_def)
  have e: "svRaft ?st2 = ex_started" by (simp add: raftMoved_def)
  obtain st where st: "ex_clean\<^sup>*\<^sup>* ?st2 st" "svRaft st = ex_led" "manned st" "\<forall>i r. svRun ?st2 i = Some r \<longrightarrow> svRun st i = Some r"
    using lively_run [OF ex_lively(1) e s2(2)] by blast
  have "ex_clean\<^sup>*\<^sup>* service_init st"
    by (rule converse_rtranclp_into_rtranclp [where r = ex_clean, OF s1(1) converse_rtranclp_into_rtranclp [where r = ex_clean, OF s2(1) st(1)]])
  with st that show thesis using s2(3) [OF r1] r2 by blast
qed

text \<open>The leader's server proposes the operation and waits; Raft commits it.\<close>

lemma ex_service_waits:
  obtains st where "ex_clean\<^sup>*\<^sup>* service_init st" "svRaft st = ex_c7" "manned st" "svRun st ''a'' = Some ex_waits"
    "svRun st ''b'' = Some (newRun (ex_ccfg ''b'') (ex_node ''b''))"
proof -
  obtain st where st: "ex_clean\<^sup>*\<^sup>* service_init st" "svRaft st = ex_led" "manned st"
    "svRun st ''a'' = Some (newRun (ex_ccfg ''a'') (ex_node ''a''))" "svRun st ''b'' = Some (newRun (ex_ccfg ''b'') (ex_node ''b''))"
    using ex_service_starts by blast
  have run: "running st ex_members ''a'' (snd ex_win) (newRun (ex_ccfg ''a'') (ex_node ''a''))"
    using st(2,4) ex_led_sel(1) ex_members_in(1) by (simp add: running_def)
  let ?r = "\<lparr>srServer = ex_server (snd ex_proposed) (NewStateMachine 3) [] 0 [], srLoop = LoopIdle, srIn = [], srCalls = [Proposed ex_op 2 1]\<rparr>"
  let ?st1 = "goesOn ''a'' ?r st"
  have "proposeOp sample_lib (ex_renv 8) ex_op (serverAt (newRun (ex_ccfg ''a'') (ex_node ''a'')) (snd ex_win)) =
      Ok (Inr (2, 1), ex_server (snd ex_proposed) (NewStateMachine 3) [] 0 [])"
    by (simp add: ex_new serverAt_def proposeOp_def ex_decodes ex_runs2(1) ex_server_def)
  from Propose_Op [OF run this] have s1: "service_step sample_lib ex_members ex_rcfg ex_ccfg st ?st1"
    by (simp add: proposed_def ex_new)
  have e1: "svRaft ?st1 = ex_c1" using st(2) by (simp add: ex_c1_def ex_server_def)
  have c1: "ex_clean st ?st1" using s1 st(2) by (simp add: clean_step_def clean_def setPeer_def)
  have m1: "manned ?st1" using st(3) by (simp add: manned_def setPeer_def)
  have run1: "running ?st1 ex_members ''a'' (snd ex_proposed) ?r" using e1 ex_committed_sel(1) ex_members_in(1) by (simp add: running_def)
  have s2: "service_step sample_lib ex_members ex_rcfg ex_ccfg ?st1 (goesOn ''a'' ex_waits ?st1)"
    using Register [OF run1, of 0 ex_op 2 1 0 "ex_server (snd ex_proposed) (NewStateMachine 3) [(2, 0)] 0 [None]"]
    by (simp add: serverAt_def registerWaiter_def ex_server_def ex_waits_def)
  have n: "csNode (srServer ex_waits) = snd ex_proposed" by (simp add: ex_waits_def ex_server_def)
  note g = server_goes [OF run1 s2 n m1]
  obtain st' where st': "ex_clean\<^sup>*\<^sup>* (goesOn ''a'' ex_waits ?st1) st'" "svRaft st' = ex_c7" "manned st'"
    "\<forall>i r. svRun (goesOn ''a'' ex_waits ?st1) i = Some r \<longrightarrow> svRun st' i = Some r"
    using lively_run [OF ex_lively(2) trans [OF g(2) e1] g(3)] by blast
  have "ex_clean\<^sup>*\<^sup>* service_init st'"
    by (rule rtranclp_trans [OF rtranclp.rtrancl_into_rtrancl [where r = ex_clean, OF rtranclp.rtrancl_into_rtrancl [where r = ex_clean, OF st(1) c1] g(1)] st'(1)])
  moreover have "svRun st' ''a'' = Some ex_waits" "svRun st' ''b'' = Some (newRun (ex_ccfg ''b'') (ex_node ''b''))"
    using st'(4) st(5) by simp_all
  ultimately show thesis using that st'(2,3) by blast
qed

text \<open>The apply loop takes the leader's empty entry and then the operation.\<close>

lemma ex_applies:
  "applyCommand sample_lib (ApplyCommand None 1 1) s = Ok s"
  "applyCommand sample_lib (ApplyCommand (Some ex_cmd) 2 1) (ex_server n (NewStateMachine 3) ws k chans) = Ok (ex_server n ex_sm ws k chans)"
  "applyNotify 1 1 (ex_server n sm [(2, 0)] 0 [None]) = Some (False, ex_server n sm [(2, 0)] 1 [None])"
  "applyNotify x t (ex_server n sm [] k chans) = Some (False, ex_server n sm [] (k + 1) chans)"
  "applyNotify 2 1 (ex_server n sm [(2, 0)] 1 [None]) = Some (False, ex_server n sm [] 2 [Some \<lparr>aoTerm = 1\<rparr>])"
  using ex_decodes by (simp_all add: applyCommand_def applyNotify_def sendOutcome_def ex_server_def ex_ccfg_def ex_sm_def)

lemma ex_takes_both:
  assumes "running st ex_members i n \<lparr>srServer = ex_server n0 (NewStateMachine 3) ws 0 chans, srLoop = LoopIdle, srIn = [], srCalls = cs\<rparr>"
    and "clApplied (svRaft st) i = ex_msgs" and "manned st"
    and "\<And>sm. applyNotify 1 1 (ex_server n sm ws 0 chans) = Some (False, ex_server n sm ws 1 chans)"
  obtains st' where "ex_clean\<^sup>*\<^sup>* st st'" "svRaft st' = svRaft st" "manned st'" "\<And>j. j \<noteq> i \<Longrightarrow> svRun st' j = svRun st j"
    "running st' ex_members i n \<lparr>srServer = ex_server n ex_sm ws 1 chans, srLoop = Notifying 2 1, srIn = ex_msgs, srCalls = cs\<rparr>"
proof -
  obtain s1 where s1: "ex_clean st s1" "svRaft s1 = svRaft st" "manned s1" "\<And>j. j \<noteq> i \<Longrightarrow> svRun s1 j = svRun st j"
    "running s1 ex_members i n \<lparr>srServer = ex_server n (NewStateMachine 3) ws 0 chans, srLoop = Notifying 1 1,
       srIn = [ApplyCommand None 1 1], srCalls = cs\<rparr>"
    by (rule ex_receives [OF assms(1) _ assms(3) ex_applies(1), of "tl ex_msgs"]) (simp_all add: assms(2) ex_msgs_def)
  obtain s2 where s2: "ex_clean s1 s2" "svRaft s2 = svRaft s1" "manned s2" "\<And>j. j \<noteq> i \<Longrightarrow> svRun s2 j = svRun s1 j"
    "running s2 ex_members i n \<lparr>srServer = ex_server n (NewStateMachine 3) ws 1 chans, srLoop = LoopIdle,
       srIn = [ApplyCommand None 1 1], srCalls = cs\<rparr>"
    by (rule ex_notifies [OF s1(5) assms(4) s1(3)]) blast
  obtain s3 where s3: "ex_clean s2 s3" "svRaft s3 = svRaft s2" "manned s3" "\<And>j. j \<noteq> i \<Longrightarrow> svRun s3 j = svRun s2 j"
    "running s3 ex_members i n \<lparr>srServer = ex_server n ex_sm ws 1 chans, srLoop = Notifying 2 1, srIn = ex_msgs, srCalls = cs\<rparr>"
    by (rule ex_receives [OF s2(5) _ s2(3) ex_applies(2), of "[]"]) (simp_all add: assms(2) s1(2) s2(2) ex_msgs_def)
  have "ex_clean\<^sup>*\<^sup>* st s3"
    by (rule converse_rtranclp_into_rtranclp [where r = ex_clean, OF s1(1) converse_rtranclp_into_rtranclp [where r = ex_clean, OF s2(1) r_into_rtranclp [where r = ex_clean, OF s3(1)]]])
  then show thesis using that s3 s2(2,4) s1(2,4) by simp
qed

lemma ex_service_wakes:
  obtains st where "ex_clean\<^sup>*\<^sup>* service_init st" "svRaft st = ex_c7" "manned st" "running st ex_members ''a'' ex_leader_node ex_wakes"
    "svRun st ''b'' = Some (newRun (ex_ccfg ''b'') (ex_node ''b''))"
proof -
  obtain st where st: "ex_clean\<^sup>*\<^sup>* service_init st" "svRaft st = ex_c7" "manned st" "svRun st ''a'' = Some ex_waits"
    "svRun st ''b'' = Some (newRun (ex_ccfg ''b'') (ex_node ''b''))"
    using ex_service_waits by blast
  have run: "running st ex_members ''a'' ex_leader_node ex_waits"
    using st(2,4) ex_applied_sel(1) ex_members_in(1) by (simp add: running_def)
  obtain st' where st': "ex_clean\<^sup>*\<^sup>* st st'" "svRaft st' = svRaft st" "manned st'" "\<And>j. j \<noteq> ''a'' \<Longrightarrow> svRun st' j = svRun st j"
    "running st' ex_members ''a'' ex_leader_node ex_wakes"
    by (rule ex_takes_both [OF run [unfolded ex_waits_def] _ st(3)]) (simp_all add: st(2) ex_c12_sel(5) ex_applies(3) ex_wakes_def)
  then show thesis using that rtranclp_trans [OF st(1) st'(1)] st(2,5) by simp
qed

text \<open>The loop wakes the call, which answers.\<close>

lemma ex_service_answers:
  obtains st where "ex_clean\<^sup>*\<^sup>* service_init st" "svRaft st = ex_c7" "manned st" "svRun st ''a'' = Some ex_answered"
    "svRun st ''b'' = Some (newRun (ex_ccfg ''b'') (ex_node ''b''))"
proof -
  obtain st where st: "ex_clean\<^sup>*\<^sup>* service_init st" "svRaft st = ex_c7" "manned st" "running st ex_members ''a'' ex_leader_node ex_wakes"
    "svRun st ''b'' = Some (newRun (ex_ccfg ''b'') (ex_node ''b''))"
    using ex_service_wakes by blast
  let ?r = "\<lparr>srServer = ex_server ex_leader_node ex_sm [] 2 [Some \<lparr>aoTerm = 1\<rparr>], srLoop = LoopIdle, srIn = ex_msgs,
     srCalls = [Awaiting ex_op 2 1 0]\<rparr>"
  obtain s1 where s1: "ex_clean st s1" "svRaft s1 = svRaft st" "manned s1" "\<And>j. j \<noteq> ''a'' \<Longrightarrow> svRun s1 j = svRun st j"
    "running s1 ex_members ''a'' ex_leader_node ?r"
    by (rule ex_notifies [OF st(4) [unfolded ex_wakes_def] ex_applies(5) st(3)]) blast
  have s2: "service_step sample_lib ex_members ex_rcfg ex_ccfg s1 (goesOn ''a'' ex_answered s1)"
    using Wake [OF s1(5), of 0 ex_op 2 1 0 Outcome None "ex_server ex_leader_node ex_sm [] 2 [None]"]
    by (simp add: awaitOutcome_def ex_server_def ex_answered_def serverAt_def)
  have n: "csNode (srServer ex_answered) = ex_leader_node" by (simp add: ex_answered_def ex_server_def)
  note g = server_goes [OF s1(5) s2 n s1(3)]
  have "ex_clean\<^sup>*\<^sup>* service_init (goesOn ''a'' ex_answered s1)"
    by (rule rtranclp.rtrancl_into_rtrancl [where r = ex_clean, OF rtranclp.rtrancl_into_rtrancl [where r = ex_clean, OF st(1) s1(1)] g(1)])
  then show thesis by (rule that) (use g(2,3) st(2,5) s1(2,4) in \<open>simp_all del: goesOn_sel(1)\<close>)
qed

text \<open>The other server catches up.\<close>

lemma ex_service_follows:
  obtains st st' where "ex_clean\<^sup>*\<^sup>* service_init st" "ex_clean\<^sup>*\<^sup>* st st'" "svRun st ''a'' = Some ex_answered" "svRun st' ''b'' = Some ex_followed"
proof -
  obtain st where st: "ex_clean\<^sup>*\<^sup>* service_init st" "svRaft st = ex_c7" "manned st" "svRun st ''a'' = Some ex_answered"
    "svRun st ''b'' = Some (newRun (ex_ccfg ''b'') (ex_node ''b''))"
    using ex_service_answers by blast
  obtain s1 where s1: "ex_clean\<^sup>*\<^sup>* st s1" "svRaft s1 = ex_c12" "manned s1" "\<forall>i r. svRun st i = Some r \<longrightarrow> svRun s1 i = Some r"
    using lively_run [OF ex_lively(3) st(2,3)] by blast
  have run: "running s1 ex_members ''b'' ex_follower_node (newRun (ex_ccfg ''b'') (ex_node ''b''))"
    using s1(2,4) st(5) ex_c12_sel(2) ex_members_in(2) by (simp add: running_def)
  obtain s2 where s2: "ex_clean\<^sup>*\<^sup>* s1 s2" "manned s2"
    "running s2 ex_members ''b'' ex_follower_node \<lparr>srServer = ex_server ex_follower_node ex_sm [] 1 [], srLoop = Notifying 2 1, srIn = ex_msgs, srCalls = []\<rparr>"
    by (rule ex_takes_both [OF run [unfolded ex_new] _ s1(3)]) (simp_all add: s1(2) ex_c12_sel(4) ex_applies(4))
  obtain s3 where s3: "ex_clean s2 s3" "running s3 ex_members ''b'' ex_follower_node ex_followed"
    by (rule ex_notifies [OF s2(3) ex_applies(4) s2(2)]) (simp add: ex_followed_def)
  have "ex_clean\<^sup>*\<^sup>* st s3" by (rule rtranclp.rtrancl_into_rtrancl [where r = ex_clean, OF rtranclp_trans [OF s1(1) s2(1)] s3(1)])
  then show thesis using that st(1,4) s3(2) by (simp add: running_def)
qed

end
