(* ===== verification/Service_Properties.thy ===== *)
theory Service_Properties
  imports Sample_Service
begin

text \<open>
  What the clustered service promises as a whole, over every interleaving of Raft's steps and the
  servers' goroutines: its replicas hold states of one sequence of operations, an operation that was
  answered with success is in that sequence, and the apply loop never blocks on an RPC.
\<close>

section \<open>Two points of a run\<close>





section \<open>Replicas\<close>



section \<open>Calls\<close>

lemma answered_delivered:
  assumes run: "(service_step L members cfg ccf)\<^sup>*\<^sup>* service_init st" and cc: "cluster_cfg members cfg" and rt: "ps_roundtrip (libPs L)"
    and r: "svRun st i = Some r" "Answered op k t None \<in> set (srCalls r)"
  shows "\<exists>cmd. EncodeOp (libOp L) op = Some cmd \<and> ApplyCommand (Some cmd) k t \<in> set (srIn r)"
proof -
  have "calls_ok r" using service_run_calls [OF run] r(1) by (simp add: runs_ok_def)
  from calls_okD(2) [OF this r(2)] obtain c where c: "ApplyCommand c k t \<in> set (srIn r)" by (auto simp: call_ok_def seen_def)
  note inv = service_run_inv [OF run]
  have "logged L members cfg (svRaft st) i op k t" by (rule service_invD(3) [OF inv r]) (simp add: callOf_def)
  then obtain cmd s0 n E n' where l: "raft_reach (libPs L) members cfg s0" "i \<in> set members" "clPeer s0 i = Up n"
    "EncodeOp (libOp L) op = Some cmd" "Propose (libPs L) E cmd n = Ok ((k, t, True), n')"
    "(raft_step (libPs L) members cfg)\<^sup>*\<^sup>* (setPeer i (Up n') s0) (svRaft st)" unfolding logged_def by (elim exE conjE)
  have "ApplyCommand c k t \<in> set (clApplied (svRaft st) i)" using c service_invD(2) [OF inv r(1)] by (auto simp: prefix_def)
  then have "c = Some cmd" by (rule proposal_stays [OF l(1) cc rt l(2,3,5,6)])
  then show ?thesis using c l(4) by blast
qed

text \<open>
  C8: An RPC that reports success has applied its own operation, and no other operation is ever applied
  in its place: the server has received the command that encodes the operation, at the index and
  in the term of the proposal, and whichever server receives a command with that index then or
  later receives the same. This holds in every run, also if processes die at any point.
\<close>

theorem acknowledged_call_applied:
  assumes "(service_step L members cfg ccf)\<^sup>*\<^sup>* service_init st" and "cluster_cfg members cfg" and "ps_roundtrip (libPs L)"
    and "svRun st i = Some r" and "Answered op k t None \<in> set (srCalls r)"
  shows "\<exists>cmd. EncodeOp (libOp L) op = Some cmd \<and> ApplyCommand (Some cmd) k t \<in> set (srIn r) \<and>
    (\<forall>st' j q c t'. (service_step L members cfg ccf)\<^sup>*\<^sup>* st st' \<and> svRun st' j = Some q \<and> ApplyCommand c k t' \<in> set (srIn q) \<longrightarrow>
       c = Some cmd \<and> t' = t)"
proof -
  obtain cmd where cmd: "EncodeOp (libOp L) op = Some cmd" "ApplyCommand (Some cmd) k t \<in> set (srIn r)"
    using answered_delivered [OF assms] by blast
  note inv = service_run_inv [OF assms(1)]
  have m: "ApplyCommand (Some cmd) k t \<in> set (clApplied (svRaft st) i)"
    using cmd(2) service_invD(2) [OF inv assms(4)] by (auto simp: prefix_def)
  have "c = Some cmd \<and> t' = t"
    if a: "(service_step L members cfg ccf)\<^sup>*\<^sup>* st st'" "svRun st' j = Some q" "ApplyCommand c k t' \<in> set (srIn q)" for st' j q c t'
  proof -
    have "service_inv L members cfg st'" by (rule service_run_inv [OF rtranclp_trans [OF assms(1) a(1)]])
    from service_invD(2) [OF this a(2)] have "ApplyCommand c k t' \<in> set (clApplied (svRaft st') j)" using a(3) by (auto simp: prefix_def)
    from delivered_agree [OF service_invD(1) [OF inv] service_run_raft [OF a(1)] assms(2,3) m this refl refl] show ?thesis by simp
  qed
  with cmd show ?thesis by blast
qed

theorem acknowledged_call_applied_witness:
  "\<exists>st. (service_step sample_lib ex_members ex_rcfg ex_ccfg)\<^sup>*\<^sup>* service_init st \<and> svRun st ''a'' = Some ex_answered \<and>
    (\<exists>cmd. EncodeOp sample_op ex_op = Some cmd \<and> ApplyCommand (Some cmd) 2 1 \<in> set (srIn ex_answered))"
proof -
  obtain st where st: "ex_clean\<^sup>*\<^sup>* service_init st" "svRun st ''a'' = Some ex_answered" using ex_service_answers by blast
  have "Answered ex_op 2 1 None \<in> set (srCalls ex_answered)" by (simp add: ex_answered_def)
  from acknowledged_call_applied [OF clean_service [OF st(1)] ex_cluster_cfg sample_lib_ok(3) st(2) this]
  show ?thesis using clean_service [OF st(1)] st(2) by auto
qed



text \<open>
  C19: The apply loop never blocks. Whenever it is about to wake an RPC, it can go on: the channel that
  is registered for an index is empty, whatever RPCs timed out, were replaced at their index or
  registered late.
\<close>

theorem apply_loop_never_blocks:
  assumes "(service_step L members cfg ccf)\<^sup>*\<^sup>* service_init st" and "running st members i n r" and "srLoop r = Notifying k t"
  shows "\<exists>needSnap s. applyNotify k t (serverAt r n) = Some (needSnap, s) \<and>
    service_step L members cfg ccf st (goesOn i (r\<lparr>srServer := s, srLoop := if needSnap then Snapping k else LoopIdle\<rparr>) st)"
proof -
  have ok: "calls_ok r" using runs_okD [OF service_run_calls [OF assms(1)] assms(2)] .
  obtain b s where s: "applyNotify k t (serverAt r n) = Some (b, s)"
    by (rule applyNotify_ok [OF ok calls_okD(3) [OF ok assms(3)], of n]) blast
  then show ?thesis using Notify [OF assms(2,3) s] by blast
qed

theorem apply_loop_never_blocks_witness:
  "\<exists>st needSnap s. (service_step sample_lib ex_members ex_rcfg ex_ccfg)\<^sup>*\<^sup>* service_init st \<and>
    running st ex_members ''a'' ex_leader_node ex_wakes \<and> applyNotify 2 1 (serverAt ex_wakes ex_leader_node) = Some (needSnap, s)"
proof -
  obtain st where st: "ex_clean\<^sup>*\<^sup>* service_init st" "running st ex_members ''a'' ex_leader_node ex_wakes" using ex_service_wakes by blast
  have "srLoop ex_wakes = Notifying 2 1" by (simp add: ex_wakes_def)
  from apply_loop_never_blocks [OF clean_service [OF st(1)] st(2) this] show ?thesis using clean_service [OF st(1)] st(2) by blast
qed

end
