(* ===== verification/Spec2Isabelle.thy ===== *)
theory Spec2Isabelle
  imports Queue_Properties Broker_Properties Worker_Properties Command_Properties Service_Properties
begin

text \<open>
  A verification library for \<^verbatim>\<open>distqueue\<close>, a task queue in Go. A task is enqueued, delivered to a worker
  with a deadline, and acknowledged, retried or, after too many retries, moved to a dead-letter
  queue. The queue runs either as one broker with a write-ahead log, or as a cluster in which a
  Raft log carries the operations to a state machine on every node.

  \<^bold>\<open>The parts and their theories\<close>

  \<^item> \<open>Distqueue_Prelude\<close>: Go maps as association lists with an explicit iteration order, time as
    nanoseconds, bytes as 8-bit words.
  \<^item> \<open>Go_Container_Heap\<close>: the sift operations of Go's \<^verbatim>\<open>container/heap\<close>, for any strict weak order.
  \<^item> \<open>Task_Model\<close> (\<^verbatim>\<open>broker/task.go\<close>) and \<open>Priority_Queue\<close> (\<^verbatim>\<open>broker/priorityqueue.go\<close>). The locale
    \<open>priority_queue\<close> is the contract of a queue (push, pop of a minimum, a multiset of contents); every
    heap over a strict weak order gives it, and it is interpreted on the broker's queue of tasks and
    used for the state machine's queue of pointers.
  \<^item> \<open>Tracker\<close> (\<^verbatim>\<open>broker/tracker.go\<close>): tasks in flight and the expiry scan.
  \<^item> \<open>Checksum\<close>, \<open>Wal_Codec\<close>, \<open>Wal_Log\<close>, \<open>Group_Commit\<close> (\<^verbatim>\<open>broker/wal.go\<close>): CRC-32, the record format, the log
    file with append, replay and rewrite, and \<^verbatim>\<open>WaitSync\<close> with any number of goroutines as a step
    relation.
  \<^item> \<open>Broker_Core\<close> (\<^verbatim>\<open>broker/broker.go\<close>): every broker operation, recovery and compaction.
    \<open>Broker_Invariants\<close>, \<open>Broker_Durability\<close> and \<open>Broker_Recovery\<close> show that memory and log agree at every
    reachable state, crashes included.
  \<^item> \<open>State_Machine\<close> (\<^verbatim>\<open>broker/statemachine.go\<close>): the replicated queue. Tasks are shared by pointer between
    the task map, the heap and the dead-letter queue, so the state has an explicit store of tasks and
    the maps hold addresses. \<open>Replica_View\<close> and \<open>Replica_Invariants\<close> relate it to a pure specification on
    the part that replicas share.
  \<^item> \<open>Raft_Node\<close> (\<^verbatim>\<open>raft/raft.go\<close>, \<^verbatim>\<open>election.go\<close>, \<^verbatim>\<open>replication.go\<close>, \<^verbatim>\<open>persist.go\<close>, \<^verbatim>\<open>snapshot.go\<close>): one node, its disk, and
    every function that runs under its lock. \<open>Raft_Local\<close> and \<open>Raft_Log\<close> are about one node;
    \<open>Raft_Cluster\<close> is the step relation of a cluster with a network that loses, delays, repeats and
    reorders messages, and with crashes and restarts.
  \<^item> \<open>Raft_History\<close>, \<open>Raft_Effects\<close>, \<open>Raft_Safety\<close>, \<open>Raft_Delivery\<close>, \<open>Raft_Snapshots\<close>: why the logs agree. \<open>Raft_History\<close>
    is an abstract machine that remembers every log ever held and every vote; what each handler does
    to a node (\<open>Raft_Effects\<close>) is a step of that machine (\<open>Raft_Safety\<close>), also for nodes that compacted their
    log. \<open>Raft_Delivery\<close> is about what the applier hands over, \<open>Raft_Snapshots\<close> about which snapshots
    belong to which index.
  \<^item> \<open>Raft_Rpc\<close> (\<^verbatim>\<open>raft/grpc.go\<close>, \<^verbatim>\<open>proto/raft.proto\<close>): the transport, and the service that calls the handlers.
  \<^item> \<open>Queue_Rpc\<close> (\<^verbatim>\<open>server/grpc.go\<close>, \<^verbatim>\<open>proto/queue.proto\<close>): the gRPC service of a single broker.
  \<^item> \<open>Cluster_Server\<close> (\<^verbatim>\<open>server/cluster.go\<close>): the gRPC service of a cluster node, its functions split where they
    block or let go of the lock. \<open>Cluster_Service\<close> puts these pieces and the Raft cluster into one step
    relation: any number of calls in progress, the apply loop and the scans on every process, in
    every interleaving. \<open>Service_Calls\<close> and \<open>Service_Replicas\<close> have its invariants: on the channels between
    the apply loop and the calls, and on the state machines.
  \<^item> \<open>Failover_Client\<close> (\<^verbatim>\<open>client/failover.go\<close>), \<open>Worker_Loop\<close> (\<^verbatim>\<open>worker/worker.go\<close>), \<open>Metrics_Export\<close>
    (\<^verbatim>\<open>server/metrics.go\<close>), \<open>Broker_Command\<close> (\<^verbatim>\<open>cmd/broker/\<close>), \<open>Client_Command\<close> (\<^verbatim>\<open>cmd/produce/\<close>, \<^verbatim>\<open>cmd/worker/\<close>).
    The locale \<open>task_service\<close> of \<open>Worker_Properties\<close> is what the worker relies on in a queue; it is
    interpreted on the gRPC service of a single broker.
  \<^item> \<open>Queue_Properties\<close>, \<open>Log_Properties\<close>, \<open>Broker_Properties\<close>, \<open>Replica_Properties\<close>, \<open>Raft_Properties\<close>,
    \<open>Consensus_Properties\<close>, \<open>Client_Properties\<close>, \<open>Worker_Properties\<close>, \<open>Command_Properties\<close>, \<open>Service_Properties\<close>: the
    properties, the main ones numbered C1 to C40, with instances on concrete data. \<open>Sample_Codec\<close>,
    \<open>Sample_Run\<close> and \<open>Sample_Service\<close> have concrete codecs, a run of a Raft cluster of two that elects a
    leader and commits an operation, and a run of the whole service on top of it.

  \<^bold>\<open>How the code is modelled\<close>

  A Go struct is a record, an operation is a function from the state to a result and a new state,
  and a locked section is one step. Errors are values. What the code takes from outside is an
  argument: the clock, UUIDs, random numbers, the iteration order of a map, and the outcome of
  every write, fsync, rename and read. The gob encodings of tasks, operations, snapshots and
  Raft state are parameters (\<open>gob\<close>, \<open>opCodec\<close>, \<open>snapCodec\<close>, \<open>psCodec\<close>) with the round trip as a hypothesis
  where a property needs it. A panic of the Raft node is a result that carries the disk at that
  moment, since that is what the next start finds; a crash inside a handler is such a panic. An
  index outside a slice is a panic as well, and the properties show where it cannot happen.
  Integers are unbounded where the code's 64-bit integers count events, and words in the record
  format and in protobuf messages; the worker's doubling of its backoff wraps. No fuel is used:
  loops are structural, or have a termination proof. \<^verbatim>\<open>WaitSync\<close> takes the outcomes of the fsyncs to
  come as a list, and one is enough for it to return; the worker's loop takes the list of its
  passes, and C27 says how many are enough; the failover client's six attempts are the code's. A
  channel of the cluster server is a buffer in the state, and a send on a full one blocks.

  \<^bold>\<open>What is shown\<close>

  \<^item> The clustered service: an operation that was answered with success is part of every later state
    (C1), all servers hold states of one sequence of operations (C2), a successful answer belongs to
    the operation of the call (C8), the apply loop never blocks on a call (C19). C1 and C2 are about
    runs in which no process dies between the two writes of a snapshot; C37 shows what such a death
    does. C8 and C19, and everything about Raft, hold without this.
  \<^item> Raft: election safety (C5), leader completeness (C6), log matching (C11), state machine safety
    (C4), what becomes of a proposal (C14), unbroken delivery (C15), the append handler (C16), votes
    are durable before they are sent (C17), compaction (C20), backtracking makes progress (C32), and
    the transport changes nothing (C25).
  \<^item> Replicated queue: application refines a pure specification (C13), snapshots carry the queue over
    (C21), delivery is complete and in order (C22).
  \<^item> Single broker: an acknowledged enqueue survives every crash (C3), memory agrees with the log
    (C7), a crash leaves a prefix with every fsynced record (C9, C28, C29), group commit is durable
    (C10), the operations keep the type invariant and do what they should on every branch (C23,
    C24, C30, C31), and the queue is a stable sort (C35).
  \<^item> Clients: a worker loses no task and finishes the queue (C12, C27) with its backoff in bounds
    (C34), the failover client returns (C33) and finds the leader (C18), the producer enqueues all
    (C36), tasks on the wire (C26), the flags and the tuning file (C39, C40).
  \<^item> Defects of the code, as theorems: C37 and C38, and in \<open>Log_Properties\<close>, \<open>Broker_Properties\<close> and
    \<open>Queue_Properties\<close> further ones on compaction, torn writes, oversized records and ties.

  \<^bold>\<open>What is not modelled\<close>

  Sockets, HTTP, signals, tickers, the pid file and logging of the commands, and generated code. The
  several goroutines of one worker process are not run side by side; each has its own loop, and the
  broker serves their calls one after the other. That a cluster elects a leader in the end is not
  shown: it depends on random timeouts and on the network. Cluster membership is fixed, as in the
  code. The statistics and dead-letter listings of the producer only print. The file system is
  assumed to keep a rename once \<^verbatim>\<open>atomicWrite\<close> has returned, although the code ignores the outcome of
  the directory's fsync.
\<close>

end
